(* ===== verification/Osal_Prelude.thy ===== *)
theory Osal_Prelude
  imports Main "HOL-Library.Word"
begin

text \<open>
  Shared vocabulary of the development: the fixed-width types of \<^verbatim>\<open>include/osal/types.hpp\<close>,
  block copies on byte arrays (\<^verbatim>\<open>std::memcpy\<close>), modular ring arithmetic, bit maps kept in
  arrays of words, and the lemma collections the component theories draw on.
\<close>

unbundle bit_operations_syntax

named_theorems osal_defs "definitions of operations, unfolded by the component proofs"
named_theorems ring_simps "index arithmetic of circular buffers"
named_theorems pool_simps "occupancy bit maps and pools"

section \<open>Types\<close>

type_synonym byte = "8 word"
type_synonym u16 = "16 word"
type_synonym u32 = "32 word"
type_synonym u64 = "64 word"

text \<open>
  \<open>tick_t\<close> in its default width (\<^verbatim>\<open>OSAL_CFG_TICK_TYPE_U32\<close>); the conversions of the clock
  component are stated for every admissible width.
\<close>

type_synonym tick_t = "32 word"

text \<open>
  A native handle: \<open>None\<close> is the null pointer, \<open>Some i\<close> the address of slot \<open>i\<close> of the static
  pool the primitive lives in. A pointer argument that the code compares with \<^verbatim>\<open>nullptr\<close> is an
  \<open>option\<close> of what it points to.
\<close>

type_synonym handle = "nat option"

section \<open>Words as natural numbers\<close>

lemma unat_lt2p: "unat (w :: 'a::len word) < 2 ^ LENGTH('a)"
  by (rule unsigned_less)

lemma unat_ucast_fits: "unat w < 2 ^ LENGTH('b) \<Longrightarrow> unat (ucast w :: 'b::len word) = unat w"
  by (simp add: unsigned_ucast_eq take_bit_nat_eq_self)

lemma unat_ucast_up:
  fixes w :: "'a::len word"
  assumes "LENGTH('a) \<le> LENGTH('b)"
  shows "unat (ucast w :: 'b::len word) = unat w"
proof (rule unat_ucast_fits)
  have "unat w < 2 ^ LENGTH('a)" by (rule unat_lt2p)
  also have "\<dots> \<le> 2 ^ LENGTH('b)" using assms by (simp add: power_increasing)
  finally show "unat w < 2 ^ LENGTH('b)" .
qed

lemma unat_add_fits:
  fixes a b :: "'a::len word"
  shows "unat a + unat b < 2 ^ LENGTH('a) \<Longrightarrow> unat (a + b) = unat a + unat b"
  by (simp add: unat_add_lem [THEN iffD1])

lemma unat_mult_fits:
  fixes a b :: "'a::len word"
  shows "unat a * unat b < 2 ^ LENGTH('a) \<Longrightarrow> unat (a * b) = unat a * unat b"
  by (simp add: unat_mult_lem [THEN iffD1])

lemma unat_sub_fits: "unat b \<le> unat a \<Longrightarrow> unat (a - b) = unat a - unat b"
  by (simp add: unat_sub word_le_nat_alt)

lemma unat_minus_1: "unat (- 1 :: 'a::len word) = 2 ^ LENGTH('a) - 1"
  by (simp add: unsigned_minus_1_eq_mask mask_eq_exp_minus_1)

lemma unat_word_of_int_fits:
  "0 \<le> k \<Longrightarrow> k < 2 ^ LENGTH('a) \<Longrightarrow> unat (word_of_int k :: 'a::len word) = nat k"
  by (simp add: unsigned_of_int take_bit_int_eq_self)

lemma sint_eq_unat:
  fixes w :: "'a::len word"
  assumes "unat w < 2 ^ (LENGTH('a) - 1)"
  shows "sint w = int (unat w)"
proof -
  have "uint w < 2 ^ (LENGTH('a) - 1)"
    using assms by (metis of_nat_less_iff of_nat_numeral of_nat_power uint_nat)
  then have "signed_take_bit (LENGTH('a) - Suc 0) (uint w) = uint w"
    by (intro signed_take_bit_int_eq_self) (simp_all add: order_trans [of _ 0])
  then show ?thesis by (simp add: sint_uint)
qed

lemma unat_word_Suc:
  fixes c m :: "'a::len word"
  assumes "c < m"
  shows "unat (c + 1) = Suc (unat c)"
proof -
  have "Suc (unat c) \<le> unat m" using assms by (simp add: word_less_nat_alt)
  also have "unat m < 2 ^ LENGTH('a)" by (rule unat_lt2p)
  finally show ?thesis using unat_add_fits [of c 1] by simp
qed

lemma unat_word_pred: "0 < (c :: 'a::len word) \<Longrightarrow> Suc (unat (c - 1)) = unat c"
  by (simp add: unat_minus_one word_gt_0 unat_gt_0)

lemma word_le_one: "(c :: 'a::len word) \<le> 1 \<Longrightarrow> c \<noteq> 0 \<Longrightarrow> c = 1"
proof -
  assume "c \<le> 1" "c \<noteq> 0"
  then have "unat c \<le> 1" "unat c \<noteq> 0" by (simp_all add: word_le_nat_alt unat_eq_0)
  then have "unat c = unat (1 :: 'a word)" by simp
  then show "c = 1" by (rule unsigned_word_eqI)
qed

text \<open>How many elements of a list satisfy \<open>P\<close>, when one of them is replaced.\<close>

lemma card_update_gain:
  assumes "k < length ws" "\<not> P (ws ! k)" "P w"
  shows "card {j. j < length ws \<and> P (ws[k := w] ! j)} = Suc (card {j. j < length ws \<and> P (ws ! j)})"
proof -
  have "{j. j < length ws \<and> P (ws[k := w] ! j)} = insert k {j. j < length ws \<and> P (ws ! j)}"
    using assms by (auto simp: nth_list_update)
  then show ?thesis using assms(2) by simp
qed

lemma card_update_loss:
  assumes "k < length ws" "P (ws ! k)" "\<not> P w"
  shows "Suc (card {j. j < length ws \<and> P (ws[k := w] ! j)}) = card {j. j < length ws \<and> P (ws ! j)}"
proof -
  have "{j. j < length ws \<and> P (ws ! j)} = insert k {j. j < length ws \<and> P (ws[k := w] ! j)}"
    using assms by (auto simp: nth_list_update)
  moreover have "k \<notin> {j. j < length ws \<and> P (ws[k := w] ! j)}" using assms by simp
  ultimately show ?thesis by (metis card_insert_disjoint finite_Collect_conjI finite_Collect_less_nat)
qed

lemma mod_lessI: "i < n \<Longrightarrow> k mod n < (n :: nat)"
  by simp

section \<open>Block copies\<close>

definition memcpy_at :: "'a list \<Rightarrow> nat \<Rightarrow> 'a list \<Rightarrow> 'a list" where
  "memcpy_at buf off data = take off buf @ data @ drop (off + length data) buf"

definition mem_read :: "'a list \<Rightarrow> nat \<Rightarrow> nat \<Rightarrow> 'a list" where
  "mem_read buf off n = take n (drop off buf)"

text \<open>A copy that stays inside the destination keeps its size; one that does not would grow it.\<close>

lemma length_memcpy_at [simp]:
  "off + length data \<le> length buf \<Longrightarrow> length (memcpy_at buf off data) = length buf"
  by (simp add: memcpy_at_def)

lemma length_memcpy_at_overrun:
  "off \<le> length buf \<Longrightarrow> length buf < off + length data \<Longrightarrow> length buf < length (memcpy_at buf off data)"
  by (simp add: memcpy_at_def)

lemma nth_memcpy_at:
  assumes "off + length data \<le> length buf" "j < length buf"
  shows "memcpy_at buf off data ! j =
    (if off \<le> j \<and> j < off + length data then data ! (j - off) else buf ! j)"
  using assms by (auto simp: memcpy_at_def nth_append min_def)

lemma memcpy_at_Nil [simp]: "memcpy_at buf off [] = buf"
  by (simp add: memcpy_at_def)

lemma mem_read_0 [simp]: "mem_read buf off 0 = []"
  by (simp add: mem_read_def)

lemma length_mem_read [simp]: "off + n \<le> length buf \<Longrightarrow> length (mem_read buf off n) = n"
  by (simp add: mem_read_def)

lemma nth_mem_read: "off + n \<le> length buf \<Longrightarrow> j < n \<Longrightarrow> mem_read buf off n ! j = buf ! (off + j)"
  by (simp add: mem_read_def)

lemma mem_read_memcpy_at:
  "off + length data \<le> length buf \<Longrightarrow> mem_read (memcpy_at buf off data) off (length data) = data"
  by (simp add: mem_read_def memcpy_at_def)

lemma mem_read_memcpy_at_disjoint:
  assumes "off + length data \<le> length buf" "o2 + n \<le> length buf"
    and "o2 + n \<le> off \<or> off + length data \<le> o2"
  shows "mem_read (memcpy_at buf off data) o2 n = mem_read buf o2 n"
  using assms by (intro nth_equalityI) (auto simp: nth_mem_read nth_memcpy_at)

end
