(* ===== verification/Osal_Error.thy ===== *)
theory Osal_Error
  imports Osal_Prelude
begin

text \<open>
  \<^verbatim>\<open>include/osal/error.hpp\<close>: the error codes with their wire values, and the status wrapper
  \<open>osal::result\<close> with its chaining operations. A \<open>result\<close> holds exactly one \<open>error_code\<close>, so
  the type is modelled by its code.
\<close>

datatype error_code =
    Ok | Timeout | Would_block | Invalid_argument | Not_supported | Out_of_resources
  | Permission_denied | Already_exists | Not_initialized | Overflow | Underflow
  | Deadlock_detected | Not_owner | Isr_invalid | Barrier_serial | Owner_died
  | Not_recoverable | Cancelled | Unknown

fun error_code_value :: "error_code \<Rightarrow> int" where
  "error_code_value Ok = 0"
| "error_code_value Timeout = 1"
| "error_code_value Would_block = 2"
| "error_code_value Invalid_argument = 3"
| "error_code_value Not_supported = 4"
| "error_code_value Out_of_resources = 5"
| "error_code_value Permission_denied = 6"
| "error_code_value Already_exists = 7"
| "error_code_value Not_initialized = 8"
| "error_code_value Overflow = 9"
| "error_code_value Underflow = 10"
| "error_code_value Deadlock_detected = 11"
| "error_code_value Not_owner = 12"
| "error_code_value Isr_invalid = 13"
| "error_code_value Barrier_serial = 14"
| "error_code_value Owner_died = 15"
| "error_code_value Not_recoverable = 16"
| "error_code_value Cancelled = 17"
| "error_code_value Unknown = 255"

definition result_ok :: "error_code \<Rightarrow> bool" where
  "result_ok r \<longleftrightarrow> r = Ok"

text \<open>The callbacks are run with the state they may change, which is threaded through.\<close>

definition and_then :: "error_code \<Rightarrow> ('s \<Rightarrow> error_code \<times> 's) \<Rightarrow> 's \<Rightarrow> error_code \<times> 's" where
  "and_then r f s = (if result_ok r then f s else (r, s))"

definition transform :: "error_code \<Rightarrow> ('s \<Rightarrow> error_code \<times> 's) \<Rightarrow> 's \<Rightarrow> error_code \<times> 's" where
  "transform r f s = and_then r f s"

definition or_else :: "error_code \<Rightarrow> (error_code \<Rightarrow> 's \<Rightarrow> error_code \<times> 's) \<Rightarrow> 's \<Rightarrow> error_code \<times> 's" where
  "or_else r f s = (if \<not> result_ok r then f r s else (r, s))"

definition to_expected :: "error_code \<Rightarrow> error_code + unit" where
  "to_expected r = (if result_ok r then Inr () else Inl r)"

lemma error_code_value_inj: "error_code_value a = error_code_value b \<Longrightarrow> a = b"
  by (cases a; cases b) simp_all

lemma and_then_assoc:
  "(case and_then r f s of (r', s') \<Rightarrow> and_then r' g s') =
   and_then r (\<lambda>s. case f s of (r', s') \<Rightarrow> and_then r' g s') s"
  by (simp add: and_then_def)

lemma or_else_after_and_then:
  "\<not> result_ok r \<Longrightarrow> (case and_then r f s of (r', s') \<Rightarrow> or_else r' g s') = g r s"
  by (simp add: and_then_def or_else_def)

end
