(* ===== verification/Osal_Clock.thy ===== *)
theory Osal_Clock
  imports Osal_Error
begin

text \<open>
  Timeouts and clocks: the sentinels of \<^verbatim>\<open>include/osal/types.hpp\<close>, the conversions and deadlines
  of \<^verbatim>\<open>include/osal/clock.hpp\<close>, and the adapter of \<^verbatim>\<open>src/common/backend_timeout_adapter.hpp\<close>.
  \<open>tick_t\<close> is a word of any width from 16 to 64 bits; intermediate values are 64-bit words with
  their wrap-around. \<open>std::int64_t\<close> durations are integers below \<open>2 ^ 63\<close>. The tick period comes
  from the backend and the current time from the system, so both are arguments.
\<close>

section \<open>Tick sentinels and conversions\<close>

definition WAIT_FOREVER :: "'t::len word" where
  "WAIT_FOREVER = - 1"

definition NO_WAIT :: "'t::len word" where
  "NO_WAIT = 0"

definition ms_to_ticks :: "u32 \<Rightarrow> int \<Rightarrow> 't::len word" where
  "ms_to_ticks period_us ms =
     (if ms \<le> 0 then NO_WAIT
      else
        let kMax = WAIT_FOREVER - 1 :: 't word in
        if period_us = 0 then
          let raw = word_of_int ms :: u64
          in (if raw < ucast kMax then ucast raw else kMax)
        else
          let raw_milliseconds = word_of_int ms :: u64;
              period = ucast period_us :: u64;
              milliseconds_quotient = raw_milliseconds div period;
              milliseconds_remainder = raw_milliseconds mod period;
              remainder_ticks = (milliseconds_remainder * 1000 + period - 1) div period;
              max_ticks = ucast kMax :: u64
          in if milliseconds_quotient > (max_ticks - remainder_ticks) div 1000 then kMax
             else
               let ticks = milliseconds_quotient * 1000 + remainder_ticks
               in (if ticks < max_ticks then ucast ticks else kMax))"

definition ticks_to_ms :: "u32 \<Rightarrow> 't::len word \<Rightarrow> int" where
  "ticks_to_ms period_us ticks =
     (let us = ucast ticks * ucast period_us :: u64 in sint (us div 1000))"

section \<open>Absolute deadlines\<close>

text \<open>
  \<open>ceil_duration\<close> converts between periods whose ratio is \<open>num / den\<close>; \<open>duration_cast\<close> truncates
  toward zero, and the comparison that follows it is exact.
\<close>

definition duration_cast :: "int \<Rightarrow> int \<Rightarrow> int \<Rightarrow> int" where
  "duration_cast num den v = sgn v * ((\<bar>v\<bar> * num) div den)"

definition ceil_duration :: "int \<Rightarrow> int \<Rightarrow> int \<Rightarrow> int" where
  "ceil_duration num den v =
     (let casted = duration_cast num den v
      in if casted * den < v * num then casted + 1 else casted)"

definition time_point_max :: int where
  "time_point_max = 2 ^ 63 - 1"

definition saturating_add :: "int \<Rightarrow> int \<Rightarrow> int" where
  "saturating_add base delta =
     (let max_delta = time_point_max - base
      in if delta \<ge> max_delta then time_point_max else base + delta)"

definition deadline_after :: "int \<Rightarrow> int \<Rightarrow> int \<Rightarrow> int \<Rightarrow> int" where
  "deadline_after num den now timeout =
     (if timeout \<le> 0 then now else saturating_add now (ceil_duration num den timeout))"

definition deadline_expired :: "int \<Rightarrow> int \<Rightarrow> bool" where
  "deadline_expired expiry now \<longleftrightarrow> now \<ge> expiry"

definition deadline_remaining :: "int \<Rightarrow> int \<Rightarrow> int" where
  "deadline_remaining expiry now = (if deadline_expired expiry now then 0 else expiry - now)"

section \<open>The backend timeout adapter\<close>

datatype timeout_kind = No_wait | Wait_forever | Finite

record timeout_value =
  kind :: timeout_kind
  finite_ms :: u64

definition decode :: "'t::len word \<Rightarrow> timeout_value" where
  "decode timeout =
     (if timeout = NO_WAIT then \<lparr>kind = No_wait, finite_ms = 0\<rparr>
      else if timeout = WAIT_FOREVER then \<lparr>kind = Wait_forever, finite_ms = 0\<rparr>
      else \<lparr>kind = Finite, finite_ms = ucast timeout\<rparr>)"

definition to_poll_timeout_ms :: "'t::len word \<Rightarrow> int" where
  "to_poll_timeout_ms timeout =
     (let v = decode timeout
      in if kind v = Wait_forever then - 1
         else if kind v = No_wait then 0
         else if finite_ms v > 2147483647 then 2147483647
         else uint (finite_ms v))"

record timespec =
  tv_sec :: int
  tv_nsec :: int

definition to_abs_timespec :: "timespec \<Rightarrow> 't::len word \<Rightarrow> timespec" where
  "to_abs_timespec now timeout =
     (let v = decode timeout;
          ms = (if kind v = Finite then finite_ms v else 0);
          seconds = ms div 1000;
          nsec = tv_nsec now + uint ((ms mod 1000) * 1000000);
          seconds' = (if nsec \<ge> 1000000000 then seconds + 1 else seconds);
          nsec' = (if nsec \<ge> 1000000000 then nsec - 1000000000 else nsec);
          max_seconds = 2 ^ 63 - 1
      in if seconds' > word_of_int (max_seconds - tv_sec now)
         then \<lparr>tv_sec = max_seconds, tv_nsec = 999999999\<rparr>
         else \<lparr>tv_sec = tv_sec now + sint seconds', tv_nsec = nsec'\<rparr>)"

definition timespec_ns :: "timespec \<Rightarrow> int" where
  "timespec_ns ts = tv_sec ts * 1000000000 + tv_nsec ts"

section \<open>Lemmas\<close>

definition ceil_div :: "nat \<Rightarrow> nat \<Rightarrow> nat" where
  "ceil_div a b = (a + b - 1) div b"

lemma ceil_div_le_iff: "0 < b \<Longrightarrow> ceil_div a b \<le> n \<longleftrightarrow> a \<le> n * b"
proof -
  assume b: "0 < b"
  have "ceil_div a b \<le> n \<longleftrightarrow> (a + b - 1) div b < Suc n"
    by (simp add: ceil_div_def less_Suc_eq_le)
  also have "\<dots> \<longleftrightarrow> a + b - 1 < Suc n * b"
    using b by (simp add: div_less_iff_less_mult)
  also have "\<dots> \<longleftrightarrow> a \<le> n * b"
    using b by auto
  finally show ?thesis .
qed

lemma ceil_div_split:
  assumes "0 < P"
  shows "(R div P) * k + ceil_div (R mod P * k) P = ceil_div (R * k) P"
proof -
  have "R * k = R div P * k * P + R mod P * k"
    by (metis add_mult_distrib div_mult_mod_eq mult.assoc mult.commute)
  then have "R * k + P - 1 = R mod P * k + P - 1 + R div P * k * P"
    using assms by linarith
  then have "ceil_div (R * k) P = (R mod P * k + P - 1 + R div P * k * P) div P"
    by (simp add: ceil_div_def)
  also have "\<dots> = R div P * k + ceil_div (R mod P * k) P"
    using assms by (simp only: ceil_div_def div_mult_self1)
  finally show ?thesis by simp
qed

lemma unat_WAIT_FOREVER: "unat (WAIT_FOREVER :: 't::len word) = 2 ^ LENGTH('t) - 1"
  by (simp add: WAIT_FOREVER_def unat_minus_1)

lemma unat_kMax: "unat (WAIT_FOREVER - 1 :: 't::len word) = 2 ^ LENGTH('t) - 2"
proof -
  have "(2::nat) ^ 1 \<le> 2 ^ LENGTH('t)"
    by (rule power_increasing) (simp_all add: Suc_le_eq)
  then have "unat (- 1 - 1 :: 't word) = unat (- 1 :: 't word) - unat (1 :: 't word)"
    by (intro unat_sub_fits) (simp add: unat_minus_1)
  then show ?thesis
    by (simp only: WAIT_FOREVER_def unat_minus_1 unsigned_1)
qed

text \<open>The part of a millisecond count below one period never needs more than 1000 ticks.\<close>

lemma remainder_ticks_unat:
  fixes p :: u32
  assumes "p \<noteq> 0"
  shows "unat ((R mod ucast p * 1000 + ucast p - 1) div ucast p :: u64) =
           ceil_div (unat R mod unat p * 1000) (unat p)" (is "unat (?x div ?p) = _")
    and "ceil_div (unat R mod unat p * 1000) (unat p) \<le> 1000"
proof -
  have p: "unat ?p = unat p" by (simp add: unat_ucast_up)
  have P: "0 < unat p" "unat p < 2 ^ 32"
    using assms unat_lt2p [of p] by (simp_all add: unat_gt_0)
  define r where "r = unat R mod unat p"
  have r: "r < unat p" using P by (simp add: r_def)
  have "unat (R mod ?p) = r" by (simp add: unat_mod_distrib p r_def)
  then have m: "unat (R mod ?p * 1000) = r * 1000"
    using r P by (subst unat_mult_fits) simp_all
  have a: "unat (R mod ?p * 1000 + ?p) = r * 1000 + unat p"
    using r P by (subst unat_add_fits) (simp_all add: m p)
  have "unat ?x = r * 1000 + unat p - 1"
    using P by (subst unat_sub_fits) (simp_all add: a)
  then show "unat (?x div ?p) = ceil_div (unat R mod unat p * 1000) (unat p)"
    by (simp add: unat_div_distrib p ceil_div_def r_def)
  have "ceil_div (r * 1000) (unat p) \<le> 1000"
    using r P by (subst ceil_div_le_iff) simp_all
  then show "ceil_div (unat R mod unat p * 1000) (unat p) \<le> 1000"
    by (simp add: r_def)
qed

lemma ms_to_ticks_period:
  fixes p :: u32 and R :: u64
  assumes "p \<noteq> 0" and w: "16 \<le> LENGTH('t::len)" "LENGTH('t) \<le> 64"
  defines "M \<equiv> (ucast (WAIT_FOREVER - 1 :: 't word) :: u64)"
    and "rt \<equiv> (R mod ucast p * 1000 + ucast p - 1) div ucast p"
  shows "R div ucast p > (M - rt) div 1000 \<longleftrightarrow> ceil_div (unat R * 1000) (unat p) > unat M"
    and "\<not> R div ucast p > (M - rt) div 1000 \<Longrightarrow>
      unat (R div ucast p * 1000 + rt) = ceil_div (unat R * 1000) (unat p)"
proof -
  note rt = remainder_ticks_unat [OF assms(1), of R, folded rt_def]
  let ?q = "unat R div unat p" and ?t = "unat rt"
  have M: "unat M = 2 ^ LENGTH('t) - 2"
    using w(2) by (simp add: M_def unat_ucast_up unat_kMax)
  have "(2::nat) ^ 16 \<le> 2 ^ LENGTH('t)" using w(1) by (rule power_increasing) simp
  then have big: "1000 \<le> unat M" by (simp add: M)
  have t: "?t \<le> 1000" "?t \<le> unat M" using rt big by simp_all
  have q: "unat (R div ucast p) = ?q" by (simp add: unat_div_distrib unat_ucast_up)
  have d: "unat ((M - rt) div 1000) = (unat M - ?t) div 1000"
    using t by (simp add: unat_div_distrib unat_sub_fits)
  have "0 < unat p" using assms(1) by (simp add: unat_gt_0)
  then have tot: "?q * 1000 + ?t = ceil_div (unat R * 1000) (unat p)"
    using ceil_div_split [of "unat p" "unat R" 1000] rt(1) by simp
  have le: "?q \<le> (unat M - ?t) div 1000 \<longleftrightarrow> ?q * 1000 + ?t \<le> unat M"
    using t(2) by (simp add: less_eq_div_iff_mult_less_eq) linarith
  show "R div ucast p > (M - rt) div 1000 \<longleftrightarrow> ceil_div (unat R * 1000) (unat p) > unat M"
    using le by (simp add: word_less_nat_alt q d tot [symmetric] not_le [symmetric])
  assume "\<not> R div ucast p > (M - rt) div 1000"
  then have fit: "?q * 1000 + ?t \<le> unat M"
    using le by (simp add: word_less_nat_alt q d)
  have lim: "unat M < 2 ^ 64" using unat_lt2p [of M] by simp
  have "unat (R div ucast p * 1000) = ?q * 1000"
    using fit lim by (subst unat_mult_fits) (simp_all add: q)
  then show "unat (R div ucast p * 1000 + rt) = ceil_div (unat R * 1000) (unat p)"
    using fit lim tot by (subst unat_add_fits) simp_all
qed

lemma ceil_duration_le_iff:
  assumes "0 < num" "0 < den" "0 < v"
  shows "ceil_duration num den v \<le> n \<longleftrightarrow> v * num \<le> n * den"
proof -
  define c r where "c = v * num div den" and "r = v * num mod den"
  have vn: "v * num = c * den + r" by (simp add: c_def r_def)
  have r: "0 \<le> r" "r < den" using assms by (simp_all add: r_def)
  have "duration_cast num den v = c" using assms by (simp add: duration_cast_def c_def)
  then have split: "ceil_duration num den v = (if r = 0 then c else c + 1)"
    using r by (simp add: ceil_duration_def Let_def vn)
  have up: "m \<le> n \<longleftrightarrow> m * den \<le> n * den" for m using assms by simp
  have "c + 1 \<le> n \<longleftrightarrow> c * den + r \<le> n * den" if "r \<noteq> 0"
  proof
    assume "c + 1 \<le> n"
    then show "c * den + r \<le> n * den" using up [of "c + 1"] r by (simp add: algebra_simps)
  next
    assume "c * den + r \<le> n * den"
    then have "c * den < n * den" using r that by linarith
    then show "c + 1 \<le> n" using assms by simp
  qed
  then show ?thesis using up [of c] unfolding split vn by (cases "r = 0") auto
qed

section \<open>Properties\<close>

lemma unat_ms_to_ticks:
  assumes "16 \<le> LENGTH('t::len)" "LENGTH('t) \<le> 64" "ms < 2 ^ 63"
  shows "unat (ms_to_ticks p ms :: 't word) =
    (if ms \<le> 0 then 0
     else min (if p = 0 then nat ms else ceil_div (nat ms * 1000) (unat p)) (2 ^ LENGTH('t) - 2))"
proof (cases "ms \<le> 0")
  case True
  then show ?thesis by (simp add: ms_to_ticks_def NO_WAIT_def)
next
  case False
  let ?R = "word_of_int ms :: u64" and ?M = "ucast (WAIT_FOREVER - 1 :: 't word) :: u64"
  have R: "unat ?R = nat ms" using assms(3) False by (intro unat_word_of_int_fits) simp_all
  have M: "unat ?M = 2 ^ LENGTH('t) - 2" using assms(2) by (simp add: unat_ucast_up unat_kMax)
  have down: "unat (ucast w :: 't word) = unat w" if "w < ?M" for w :: u64
    using that by (intro unat_ucast_fits) (simp add: word_less_nat_alt M)
  show ?thesis
  proof (cases "p = 0")
    case True
    with False show ?thesis
      by (auto simp: ms_to_ticks_def Let_def down unat_kMax R M word_less_nat_alt min_def)
  next
    case p: False
    let ?c = "ceil_div (nat ms * 1000) (unat p)"
    note per = ms_to_ticks_period [OF p assms(1,2), of ?R, unfolded R M]
    show ?thesis
    proof (cases "?c > 2 ^ LENGTH('t) - 2")
      case True
      with False p per(1) show ?thesis
        by (simp add: ms_to_ticks_def Let_def unat_kMax min_def)
    next
      case c: False
      with per have n: "\<not> ?R div ucast p > (?M - (?R mod ucast p * 1000 + ucast p - 1) div ucast p) div 1000"
        by blast
      from per(2) [OF n] c False p n show ?thesis
        by (auto simp: ms_to_ticks_def Let_def unat_kMax M down word_less_nat_alt min_def)
    qed
  qed
qed

text \<open>
  C6: \<open>clock_utils::ms_to_ticks\<close> computes the ceiling of \<open>ms * 1000 / period_us\<close> saturated at
  \<open>WAIT_FOREVER - 1\<close>, for every admissible width of \<open>tick_t\<close>: no intermediate 64-bit operation
  wraps, non-positive durations give \<open>NO_WAIT\<close>, and a backend that reports a zero period gets one
  tick per millisecond.
\<close>

theorem ms_to_ticks_exact:
  assumes "16 \<le> LENGTH('t::len)" "LENGTH('t) \<le> 64" "ms < 2 ^ 63"
  shows "unat (ms_to_ticks p ms :: 't word) =
    (if ms \<le> 0 then 0
     else min (if p = 0 then nat ms else ceil_div (nat ms * 1000) (unat p)) (2 ^ LENGTH('t) - 2))"
  by (rule unat_ms_to_ticks [OF assms])

theorem ms_to_ticks_exact_witness:
  "unat (ms_to_ticks 300 7 :: u16) = 24 \<and> unat (ms_to_ticks 1000 70000 :: u16) = 65534"
  using ms_to_ticks_exact [where 't = 16 and p = 300 and ms = 7]
    ms_to_ticks_exact [where 't = 16 and p = 1000 and ms = 70000]
  by (simp add: ceil_div_def)

text \<open>
  Converting a millisecond timeout to 32-bit ticks and back never shortens it, and lengthens it
  by less than one tick period, unless the conversion saturated.
\<close>

theorem ticks_to_ms_roundtrip:
  assumes "p \<noteq> 0" "0 < ms" "ms < 2 ^ 63"
    and "ceil_div (nat ms * 1000) (unat p) \<le> 2 ^ 32 - 2"
  shows "ms \<le> ticks_to_ms p (ms_to_ticks p ms :: u32) \<and>
    ticks_to_ms p (ms_to_ticks p ms :: u32) * 1000 < ms * 1000 + uint p"
proof -
  define k where "k = ceil_div (nat ms * 1000) (unat p)"
  have P: "0 < unat p" "unat p < 2 ^ 32"
    using assms(1) unat_lt2p [of p] by (simp_all add: unat_gt_0)
  have t: "unat (ms_to_ticks p ms :: u32) = k"
    using unat_ms_to_ticks [where 't = 32, of ms p] assms by (simp add: k_def)
  have k: "k < 2 ^ 32" using assms(4) by (simp add: k_def)
  have lo: "nat ms * 1000 \<le> k * unat p"
    using ceil_div_le_iff [OF P(1), of "nat ms * 1000" k] by (simp add: k_def)
  have "0 < k" using lo assms(2) by (cases k) simp_all
  then have "\<not> k \<le> k - 1" by simp
  then have "(k - 1) * unat p < nat ms * 1000"
    using ceil_div_le_iff [OF P(1), of "nat ms * 1000" "k - 1", folded k_def] by linarith
  then have hi: "k * unat p < nat ms * 1000 + unat p"
    using \<open>0 < k\<close> by (cases k) simp_all
  have prod: "k * unat p < 2 ^ 64"
    using mult_strict_mono [OF k P(2)] by simp
  have "unat (ucast (ms_to_ticks p ms :: u32) * ucast p :: u64) = k * unat p"
    using prod t by (subst unat_mult_fits) (simp_all add: unat_ucast_up)
  then have d: "unat (ucast (ms_to_ticks p ms :: u32) * ucast p div 1000 :: u64) = k * unat p div 1000"
    by (simp add: unat_div_distrib)
  have "ticks_to_ms p (ms_to_ticks p ms :: u32) = int (k * unat p div 1000)"
    using prod by (simp add: ticks_to_ms_def Let_def sint_eq_unat d)
  moreover have "nat ms \<le> k * unat p div 1000"
    using lo by (simp add: less_eq_div_iff_mult_less_eq)
  moreover have "k * unat p div 1000 * 1000 \<le> k * unat p" by simp
  ultimately show ?thesis
    using hi assms(2) unfolding uint_nat [of p] by linarith
qed

theorem ticks_to_ms_roundtrip_witness:
  "7 \<le> ticks_to_ms 300 (ms_to_ticks 300 7 :: u32) \<and>
   ticks_to_ms 300 (ms_to_ticks 300 7 :: u32) * 1000 < 7 * 1000 + 300"
  using ticks_to_ms_roundtrip [of 300 7] by (simp add: ceil_div_def)

lemma timeout_ms_eq:
  fixes timeout :: "'t::len word"
  assumes "LENGTH('t) \<le> 64"
  shows "int (unat (if kind (decode timeout) = Finite then finite_ms (decode timeout) else 0)) =
    (if timeout = WAIT_FOREVER then 0 else uint timeout)"
proof -
  have "unat (ucast timeout :: u64) = unat timeout"
    using assms by (simp add: unat_ucast_up)
  then have "int (unat (ucast timeout :: u64)) = uint timeout"
    by (simp only: uint_nat)
  then show ?thesis by (simp add: decode_def NO_WAIT_def)
qed

text \<open>The carry from nanoseconds into seconds and the clamp of the seconds, over integers.\<close>

lemma to_abs_timespec_int:
  fixes timeout :: "'t::len word"
  assumes "0 \<le> tv_sec now" "tv_sec now < 2 ^ 63"
  defines "m \<equiv> int (unat (if kind (decode timeout) = Finite then finite_ms (decode timeout) else 0))"
  defines "n \<equiv> tv_nsec now + m mod 1000 * 1000000"
  defines "c \<equiv> (if n \<ge> 1000000000 then 1 else 0)"
  shows "to_abs_timespec now timeout =
    (if m div 1000 + c > 2 ^ 63 - 1 - tv_sec now then \<lparr>tv_sec = 2 ^ 63 - 1, tv_nsec = 999999999\<rparr>
     else \<lparr>tv_sec = tv_sec now + (m div 1000 + c), tv_nsec = n - c * 1000000000\<rparr>)"
proof -
  define W where "W = (if kind (decode timeout) = Finite then finite_ms (decode timeout) else 0 :: u64)"
  have m: "m = int (unat W)" by (simp add: m_def W_def)
  have q: "unat (W div 1000) = unat W div 1000" by (simp add: unat_div_distrib)
  have "unat W < 2 ^ 64" using unat_lt2p [of W] by simp
  then have small: "unat W div 1000 + 1 < 2 ^ 60" by simp
  have q1: "unat (W div 1000 + 1) = unat W div 1000 + 1"
    using small by (subst unat_add_fits) (simp_all add: q)
  have "unat (W mod 1000 * 1000000) = unat W mod 1000 * 1000000"
    by (subst unat_mult_fits) (simp_all add: unat_mod_distrib less_le_trans [OF mod_less_divisor])
  then have ns: "uint (W mod 1000 * 1000000) = m mod 1000 * 1000000"
    unfolding uint_nat m by (simp add: zmod_int)
  have lim: "unat (word_of_int (2 ^ 63 - 1 - tv_sec now) :: u64) = nat (2 ^ 63 - 1 - tv_sec now)"
    using assms(1,2) by (intro unat_word_of_int_fits) simp_all
  define S where "S = (if n \<ge> 1000000000 then W div 1000 + 1 else W div 1000)"
  have S: "int (unat S) = m div 1000 + c"
    by (simp add: S_def c_def q q1 m zdiv_int del: of_nat_unat)
  have "unat S < 2 ^ 63" using small by (simp add: S_def q q1)
  then have sS: "sint S = m div 1000 + c" by (simp add: sint_eq_unat S del: of_nat_unat)
  have gt: "S > word_of_int (2 ^ 63 - 1 - tv_sec now) \<longleftrightarrow> m div 1000 + c > 2 ^ 63 - 1 - tv_sec now"
    unfolding word_less_nat_alt lim S [symmetric] using assms(2) by linarith
  have "to_abs_timespec now timeout =
      (if S > word_of_int (2 ^ 63 - 1 - tv_sec now) then \<lparr>tv_sec = 2 ^ 63 - 1, tv_nsec = 999999999\<rparr>
       else \<lparr>tv_sec = tv_sec now + sint S, tv_nsec = (if n \<ge> 1000000000 then n - 1000000000 else n)\<rparr>)"
    unfolding to_abs_timespec_def W_def [symmetric] Let_def ns n_def [symmetric] S_def [symmetric] ..
  then show ?thesis unfolding gt sS by (simp add: c_def)
qed

text \<open>
  \<open>to_abs_timespec\<close> is exact: the absolute time it returns is the current time plus the finite
  timeout in milliseconds (nothing for the two sentinels), clamped to the largest \<open>timespec\<close>
  instead of wrapping, and its nanosecond field is normalised.
\<close>

theorem to_abs_timespec_exact:
  fixes timeout :: "'t::len word"
  assumes "LENGTH('t) \<le> 64" "0 \<le> tv_sec now" "tv_sec now < 2 ^ 63"
    and "0 \<le> tv_nsec now" "tv_nsec now < 1000000000"
  shows "0 \<le> tv_nsec (to_abs_timespec now timeout) \<and>
    tv_nsec (to_abs_timespec now timeout) < 1000000000 \<and>
    timespec_ns (to_abs_timespec now timeout) =
      min (timespec_ns now + (if timeout = WAIT_FOREVER then 0 else uint timeout) * 1000000)
          (2 ^ 63 * 1000000000 - 1)"
proof -
  define m where "m = (if timeout = WAIT_FOREVER then 0 else uint timeout)"
  note ts = to_abs_timespec_int [OF assms(2,3), of timeout, unfolded timeout_ms_eq [OF assms(1)], folded m_def]
  define q r where "q = m div 1000" and "r = m mod 1000"
  have r: "0 \<le> r" "r < 1000" and qr: "m = q * 1000 + r" by (simp_all add: q_def r_def)
  show ?thesis
    unfolding m_def [symmetric] ts timespec_ns_def q_def [symmetric] r_def [symmetric] qr
    using assms(2-5) r by (auto simp: min_def)
qed

theorem to_abs_timespec_exact_witness:
  "timespec_ns (to_abs_timespec \<lparr>tv_sec = 5, tv_nsec = 999000000\<rparr> (1501 :: u32)) = 7500000000"
  using to_abs_timespec_exact [of "\<lparr>tv_sec = 5, tv_nsec = 999000000\<rparr>" "1501 :: u32"]
  by (simp add: timespec_ns_def WAIT_FOREVER_def)

text \<open>
  A deadline built by \<open>basic_deadline::after\<close> on a clock that is \<open>num / den\<close> times as fine as the
  timeout's unit expires exactly when at least the requested time has passed, never earlier by
  truncation; \<open>remaining\<close> counts down to zero at that moment. Past the end of the clock's range the
  deadline saturates.
\<close>

theorem deadline_after_exact:
  assumes "0 < num" "0 < den" "0 < timeout" "0 \<le> now"
    and "timeout * num \<le> (time_point_max - now - 1) * den"
  shows "(deadline_expired (deadline_after num den now timeout) t \<longleftrightarrow> timeout * num \<le> (t - now) * den) \<and>
    (deadline_remaining (deadline_after num den now timeout) t = 0 \<longleftrightarrow>
       timeout * num \<le> (t - now) * den)"
proof -
  let ?c = "ceil_duration num den timeout"
  have "?c \<le> time_point_max - now - 1"
    using assms(5) by (simp only: ceil_duration_le_iff [OF assms(1-3)])
  then have d: "deadline_after num den now timeout = now + ?c"
    using assms(3) by (simp add: deadline_after_def saturating_add_def)
  have "?c \<le> t - now \<longleftrightarrow> timeout * num \<le> (t - now) * den"
    by (rule ceil_duration_le_iff [OF assms(1-3)])
  then show ?thesis
    by (auto simp: d deadline_expired_def deadline_remaining_def)
qed

theorem deadline_after_exact_witness:
  "\<not> deadline_expired (deadline_after 1 1000 10 1500) 11 \<and>
   deadline_remaining (deadline_after 1 1000 10 1500) 12 = 0"
  using deadline_after_exact [of 1 1000 1500 10 11] deadline_after_exact [of 1 1000 1500 10 12]
  by (simp add: time_point_max_def)

end
