(* ===== verification/Ring_Algebra.thy ===== *)
theory Ring_Algebra
  imports Osal_Prelude
begin

text \<open>
  The algebra of circular buffers that the ring buffer, the byte rings of the stream and message
  buffers, the bare-metal queue and the work queue share: index arithmetic, the two-chunk copies
  across the wrap, and the sequence of elements a ring holds.
\<close>

definition ring_used :: "nat \<Rightarrow> nat \<Rightarrow> nat \<Rightarrow> nat" where
  "ring_used sz h t = (if h \<ge> t then h - t else sz - t + h)"

definition ring_advance :: "nat \<Rightarrow> nat \<Rightarrow> nat \<Rightarrow> nat" where
  "ring_advance sz i n = (if i + n < sz then i + n else i + n - sz)"

definition ring_copy_in :: "'a list \<Rightarrow> nat \<Rightarrow> 'a list \<Rightarrow> 'a list" where
  "ring_copy_in buf h data =
     (let first = min (length data) (length buf - h);
          b = memcpy_at buf h (take first data)
      in if first < length data then memcpy_at b 0 (drop first data) else b)"

definition ring_copy_out :: "'a list \<Rightarrow> nat \<Rightarrow> nat \<Rightarrow> 'a list" where
  "ring_copy_out buf t n =
     (let first = min n (length buf - t)
      in if first < n then mem_read buf t first @ mem_read buf 0 (n - first)
         else mem_read buf t first)"

text \<open>The \<open>n\<close> elements from index \<open>t\<close> onward, wrapping at the end of the array.\<close>

definition ring_seq :: "'a list \<Rightarrow> nat \<Rightarrow> nat \<Rightarrow> 'a list" where
  "ring_seq buf t n = map (\<lambda>i. buf ! ((t + i) mod length buf)) [0..<n]"

section \<open>Indices\<close>

lemma ring_advance_mod [ring_simps]:
  "i < sz \<Longrightarrow> n \<le> sz \<Longrightarrow> ring_advance sz i n = (i + n) mod sz"
  by (auto simp: ring_advance_def mod_if)

lemma ring_advance_less: "i < sz \<Longrightarrow> n \<le> sz \<Longrightarrow> ring_advance sz i n < sz"
  by (simp add: ring_advance_mod)

lemma ring_used_mod: "h < sz \<Longrightarrow> t < sz \<Longrightarrow> ring_used sz h t = (h + sz - t) mod sz"
  by (auto simp: ring_used_def mod_if)

lemma ring_used_less: "h < sz \<Longrightarrow> t < sz \<Longrightarrow> ring_used sz h t < sz"
  by (auto simp: ring_used_def)

lemma ring_head_eq: "h < sz \<Longrightarrow> t < sz \<Longrightarrow> (t + ring_used sz h t) mod sz = h"
  by (auto simp: ring_used_def)

lemma ring_used_advance: "t < sz \<Longrightarrow> n < sz \<Longrightarrow> ring_used sz ((t + n) mod sz) t = n"
  by (auto simp: ring_used_def mod_if)

lemma ring_used_0_iff: "h < sz \<Longrightarrow> t < sz \<Longrightarrow> ring_used sz h t = 0 \<longleftrightarrow> h = t"
  by (auto simp: ring_used_def)

lemma ring_used_full_iff:
  "h < sz \<Longrightarrow> t < sz \<Longrightarrow> ring_used sz h t + 1 = sz \<longleftrightarrow> (h + 1) mod sz = t"
  by (auto simp: ring_used_def mod_if)

lemma ring_used_head_advance:
  assumes "h < sz" "t < sz" "ring_used sz h t + n < sz"
  shows "ring_used sz ((h + n) mod sz) t = ring_used sz h t + n"
proof -
  have "(h + n) mod sz = (t + (ring_used sz h t + n)) mod sz"
    using ring_head_eq [OF assms(1,2)] by (metis add.assoc mod_add_left_eq)
  then show ?thesis using assms by (simp add: ring_used_advance)
qed

lemma ring_used_tail_advance:
  assumes "h < sz" "t < sz" "n \<le> ring_used sz h t"
  shows "ring_used sz h ((t + n) mod sz) = ring_used sz h t - n"
proof -
  let ?u = "ring_used sz h t"
  have "((t + n) mod sz + (?u - n)) mod sz = (t + n + (?u - n)) mod sz" by (rule mod_add_left_eq)
  also have "\<dots> = h" using ring_head_eq [OF assms(1,2)] assms(3) by simp
  finally have "h = ((t + n) mod sz + (?u - n)) mod sz" by simp
  moreover have "?u - n < sz" using ring_used_less [OF assms(1,2)] by simp
  moreover have "(t + n) mod sz < sz" using assms by simp
  ultimately show ?thesis using ring_used_advance by metis
qed

section \<open>Sequences\<close>

lemma length_ring_seq [simp]: "length (ring_seq buf t n) = n"
  by (simp add: ring_seq_def)

lemma nth_ring_seq: "i < n \<Longrightarrow> ring_seq buf t n ! i = buf ! ((t + i) mod length buf)"
  by (simp add: ring_seq_def)

lemma ring_seq_0 [simp]: "ring_seq buf t 0 = []"
  by (simp add: ring_seq_def)

lemma ring_seq_mod: "ring_seq buf (t mod length buf) n = ring_seq buf t n"
  by (simp add: ring_seq_def mod_add_left_eq)

lemma ring_seq_append: "ring_seq buf t (n + m) = ring_seq buf t n @ ring_seq buf ((t + n) mod length buf) m"
proof (rule nth_equalityI)
  fix i assume "i < length (ring_seq buf t (n + m))"
  then show "ring_seq buf t (n + m) ! i = (ring_seq buf t n @ ring_seq buf ((t + n) mod length buf) m) ! i"
    by (auto simp: nth_append nth_ring_seq ring_seq_mod)
qed simp

lemma take_ring_seq: "k \<le> n \<Longrightarrow> take k (ring_seq buf t n) = ring_seq buf t k"
  by (simp add: ring_seq_def take_map)

lemma drop_ring_seq: "k \<le> n \<Longrightarrow> drop k (ring_seq buf t n) = ring_seq buf ((t + k) mod length buf) (n - k)"
  using ring_seq_append [of buf t k "n - k"] by simp

lemma ring_seq_Suc: "ring_seq buf t (Suc n) = buf ! (t mod length buf) # ring_seq buf (Suc t mod length buf) n"
  using ring_seq_append [of buf t 1 n] by (simp add: ring_seq_def)

section \<open>Two-chunk copies\<close>

lemma length_ring_copy_in [simp]:
  "h < length buf \<Longrightarrow> length data \<le> length buf \<Longrightarrow> length (ring_copy_in buf h data) = length buf"
  by (simp add: ring_copy_in_def Let_def min_def)

lemma nth_ring_copy_in:
  assumes "h < length buf" "length data \<le> length buf" "j < length buf"
  shows "ring_copy_in buf h data ! j =
    (let k = (j + length buf - h) mod length buf in if k < length data then data ! k else buf ! j)"
proof -
  let ?first = "min (length data) (length buf - h)"
  have k: "(j + length buf - h) mod length buf = (if j < h then j + length buf - h else j - h)"
    using assms by (auto simp: mod_if)
  show ?thesis
  proof (cases "?first < length data")
    case True
    then have "ring_copy_in buf h data =
        memcpy_at (memcpy_at buf h (take ?first data)) 0 (drop ?first data)"
      unfolding ring_copy_in_def Let_def by (simp only: if_True)
    with True assms show ?thesis
      unfolding k by (auto simp: Let_def nth_memcpy_at min_def add.commute)
  next
    case False
    then have "ring_copy_in buf h data = memcpy_at buf h data"
      by (simp add: ring_copy_in_def Let_def)
    with False assms show ?thesis
      unfolding k by (auto simp: Let_def nth_memcpy_at min_def split: if_splits)
  qed
qed

lemma ring_offset_back:
  fixes h :: nat
  assumes "h < sz" "k < sz"
  shows "((h + k) mod sz + sz - h) mod sz = k"
proof (cases "h + k < sz")
  case True
  then have "(h + k) mod sz + sz - h = k + sz" by (simp add: mod_less)
  then show ?thesis using assms by (simp only: mod_add_self2 mod_less)
next
  case False
  then have "(h + k) mod sz = h + k - sz" using assms by (simp add: mod_if)
  then show ?thesis using False assms by simp
qed

text \<open>Writing at the end of the held region appends, and leaves the held elements alone.\<close>

lemma ring_seq_copy_in:
  assumes "t < length buf" "n + length data \<le> length buf"
  defines "h \<equiv> (t + n) mod length buf"
  shows "ring_seq (ring_copy_in buf h data) t (n + length data) = ring_seq buf t n @ data"
proof (rule nth_equalityI)
  let ?L = "length buf"
  have "0 < ?L" using assms(1) by (cases buf) simp_all
  then have h: "h < ?L" by (simp add: h_def)
  fix i assume "i < length (ring_seq (ring_copy_in buf h data) t (n + length data))"
  then have i: "i < n + length data" by simp
  have pos: "(t + i) mod ?L < ?L" using \<open>0 < ?L\<close> by simp
  have L: "length (ring_copy_in buf h data) = ?L" using h assms by simp
  have off: "((t + i) mod ?L + ?L - h) mod ?L = (if i < n then i + ?L - n else i - n)"
  proof (cases "i < n")
    case True
    then have "t + n + (i + ?L - n) = t + i + ?L" using assms by simp
    then have "(t + n + (i + ?L - n)) mod ?L = (t + i) mod ?L" by (simp only: mod_add_self2)
    then have "(t + i) mod ?L = (h + (i + ?L - n)) mod ?L"
      unfolding h_def mod_add_left_eq by (rule sym)
    then show ?thesis
      using True i assms h ring_offset_back [of h ?L "i + ?L - n"] by simp
  next
    case False
    then have "(t + i) mod ?L = (h + (i - n)) mod ?L"
      unfolding h_def mod_add_left_eq by simp
    then show ?thesis
      using False i assms h ring_offset_back [of h ?L "i - n"] by simp
  qed
  have "length data \<le> ?L" using assms by simp
  then have "ring_copy_in buf h data ! ((t + i) mod ?L) = (if i < n then buf ! ((t + i) mod ?L) else data ! (i - n))"
    using i assms(1,2) unfolding nth_ring_copy_in [OF h \<open>length data \<le> ?L\<close> pos] Let_def off by auto
  then show "ring_seq (ring_copy_in buf h data) t (n + length data) ! i = (ring_seq buf t n @ data) ! i"
    using i by (simp add: nth_ring_seq L nth_append)
qed simp

lemma ring_copy_out_eq:
  assumes "t < length buf" "n \<le> length buf"
  shows "ring_copy_out buf t n = ring_seq buf t n"
proof (rule nth_equalityI)
  show "length (ring_copy_out buf t n) = length (ring_seq buf t n)"
    using assms by (simp add: ring_copy_out_def Let_def min_def)
  fix i assume "i < length (ring_copy_out buf t n)"
  then have "i < n" using assms by (simp add: ring_copy_out_def Let_def min_def split: if_splits)
  then show "ring_copy_out buf t n ! i = ring_seq buf t n ! i"
    using assms
    by (auto simp: ring_copy_out_def Let_def min_def nth_append nth_mem_read nth_ring_seq mod_if add.commute)
qed

lemma length_ring_copy_out [simp]:
  "t < length buf \<Longrightarrow> n \<le> length buf \<Longrightarrow> length (ring_copy_out buf t n) = n"
  by (simp add: ring_copy_out_eq)

text \<open>A single store is a copy of length one.\<close>

lemma ring_copy_in_single: "h < length buf \<Longrightarrow> ring_copy_in buf h [x] = buf[h := x]"
  by (simp add: ring_copy_in_def Let_def memcpy_at_def upd_conv_take_nth_drop)

text \<open>A copy is the same as storing one element after the other.\<close>

lemma ring_offset_Suc:
  fixes h :: nat
  assumes "h < sz" "j < sz" "j \<noteq> h"
  shows "(j + sz - h) mod sz = Suc ((j + sz - (h + 1) mod sz) mod sz)"
proof (cases "h + 1 = sz")
  case True
  with assms have "j < h" by simp
  then have "(j + sz - h) mod sz = j + 1" using True by (simp flip: True)
  moreover have "(j + sz - (h + 1) mod sz) mod sz = j" using True \<open>j < sz\<close> by simp
  ultimately show ?thesis by simp
next
  case False
  with assms have "(h + 1) mod sz = h + 1" by simp
  with assms show ?thesis by (cases "j < h") (auto simp: mod_if)
qed

lemma ring_copy_in_Cons:
  assumes "h < length buf" "length (x # xs) \<le> length buf"
  shows "ring_copy_in buf h (x # xs) = ring_copy_in (buf[h := x]) ((h + 1) mod length buf) xs"
proof (rule nth_equalityI)
  let ?L = "length buf" and ?h = "(h + 1) mod length buf"
  have h': "?h < length (buf[h := x])" using assms by (simp add: mod_lessI)
  have len: "length xs \<le> length (buf[h := x])" using assms by simp
  show "length (ring_copy_in buf h (x # xs)) = length (ring_copy_in (buf[h := x]) ?h xs)"
    using assms len h' by simp
  fix j assume "j < length (ring_copy_in buf h (x # xs))"
  then have j: "j < ?L" and j': "j < length (buf[h := x])" using assms by simp_all
  note eqs = nth_ring_copy_in [OF assms(1,2) j] nth_ring_copy_in [OF h' len j']
  show "ring_copy_in buf h (x # xs) ! j = ring_copy_in (buf[h := x]) ?h xs ! j"
  proof (cases "j = h")
    case True
    have "h = (?h + (?L - 1)) mod ?L" using assms(1) by (cases "h + 1 = ?L") (auto simp: mod_if)
    then have "(h + ?L - ?h) mod ?L = ?L - 1"
      using ring_offset_back [of ?h ?L "?L - 1"] h' by simp
    moreover have "\<not> ?L - 1 < length xs" using assms by simp
    ultimately show ?thesis using True assms unfolding eqs Let_def by simp
  next
    case False
    then show ?thesis
      using ring_offset_Suc [OF assms(1) j False] unfolding eqs Let_def by simp
  qed
qed

lemma ring_copy_in_Nil [simp]: "ring_copy_in buf h [] = buf"
  by (simp add: ring_copy_in_def)

text \<open>Two copies, the second where the first ends, are one copy.\<close>

lemma ring_copy_in_append:
  "h < length buf \<Longrightarrow> length xs + length ys \<le> length buf \<Longrightarrow>
   ring_copy_in (ring_copy_in buf h xs) ((h + length xs) mod length buf) ys = ring_copy_in buf h (xs @ ys)"
proof (induction xs arbitrary: buf h)
  case (Cons x xs)
  let ?h = "(h + 1) mod length buf" and ?b = "buf[h := x]"
  have "?h < length ?b" "length xs + length ys \<le> length ?b" using Cons.prems by (simp_all add: mod_lessI)
  from Cons.IH [OF this]
  have "ring_copy_in (ring_copy_in ?b ?h xs) ((h + length (x # xs)) mod length buf) ys = ring_copy_in ?b ?h (xs @ ys)"
    by (simp add: mod_simps)
  moreover have "ring_copy_in buf h (x # xs) = ring_copy_in ?b ?h xs" "ring_copy_in buf h (x # xs @ ys) = ring_copy_in ?b ?h (xs @ ys)"
    using Cons.prems by (intro ring_copy_in_Cons; simp)+
  ultimately show ?case by simp
qed simp

end
