(* ===== verification/Fifo_Spec.thy ===== *)
theory Fifo_Spec
  imports Osal_Prelude
begin

text \<open>
  The contract of a bounded first-in first-out queue. The lock-free ring buffer and the bare-metal
  message queue both promise it; what a client may conclude from the contract alone (any sequence
  of operations answers like a list of bounded length, nothing is lost, duplicated or reordered)
  is proved once in the locale.
\<close>

datatype 'a fifo_op = Push 'a | Pop

datatype 'a fifo_out = Pushed bool | Popped "'a option"

fun fifo_step :: "('a \<Rightarrow> 's \<Rightarrow> bool \<times> 's) \<Rightarrow> ('s \<Rightarrow> 'a option \<times> 's) \<Rightarrow> 'a fifo_op \<Rightarrow> 's \<Rightarrow> 'a fifo_out \<times> 's"
where
  "fifo_step push pop (Push x) s = (case push x s of (b, s') \<Rightarrow> (Pushed b, s'))"
| "fifo_step push pop Pop s = (case pop s of (r, s') \<Rightarrow> (Popped r, s'))"

fun fifo_run :: "('a \<Rightarrow> 's \<Rightarrow> bool \<times> 's) \<Rightarrow> ('s \<Rightarrow> 'a option \<times> 's) \<Rightarrow> 'a fifo_op list \<Rightarrow> 's \<Rightarrow> 'a fifo_out list \<times> 's"
where
  "fifo_run push pop [] s = ([], s)"
| "fifo_run push pop (c # cs) s =
     (case fifo_step push pop c s of (r, s') \<Rightarrow>
      case fifo_run push pop cs s' of (rs, s'') \<Rightarrow> (r # rs, s''))"

text \<open>The reference implementation: a list of at most \<open>n\<close> elements.\<close>

definition lq_push :: "nat \<Rightarrow> 'a \<Rightarrow> 'a list \<Rightarrow> bool \<times> 'a list" where
  "lq_push n x xs = (if length xs < n then (True, xs @ [x]) else (False, xs))"

fun lq_pop :: "'a list \<Rightarrow> 'a option \<times> 'a list" where
  "lq_pop [] = (None, [])"
| "lq_pop (x # xs) = (Some x, xs)"

text \<open>The elements a run accepted and the elements it handed out.\<close>

fun accepted :: "'a fifo_op list \<Rightarrow> 'a fifo_out list \<Rightarrow> 'a list" where
  "accepted (Push x # cs) (Pushed True # rs) = x # accepted cs rs"
| "accepted (_ # cs) (_ # rs) = accepted cs rs"
| "accepted _ _ = []"

fun delivered :: "'a fifo_out list \<Rightarrow> 'a list" where
  "delivered [] = []"
| "delivered (Popped (Some x) # rs) = x # delivered rs"
| "delivered (_ # rs) = delivered rs"

lemma delivered_Cons: "delivered (r # rs) = delivered [r] @ delivered rs"
  by (cases "r # rs" rule: delivered.cases) auto

lemma lq_run_conserves:
  "fifo_run (lq_push n) lq_pop cs xs = (rs, xs') \<Longrightarrow> xs @ accepted cs rs = delivered rs @ xs'"
proof (induction cs arbitrary: xs rs)
  case (Cons c cs)
  obtain r xs1 rs1 where st: "fifo_step (lq_push n) lq_pop c xs = (r, xs1)" "rs = r # rs1"
    "fifo_run (lq_push n) lq_pop cs xs1 = (rs1, xs')"
    using Cons.prems by (auto split: prod.splits)
  have "xs @ accepted (c # cs) (r # rs1) = delivered [r] @ xs1 @ accepted cs rs1"
    using st(1) by (cases c; cases xs) (auto simp: lq_push_def split: if_splits)
  moreover have "delivered (r # rs1) = delivered [r] @ delivered rs1"
    by (rule delivered_Cons)
  ultimately show ?case using Cons.IH [OF st(3)] st(2) by simp
qed simp

lemma lq_run_bounded:
  "fifo_run (lq_push n) lq_pop cs xs = (rs, xs') \<Longrightarrow> length xs \<le> n \<Longrightarrow> length xs' \<le> n"
proof (induction cs arbitrary: xs rs)
  case (Cons c cs)
  obtain r xs1 rs1 where st: "fifo_step (lq_push n) lq_pop c xs = (r, xs1)"
    "fifo_run (lq_push n) lq_pop cs xs1 = (rs1, xs')"
    using Cons.prems by (auto split: prod.splits)
  have "length xs1 \<le> n"
    using st(1) Cons.prems(2) by (cases c; cases xs) (auto simp: lq_push_def split: if_splits)
  then show ?case using Cons.IH [OF st(2)] by simp
qed simp

fun fits_op :: "('a \<Rightarrow> bool) \<Rightarrow> 'a fifo_op \<Rightarrow> bool" where
  "fits_op P (Push x) = P x"
| "fits_op P Pop = True"

section \<open>The contract\<close>

locale bounded_fifo =
  fixes inv :: "'s \<Rightarrow> bool"
    and fits :: "'s \<Rightarrow> 'a \<Rightarrow> bool"
    and cap :: "'s \<Rightarrow> nat"
    and contents :: "'s \<Rightarrow> 'a list"
    and push :: "'a \<Rightarrow> 's \<Rightarrow> bool \<times> 's"
    and pop :: "'s \<Rightarrow> 'a option \<times> 's"
  assumes bounded: "inv s \<Longrightarrow> length (contents s) \<le> cap s"
    and push_law: "inv s \<Longrightarrow> fits s x \<Longrightarrow> push x s = (b, s') \<Longrightarrow>
      (b, contents s') = lq_push (cap s) x (contents s) \<and> inv s' \<and> cap s' = cap s \<and> fits s' = fits s"
    and pop_law: "inv s \<Longrightarrow> pop s = (r, s') \<Longrightarrow>
      (r, contents s') = lq_pop (contents s) \<and> inv s' \<and> cap s' = cap s \<and> fits s' = fits s"
begin

lemma step_refines:
  assumes "inv s" "fits_op (fits s) c" "fifo_step push pop c s = (r, s')"
  shows "fifo_step (lq_push (cap s)) lq_pop c (contents s) = (r, contents s') \<and>
    inv s' \<and> cap s' = cap s \<and> fits s' = fits s"
proof (cases c)
  case (Push x)
  then show ?thesis
    using assms push_law [of s x] by (fastforce split: prod.splits)
next
  case Pop
  then show ?thesis
    using assms pop_law [of s] by (fastforce split: prod.splits)
qed

text \<open>Every sequence of operations is answered as the bounded list answers it.\<close>

theorem run_refines:
  assumes "inv s" "\<forall>c \<in> set cs. fits_op (fits s) c" "fifo_run push pop cs s = (rs, s')"
  shows "fifo_run (lq_push (cap s)) lq_pop cs (contents s) = (rs, contents s') \<and>
    inv s' \<and> cap s' = cap s \<and> fits s' = fits s"
  using assms
proof (induction cs arbitrary: s rs)
  case (Cons c cs)
  obtain r s1 where st: "fifo_step push pop c s = (r, s1)" by fastforce
  obtain rs1 where run: "fifo_run push pop cs s1 = (rs1, s')" and rs: "rs = r # rs1"
    using Cons.prems(3) st by (auto split: prod.splits)
  have one: "fifo_step (lq_push (cap s)) lq_pop c (contents s) = (r, contents s1)"
    "inv s1" "cap s1 = cap s" "fits s1 = fits s"
    using step_refines [OF Cons.prems(1) _ st] Cons.prems(2) by simp_all
  then have "\<forall>c \<in> set cs. fits_op (fits s1) c" using Cons.prems(2) by simp
  with Cons.IH [OF one(2) _ run] one show ?case by (simp add: rs)
qed simp

theorem run_conserves:
  assumes "inv s" "\<forall>c \<in> set cs. fits_op (fits s) c" "fifo_run push pop cs s = (rs, s')"
  shows "contents s @ accepted cs rs = delivered rs @ contents s'"
    and "length (contents s') \<le> cap s"
  using run_refines [OF assms] bounded [OF assms(1)] lq_run_conserves lq_run_bounded by metis+

end

end
