(* ===== verification/Osal_Ring.thy ===== *)
theory Osal_Ring
  imports Ring_Algebra Fifo_Spec
begin

text \<open>
  The lock-free single-producer/single-consumer ring buffer,
  \<^verbatim>\<open>include/osal/ring_buffer.hpp\<close>. The array has \<open>N + 1\<close> slots, one of them a sentinel;
  \<open>rb_head\<close> is written by the producer and \<open>rb_tail\<close> by the consumer only. The operations are first
  modelled as they run alone; the last section splits \<open>try_push\<close> and \<open>try_pop\<close> into their atomic
  accesses and interleaves them.
\<close>

record 'a ring_buffer =
  rb_buf :: "'a list"
  rb_head :: nat
  rb_tail :: nat

definition kCapacity :: "('a, 'z) ring_buffer_scheme \<Rightarrow> nat" where
  "kCapacity rb = length (rb_buf rb)"

definition rb_capacity :: "('a, 'z) ring_buffer_scheme \<Rightarrow> nat" where
  "rb_capacity rb = kCapacity rb - 1"

text \<open>The default constructor: \<open>kCapacity = N + 1\<close> value-initialised slots.\<close>

definition ring_init :: "nat \<Rightarrow> 'a \<Rightarrow> 'a ring_buffer" where
  "ring_init n z = \<lparr>rb_buf = replicate (n + 1) z, rb_head = 0, rb_tail = 0\<rparr>"

definition increment :: "nat \<Rightarrow> nat \<Rightarrow> nat" where
  "increment cap idx = (if idx + 1 = cap then 0 else idx + 1)"

definition min_of :: "nat \<Rightarrow> nat \<Rightarrow> nat" where
  "min_of a b = (if a < b then a else b)"

definition try_push :: "'a \<Rightarrow> 'a ring_buffer \<Rightarrow> bool \<times> 'a ring_buffer" where
  "try_push item rb =
     (let h = rb_head rb;
          next = increment (kCapacity rb) h
      in if next = rb_tail rb then (False, rb)
         else (True, rb\<lparr>rb_buf := (rb_buf rb)[h := item], rb_head := next\<rparr>))"

definition try_push_n :: "'a list \<Rightarrow> 'a ring_buffer \<Rightarrow> nat \<times> 'a ring_buffer" where
  "try_push_n items rb =
     (let h = rb_head rb;
          t = rb_tail rb;
          avail = (if t > h then t - h - 1 else kCapacity rb - h + t - 1);
          n = min_of (length items) avail
      in if n = 0 then (0, rb)
         else let first = min_of n (kCapacity rb - h);
                  b1 = memcpy_at (rb_buf rb) h (take first items);
                  b2 = (if first < n then memcpy_at b1 0 (take (n - first) (drop first items)) else b1);
                  new_h = (if h + n < kCapacity rb then h + n else h + n - kCapacity rb)
              in (n, rb\<lparr>rb_buf := b2, rb_head := new_h\<rparr>))"

definition try_pop :: "'a ring_buffer \<Rightarrow> 'a option \<times> 'a ring_buffer" where
  "try_pop rb =
     (let t = rb_tail rb
      in if t = rb_head rb then (None, rb)
         else (Some (rb_buf rb ! t), rb\<lparr>rb_tail := increment (kCapacity rb) t\<rparr>))"

text \<open>The items copied to the destination array; their number is the value returned.\<close>

definition try_pop_n :: "nat \<Rightarrow> 'a ring_buffer \<Rightarrow> 'a list \<times> 'a ring_buffer" where
  "try_pop_n count rb =
     (let t = rb_tail rb;
          h = rb_head rb;
          avail = (if h \<ge> t then h - t else kCapacity rb - t + h);
          n = min_of count avail
      in if n = 0 then ([], rb)
         else let first = min_of n (kCapacity rb - t);
                  i1 = mem_read (rb_buf rb) t first;
                  i2 = (if first < n then i1 @ mem_read (rb_buf rb) 0 (n - first) else i1);
                  new_t = (if t + n < kCapacity rb then t + n else t + n - kCapacity rb)
              in (i2, rb\<lparr>rb_tail := new_t\<rparr>))"

definition peek :: "'a ring_buffer \<Rightarrow> 'a option" where
  "peek rb = (let t = rb_tail rb in if t = rb_head rb then None else Some (rb_buf rb ! t))"

definition rb_size :: "'a ring_buffer \<Rightarrow> nat" where
  "rb_size rb =
     (let h = rb_head rb; t = rb_tail rb
      in if h \<ge> t then h - t else kCapacity rb - t + h)"

definition rb_free :: "'a ring_buffer \<Rightarrow> nat" where
  "rb_free rb = rb_capacity rb - rb_size rb"

definition rb_empty :: "'a ring_buffer \<Rightarrow> bool" where
  "rb_empty rb \<longleftrightarrow> rb_head rb = rb_tail rb"

definition rb_full :: "'a ring_buffer \<Rightarrow> bool" where
  "rb_full rb \<longleftrightarrow> increment (kCapacity rb) (rb_head rb) = rb_tail rb"

definition rb_reset :: "'a ring_buffer \<Rightarrow> 'a ring_buffer" where
  "rb_reset rb = rb\<lparr>rb_tail := rb_head rb\<rparr>"

section \<open>Invariant and abstraction\<close>

text \<open>
  \<open>N \<ge> 1\<close> is the concept \<^verbatim>\<open>positive_extent<N>\<close> of the template; the indices stay inside the array,
  which is the assumption \<^verbatim>\<open>OSAL_ASSUME(idx < kCapacity)\<close> of \<open>increment\<close>.
\<close>

definition rb_inv :: "'a ring_buffer \<Rightarrow> bool" where
  "rb_inv rb \<longleftrightarrow> 2 \<le> kCapacity rb \<and> rb_head rb < kCapacity rb \<and> rb_tail rb < kCapacity rb"

definition rb_list :: "'a ring_buffer \<Rightarrow> 'a list" where
  "rb_list rb = ring_seq (rb_buf rb) (rb_tail rb) (ring_used (length (rb_buf rb)) (rb_head rb) (rb_tail rb))"

lemma increment_mod: "i < cap \<Longrightarrow> increment cap i = (i + 1) mod cap"
  by (auto simp: increment_def mod_if)

lemma rb_inv_init: "0 < n \<Longrightarrow> rb_inv (ring_init n z)"
  by (simp add: rb_inv_def ring_init_def kCapacity_def)

lemma rb_list_init [simp]: "rb_list (ring_init n z) = []"
  by (simp add: rb_list_def ring_init_def ring_used_def)

lemma rb_size_eq: "rb_size rb = length (rb_list rb)"
  by (simp add: rb_size_def rb_list_def ring_used_def kCapacity_def Let_def)

lemma rb_list_bounded: "rb_inv rb \<Longrightarrow> length (rb_list rb) \<le> rb_capacity rb"
  using ring_used_less [of "rb_head rb" "kCapacity rb" "rb_tail rb"]
  by (simp add: rb_list_def rb_inv_def rb_capacity_def kCapacity_def)

lemma rb_full_iff: "rb_inv rb \<Longrightarrow> rb_full rb \<longleftrightarrow> length (rb_list rb) = rb_capacity rb"
  using ring_used_full_iff [of "rb_head rb" "kCapacity rb" "rb_tail rb"]
  by (auto simp: rb_full_def rb_list_def rb_inv_def rb_capacity_def kCapacity_def increment_mod)

lemma rb_empty_iff: "rb_inv rb \<Longrightarrow> rb_empty rb \<longleftrightarrow> rb_list rb = []"
  using ring_used_0_iff [of "rb_head rb" "kCapacity rb" "rb_tail rb"]
  by (auto simp: rb_empty_def rb_list_def rb_inv_def kCapacity_def simp flip: length_0_conv)

text \<open>Appending \<open>data\<close> behind the head, when it fits.\<close>

lemma rb_list_append:
  assumes "rb_inv rb" "length (rb_list rb) + length data \<le> rb_capacity rb"
  shows "rb_list (rb\<lparr>rb_buf := ring_copy_in (rb_buf rb) (rb_head rb) data,
      rb_head := (rb_head rb + length data) mod kCapacity rb\<rparr>) = rb_list rb @ data"
proof -
  let ?u = "ring_used (length (rb_buf rb)) (rb_head rb) (rb_tail rb)"
  have r: "rb_head rb < length (rb_buf rb)" "rb_tail rb < length (rb_buf rb)" "2 \<le> length (rb_buf rb)"
    using assms(1) by (simp_all add: rb_inv_def kCapacity_def)
  have u: "?u + length data < length (rb_buf rb)"
    using assms r by (simp add: rb_list_def rb_capacity_def kCapacity_def)
  have "ring_seq (ring_copy_in (rb_buf rb) (rb_head rb) data) (rb_tail rb) (?u + length data) =
      ring_seq (rb_buf rb) (rb_tail rb) ?u @ data"
    using ring_seq_copy_in [of "rb_tail rb" "rb_buf rb" ?u data] ring_head_eq [OF r(1,2)] r u by simp
  then show ?thesis
    using r u by (simp add: rb_list_def kCapacity_def ring_used_head_advance)
qed

text \<open>Moving the tail drops from the front.\<close>

lemma rb_list_drop:
  assumes "rb_inv rb" "n \<le> length (rb_list rb)"
  shows "rb_list (rb\<lparr>rb_tail := (rb_tail rb + n) mod kCapacity rb\<rparr>) = drop n (rb_list rb)"
  using assms by (simp add: rb_list_def rb_inv_def kCapacity_def ring_used_tail_advance drop_ring_seq)

lemma try_push_eq:
  assumes "rb_inv rb"
  shows "try_push x rb =
    (if length (rb_list rb) < rb_capacity rb
     then (True, rb\<lparr>rb_buf := ring_copy_in (rb_buf rb) (rb_head rb) [x], rb_head := (rb_head rb + 1) mod kCapacity rb\<rparr>)
     else (False, rb))"
  using assms rb_full_iff [OF assms] rb_list_bounded [OF assms]
  by (auto simp: try_push_def Let_def rb_full_def rb_inv_def ring_copy_in_single kCapacity_def increment_mod)

lemma try_push_spec:
  assumes "rb_inv rb" "try_push x rb = (b, rb')"
  shows "(b, rb_list rb') = lq_push (rb_capacity rb) x (rb_list rb) \<and> rb_inv rb' \<and>
    rb_capacity rb' = rb_capacity rb"
proof (cases "length (rb_list rb) < rb_capacity rb")
  case True
  with assms rb_list_append [OF assms(1), of "[x]"] show ?thesis
    by (auto simp: try_push_eq lq_push_def rb_inv_def kCapacity_def rb_capacity_def intro: mod_lessI)
next
  case False
  with assms show ?thesis by (auto simp: try_push_eq lq_push_def)
qed

lemma rb_list_Cons:
  assumes "rb_inv rb" "rb_head rb \<noteq> rb_tail rb"
  shows "rb_list rb = rb_buf rb ! rb_tail rb # drop 1 (rb_list rb)"
proof -
  let ?u = "ring_used (length (rb_buf rb)) (rb_head rb) (rb_tail rb)"
  obtain u where "?u = Suc u"
    using assms ring_used_0_iff [of "rb_head rb" "kCapacity rb" "rb_tail rb"]
    by (cases ?u) (auto simp: rb_inv_def kCapacity_def)
  then show ?thesis using assms(1) by (simp add: rb_list_def ring_seq_Suc rb_inv_def kCapacity_def)
qed

lemma try_pop_spec:
  assumes "rb_inv rb" "try_pop rb = (r, rb')"
  shows "(r, rb_list rb') = lq_pop (rb_list rb) \<and> rb_inv rb' \<and> rb_capacity rb' = rb_capacity rb"
proof (cases "rb_head rb = rb_tail rb")
  case True
  then have "rb_list rb = []" using rb_empty_iff [OF assms(1)] by (simp add: rb_empty_def)
  with True assms show ?thesis by (auto simp: try_pop_def)
next
  case False
  note Cons = rb_list_Cons [OF assms(1) False]
  then have "1 \<le> length (rb_list rb)" by (cases "rb_list rb") simp_all
  from rb_list_drop [OF assms(1) this] Cons False assms show ?thesis
    by (cases "rb_list rb")
      (auto simp: try_pop_def Let_def rb_inv_def kCapacity_def rb_capacity_def increment_mod
        intro: mod_lessI)
qed

interpretation ring: bounded_fifo rb_inv "\<lambda>_ _. True" rb_capacity rb_list try_push try_pop
  by unfold_locales (use rb_list_bounded try_push_spec try_pop_spec in metis)+

section \<open>Bulk operations\<close>

text \<open>What the bulk operations are meant to do: repeat the single operation until it fails.\<close>

fun push_each :: "'a list \<Rightarrow> 'a ring_buffer \<Rightarrow> nat \<times> 'a ring_buffer" where
  "push_each [] rb = (0, rb)"
| "push_each (x # xs) rb =
     (case try_push x rb of
        (False, rb') \<Rightarrow> (0, rb')
      | (True, rb') \<Rightarrow> (case push_each xs rb' of (n, rb'') \<Rightarrow> (Suc n, rb'')))"

fun pop_each :: "nat \<Rightarrow> 'a ring_buffer \<Rightarrow> 'a list \<times> 'a ring_buffer" where
  "pop_each 0 rb = ([], rb)"
| "pop_each (Suc n) rb =
     (case try_pop rb of
        (None, rb') \<Rightarrow> ([], rb')
      | (Some x, rb') \<Rightarrow> (case pop_each n rb' of (xs, rb'') \<Rightarrow> (x # xs, rb'')))"

lemma try_push_n_eq:
  assumes "rb_inv rb"
  shows "try_push_n items rb =
    (let n = min (length items) (rb_capacity rb - length (rb_list rb))
     in (n, rb\<lparr>rb_buf := ring_copy_in (rb_buf rb) (rb_head rb) (take n items),
                rb_head := (rb_head rb + n) mod kCapacity rb\<rparr>))"
proof -
  have avail: "(if rb_tail rb > rb_head rb then rb_tail rb - rb_head rb - 1
      else kCapacity rb - rb_head rb + rb_tail rb - 1) = rb_capacity rb - length (rb_list rb)"
    using assms by (auto simp: rb_list_def ring_used_def rb_capacity_def kCapacity_def rb_inv_def)
  define n where "n = min (length items) (rb_capacity rb - length (rb_list rb))"
  define first where "first = min n (kCapacity rb - rb_head rb)"
  have n: "n < kCapacity rb" "n \<le> length items"
    using assms by (simp_all add: n_def rb_capacity_def rb_inv_def min_less_iff_disj)
  have first: "first \<le> n" by (simp add: first_def)
  have h: "rb_head rb < kCapacity rb" using assms by (simp add: rb_inv_def)
  have m: "min_of a b = min a b" for a b by (simp add: min_of_def min_def)
  have new_h: "(if rb_head rb + n < kCapacity rb then rb_head rb + n else rb_head rb + n - kCapacity rb)
      = (rb_head rb + n) mod kCapacity rb" using h n by (auto simp: mod_if)
  have copy: "ring_copy_in (rb_buf rb) (rb_head rb) (take n items) =
      (let b1 = memcpy_at (rb_buf rb) (rb_head rb) (take first items)
       in if first < n then memcpy_at b1 0 (take (n - first) (drop first items)) else b1)"
    using n first unfolding ring_copy_in_def kCapacity_def [symmetric]
    by (simp add: Let_def drop_take min_absorb1 flip: first_def)
  show ?thesis
    unfolding try_push_n_def Let_def avail m n_def [symmetric] first_def [symmetric] new_h copy
    using h by (cases "n = 0") (simp_all add: first_def)
qed

lemma try_push_n_empty: "rb_inv rb \<Longrightarrow> try_push_n [] rb = (0, rb)"
  by (simp add: try_push_n_def min_of_def Let_def)

lemma try_push_n_full: "rb_inv rb \<Longrightarrow> length (rb_list rb) = rb_capacity rb \<Longrightarrow> try_push_n xs rb = (0, rb)"
  by (simp add: try_push_n_eq ring_copy_in_def rb_inv_def kCapacity_def)

lemma try_push_n_Cons:
  assumes "rb_inv rb" "length (rb_list rb) < rb_capacity rb" "try_push x rb = (True, rb')"
  shows "try_push_n (x # xs) rb = (case try_push_n xs rb' of (n, rb'') \<Rightarrow> (Suc n, rb''))"
proof -
  have rb': "rb' = rb\<lparr>rb_buf := (rb_buf rb)[rb_head rb := x], rb_head := (rb_head rb + 1) mod kCapacity rb\<rparr>"
    using assms by (simp add: try_push_eq ring_copy_in_single rb_inv_def kCapacity_def)
  have sp: "rb_inv rb'" "length (rb_list rb') = Suc (length (rb_list rb))" "rb_capacity rb' = rb_capacity rb"
    using try_push_spec [OF assms(1,3)] assms(2) by (simp_all add: lq_push_def)
  let ?n = "min (length xs) (rb_capacity rb - Suc (length (rb_list rb)))"
  have n: "min (length (x # xs)) (rb_capacity rb - length (rb_list rb)) = Suc ?n"
    using assms(2) by simp
  have "Suc ?n \<le> length (rb_buf rb)" using assms(1,2) by (simp add: rb_inv_def kCapacity_def rb_capacity_def)
  then have "ring_copy_in (rb_buf rb) (rb_head rb) (x # take ?n xs) =
      ring_copy_in ((rb_buf rb)[rb_head rb := x]) ((rb_head rb + 1) mod kCapacity rb) (take ?n xs)"
    using assms(1) ring_copy_in_Cons [of "rb_head rb" "rb_buf rb" x "take ?n xs"]
    by (simp add: rb_inv_def kCapacity_def)
  moreover have "(rb_head rb + Suc ?n) mod kCapacity rb = ((rb_head rb + 1) mod kCapacity rb + ?n) mod kCapacity rb"
    by (simp add: mod_simps)
  ultimately show ?thesis
    unfolding try_push_n_eq [OF assms(1)] try_push_n_eq [OF sp(1)] n Let_def sp
    by (simp add: rb' kCapacity_def)
qed

lemma try_pop_n_eq:
  assumes "rb_inv rb"
  shows "try_pop_n count rb =
    (let n = min count (length (rb_list rb))
     in (take n (rb_list rb), rb\<lparr>rb_tail := (rb_tail rb + n) mod kCapacity rb\<rparr>))"
proof -
  define n where "n = min count (length (rb_list rb))"
  have avail: "(if rb_head rb \<ge> rb_tail rb then rb_head rb - rb_tail rb
      else kCapacity rb - rb_tail rb + rb_head rb) = length (rb_list rb)"
    by (simp add: rb_list_def ring_used_def kCapacity_def)
  have t: "rb_tail rb < kCapacity rb" using assms by (simp add: rb_inv_def)
  have n: "n < kCapacity rb" "n \<le> length (rb_list rb)"
    using assms rb_list_bounded [OF assms] by (auto simp: n_def rb_inv_def rb_capacity_def)
  have m: "min_of a b = min a b" for a b by (simp add: min_of_def min_def)
  have out: "take n (rb_list rb) = ring_copy_out (rb_buf rb) (rb_tail rb) n"
    using t n by (simp add: ring_copy_out_eq rb_list_def take_ring_seq kCapacity_def)
  have new_t: "(if rb_tail rb + n < kCapacity rb then rb_tail rb + n else rb_tail rb + n - kCapacity rb)
      = (rb_tail rb + n) mod kCapacity rb" using t n by (auto simp: mod_if)
  show ?thesis
    unfolding try_pop_n_def Let_def avail m n_def [symmetric] out new_t ring_copy_out_def
    using t by (cases "n = 0") (simp_all add: kCapacity_def)
qed

lemma try_pop_n_Suc:
  assumes "rb_inv rb" "try_pop rb = (Some x, rb')"
  shows "try_pop_n (Suc k) rb = (case try_pop_n k rb' of (xs, rb'') \<Rightarrow> (x # xs, rb''))"
proof -
  have rb': "rb' = rb\<lparr>rb_tail := (rb_tail rb + 1) mod kCapacity rb\<rparr>"
    using assms by (auto simp: try_pop_def Let_def rb_inv_def increment_mod split: if_splits)
  obtain ys where ys: "rb_list rb = x # ys" "rb_list rb' = ys" and inv: "rb_inv rb'"
    using try_pop_spec [OF assms] by (cases "rb_list rb") auto
  have "(rb_tail rb + Suc n) mod kCapacity rb = ((rb_tail rb + 1) mod kCapacity rb + n) mod kCapacity rb" for n
    by (simp add: mod_simps)
  then show ?thesis
    unfolding try_pop_n_eq [OF assms(1)] try_pop_n_eq [OF inv] Let_def ys
    by (simp add: rb' kCapacity_def)
qed

lemma try_pop_n_empty: "rb_inv rb \<Longrightarrow> rb_list rb = [] \<Longrightarrow> try_pop_n k rb = ([], rb)"
  by (simp add: try_pop_n_eq rb_inv_def)

lemma push_each_eq: "rb_inv rb \<Longrightarrow> try_push_n items rb = push_each items rb"
proof (induction items arbitrary: rb)
  case Nil
  then show ?case by (simp add: try_push_n_empty)
next
  case (Cons x xs)
  obtain b rb' where p: "try_push x rb = (b, rb')" by fastforce
  show ?case
  proof (cases b)
    case True
    with p Cons.prems have "length (rb_list rb) < rb_capacity rb"
      by (auto simp: try_push_eq split: if_splits)
    with True p Cons try_push_spec [OF Cons.prems p] show ?thesis
      by (simp add: try_push_n_Cons)
  next
    case False
    with p Cons.prems rb_list_bounded [OF Cons.prems]
    have "length (rb_list rb) = rb_capacity rb" "rb' = rb" by (auto simp: try_push_eq split: if_splits)
    with False p Cons.prems show ?thesis by (simp add: try_push_n_full)
  qed
qed

lemma pop_each_eq: "rb_inv rb \<Longrightarrow> try_pop_n k rb = pop_each k rb"
proof (induction k arbitrary: rb)
  case 0
  then show ?case by (simp add: try_pop_n_eq rb_inv_def)
next
  case (Suc k)
  obtain r rb' where p: "try_pop rb = (r, rb')" by fastforce
  show ?case
  proof (cases r)
    case None
    with p have "rb_list rb = []" "rb' = rb"
      using rb_empty_iff [OF Suc.prems] by (auto simp: try_pop_def Let_def rb_empty_def split: if_splits)
    with None p Suc.prems show ?thesis by (simp add: try_pop_n_empty)
  next
    case (Some x)
    with p Suc try_pop_spec [OF Suc.prems p] show ?thesis by (simp add: try_pop_n_Suc)
  qed
qed

section \<open>One producer and one consumer, interleaved\<close>

text \<open>
  Each thread runs its operation one atomic access at a time: the producer loads \<open>head_\<close>, loads
  \<open>tail_\<close> and decides, stores the element, stores \<open>head_\<close>; the consumer loads \<open>tail_\<close>, loads
  \<open>head_\<close> and decides, reads the element, stores \<open>tail_\<close>. The acquire/release pairs of the code
  order the element access before the index store that publishes it, so the interleavings of these
  accesses are the behaviours to consider. \<open>sent\<close> and \<open>received\<close> record the history.
\<close>

datatype 'a producer_pc = P_idle | P_head 'a nat | P_room 'a nat | P_stored 'a nat

datatype 'a consumer_pc = C_idle | C_tail nat | C_avail nat | C_read 'a nat

record 'a spsc = "'a ring_buffer" +
  producer :: "'a producer_pc"
  consumer :: "'a consumer_pc"
  sent :: "'a list"
  received :: "'a list"

definition spsc_init :: "nat \<Rightarrow> 'a \<Rightarrow> 'a spsc" where
  "spsc_init n z = ring_buffer.extend (ring_init n z)
     \<lparr>producer = P_idle, consumer = C_idle, sent = [], received = []\<rparr>"

text \<open>The argument \<open>x\<close> is the item of the next \<open>try_push\<close> call, used when the producer is idle.\<close>

fun producer_step :: "'a \<Rightarrow> 'a spsc \<Rightarrow> 'a spsc" where
  "producer_step x s =
     (case producer s of
        P_idle \<Rightarrow> s\<lparr>producer := P_head x (rb_head s)\<rparr>
      | P_head y h \<Rightarrow>
          if increment (kCapacity s) h = rb_tail s then s\<lparr>producer := P_idle\<rparr>
          else s\<lparr>producer := P_room y h\<rparr>
      | P_room y h \<Rightarrow> s\<lparr>rb_buf := (rb_buf s)[h := y], producer := P_stored y h\<rparr>
      | P_stored y h \<Rightarrow>
          s\<lparr>rb_head := increment (kCapacity s) h, producer := P_idle, sent := sent s @ [y]\<rparr>)"

fun consumer_step :: "'a spsc \<Rightarrow> 'a spsc" where
  "consumer_step s =
     (case consumer s of
        C_idle \<Rightarrow> s\<lparr>consumer := C_tail (rb_tail s)\<rparr>
      | C_tail t \<Rightarrow>
          if t = rb_head s then s\<lparr>consumer := C_idle\<rparr> else s\<lparr>consumer := C_avail t\<rparr>
      | C_avail t \<Rightarrow> s\<lparr>consumer := C_read (rb_buf s ! t) t\<rparr>
      | C_read y t \<Rightarrow>
          s\<lparr>rb_tail := increment (kCapacity s) t, consumer := C_idle, received := received s @ [y]\<rparr>)"

inductive spsc_reach :: "nat \<Rightarrow> 'a \<Rightarrow> 'a spsc \<Rightarrow> bool" for n z where
  spsc_start: "spsc_reach n z (spsc_init n z)"
| spsc_producer: "spsc_reach n z s \<Longrightarrow> spsc_reach n z (producer_step x s)"
| spsc_consumer: "spsc_reach n z s \<Longrightarrow> spsc_reach n z (consumer_step s)"

definition spsc_ring :: "'a spsc \<Rightarrow> 'a ring_buffer" where
  "spsc_ring s = ring_buffer.truncate s"

fun producer_ok :: "'a spsc \<Rightarrow> bool" where
  "producer_ok s =
     (case producer s of
        P_idle \<Rightarrow> True
      | P_head y h \<Rightarrow> h = rb_head s
      | P_room y h \<Rightarrow> h = rb_head s \<and> increment (kCapacity s) h \<noteq> rb_tail s
      | P_stored y h \<Rightarrow> h = rb_head s \<and> increment (kCapacity s) h \<noteq> rb_tail s \<and> rb_buf s ! h = y)"

fun consumer_ok :: "'a spsc \<Rightarrow> bool" where
  "consumer_ok s =
     (case consumer s of
        C_idle \<Rightarrow> True
      | C_tail t \<Rightarrow> t = rb_tail s
      | C_avail t \<Rightarrow> t = rb_tail s \<and> t \<noteq> rb_head s
      | C_read y t \<Rightarrow> t = rb_tail s \<and> t \<noteq> rb_head s \<and> rb_buf s ! t = y)"

definition spsc_inv :: "nat \<Rightarrow> 'a spsc \<Rightarrow> bool" where
  "spsc_inv n s \<longleftrightarrow> rb_inv (spsc_ring s) \<and> rb_capacity s = n \<and> producer_ok s \<and> consumer_ok s \<and>
     sent s = received s @ rb_list (spsc_ring s)"

lemmas spsc_ring_simps = spsc_ring_def ring_buffer.defs kCapacity_def

lemma spsc_inv_init: "0 < n \<Longrightarrow> spsc_inv n (spsc_init n z)"
  by (simp add: spsc_inv_def spsc_init_def spsc_ring_simps ring_init_def rb_inv_def rb_capacity_def
      rb_list_def ring_used_def)

text \<open>Storing into the slot behind the head changes none of the elements held.\<close>

lemma rb_list_store_free:
  assumes "rb_inv rb" "increment (kCapacity rb) (rb_head rb) \<noteq> rb_tail rb"
  shows "rb_list (rb\<lparr>rb_buf := (rb_buf rb)[rb_head rb := y]\<rparr>) = rb_list rb"
proof -
  let ?u = "ring_used (length (rb_buf rb)) (rb_head rb) (rb_tail rb)"
  have r: "rb_head rb < length (rb_buf rb)" "rb_tail rb < length (rb_buf rb)"
    using assms(1) by (simp_all add: rb_inv_def kCapacity_def)
  have "?u + 1 \<le> length (rb_buf rb)" using ring_used_less [OF r] by simp
  then have "ring_seq ((rb_buf rb)[rb_head rb := y]) (rb_tail rb) (?u + 1) = ring_seq (rb_buf rb) (rb_tail rb) ?u @ [y]"
    using ring_seq_copy_in [of "rb_tail rb" "rb_buf rb" ?u "[y]"] r
    by (simp add: ring_head_eq ring_copy_in_single)
  then have "take ?u (ring_seq ((rb_buf rb)[rb_head rb := y]) (rb_tail rb) (?u + 1)) = ring_seq (rb_buf rb) (rb_tail rb) ?u"
    by simp
  then show ?thesis by (simp add: rb_list_def take_ring_seq)
qed

text \<open>Publishing the stored element appends it.\<close>

lemma rb_list_publish:
  assumes "rb_inv rb" "increment (kCapacity rb) (rb_head rb) \<noteq> rb_tail rb"
  shows "rb_list (rb\<lparr>rb_head := increment (kCapacity rb) (rb_head rb)\<rparr>) = rb_list rb @ [rb_buf rb ! rb_head rb]"
proof -
  have "length (rb_list rb) < rb_capacity rb"
    using assms rb_full_iff [OF assms(1)] rb_list_bounded [OF assms(1)] by (simp add: rb_full_def)
  with rb_list_append [OF assms(1), of "[rb_buf rb ! rb_head rb]"] assms(1) show ?thesis
    by (simp add: ring_copy_in_single rb_inv_def kCapacity_def increment_mod)
qed

lemma rb_list_consume:
  assumes "rb_inv rb" "rb_tail rb \<noteq> rb_head rb"
  shows "rb_list rb = rb_buf rb ! rb_tail rb # rb_list (rb\<lparr>rb_tail := increment (kCapacity rb) (rb_tail rb)\<rparr>)"
  using try_pop_spec [OF assms(1), of "Some (rb_buf rb ! rb_tail rb)" "rb\<lparr>rb_tail := increment (kCapacity rb) (rb_tail rb)\<rparr>"] assms
  by (cases "rb_list rb") (auto simp: try_pop_def Let_def)

lemma spsc_ring_updates [simp]:
  "spsc_ring (s\<lparr>rb_buf := b\<rparr>) = (spsc_ring s)\<lparr>rb_buf := b\<rparr>"
  "spsc_ring (s\<lparr>rb_head := h\<rparr>) = (spsc_ring s)\<lparr>rb_head := h\<rparr>"
  "spsc_ring (s\<lparr>rb_tail := t\<rparr>) = (spsc_ring s)\<lparr>rb_tail := t\<rparr>"
  "spsc_ring (s\<lparr>producer := p\<rparr>) = spsc_ring s"
  "spsc_ring (s\<lparr>consumer := c\<rparr>) = spsc_ring s"
  "spsc_ring (s\<lparr>sent := xs\<rparr>) = spsc_ring s"
  "spsc_ring (s\<lparr>received := xs\<rparr>) = spsc_ring s"
  by (simp_all add: spsc_ring_def ring_buffer.defs)

lemma spsc_ring_sel [simp]:
  "rb_buf (spsc_ring s) = rb_buf s" "rb_head (spsc_ring s) = rb_head s" "rb_tail (spsc_ring s) = rb_tail s"
  by (simp_all add: spsc_ring_def ring_buffer.defs)

lemma rb_inv_updates:
  "rb_inv rb \<Longrightarrow> rb_inv (rb\<lparr>rb_buf := (rb_buf rb)[i := y]\<rparr>)"
  "rb_inv rb \<Longrightarrow> h < kCapacity rb \<Longrightarrow> rb_inv (rb\<lparr>rb_head := increment (kCapacity rb) h\<rparr>)"
  "rb_inv rb \<Longrightarrow> t < kCapacity rb \<Longrightarrow> rb_inv (rb\<lparr>rb_tail := increment (kCapacity rb) t\<rparr>)"
  by (auto simp: rb_inv_def kCapacity_def increment_mod intro: mod_lessI)

lemma producer_step_inv:
  assumes "spsc_inv n s"
  shows "spsc_inv n (producer_step x s)"
proof -
  note inv = assms [unfolded spsc_inv_def]
  have K: "kCapacity (spsc_ring s) = kCapacity s" by (simp add: kCapacity_def)
  have head: "rb_head s < kCapacity s" using inv by (simp add: rb_inv_def K)
  show ?thesis
  proof (cases "producer s")
    case (P_room y h)
    then have h: "h = rb_head s" and free: "increment (kCapacity s) (rb_head s) \<noteq> rb_tail s"
      using inv by auto
    have "rb_list ((spsc_ring s)\<lparr>rb_buf := (rb_buf s)[rb_head s := y]\<rparr>) = rb_list (spsc_ring s)"
      using rb_list_store_free [of "spsc_ring s" y] inv free K by simp
    moreover have "rb_inv ((spsc_ring s)\<lparr>rb_buf := (rb_buf s)[rb_head s := y]\<rparr>)"
      using rb_inv_updates(1) [of "spsc_ring s"] inv by simp
    moreover have "i \<noteq> rb_head s \<Longrightarrow> (rb_buf s)[rb_head s := y] ! i = rb_buf s ! i" for i by simp
    ultimately show ?thesis
      using P_room h free head inv
      by (auto simp: spsc_inv_def rb_capacity_def kCapacity_def split: consumer_pc.splits)
  next
    case (P_stored y h)
    then have h: "h = rb_head s" and free: "increment (kCapacity s) (rb_head s) \<noteq> rb_tail s"
      and y: "y = rb_buf s ! rb_head s" using inv by auto
    have "rb_list ((spsc_ring s)\<lparr>rb_head := increment (kCapacity s) (rb_head s)\<rparr>) = rb_list (spsc_ring s) @ [y]"
      using rb_list_publish [of "spsc_ring s"] inv free K y by simp
    moreover have "rb_inv ((spsc_ring s)\<lparr>rb_head := increment (kCapacity s) (rb_head s)\<rparr>)"
      using rb_inv_updates(2) [of "spsc_ring s" "rb_head s"] inv head K by simp
    ultimately show ?thesis
      using P_stored h free inv
      by (auto simp: spsc_inv_def rb_capacity_def kCapacity_def split: consumer_pc.splits)
  qed (use inv in \<open>auto simp: spsc_inv_def rb_capacity_def kCapacity_def split: consumer_pc.splits\<close>)
qed

lemma consumer_step_inv:
  assumes "spsc_inv n s"
  shows "spsc_inv n (consumer_step s)"
proof (cases "consumer s")
  case (C_read y t)
  note inv = assms [unfolded spsc_inv_def]
  have K: "kCapacity (spsc_ring s) = kCapacity s" by (simp add: kCapacity_def)
  from C_read have t: "t = rb_tail s" and ne: "rb_tail s \<noteq> rb_head s" and y: "y = rb_buf s ! rb_tail s"
    using inv by auto
  have lt: "rb_head s < kCapacity s" "rb_tail s < kCapacity s" using inv by (simp_all add: rb_inv_def K)
  have "rb_list (spsc_ring s) = y # rb_list ((spsc_ring s)\<lparr>rb_tail := increment (kCapacity s) (rb_tail s)\<rparr>)"
    using rb_list_consume [of "spsc_ring s"] inv ne K y by simp
  moreover have "rb_inv ((spsc_ring s)\<lparr>rb_tail := increment (kCapacity s) (rb_tail s)\<rparr>)"
    using rb_inv_updates(3) [of "spsc_ring s" "rb_tail s"] inv lt K by simp
  moreover have "increment (kCapacity s) (rb_head s) \<noteq> increment (kCapacity s) (rb_tail s)"
    using lt ne by (auto simp: increment_def split: if_splits)
  ultimately show ?thesis
    using C_read t inv
    by (auto simp: spsc_inv_def rb_capacity_def kCapacity_def split: producer_pc.splits)
qed (use assms in \<open>auto simp: spsc_inv_def rb_capacity_def kCapacity_def split: producer_pc.splits\<close>)

lemma spsc_reach_inv: "spsc_reach n z s \<Longrightarrow> 0 < n \<Longrightarrow> spsc_inv n s"
  by (induction rule: spsc_reach.induct)
    (simp_all add: spsc_inv_init producer_step_inv consumer_step_inv
      del: producer_step.simps consumer_step.simps)

lemma spsc_reach_funpow:
  "spsc_reach n z s \<Longrightarrow> spsc_reach n z ((producer_step x ^^ k) s)"
  "spsc_reach n z s \<Longrightarrow> spsc_reach n z ((consumer_step ^^ k) s)"
  by (induction k)
    (simp_all add: spsc_producer spsc_consumer del: producer_step.simps consumer_step.simps)

section \<open>Properties\<close>

text \<open>
  C1: any sequence of \<open>try_push\<close> and \<open>try_pop\<close> calls on a new buffer of capacity \<open>n\<close> is answered
  exactly as by a list of at most \<open>n\<close> elements; what was accepted is what was delivered followed
  by what the buffer still holds, in order.
\<close>

theorem ring_run_refines:
  assumes "0 < n" "fifo_run try_push try_pop cs (ring_init n z) = (rs, rb')"
  shows "fifo_run (lq_push n) lq_pop cs [] = (rs, rb_list rb') \<and>
    accepted cs rs = delivered rs @ rb_list rb' \<and> length (rb_list rb') \<le> n"
proof -
  have cap: "rb_capacity (ring_init n z) = n" by (simp add: rb_capacity_def ring_init_def kCapacity_def)
  have fits: "\<forall>c \<in> set cs. fits_op (\<lambda>_. True) c"
  proof
    fix c assume "c \<in> set cs"
    show "fits_op (\<lambda>_. True) c" by (cases c) simp_all
  qed
  from ring.run_refines [OF rb_inv_init [OF assms(1)] fits assms(2)]
    ring.run_conserves [OF rb_inv_init [OF assms(1)] fits assms(2)] cap
  show ?thesis by simp
qed

theorem ring_run_refines_witness:
  "fifo_run try_push try_pop [Push 1, Push 2, Push (3::nat), Pop, Push 3, Pop, Pop, Pop] (ring_init 2 0) =
     ([Pushed True, Pushed True, Pushed False, Popped (Some 1), Pushed True, Popped (Some 2), Popped (Some 3), Popped None],
      \<lparr>rb_buf = [1, 2, 3], rb_head = 0, rb_tail = 0\<rparr>) \<and>
   accepted [Push 1, Push 2, Push (3::nat), Pop, Push 3, Pop, Pop, Pop]
     [Pushed True, Pushed True, Pushed False, Popped (Some 1), Pushed True, Popped (Some 2), Popped (Some 3), Popped None] =
   [1, 2, 3]"
proof -
  let ?cs = "[Push 1, Push 2, Push (3::nat), Pop, Push 3, Pop, Pop, Pop]"
    and ?rs = "[Pushed True, Pushed True, Pushed False, Popped (Some 1), Pushed True,
       Popped (Some 2), Popped (Some 3), Popped (None :: nat option)]"
    and ?rb = "\<lparr>rb_buf = [1, 2, 3], rb_head = 0, rb_tail = 0\<rparr> :: nat ring_buffer"
  have run: "fifo_run try_push try_pop ?cs (ring_init 2 0) = (?rs, ?rb)"
    by (simp add: try_push_def try_pop_def ring_init_def increment_def kCapacity_def Let_def numeral_2_eq_2)
  from ring_run_refines [OF _ run] run show ?thesis by simp
qed

text \<open>
  C10: the bulk operations, with their two \<^verbatim>\<open>memcpy\<close> chunks across the wrap, have exactly the
  effect, on the result and on every slot and index, of repeating the single operation until it
  fails or the count is reached.
\<close>

theorem ring_bulk_equivalence:
  assumes "rb_inv rb"
  shows "try_push_n items rb = push_each items rb \<and> try_pop_n k rb = pop_each k rb"
  using push_each_eq [OF assms] pop_each_eq [OF assms] by simp

theorem ring_bulk_equivalence_witness:
  "try_push_n [5, 6, 7] \<lparr>rb_buf = [0, 0, 9 :: nat, 8], rb_head = 3, rb_tail = 2\<rparr> =
     (2, \<lparr>rb_buf = [6, 0, 9, 5], rb_head = 1, rb_tail = 2\<rparr>) \<and>
   push_each [5, 6, 7] \<lparr>rb_buf = [0, 0, 9 :: nat, 8], rb_head = 3, rb_tail = 2\<rparr> =
     (2, \<lparr>rb_buf = [6, 0, 9, 5], rb_head = 1, rb_tail = 2\<rparr>)"
proof -
  let ?rb = "\<lparr>rb_buf = [0, 0, 9 :: nat, 8], rb_head = 3, rb_tail = 2\<rparr>"
  have inv: "rb_inv ?rb" by (simp add: rb_inv_def kCapacity_def)
  have "push_each [5, 6, 7] ?rb = (2, \<lparr>rb_buf = [6, 0, 9, 5], rb_head = 1, rb_tail = 2\<rparr>)"
    by (simp add: try_push_def increment_def kCapacity_def Let_def numeral_3_eq_3)
  with ring_bulk_equivalence [OF inv, of "[5, 6, 7]" 0] show ?thesis by simp
qed

text \<open>
  The queries report the abstract queue: its length, its free space, emptiness, fullness and
  its first element; \<open>reset\<close> empties it and \<open>peek\<close> agrees with the \<open>try_pop\<close> that follows.
\<close>

theorem ring_queries:
  assumes "rb_inv rb"
  shows "rb_size rb = length (rb_list rb) \<and> rb_size rb + rb_free rb = rb_capacity rb \<and>
    (rb_empty rb \<longleftrightarrow> rb_list rb = []) \<and> (rb_full rb \<longleftrightarrow> rb_free rb = 0) \<and>
    peek rb = (case rb_list rb of [] \<Rightarrow> None | x # _ \<Rightarrow> Some x) \<and> peek rb = fst (try_pop rb) \<and>
    rb_inv (rb_reset rb) \<and> rb_list (rb_reset rb) = []"
proof -
  have "fst (try_pop rb) = fst (lq_pop (rb_list rb))"
    using try_pop_spec [OF assms] by (metis fst_conv prod.collapse)
  moreover have "peek rb = fst (try_pop rb)" by (simp add: peek_def try_pop_def Let_def)
  ultimately show ?thesis
    using assms rb_full_iff [OF assms] rb_empty_iff [OF assms] rb_list_bounded [OF assms]
    by (auto simp: rb_size_eq rb_free_def rb_reset_def rb_inv_def kCapacity_def
        rb_list_def [of "rb\<lparr>rb_tail := _\<rparr>"] ring_used_def split: list.splits)
qed

theorem ring_queries_witness:
  "rb_size \<lparr>rb_buf = [6, 0, 9 :: nat, 5], rb_head = 1, rb_tail = 2\<rparr> = 3 \<and>
   rb_full \<lparr>rb_buf = [6, 0, 9 :: nat, 5], rb_head = 1, rb_tail = 2\<rparr> \<and>
   peek \<lparr>rb_buf = [6, 0, 9 :: nat, 5], rb_head = 1, rb_tail = 2\<rparr> = Some 9"
proof -
  let ?rb = "\<lparr>rb_buf = [6, 0, 9 :: nat, 5], rb_head = 1, rb_tail = 2\<rparr>"
  have "rb_inv ?rb" by (simp add: rb_inv_def kCapacity_def)
  moreover have "rb_size ?rb = 3" by (simp add: rb_size_def kCapacity_def)
  moreover have "peek ?rb = Some 9" by (simp add: peek_def)
  moreover have "rb_capacity ?rb = 3" by (simp add: rb_capacity_def kCapacity_def)
  ultimately show ?thesis using ring_queries [of ?rb] by simp
qed

text \<open>
  C2: under every interleaving of the atomic accesses of one producer and one consumer, what has
  been received is a prefix of what has been sent, at most \<open>n\<close> elements are in flight, every index
  stays inside the array, and the slot the producer is about to write is never the slot the
  consumer is about to read or has just read (no data race on an element).
\<close>

theorem spsc_safe:
  assumes "0 < n" "spsc_reach n z s"
  shows "sent s = received s @ rb_list (spsc_ring s) \<and> length (sent s) \<le> length (received s) + n \<and>
    rb_head s \<le> n \<and> rb_tail s \<le> n \<and>
    (\<forall>y h t x. (producer s = P_room y h \<or> producer s = P_stored y h) \<longrightarrow>
       (consumer s = C_avail t \<or> consumer s = C_read x t) \<longrightarrow> h \<noteq> t)"
proof -
  from spsc_reach_inv [OF assms(2,1)] have inv: "spsc_inv n s" .
  then have "rb_inv (spsc_ring s)" "rb_capacity (spsc_ring s) = n"
    by (simp_all add: spsc_inv_def rb_capacity_def kCapacity_def)
  with rb_list_bounded [of "spsc_ring s"] inv show ?thesis
    by (auto simp: spsc_inv_def rb_inv_def rb_capacity_def kCapacity_def)
qed

theorem spsc_safe_witness:
  "let s = (consumer_step ^^ 3) ((producer_step 7 ^^ 7) (spsc_init 2 (0 :: nat)))
   in producer s = P_stored 7 1 \<and> consumer s = C_read 7 0 \<and> sent s = received s @ rb_list (spsc_ring s) \<and>
      sent s = [7]"
proof -
  let ?s = "(consumer_step ^^ 3) ((producer_step 7 ^^ 7) (spsc_init 2 (0 :: nat)))"
  have "spsc_reach 2 0 ?s"
    by (intro spsc_reach_funpow spsc_start)
  note safe = spsc_safe [OF _ this]
  have "?s = \<lparr>rb_buf = [7, 7, 0], rb_head = 1, rb_tail = 0, producer = P_stored 7 1,
      consumer = C_read 7 0, sent = [7], received = []\<rparr>"
    by (simp add: numeral_eq_Suc spsc_init_def ring_buffer.defs ring_init_def increment_def kCapacity_def)
  with safe show ?thesis by simp
qed

end
