(* ===== verification/Slot_Pool.thy ===== *)
theory Slot_Pool
  imports Osal_Prelude
begin

text \<open>
  The contract of a static pool of slots, which every primitive of the bare-metal backend and every
  emulated primitive is allocated from, and the first-fit search over an occupancy bit map that
  most of them use. What a user of any such pool may rely on (handles that are live at the same
  time are different, a slot can be reused after it is released, allocation fails only when all
  slots are live) is proved once in the locale.
\<close>

section \<open>Occupancy bit maps\<close>

text \<open>
  One bit per slot, eight slots per byte:
  \<^verbatim>\<open>bits[i / 8] & static_cast<std::uint8_t>(1U << (i % 8))\<close>.
\<close>

definition bit_used :: "byte list \<Rightarrow> nat \<Rightarrow> bool" where
  "bit_used bits i \<longleftrightarrow> bits ! (i div 8) AND push_bit (i mod 8) 1 \<noteq> 0"

definition bit_mark :: "byte list \<Rightarrow> nat \<Rightarrow> byte list" where
  "bit_mark bits i = bits[i div 8 := bits ! (i div 8) OR push_bit (i mod 8) 1]"

definition bit_unmark :: "byte list \<Rightarrow> nat \<Rightarrow> byte list" where
  "bit_unmark bits i = bits[i div 8 := bits ! (i div 8) AND NOT (push_bit (i mod 8) 1)]"

text \<open>The loop \<^verbatim>\<open>for (i = 0; i < MAX; ++i) if (free) ...\<close> from index \<open>i\<close>, with \<open>k\<close> slots to go.\<close>

fun first_free :: "byte list \<Rightarrow> nat \<Rightarrow> nat \<Rightarrow> nat option" where
  "first_free bits i 0 = None"
| "first_free bits i (Suc k) = (if \<not> bit_used bits i then Some i else first_free bits (Suc i) k)"

definition bits_cover :: "byte list \<Rightarrow> nat \<Rightarrow> bool" where
  "bits_cover bits n \<longleftrightarrow> length bits = (n + 7) div 8"

definition used_set :: "byte list \<Rightarrow> nat \<Rightarrow> nat set" where
  "used_set bits n = {i. i < n \<and> bit_used bits i}"

lemma bits_cover_index: "bits_cover bits n \<Longrightarrow> i < n \<Longrightarrow> i div 8 < length bits"
  by (auto simp: bits_cover_def)

lemma bit_used_bit: "bit_used bits i \<longleftrightarrow> bit (bits ! (i div 8)) (i mod 8)"
  by (simp add: bit_used_def bit_iff_and_push_bit_not_eq_0)

lemma bit_used_mark:
  assumes "i div 8 < length bits"
  shows "bit_used (bit_mark bits i) j \<longleftrightarrow> j = i \<or> bit_used bits j"
proof -
  have "j = i \<longleftrightarrow> j div 8 = i div 8 \<and> j mod 8 = i mod 8"
    by (metis div_mult_mod_eq)
  moreover have "i mod 8 < 8" by simp
  ultimately show ?thesis
    using assms
    by (cases "j div 8 = i div 8")
      (auto simp: bit_used_bit bit_mark_def bit_or_iff bit_exp_iff)
qed

lemma bit_used_unmark:
  assumes "i div 8 < length bits"
  shows "bit_used (bit_unmark bits i) j \<longleftrightarrow> j \<noteq> i \<and> bit_used bits j"
proof -
  have "j = i \<longleftrightarrow> j div 8 = i div 8 \<and> j mod 8 = i mod 8"
    by (metis div_mult_mod_eq)
  moreover have "j mod 8 < 8" by simp
  ultimately show ?thesis
    using assms
    by (cases "j div 8 = i div 8")
      (auto simp: bit_used_bit bit_unmark_def bit_and_iff bit_not_iff bit_exp_iff)
qed

lemma bits_cover_mark [simp]: "bits_cover (bit_mark bits i) n = bits_cover bits n"
  by (simp add: bits_cover_def bit_mark_def)

lemma bits_cover_unmark [simp]: "bits_cover (bit_unmark bits i) n = bits_cover bits n"
  by (simp add: bits_cover_def bit_unmark_def)

lemma used_set_mark [pool_simps]:
  "bits_cover bits n \<Longrightarrow> i < n \<Longrightarrow> used_set (bit_mark bits i) n = insert i (used_set bits n)"
  by (auto simp: used_set_def bit_used_mark bits_cover_index)

lemma used_set_unmark [pool_simps]:
  "bits_cover bits n \<Longrightarrow> i < n \<Longrightarrow> used_set (bit_unmark bits i) n = used_set bits n - {i}"
  by (auto simp: used_set_def bit_used_unmark bits_cover_index)

lemma used_set_less [pool_simps]: "i \<in> used_set bits n \<Longrightarrow> i < n"
  by (simp add: used_set_def)

lemma first_free_Some:
  "first_free bits i k = Some j \<Longrightarrow> i \<le> j \<and> j < i + k \<and> \<not> bit_used bits j \<and> (\<forall>m \<in> {i..<j}. bit_used bits m)"
proof (induction bits i k rule: first_free.induct)
  case (2 bits i k)
  then show ?case
    by (cases "bit_used bits i") (auto simp: Suc_le_eq dest: le_neq_implies_less)
qed simp

lemma first_free_None: "first_free bits i k = None \<longleftrightarrow> (\<forall>m \<in> {i..<i + k}. bit_used bits m)"
proof (induction bits i k rule: first_free.induct)
  case (2 bits i k)
  have "{i..<i + Suc k} = insert i {Suc i..<Suc i + k}" by auto
  with 2 show ?case by auto
qed simp

lemma first_free_pool:
  "first_free bits 0 n = Some i \<Longrightarrow> i < n \<and> i \<notin> used_set bits n"
  "first_free bits 0 n = None \<Longrightarrow> used_set bits n = {..<n}"
  using first_free_Some [of bits 0 n i] by (auto simp: first_free_None used_set_def)

text \<open>The emulated primitives keep an array of flags instead; the search over it.\<close>

fun first_unused :: "bool list \<Rightarrow> nat \<Rightarrow> nat option" where
  "first_unused [] i = None"
| "first_unused (u # us) i = (if \<not> u then Some i else first_unused us (Suc i))"

lemma first_unused_Some:
  "first_unused us i = Some j \<Longrightarrow> i \<le> j \<and> j < i + length us \<and> \<not> us ! (j - i)"
  by (induction us i rule: first_unused.induct) (fastforce simp: nth_Cons' Suc_le_eq split: if_splits)+

section \<open>The contract\<close>

text \<open>A client's requests: allocate, or release the \<open>k\<close>-th of its live handles.\<close>

datatype pool_op = Acquire | Release nat

fun pool_step :: "('s \<Rightarrow> nat option \<times> 's) \<Rightarrow> (nat \<Rightarrow> 's \<Rightarrow> 's) \<Rightarrow> pool_op \<Rightarrow> nat list \<times> 's \<Rightarrow> nat list \<times> 's"
where
  "pool_step alloc release Acquire (live, s) =
     (case alloc s of (None, s') \<Rightarrow> (live, s') | (Some i, s') \<Rightarrow> (live @ [i], s'))"
| "pool_step alloc release (Release k) (live, s) =
     (if k < length live then (take k live @ drop (Suc k) live, release (live ! k) s) else (live, s))"

definition pool_run :: "('s \<Rightarrow> nat option \<times> 's) \<Rightarrow> (nat \<Rightarrow> 's \<Rightarrow> 's) \<Rightarrow> pool_op list \<Rightarrow> nat list \<times> 's \<Rightarrow> nat list \<times> 's"
where
  "pool_run alloc release cs p = fold (pool_step alloc release) cs p"

lemma distinct_remove_nth:
  assumes "distinct xs" "k < length xs"
  shows "distinct (take k xs @ drop (Suc k) xs)" "set (take k xs @ drop (Suc k) xs) = set xs - {xs ! k}"
proof -
  have xs: "xs = take k xs @ xs ! k # drop (Suc k) xs" by (rule id_take_nth_drop [OF assms(2)])
  with assms(1) have d: "distinct (take k xs @ xs ! k # drop (Suc k) xs)" by simp
  then show "distinct (take k xs @ drop (Suc k) xs)" by auto
  from d have "set (take k xs @ drop (Suc k) xs) = set (take k xs @ xs ! k # drop (Suc k) xs) - {xs ! k}"
    by auto
  with xs show "set (take k xs @ drop (Suc k) xs) = set xs - {xs ! k}" by simp
qed

locale slot_pool =
  fixes inv :: "'s \<Rightarrow> bool"
    and cap :: "'s \<Rightarrow> nat"
    and used :: "'s \<Rightarrow> nat set"
    and alloc :: "'s \<Rightarrow> nat option \<times> 's"
    and release :: "nat \<Rightarrow> 's \<Rightarrow> 's"
  assumes used_bounded: "inv s \<Longrightarrow> used s \<subseteq> {..<cap s}"
    and alloc_some: "inv s \<Longrightarrow> alloc s = (Some i, s') \<Longrightarrow>
      i < cap s \<and> i \<notin> used s \<and> used s' = insert i (used s) \<and> inv s' \<and> cap s' = cap s"
    and alloc_none: "inv s \<Longrightarrow> alloc s = (None, s') \<Longrightarrow> used s = {..<cap s} \<and> s' = s"
    and release_law: "inv s \<Longrightarrow> i \<in> used s \<Longrightarrow>
      used (release i s) = used s - {i} \<and> inv (release i s) \<and> cap (release i s) = cap s"
begin

lemma step_live:
  assumes "inv s" "distinct live" "set live = used s" "pool_step alloc release c (live, s) = (live', s')"
  shows "distinct live' \<and> set live' = used s' \<and> inv s' \<and> cap s' = cap s"
proof (cases c)
  case Acquire
  with assms show ?thesis
    using alloc_some [OF assms(1)] alloc_none [OF assms(1)]
    by (cases "alloc s"; cases "fst (alloc s)") auto
next
  case (Release k)
  show ?thesis
  proof (cases "k < length live")
    case True
    then have "live ! k \<in> used s" using assms(3) nth_mem by blast
    with Release True assms release_law [OF assms(1)] distinct_remove_nth [OF assms(2) True]
    show ?thesis by auto
  qed (use Release assms in auto)
qed

text \<open>However allocations and releases are ordered, the live handles are the occupied slots.\<close>

theorem run_live:
  assumes "inv s" "distinct live" "set live = used s" "pool_run alloc release cs (live, s) = (live', s')"
  shows "distinct live' \<and> set live' = used s' \<and> length live' \<le> cap s \<and> inv s' \<and> cap s' = cap s"
  using assms
proof (induction cs arbitrary: live s)
  case Nil
  then have "card (used s) \<le> cap s" using used_bounded [of s] card_mono [of "{..<cap s}"] by force
  with Nil show ?case by (auto simp: pool_run_def distinct_card [symmetric])
next
  case (Cons c cs)
  obtain l1 s1 where st: "pool_step alloc release c (live, s) = (l1, s1)" by fastforce
  then have "pool_run alloc release cs (l1, s1) = (live', s')"
    using Cons.prems(4) by (simp add: pool_run_def)
  with Cons.IH [of s1 l1] step_live [OF Cons.prems(1-3) st] show ?case by auto
qed

text \<open>Allocation fails exactly when as many handles are live as there are slots.\<close>

lemma alloc_fails_iff:
  assumes "inv s" "distinct live" "set live = used s"
  shows "fst (alloc s) = None \<longleftrightarrow> length live = cap s"
proof -
  obtain r s' where a: "alloc s = (r, s')" by fastforce
  have len: "length live = card (used s)" using assms by (simp add: distinct_card [symmetric])
  have fin: "finite (used s)" using assms(3) by (metis List.finite_set)
  show ?thesis
  proof (cases r)
    case None
    then show ?thesis using alloc_none [OF assms(1)] a len by simp
  next
    case (Some i)
    then have "insert i (used s) \<subseteq> {..<cap s}" "i \<notin> used s"
      using alloc_some [OF assms(1)] a used_bounded [OF assms(1)] by auto
    then have "Suc (card (used s)) \<le> cap s"
      using card_mono [of "{..<cap s}" "insert i (used s)"] fin by simp
    then show ?thesis using Some a len by simp
  qed
qed

end

end
