(* ===== verification/Bm_State.thy ===== *)
theory Bm_State
  imports Osal_Clock Slot_Pool
begin

text \<open>
  The state of the bare-metal backend (\<^verbatim>\<open>src/bare_metal/bare_metal_backend.cpp\<close>): the tick
  counter, the task table and the static pools; the clock functions; and the shape the blocking
  operations share, a loop that tries, checks its deadline and yields.

  The pools are arrays of a size fixed at compile time (\<^verbatim>\<open>OSAL_BM_MAX_...\<close>): here lists, whose
  length no operation changes. Function pointers and the \<^verbatim>\<open>void*\<close> arguments of callbacks are
  opaque numbers. Operations of the emulated primitives run on extensions of \<open>bm_state\<close>, so the
  operations below are typed over the record scheme.
\<close>

record bm_mutex =
  mtx_flag :: bool

record bm_semaphore =
  sem_count :: u32
  sem_max :: u32

record bm_queue =
  q_buf :: "byte list"
  q_item_size :: nat
  q_capacity :: nat
  q_head :: nat
  q_tail :: nat
  q_count :: nat

record bm_timer =
  tm_fn :: "nat option"
  tm_arg :: nat
  tm_deadline :: u64
  tm_period :: tick_t
  tm_auto_reload :: bool
  tm_active :: bool
  tm_valid :: bool

record bm_task =
  tk_flags :: byte
  tk_entry :: nat
  tk_arg :: nat
  tk_stack :: handle
  tk_stack_bytes :: nat

record bm_state =
  g_ticks :: u64
  bm_tasks :: "bm_task list"
  bm_current :: int
  bm_last_scheduled :: int
  bm_mutex_pool :: "bm_mutex list"
  bm_mutex_used_bits :: "byte list"
  bm_sem_pool :: "bm_semaphore list"
  bm_sem_used_bits :: "byte list"
  bm_queue_pool :: "bm_queue list"
  bm_queue_used_bits :: "byte list"
  bm_timer_pool :: "bm_timer list"

section \<open>Ticks and the clock\<close>

definition bm_ticks_now :: "'z bm_state_scheme \<Rightarrow> u64" where
  "bm_ticks_now s = g_ticks s"

definition bm_ticks_advance_one :: "'z bm_state_scheme \<Rightarrow> u64 \<times> 'z bm_state_scheme" where
  "bm_ticks_advance_one s = (g_ticks s + 1, s\<lparr>g_ticks := g_ticks s + 1\<rparr>)"

definition osal_baremetal_tick :: "'z bm_state_scheme \<Rightarrow> 'z bm_state_scheme" where
  "osal_baremetal_tick s = snd (bm_ticks_advance_one s)"

text \<open>The conversion to \<^verbatim>\<open>std::int64_t\<close> reads the counter as a signed number.\<close>

definition osal_clock_monotonic_ms :: "'z bm_state_scheme \<Rightarrow> int" where
  "osal_clock_monotonic_ms s = sint (bm_ticks_now s)"

definition osal_clock_system_ms :: "'z bm_state_scheme \<Rightarrow> int" where
  "osal_clock_system_ms s = osal_clock_monotonic_ms s"

definition osal_clock_ticks :: "'z bm_state_scheme \<Rightarrow> tick_t" where
  "osal_clock_ticks s = ucast (bm_ticks_now s)"

definition osal_clock_tick_period_us :: u32 where
  "osal_clock_tick_period_us = 1000"

section \<open>Handles\<close>

text \<open>
  \<^verbatim>\<open>handle == nullptr || handle->native == nullptr\<close>: the argument is \<open>None\<close> for a null handle
  pointer and \<open>Some None\<close> for a handle that is not initialised.
\<close>

definition native_of :: "handle option \<Rightarrow> nat option" where
  "native_of h = Option.bind h (\<lambda>n. n)"

lemma native_of_simps [simp]:
  "native_of None = None" "native_of (Some None) = None" "native_of (Some (Some i)) = Some i"
  by (simp_all add: native_of_def)

section \<open>Blocking loops\<close>

text \<open>
  \<^verbatim>\<open>(timeout == WAIT_FOREVER) ? UINT64_MAX : bm_ticks_now() + timeout\<close>
\<close>

definition bm_deadline :: "tick_t \<Rightarrow> 'z bm_state_scheme \<Rightarrow> u64" where
  "bm_deadline timeout s = (if timeout = WAIT_FOREVER then - 1 else bm_ticks_now s + ucast timeout)"

text \<open>
  While an operation waits, interrupt handlers and other tasks run. An environment lists what they
  do to the state at the successive points where the operation lets them: one entry per
  \<open>bm_wait_yield\<close>, per window between the load and the compare-exchange of an atomic counter, and
  where an operation has let go of the mutex of its caller in order to sleep (\<open>sched\<close>);
  its flag says that this compare-exchange fails spuriously (\<^verbatim>\<open>compare_exchange_weak\<close>). An
  operation consumes the entries it used and returns the rest; it is \<open>None\<close> when the list ends
  before the operation does.
\<close>

type_synonym 's env = "(('s \<Rightarrow> 's) \<times> bool) list"

text \<open>A point in the middle of an operation where the others run.\<close>

definition sched :: "'s env \<Rightarrow> 's \<Rightarrow> ('s \<times> 's env) option" where
  "sched env s = (case env of [] \<Rightarrow> None | e # env' \<Rightarrow> Some (fst e s, env'))"

lemma sched_simps [simp]: "sched [] s = None" "sched (e # env) s = Some (fst e s, env)"
  by (simp_all add: sched_def)

text \<open>What the others alone make of a state at a run of scheduling points.\<close>

definition env_run :: "'s env \<Rightarrow> 's \<Rightarrow> 's" where
  "env_run env s = fold fst env s"

lemma env_run_simps [simp]: "env_run [] s = s" "env_run (e # env) s = env_run env (fst e s)"
  by (simp_all add: env_run_def)

fun wait_loop :: "('s \<Rightarrow> 'r option \<times> 's) \<Rightarrow> 's env \<Rightarrow> 's \<Rightarrow> ('r \<times> 's \<times> 's env) option" where
  "wait_loop body [] s =
     (case body s of (Some r, s') \<Rightarrow> Some (r, s', []) | (None, s') \<Rightarrow> None)"
| "wait_loop body (e # env) s =
     (case body s of
        (Some r, s') \<Rightarrow> Some (r, s', e # env)
      | (None, s') \<Rightarrow> wait_loop body env (fst e s'))"

text \<open>Interference that lets time pass: at each entry at least one tick arrives.\<close>

definition ticking :: "('z bm_state_scheme \<Rightarrow> 'z bm_state_scheme) \<Rightarrow> bool" where
  "ticking f \<longleftrightarrow> (\<forall>s. unat (g_ticks s) < 2 ^ 64 - 1 \<longrightarrow> unat (g_ticks s) < unat (g_ticks (f s)))"

lemma ticking_tick: "ticking osal_baremetal_tick"
  unfolding ticking_def
proof (intro allI impI)
  fix s :: "'z bm_state_scheme"
  assume "unat (g_ticks s) < 2 ^ 64 - 1"
  then have "unat (g_ticks s + 1) = unat (g_ticks s) + 1"
    using unat_add_fits [of "g_ticks s" 1] by simp
  then show "unat (g_ticks s) < unat (g_ticks (osal_baremetal_tick s))"
    by (simp add: osal_baremetal_tick_def bm_ticks_advance_one_def)
qed

lemma tickingD:
  assumes "ticking f" "unat (g_ticks s) < unat (d :: u64)"
  shows "unat (g_ticks s) < unat (g_ticks (f s))"
proof -
  have "unat d \<le> 2 ^ 64 - 1" using unat_lt2p [of d] by simp
  with assms(2) have "unat (g_ticks s) < 2 ^ 64 - 1" by linarith
  with assms(1) show ?thesis unfolding ticking_def by blast
qed

text \<open>A wait loop that gives up at its deadline returns, if time passes while it waits.\<close>

lemma wait_loop_returns:
  assumes "\<And>s s'. body s = (None, s') \<Longrightarrow> g_ticks s' = g_ticks s \<and> g_ticks s < deadline"
    and "\<forall>e \<in> set env. ticking (fst e)"
    and "unat deadline \<le> unat (g_ticks s) + length env"
  shows "\<exists>r s' env'. wait_loop body env s = Some (r, s', env')"
  using assms(2,3)
proof (induction env arbitrary: s)
  case Nil
  then have "\<not> g_ticks s < deadline" by (simp add: word_less_nat_alt)
  then have nb: "body s \<noteq> (None, s1)" for s1 using assms(1) by blast
  obtain o' s1 where b: "body s = (o', s1)" by fastforce
  with nb [of s1] obtain r where "o' = Some r" by (cases o') simp_all
  with b show ?case by simp
next
  case (Cons e env)
  obtain o' s1 where b: "body s = (o', s1)" by fastforce
  show ?case
  proof (cases o')
    case None
    with b have "g_ticks s1 = g_ticks s" and lt: "unat (g_ticks s) < unat deadline"
      using assms(1) [of s s1] by (simp_all add: word_less_nat_alt)
    moreover have "ticking (fst e)" using Cons.prems(1) by simp
    ultimately have "unat (g_ticks s) < unat (g_ticks (fst e s1))"
      using tickingD [of "fst e" s1 deadline] by simp
    then have "unat deadline \<le> unat (g_ticks (fst e s1)) + length env" using Cons.prems(2) by simp
    with Cons.IH [of "fst e s1"] Cons.prems(1) b None show ?thesis by auto
  qed (use b in simp)
qed

text \<open>What holds before every attempt and is kept by the interference holds at the successful one.\<close>

lemma wait_loop_last:
  assumes "wait_loop body env s = Some (r, s', env')" "I s"
    and "\<And>s s1. I s \<Longrightarrow> body s = (None, s1) \<Longrightarrow> I s1"
    and "\<And>e s. e \<in> set env \<Longrightarrow> I s \<Longrightarrow> I (fst e s)"
  shows "\<exists>s0. I s0 \<and> body s0 = (Some r, s')"
  using assms
proof (induction env arbitrary: s)
  case Nil
  then show ?case by (auto split: prod.splits option.splits)
next
  case (Cons e env)
  obtain o' s1 where b: "body s = (o', s1)" by fastforce
  show ?case
  proof (cases o')
    case None
    with b Cons.prems have "I (fst e s1)" by simp
    with Cons b None show ?thesis by auto
  qed (use b Cons.prems in auto)
qed

lemma unat_bm_deadline:
  assumes "timeout \<noteq> WAIT_FOREVER" "unat (g_ticks s) + unat timeout < 2 ^ 64"
  shows "unat (bm_deadline timeout s) = unat (g_ticks s) + unat timeout"
proof -
  have "unat (ucast timeout :: u64) = unat timeout" by (rule unat_ucast_up) simp
  with assms show ?thesis
    using unat_add_fits [of "g_ticks s" "ucast timeout"] by (simp add: bm_deadline_def bm_ticks_now_def)
qed

end
