(* ===== verification/Bm_Queue.thy ===== *)
theory Bm_Queue
  imports Bm_State Ring_Algebra Fifo_Spec
begin

text \<open>
  The bare-metal message queue: a circular array of \<open>capacity\<close> items of \<open>item_size\<close> bytes in a
  buffer the caller supplies, which the queue owns from then on. Each attempt runs in a critical
  section, so it is one step; the operations around it wait for space or for an item.
\<close>

definition osal_queue_create ::
  "handle \<Rightarrow> byte list \<Rightarrow> nat \<Rightarrow> nat \<Rightarrow> 'z bm_state_scheme \<Rightarrow> error_code \<times> handle \<times> 'z bm_state_scheme" where
  "osal_queue_create hnd buf item_size capacity s =
     (case first_free (bm_queue_used_bits s) 0 (length (bm_queue_pool s)) of
        Some i \<Rightarrow>
          (Ok, Some i,
           s\<lparr>bm_queue_used_bits := bit_mark (bm_queue_used_bits s) i,
             bm_queue_pool := (bm_queue_pool s)[i :=
               \<lparr>q_buf = buf, q_item_size = item_size, q_capacity = capacity, q_head = 0, q_tail = 0, q_count = 0\<rparr>]\<rparr>)
      | None \<Rightarrow> (Out_of_resources, hnd, s))"

definition osal_queue_destroy :: "handle option \<Rightarrow> 'z bm_state_scheme \<Rightarrow> error_code \<times> handle \<times> 'z bm_state_scheme" where
  "osal_queue_destroy hnd s =
     (case native_of hnd of
        None \<Rightarrow> (Ok, None, s)
      | Some i \<Rightarrow>
          (Ok, None,
           if i < length (bm_queue_pool s)
           then s\<lparr>bm_queue_used_bits := bit_unmark (bm_queue_used_bits s) i\<rparr> else s))"

text \<open>The critical sections of send and receive, on the queue itself.\<close>

definition queue_put :: "byte list \<Rightarrow> bm_queue \<Rightarrow> bool \<times> bm_queue" where
  "queue_put item q =
     (if q_count q < q_capacity q
      then (True, q\<lparr>q_buf := memcpy_at (q_buf q) (q_tail q * q_item_size q) (take (q_item_size q) item),
                    q_tail := (q_tail q + 1) mod q_capacity q,
                    q_count := q_count q + 1\<rparr>)
      else (False, q))"

definition queue_get :: "bm_queue \<Rightarrow> byte list option \<times> bm_queue" where
  "queue_get q =
     (if q_count q > 0
      then (Some (mem_read (q_buf q) (q_head q * q_item_size q) (q_item_size q)),
            q\<lparr>q_head := (q_head q + 1) mod q_capacity q, q_count := q_count q - 1\<rparr>)
      else (None, q))"

definition queue_send_body ::
  "nat \<Rightarrow> byte list \<Rightarrow> tick_t \<Rightarrow> u64 \<Rightarrow> 'z bm_state_scheme \<Rightarrow> error_code option \<times> 'z bm_state_scheme" where
  "queue_send_body i item timeout deadline s =
     (case queue_put item (bm_queue_pool s ! i) of
        (True, q) \<Rightarrow> (Some Ok, s\<lparr>bm_queue_pool := (bm_queue_pool s)[i := q]\<rparr>)
      | (False, _) \<Rightarrow>
          (if timeout = NO_WAIT \<or> bm_ticks_now s \<ge> deadline then (Some Would_block, s) else (None, s)))"

definition osal_queue_send ::
  "handle option \<Rightarrow> byte list \<Rightarrow> tick_t \<Rightarrow> 'z bm_state_scheme env \<Rightarrow> 'z bm_state_scheme
   \<Rightarrow> (error_code \<times> 'z bm_state_scheme \<times> 'z bm_state_scheme env) option" where
  "osal_queue_send hnd item timeout env s =
     (case native_of hnd of
        None \<Rightarrow> Some (Not_initialized, s, env)
      | Some i \<Rightarrow> wait_loop (queue_send_body i item timeout (bm_deadline timeout s)) env s)"

definition osal_queue_send_isr ::
  "handle option \<Rightarrow> byte list \<Rightarrow> 'z bm_state_scheme env \<Rightarrow> 'z bm_state_scheme
   \<Rightarrow> (error_code \<times> 'z bm_state_scheme \<times> 'z bm_state_scheme env) option" where
  "osal_queue_send_isr hnd item env s = osal_queue_send hnd item NO_WAIT env s"

text \<open>The result carries the item copied out, when there is one.\<close>

definition queue_receive_body ::
  "nat \<Rightarrow> tick_t \<Rightarrow> u64 \<Rightarrow> 'z bm_state_scheme \<Rightarrow> (error_code \<times> byte list option) option \<times> 'z bm_state_scheme" where
  "queue_receive_body i timeout deadline s =
     (case queue_get (bm_queue_pool s ! i) of
        (Some item, q) \<Rightarrow> (Some (Ok, Some item), s\<lparr>bm_queue_pool := (bm_queue_pool s)[i := q]\<rparr>)
      | (None, _) \<Rightarrow>
          (if timeout = NO_WAIT \<or> bm_ticks_now s \<ge> deadline then (Some (Timeout, None), s) else (None, s)))"

definition osal_queue_receive ::
  "handle option \<Rightarrow> tick_t \<Rightarrow> 'z bm_state_scheme env \<Rightarrow> 'z bm_state_scheme
   \<Rightarrow> ((error_code \<times> byte list option) \<times> 'z bm_state_scheme \<times> 'z bm_state_scheme env) option" where
  "osal_queue_receive hnd timeout env s =
     (case native_of hnd of
        None \<Rightarrow> Some ((Not_initialized, None), s, env)
      | Some i \<Rightarrow> wait_loop (queue_receive_body i timeout (bm_deadline timeout s)) env s)"

definition osal_queue_receive_isr ::
  "handle option \<Rightarrow> 'z bm_state_scheme env \<Rightarrow> 'z bm_state_scheme
   \<Rightarrow> ((error_code \<times> byte list option) \<times> 'z bm_state_scheme \<times> 'z bm_state_scheme env) option" where
  "osal_queue_receive_isr hnd env s = osal_queue_receive hnd NO_WAIT env s"

definition osal_queue_peek :: "handle option \<Rightarrow> tick_t \<Rightarrow> 'z bm_state_scheme \<Rightarrow> error_code \<times> byte list option" where
  "osal_queue_peek hnd timeout s =
     (case native_of hnd of
        None \<Rightarrow> (Not_initialized, None)
      | Some i \<Rightarrow>
          (let q = bm_queue_pool s ! i in
           if q_count q = 0 then (Would_block, None)
           else (Ok, Some (mem_read (q_buf q) (q_head q * q_item_size q) (q_item_size q)))))"

definition osal_queue_count :: "handle option \<Rightarrow> 'z bm_state_scheme \<Rightarrow> nat" where
  "osal_queue_count hnd s = (case native_of hnd of None \<Rightarrow> 0 | Some i \<Rightarrow> q_count (bm_queue_pool s ! i))"

definition osal_queue_free :: "handle option \<Rightarrow> 'z bm_state_scheme \<Rightarrow> nat" where
  "osal_queue_free hnd s =
     (case native_of hnd of
        None \<Rightarrow> 0
      | Some i \<Rightarrow> q_capacity (bm_queue_pool s ! i) - q_count (bm_queue_pool s ! i))"

section \<open>Invariant and abstraction\<close>

text \<open>
  The buffer has exactly \<open>item_size * capacity\<close> bytes, as the documentation of
  \<open>osal_queue_create\<close> asks of the caller.
\<close>

definition queue_inv :: "bm_queue \<Rightarrow> bool" where
  "queue_inv q \<longleftrightarrow> 0 < q_capacity q \<and> length (q_buf q) = q_capacity q * q_item_size q \<and>
     q_head q < q_capacity q \<and> q_count q \<le> q_capacity q \<and>
     q_tail q = (q_head q + q_count q) mod q_capacity q"

definition slot :: "bm_queue \<Rightarrow> nat \<Rightarrow> byte list" where
  "slot q i = mem_read (q_buf q) (i * q_item_size q) (q_item_size q)"

definition queue_items :: "bm_queue \<Rightarrow> byte list list" where
  "queue_items q = map (\<lambda>k. slot q ((q_head q + k) mod q_capacity q)) [0..<q_count q]"

definition item_fits :: "bm_queue \<Rightarrow> byte list \<Rightarrow> bool" where
  "item_fits q item \<longleftrightarrow> length item = q_item_size q"

lemma slot_in_bounds:
  assumes "length buf = c * n" "(i :: nat) < c"
  shows "i * n + n \<le> length (buf :: byte list)"
proof -
  have "(i + 1) * n \<le> c * n" using assms(2) by (intro mult_right_mono) simp_all
  then show ?thesis using assms(1) by simp
qed

lemma slot_after_write:
  assumes "length (q_buf q) = q_capacity q * q_item_size q" "i < q_capacity q" "j < q_capacity q"
    and "length item = q_item_size q"
  shows "slot (q\<lparr>q_buf := memcpy_at (q_buf q) (i * q_item_size q) item\<rparr>) j = (if j = i then item else slot q j)"
proof (cases "j = i")
  case True
  then show ?thesis
    using assms slot_in_bounds [OF assms(1,2)] mem_read_memcpy_at [of "i * q_item_size q" item "q_buf q"]
    by (simp add: slot_def)
next
  case False
  let ?n = "q_item_size q"
  have "j * ?n + ?n \<le> i * ?n \<or> i * ?n + ?n \<le> j * ?n"
  proof (cases "j < i")
    case True
    then have "(j + 1) * ?n \<le> i * ?n" by (intro mult_right_mono) simp_all
    then show ?thesis by simp
  next
    case False
    with \<open>j \<noteq> i\<close> have "(i + 1) * ?n \<le> j * ?n" by (intro mult_right_mono) simp_all
    then show ?thesis by simp
  qed
  then show ?thesis
    using False assms slot_in_bounds [OF assms(1,2)] slot_in_bounds [OF assms(1,3)]
    by (simp add: slot_def mem_read_memcpy_at_disjoint)
qed

lemma queue_items_bounded: "queue_inv q \<Longrightarrow> length (queue_items q) \<le> q_capacity q"
  by (simp add: queue_inv_def queue_items_def)

lemma queue_inv_put:
  assumes "queue_inv q" "item_fits q item" "queue_put item q = (b, q')"
  shows "queue_inv q' \<and> q_capacity q' = q_capacity q \<and> q_item_size q' = q_item_size q"
proof -
  have "q_tail q < q_capacity q" using assms(1) by (simp add: queue_inv_def)
  then have "q_tail q * q_item_size q + q_item_size q \<le> length (q_buf q)"
    using assms(1) slot_in_bounds [of "q_buf q" "q_capacity q" "q_item_size q" "q_tail q"] by (simp add: queue_inv_def)
  with assms show ?thesis
    by (auto simp: queue_put_def queue_inv_def item_fits_def mod_simps split: if_splits)
qed

lemma queue_items_put:
  assumes "queue_inv q" "item_fits q item" "q_count q < q_capacity q"
  shows "queue_items (snd (queue_put item q)) = queue_items q @ [item]"
proof (rule nth_equalityI)
  let ?q = "snd (queue_put item q)"
  let ?w = "q\<lparr>q_buf := memcpy_at (q_buf q) (q_tail q * q_item_size q) item\<rparr>"
  have inv: "0 < q_capacity q" "length (q_buf q) = q_capacity q * q_item_size q" "q_head q < q_capacity q"
    "q_tail q = (q_head q + q_count q) mod q_capacity q" "q_tail q < q_capacity q"
    using assms(1) by (simp_all add: queue_inv_def)
  have q: "?q = ?w\<lparr>q_tail := (q_tail q + 1) mod q_capacity q, q_count := q_count q + 1\<rparr>"
    using assms by (simp add: queue_put_def item_fits_def)
  show "length (queue_items ?q) = length (queue_items q @ [item])" by (simp add: q queue_items_def)
  fix k assume "k < length (queue_items ?q)"
  then have k: "k \<le> q_count q" by (simp add: q queue_items_def)
  let ?j = "(q_head q + k) mod q_capacity q"
  have j: "?j < q_capacity q" using inv by simp
  have "?j = q_tail q \<longleftrightarrow> k = q_count q"
    using inv(3,4) k assms(3) by (auto simp: mod_if split: if_splits)
  moreover have "slot ?q ?j = (if ?j = q_tail q then item else slot q ?j)"
    using slot_after_write [OF inv(2) inv(5) j, of item] assms(2) by (simp add: q item_fits_def slot_def)
  ultimately show "queue_items ?q ! k = (queue_items q @ [item]) ! k"
    using k by (auto simp: q queue_items_def nth_append nth_map_upt)
qed

lemma queue_items_get:
  assumes "queue_inv q" "q_count q > 0"
  shows "queue_get q = (Some (hd (queue_items q)), snd (queue_get q)) \<and> queue_items q \<noteq> [] \<and>
    queue_items (snd (queue_get q)) = tl (queue_items q)"
proof -
  let ?q = "snd (queue_get q)"
  have q: "?q = q\<lparr>q_head := (q_head q + 1) mod q_capacity q, q_count := q_count q - 1\<rparr>"
    using assms(2) by (simp add: queue_get_def)
  have "queue_items q = slot q (q_head q) # map (\<lambda>k. slot q ((q_head q + k) mod q_capacity q)) [1..<q_count q]"
    using assms by (simp add: queue_items_def queue_inv_def upt_conv_Cons)
  moreover have "queue_items ?q = map (\<lambda>k. slot q ((q_head q + k) mod q_capacity q)) [1..<q_count q]"
    by (rule nth_equalityI) (simp_all add: q queue_items_def slot_def mod_simps)
  ultimately show ?thesis using assms(2) by (simp add: queue_get_def slot_def)
qed

lemma queue_put_law:
  assumes "queue_inv q" "item_fits q item" "queue_put item q = (b, q')"
  shows "(b, queue_items q') = lq_push (q_capacity q) item (queue_items q)"
proof (cases "q_count q < q_capacity q")
  case True
  then have "fst (queue_put item q)" "length (queue_items q) = q_count q"
    by (simp_all add: queue_put_def queue_items_def)
  with True assms queue_items_put [OF assms(1,2) True] show ?thesis by (simp add: lq_push_def)
next
  case False
  with assms(3) show ?thesis by (auto simp: queue_put_def lq_push_def queue_items_def)
qed

lemma queue_get_law:
  assumes "queue_inv q" "queue_get q = (r, q')"
  shows "(r, queue_items q') = lq_pop (queue_items q)"
proof (cases "q_count q > 0")
  case True
  with assms queue_items_get [OF assms(1) True] show ?thesis by (cases "queue_items q") auto
next
  case False
  with assms(2) show ?thesis by (auto simp: queue_get_def queue_items_def)
qed

lemma queue_inv_get:
  assumes "queue_inv q" "queue_get q = (r, q')"
  shows "queue_inv q' \<and> q_capacity q' = q_capacity q \<and> q_item_size q' = q_item_size q"
proof (cases "q_count q > 0")
  case True
  have "((q_head q + 1) mod q_capacity q + (q_count q - 1)) mod q_capacity q = (q_head q + q_count q) mod q_capacity q"
    using True by (cases "q_count q") (simp_all add: mod_simps)
  then show ?thesis using True assms by (auto simp: queue_get_def queue_inv_def)
next
  case False
  with assms show ?thesis by (auto simp: queue_get_def)
qed

interpretation queue: bounded_fifo queue_inv item_fits q_capacity queue_items queue_put queue_get
proof unfold_locales
  fix q q' :: bm_queue and item b r
  have fits: "q_item_size q' = q_item_size q \<Longrightarrow> item_fits q' = item_fits q"
    by (simp add: item_fits_def fun_eq_iff)
  show "queue_inv q \<Longrightarrow> length (queue_items q) \<le> q_capacity q" by (rule queue_items_bounded)
  show "queue_inv q \<Longrightarrow> item_fits q item \<Longrightarrow> queue_put item q = (b, q') \<Longrightarrow>
      (b, queue_items q') = lq_push (q_capacity q) item (queue_items q) \<and> queue_inv q' \<and>
      q_capacity q' = q_capacity q \<and> item_fits q' = item_fits q"
    using queue_inv_put queue_put_law fits by blast
  show "queue_inv q \<Longrightarrow> queue_get q = (r, q') \<Longrightarrow>
      (r, queue_items q') = lq_pop (queue_items q) \<and> queue_inv q' \<and> q_capacity q' = q_capacity q \<and>
      item_fits q' = item_fits q"
    using queue_inv_get queue_get_law fits by blast
qed

section \<open>The pool\<close>

definition queue_pool_ok :: "'z bm_state_scheme \<Rightarrow> bool" where
  "queue_pool_ok s \<longleftrightarrow> bits_cover (bm_queue_used_bits s) (length (bm_queue_pool s))"

definition queue_used :: "'z bm_state_scheme \<Rightarrow> nat set" where
  "queue_used s = used_set (bm_queue_used_bits s) (length (bm_queue_pool s))"

definition queue_alloc :: "byte list \<Rightarrow> nat \<Rightarrow> nat \<Rightarrow> 'z bm_state_scheme \<Rightarrow> nat option \<times> 'z bm_state_scheme" where
  "queue_alloc buf n c s = (case osal_queue_create None buf n c s of (r, h, s') \<Rightarrow> (if r = Ok then h else None, s'))"

definition queue_release :: "nat \<Rightarrow> 'z bm_state_scheme \<Rightarrow> 'z bm_state_scheme" where
  "queue_release i s = snd (snd (osal_queue_destroy (Some (Some i)) s))"

lemmas queue_pool_defs = queue_pool_ok_def queue_used_def queue_alloc_def queue_release_def
  osal_queue_create_def osal_queue_destroy_def

interpretation queues: slot_pool queue_pool_ok "\<lambda>s. length (bm_queue_pool s)" queue_used "queue_alloc buf n c" queue_release
proof unfold_locales
  fix s s' :: "'z bm_state_scheme" and i
  show "queue_pool_ok s \<Longrightarrow> queue_used s \<subseteq> {..<length (bm_queue_pool s)}"
    by (auto simp: queue_used_def used_set_def)
  show "queue_pool_ok s \<Longrightarrow> queue_alloc buf n c s = (Some i, s') \<Longrightarrow>
      i < length (bm_queue_pool s) \<and> i \<notin> queue_used s \<and> queue_used s' = insert i (queue_used s) \<and>
      queue_pool_ok s' \<and> length (bm_queue_pool s') = length (bm_queue_pool s)"
    by (auto simp: queue_pool_defs pool_simps dest: first_free_pool split: option.splits)
  show "queue_pool_ok s \<Longrightarrow> queue_alloc buf n c s = (None, s') \<Longrightarrow> queue_used s = {..<length (bm_queue_pool s)} \<and> s' = s"
    by (auto simp: queue_pool_defs dest: first_free_pool split: option.splits)
  show "queue_pool_ok s \<Longrightarrow> i \<in> queue_used s \<Longrightarrow> queue_used (queue_release i s) = queue_used s - {i} \<and>
      queue_pool_ok (queue_release i s) \<and> length (bm_queue_pool (queue_release i s)) = length (bm_queue_pool s)"
    by (simp add: queue_pool_defs pool_simps)
qed

section \<open>Properties\<close>

lemma wait_loop_at_once: "body s = (Some r, s') \<Longrightarrow> wait_loop body env s = Some (r, s', env)"
  by (cases env) simp_all

lemma queue_send_isr_eq:
  assumes "i < length (bm_queue_pool s)"
  shows "osal_queue_send_isr (Some (Some i)) item env s =
    (case queue_put item (bm_queue_pool s ! i) of (b, q) \<Rightarrow>
       Some (if b then Ok else Would_block, if b then s\<lparr>bm_queue_pool := (bm_queue_pool s)[i := q]\<rparr> else s, env))"
proof -
  have "queue_send_body i item NO_WAIT d s =
      (case queue_put item (bm_queue_pool s ! i) of (b, q) \<Rightarrow>
       (Some (if b then Ok else Would_block), if b then s\<lparr>bm_queue_pool := (bm_queue_pool s)[i := q]\<rparr> else s))" for d
    by (simp add: queue_send_body_def split: prod.splits bool.splits)
  then show ?thesis
    by (cases "queue_put item (bm_queue_pool s ! i)")
      (simp add: osal_queue_send_isr_def osal_queue_send_def wait_loop_at_once)
qed

lemma queue_receive_isr_eq:
  assumes "i < length (bm_queue_pool s)"
  shows "osal_queue_receive_isr (Some (Some i)) env s =
    (case queue_get (bm_queue_pool s ! i) of (r, q) \<Rightarrow>
       Some ((if r = None then Timeout else Ok, r),
         if r = None then s else s\<lparr>bm_queue_pool := (bm_queue_pool s)[i := q]\<rparr>, env))"
proof -
  have "queue_receive_body i NO_WAIT d s =
      (case queue_get (bm_queue_pool s ! i) of (r, q) \<Rightarrow>
       (Some (if r = None then Timeout else Ok, r), if r = None then s else s\<lparr>bm_queue_pool := (bm_queue_pool s)[i := q]\<rparr>))" for d
    by (simp add: queue_receive_body_def split: prod.splits option.splits)
  then show ?thesis
    by (cases "queue_get (bm_queue_pool s ! i)")
      (simp add: osal_queue_receive_isr_def osal_queue_receive_def wait_loop_at_once)
qed

definition queue_of :: "'z bm_state_scheme \<Rightarrow> nat \<Rightarrow> bm_queue" where
  "queue_of s i = bm_queue_pool s ! i"

text \<open>
  C7: the non-blocking calls on queue \<open>i\<close> implement a bounded list of items: send appends or
  answers \<open>Would_block\<close> on a full queue, receive removes the oldest item or answers \<open>Timeout\<close> on an
  empty one, peek shows the item receive would return, count and free add up to the capacity; no
  call changes another queue, and the buffer keeps its size (every copy stays inside it).
\<close>

theorem queue_api_refines:
  assumes "i < length (bm_queue_pool s)" "queue_inv (queue_of s i)" "item_fits (queue_of s i) item"
  shows "\<exists>r1 s1 r2 x s2.
    osal_queue_send_isr (Some (Some i)) item env s = Some (r1, s1, env) \<and>
    (r1 = Ok, queue_items (queue_of s1 i)) = lq_push (q_capacity (queue_of s i)) item (queue_items (queue_of s i)) \<and>
    (r1 \<noteq> Ok \<longrightarrow> r1 = Would_block) \<and> queue_inv (queue_of s1 i) \<and> (\<forall>j. j \<noteq> i \<longrightarrow> queue_of s1 j = queue_of s j) \<and>
    osal_queue_receive_isr (Some (Some i)) env s = Some ((r2, x), s2, env) \<and>
    (x, queue_items (queue_of s2 i)) = lq_pop (queue_items (queue_of s i)) \<and>
    r2 = (if x = None then Timeout else Ok) \<and> queue_inv (queue_of s2 i) \<and> (\<forall>j. j \<noteq> i \<longrightarrow> queue_of s2 j = queue_of s j) \<and>
    osal_queue_peek (Some (Some i)) timeout s = (if x = None then Would_block else Ok, x) \<and>
    osal_queue_count (Some (Some i)) s = length (queue_items (queue_of s i)) \<and>
    osal_queue_count (Some (Some i)) s + osal_queue_free (Some (Some i)) s = q_capacity (queue_of s i)"
proof -
  let ?q = "queue_of s i"
  obtain b q1 where put: "queue_put item ?q = (b, q1)" by fastforce
  obtain x q2 where get: "queue_get ?q = (x, q2)" by fastforce
  note put_facts = queue.push_law [OF assms(2,3) put] and get_facts = queue.pop_law [OF assms(2) get]
  have "\<not> b \<Longrightarrow> q1 = ?q" using put by (auto simp: queue_put_def split: if_splits)
  moreover have "x = None \<Longrightarrow> q2 = ?q" using get by (auto simp: queue_get_def split: if_splits)
  moreover have "osal_queue_peek (Some (Some i)) timeout s = (if x = None then Would_block else Ok, x)"
    using get by (auto simp: osal_queue_peek_def queue_get_def queue_of_def Let_def split: if_splits)
  moreover have "osal_queue_count (Some (Some i)) s = length (queue_items ?q)"
    by (simp add: osal_queue_count_def queue_items_def queue_of_def)
  moreover have "osal_queue_count (Some (Some i)) s + osal_queue_free (Some (Some i)) s = q_capacity ?q"
    using assms(2) by (simp add: osal_queue_count_def osal_queue_free_def queue_of_def queue_inv_def)
  ultimately show ?thesis
    using put get put_facts get_facts assms(1)
    unfolding queue_send_isr_eq [OF assms(1)] queue_receive_isr_eq [OF assms(1)]
    by (auto simp: queue_of_def)
qed

definition queue_demo :: bm_state where
  "queue_demo = \<lparr>g_ticks = 0, bm_tasks = [], bm_current = -1, bm_last_scheduled = -1,
     bm_mutex_pool = [], bm_mutex_used_bits = [], bm_sem_pool = [], bm_sem_used_bits = [],
     bm_queue_pool = [\<lparr>q_buf = [1, 2, 3, 4], q_item_size = 2, q_capacity = 2, q_head = 1, q_tail = 0, q_count = 1\<rparr>],
     bm_queue_used_bits = [1], bm_timer_pool = []\<rparr>"

lemma queue_demo_ok:
  "0 < length (bm_queue_pool queue_demo)" "queue_inv (queue_of queue_demo 0)" "item_fits (queue_of queue_demo 0) [8, 9]"
  "queue_items (queue_of queue_demo 0) = [[3, 4]]"
  by (simp_all add: queue_demo_def queue_of_def queue_inv_def item_fits_def queue_items_def slot_def mem_read_def)

theorem queue_api_refines_witness:
  "\<exists>s1. osal_queue_send_isr (Some (Some 0)) [8, 9] [] queue_demo = Some (Ok, s1, []) \<and>
     queue_items (queue_of s1 0) = [[3, 4], [8, 9]]"
proof -
  have cap: "q_capacity (queue_of queue_demo 0) = 2" by (simp add: queue_demo_def queue_of_def)
  from queue_api_refines [OF queue_demo_ok(1-3), of "[]" 0] show ?thesis
    by (auto simp: lq_push_def cap queue_demo_ok(4))
qed

text \<open>
  A queue created by \<open>osal_queue_create\<close> on a buffer of \<open>item_size * capacity\<close> bytes starts
  empty, and any sequence of puts and gets on it delivers exactly the accepted items, in order,
  never holding more than \<open>capacity\<close>.
\<close>

theorem queue_fifo_trace:
  assumes "osal_queue_create hnd buf n c s = (Ok, h, s')" "length buf = c * n" "0 < c"
    and "queue_pool_ok s" "\<forall>op \<in> set ops. fits_op (\<lambda>x. length x = n) op"
    and "fifo_run queue_put queue_get ops (queue_of s' (the h)) = (rs, q')"
  shows "accepted ops rs = delivered rs @ queue_items q' \<and> length (queue_items q') \<le> c \<and>
    fifo_run (lq_push c) lq_pop ops [] = (rs, queue_items q')"
proof -
  obtain k where ff: "first_free (bm_queue_used_bits s) 0 (length (bm_queue_pool s)) = Some k"
    using assms(1) by (fastforce simp: osal_queue_create_def split: option.splits)
  with assms(1) have k: "h = Some k" and s': "s' = s\<lparr>bm_queue_used_bits := bit_mark (bm_queue_used_bits s) k,
      bm_queue_pool := (bm_queue_pool s)[k :=
        \<lparr>q_buf = buf, q_item_size = n, q_capacity = c, q_head = 0, q_tail = 0, q_count = 0\<rparr>]\<rparr>"
    by (simp_all add: osal_queue_create_def)
  have "queue_alloc buf n c s = (Some k, s')" using ff by (simp add: queue_alloc_def osal_queue_create_def s')
  then have "k < length (bm_queue_pool s)" using queues.alloc_some [OF assms(4)] by blast
  then have q: "queue_of s' (the h) =
      \<lparr>q_buf = buf, q_item_size = n, q_capacity = c, q_head = 0, q_tail = 0, q_count = 0\<rparr>"
    by (simp add: k s' queue_of_def)
  have inv: "queue_inv (queue_of s' (the h))" and nil: "queue_items (queue_of s' (the h)) = []"
    using assms(2,3) by (simp_all add: q queue_inv_def queue_items_def)
  have "item_fits (queue_of s' (the h)) = (\<lambda>x. length x = n)" by (simp add: q item_fits_def fun_eq_iff)
  with assms(5) have fits: "\<forall>op \<in> set ops. fits_op (item_fits (queue_of s' (the h))) op" by simp
  from queue.run_refines [OF inv fits assms(6)] queue.run_conserves [OF inv fits assms(6)] nil
  show ?thesis by (simp add: q)
qed

theorem queue_fifo_trace_witness:
  "let s = queue_demo\<lparr>bm_queue_used_bits := [0]\<rparr>;
       s' = snd (snd (osal_queue_create None [0, 0, 0] 1 3 s));
       run = fifo_run queue_put queue_get [Push [5], Push [6], Pop] (queue_of s' 0)
   in accepted [Push [5], Push [6], Pop] (fst run) = delivered (fst run) @ queue_items (snd run) \<and>
      fst run = [Pushed True, Pushed True, Popped (Some [5])]"
proof -
  let ?s = "queue_demo\<lparr>bm_queue_used_bits := [0]\<rparr>"
  let ?s' = "snd (snd (osal_queue_create None [0, 0, 0] 1 3 ?s))"
  have cr: "osal_queue_create None [0, 0, 0] 1 3 ?s = (Ok, Some 0, ?s')"
    by (simp add: osal_queue_create_def queue_demo_def bit_used_def)
  have ok: "queue_pool_ok ?s" by (simp add: queue_pool_ok_def queue_demo_def bits_cover_def)
  have run: "fst (fifo_run queue_put queue_get [Push [5], Push [6], Pop] (queue_of ?s' 0)) =
      [Pushed True, Pushed True, Popped (Some [5])]"
    by (simp add: osal_queue_create_def queue_demo_def bit_used_def queue_of_def queue_put_def queue_get_def
        memcpy_at_def mem_read_def)
  from queue_fifo_trace [OF cr _ _ ok, of "[Push [5], Push [6], Pop]"] run show ?thesis
    by (cases "fifo_run queue_put queue_get [Push [5], Push [6], Pop] (queue_of ?s' 0)") (simp add: Let_def)
qed

text \<open>
  A timed send or receive returns within \<open>timeout\<close> scheduling points when time passes at each
  of them, whatever the other tasks do to the queue meanwhile; it fails only at or after the
  deadline or for \<open>NO_WAIT\<close>, on a queue that is full, respectively empty, at that moment.
\<close>

theorem queue_timed_calls_return:
  assumes "timeout \<noteq> WAIT_FOREVER" "unat (g_ticks s) + unat timeout < 2 ^ 64"
    and "\<forall>e \<in> set env. ticking (fst e)" "unat timeout \<le> length env"
  shows "(\<exists>r s' env'. osal_queue_send (Some (Some i)) item timeout env s = Some (r, s', env') \<and>
      (r = Ok \<or> (r = Would_block \<and> q_capacity (queue_of s' i) \<le> q_count (queue_of s' i) \<and>
         (timeout = NO_WAIT \<or> unat (g_ticks s) + unat timeout \<le> unat (g_ticks s'))))) \<and>
    (\<exists>r x s' env'. osal_queue_receive (Some (Some i)) timeout env s = Some ((r, x), s', env') \<and>
      (r = Ok \<and> x \<noteq> None \<or> (r = Timeout \<and> x = None \<and> q_count (queue_of s' i) = 0 \<and>
         (timeout = NO_WAIT \<or> unat (g_ticks s) + unat timeout \<le> unat (g_ticks s')))))"
proof -
  let ?d = "bm_deadline timeout s"
  let ?b = "queue_send_body i item timeout ?d" and ?c = "queue_receive_body i timeout ?d"
  note d = unat_bm_deadline [OF assms(1,2)]
  have le: "unat ?d \<le> unat (g_ticks s) + length env" using d assms(4) by simp
  have gb: "g_ticks s2 = g_ticks s1 \<and> g_ticks s1 < ?d" if "?b s1 = (None, s2)" for s1 s2 :: "'a bm_state_scheme"
    using that by (auto simp: queue_send_body_def bm_ticks_now_def not_le split: prod.splits bool.splits if_splits)
  have gc: "g_ticks s2 = g_ticks s1 \<and> g_ticks s1 < ?d" if "?c s1 = (None, s2)" for s1 s2 :: "'a bm_state_scheme"
    using that by (auto simp: queue_receive_body_def bm_ticks_now_def not_le split: prod.splits option.splits if_splits)
  obtain r1 s1 e1 where send: "wait_loop ?b env s = Some (r1, s1, e1)"
    using wait_loop_returns [of ?b ?d, OF gb assms(3) le] by auto
  obtain r2 s2 e2 where recv: "wait_loop ?c env s = Some (r2, s2, e2)"
    using wait_loop_returns [of ?c ?d, OF gc assms(3) le] by auto
  obtain t1 where "?b t1 = (Some r1, s1)" using wait_loop_last [OF send, of "\<lambda>_. True"] by auto
  then have "r1 = Ok \<or> (r1 = Would_block \<and> q_capacity (queue_of s1 i) \<le> q_count (queue_of s1 i) \<and>
      (timeout = NO_WAIT \<or> unat ?d \<le> unat (g_ticks s1)))"
    by (auto simp: queue_send_body_def queue_put_def queue_of_def bm_ticks_now_def word_le_nat_alt
        split: prod.splits bool.splits if_splits)
  moreover obtain t2 where "?c t2 = (Some r2, s2)" using wait_loop_last [OF recv, of "\<lambda>_. True"] by auto
  then have "(fst r2 = Ok \<and> snd r2 \<noteq> None) \<or> (fst r2 = Timeout \<and> snd r2 = None \<and> q_count (queue_of s2 i) = 0 \<and>
      (timeout = NO_WAIT \<or> unat ?d \<le> unat (g_ticks s2)))"
    by (auto simp: queue_receive_body_def queue_get_def queue_of_def bm_ticks_now_def word_le_nat_alt
        split: prod.splits option.splits if_splits)
  ultimately show ?thesis
    using send recv d by (cases r2) (auto simp: osal_queue_send_def osal_queue_receive_def)
qed

theorem queue_timed_calls_return_witness:
  "\<exists>r x s' env'. osal_queue_receive (Some (Some 0)) 2
      [(osal_baremetal_tick, False), (osal_baremetal_tick, False)] queue_demo = Some ((r, x), s', env')"
proof -
  have "unat (g_ticks queue_demo) + unat (2 :: tick_t) < 2 ^ 64" by (simp add: queue_demo_def)
  with queue_timed_calls_return [of 2 queue_demo "[(osal_baremetal_tick, False), (osal_baremetal_tick, False)]" 0 "[]"]
  show ?thesis by (simp add: WAIT_FOREVER_def ticking_tick) blast
qed

end
