(* ===== verification/Bm_Timer.thy ===== *)
theory Bm_Timer
  imports Bm_State
begin

text \<open>
  The software timers of the bare-metal backend. \<open>osal_baremetal_tick_with_timers\<close> advances the
  clock by one tick and then visits every slot of the timer pool; a timer that is due runs its
  callback, which is user code and a parameter here: \<open>call fn arg\<close> is what it does to the state.
\<close>

definition timer_at :: "'z bm_state_scheme \<Rightarrow> nat \<Rightarrow> bm_timer" where
  "timer_at s i = bm_timer_pool s ! i"

definition timer_put :: "nat \<Rightarrow> bm_timer \<Rightarrow> 'z bm_state_scheme \<Rightarrow> 'z bm_state_scheme" where
  "timer_put i t s = s\<lparr>bm_timer_pool := (bm_timer_pool s)[i := t]\<rparr>"

text \<open>One round of the loop: the timer is read again after its callback.\<close>

definition advance_one :: "(nat \<Rightarrow> nat \<Rightarrow> 'z bm_state_scheme \<Rightarrow> 'z bm_state_scheme) \<Rightarrow> nat \<Rightarrow> 'z bm_state_scheme \<Rightarrow> 'z bm_state_scheme"
where
  "advance_one call i s =
     (let t = timer_at s i in
      if \<not> tm_valid t \<or> \<not> tm_active t then s
      else if bm_ticks_now s \<ge> tm_deadline t then
        let s1 = (case tm_fn t of None \<Rightarrow> s | Some f \<Rightarrow> call f (tm_arg t) s);
            t1 = timer_at s1 i
        in if tm_auto_reload t1
           then timer_put i (t1\<lparr>tm_deadline := bm_ticks_now s1 + ucast (tm_period t1)\<rparr>) s1
           else timer_put i (t1\<lparr>tm_active := False\<rparr>) s1
      else s)"

fun advance_from :: "(nat \<Rightarrow> nat \<Rightarrow> 'z bm_state_scheme \<Rightarrow> 'z bm_state_scheme) \<Rightarrow> nat \<Rightarrow> nat \<Rightarrow> 'z bm_state_scheme \<Rightarrow> 'z bm_state_scheme"
where
  "advance_from call i 0 s = s"
| "advance_from call i (Suc k) s = advance_from call (Suc i) k (advance_one call i s)"

definition bm_advance_timers :: "(nat \<Rightarrow> nat \<Rightarrow> 'z bm_state_scheme \<Rightarrow> 'z bm_state_scheme) \<Rightarrow> 'z bm_state_scheme \<Rightarrow> 'z bm_state_scheme"
where
  "bm_advance_timers call s = advance_from call 0 (length (bm_timer_pool s)) s"

definition osal_baremetal_tick_with_timers ::
  "(nat \<Rightarrow> nat \<Rightarrow> 'z bm_state_scheme \<Rightarrow> 'z bm_state_scheme) \<Rightarrow> 'z bm_state_scheme \<Rightarrow> 'z bm_state_scheme" where
  "osal_baremetal_tick_with_timers call s = bm_advance_timers call (snd (bm_ticks_advance_one s))"

fun first_invalid :: "bm_timer list \<Rightarrow> nat \<Rightarrow> nat option" where
  "first_invalid [] i = None"
| "first_invalid (t # ts) i = (if \<not> tm_valid t then Some i else first_invalid ts (Suc i))"

text \<open>The assertion of the code excludes a null handle and a null callback.\<close>

definition osal_timer_create ::
  "handle \<Rightarrow> nat \<Rightarrow> nat \<Rightarrow> tick_t \<Rightarrow> bool \<Rightarrow> 'z bm_state_scheme \<Rightarrow> error_code \<times> handle \<times> 'z bm_state_scheme" where
  "osal_timer_create hnd cb arg period auto_reload s =
     (case first_invalid (bm_timer_pool s) 0 of
        Some i \<Rightarrow>
          (Ok, Some i,
           timer_put i \<lparr>tm_fn = Some cb, tm_arg = arg, tm_deadline = 0, tm_period = period,
             tm_auto_reload = auto_reload, tm_active = False, tm_valid = True\<rparr> s)
      | None \<Rightarrow> (Out_of_resources, hnd, s))"

definition osal_timer_destroy :: "handle option \<Rightarrow> 'z bm_state_scheme \<Rightarrow> error_code \<times> handle \<times> 'z bm_state_scheme" where
  "osal_timer_destroy hnd s =
     (case native_of hnd of
        None \<Rightarrow> (Ok, None, s)
      | Some i \<Rightarrow> (Ok, None, timer_put i ((timer_at s i)\<lparr>tm_valid := False\<rparr>) s))"

definition osal_timer_start :: "handle option \<Rightarrow> 'z bm_state_scheme \<Rightarrow> error_code \<times> 'z bm_state_scheme" where
  "osal_timer_start hnd s =
     (case native_of hnd of
        None \<Rightarrow> (Not_initialized, s)
      | Some i \<Rightarrow>
          (Ok, timer_put i ((timer_at s i)\<lparr>tm_deadline := bm_ticks_now s + ucast (tm_period (timer_at s i)),
             tm_active := True\<rparr>) s))"

definition osal_timer_stop :: "handle option \<Rightarrow> 'z bm_state_scheme \<Rightarrow> error_code \<times> 'z bm_state_scheme" where
  "osal_timer_stop hnd s =
     (case native_of hnd of
        None \<Rightarrow> (Not_initialized, s)
      | Some i \<Rightarrow> (Ok, timer_put i ((timer_at s i)\<lparr>tm_active := False\<rparr>) s))"

definition osal_timer_reset :: "handle option \<Rightarrow> 'z bm_state_scheme \<Rightarrow> error_code \<times> 'z bm_state_scheme" where
  "osal_timer_reset hnd s = (case osal_timer_stop hnd s of (_, s') \<Rightarrow> osal_timer_start hnd s')"

definition osal_timer_set_period :: "handle option \<Rightarrow> tick_t \<Rightarrow> 'z bm_state_scheme \<Rightarrow> error_code \<times> 'z bm_state_scheme" where
  "osal_timer_set_period hnd p s =
     (case native_of hnd of
        None \<Rightarrow> (Not_initialized, s)
      | Some i \<Rightarrow>
          (Ok, timer_put i ((timer_at s i)\<lparr>tm_period := p, tm_deadline := bm_ticks_now s + ucast p\<rparr>) s))"

definition osal_timer_is_active :: "handle option \<Rightarrow> 'z bm_state_scheme \<Rightarrow> bool" where
  "osal_timer_is_active hnd s = (case native_of hnd of None \<Rightarrow> False | Some i \<Rightarrow> tm_active (timer_at s i))"

section \<open>The pool\<close>

definition timers_used :: "'z bm_state_scheme \<Rightarrow> nat set" where
  "timers_used s = {i. i < length (bm_timer_pool s) \<and> tm_valid (timer_at s i)}"

definition timer_alloc :: "nat \<Rightarrow> nat \<Rightarrow> tick_t \<Rightarrow> bool \<Rightarrow> 'z bm_state_scheme \<Rightarrow> nat option \<times> 'z bm_state_scheme" where
  "timer_alloc cb arg p ar s =
     (case osal_timer_create None cb arg p ar s of (r, h, s') \<Rightarrow> (if r = Ok then h else None, s'))"

definition timer_release :: "nat \<Rightarrow> 'z bm_state_scheme \<Rightarrow> 'z bm_state_scheme" where
  "timer_release i s = snd (snd (osal_timer_destroy (Some (Some i)) s))"

lemma first_invalid_Some:
  "first_invalid ts i = Some j \<Longrightarrow> i \<le> j \<and> j < i + length ts \<and> \<not> tm_valid (ts ! (j - i))"
  by (induction ts i rule: first_invalid.induct) (fastforce simp: nth_Cons' Suc_le_eq split: if_splits)+

lemma first_invalid_None: "first_invalid ts i = None \<longleftrightarrow> (\<forall>t \<in> set ts. tm_valid t)"
  by (induction ts i rule: first_invalid.induct) simp_all

lemma timer_at_put [simp]:
  "i < length (bm_timer_pool s) \<Longrightarrow> timer_at (timer_put i t s) j = (if j = i then t else timer_at s j)"
  by (simp add: timer_at_def timer_put_def nth_list_update)

lemma timer_put_simps [simp]:
  "length (bm_timer_pool (timer_put i t s)) = length (bm_timer_pool s)"
  "g_ticks (timer_put i t s) = g_ticks s"
  by (simp_all add: timer_put_def)

lemmas timer_pool_defs = timers_used_def timer_alloc_def timer_release_def osal_timer_create_def osal_timer_destroy_def

interpretation timers: slot_pool "\<lambda>_. True" "\<lambda>s. length (bm_timer_pool s)" timers_used "timer_alloc cb arg p ar" timer_release
proof unfold_locales
  fix s s' :: "'z bm_state_scheme" and i
  show "timers_used s \<subseteq> {..<length (bm_timer_pool s)}" by (auto simp: timers_used_def)
  show "timer_alloc cb arg p ar s = (Some i, s') \<Longrightarrow>
      i < length (bm_timer_pool s) \<and> i \<notin> timers_used s \<and> timers_used s' = insert i (timers_used s) \<and>
      True \<and> length (bm_timer_pool s') = length (bm_timer_pool s)"
    using first_invalid_Some [of "bm_timer_pool s" 0 i]
    by (cases "first_invalid (bm_timer_pool s) 0") (auto simp: timer_pool_defs timer_at_def [of s])
  show "timer_alloc cb arg p ar s = (None, s') \<Longrightarrow> timers_used s = {..<length (bm_timer_pool s)} \<and> s' = s"
    using first_invalid_None [of "bm_timer_pool s" 0]
    by (cases "first_invalid (bm_timer_pool s) 0") (auto simp: timer_pool_defs timer_at_def)
  show "i \<in> timers_used s \<Longrightarrow> timers_used (timer_release i s) = timers_used s - {i} \<and> True \<and>
      length (bm_timer_pool (timer_release i s)) = length (bm_timer_pool s)"
    by (auto simp: timer_pool_defs split: if_splits)
qed

section \<open>Firing\<close>

text \<open>
  To observe the callbacks, the state is extended with the list of arguments they were called with. What a callback does, \<open>cb\<close>, is
  user code: it may start, stop, change or create timers. \<open>leaves i a cb\<close> says that it does not touch timer \<open>i\<close> nor the clock, and gives the argument \<open>a\<close>,
  by which the calls of timer \<open>i\<close> are told apart, to no other timer.
\<close>

record timer_log = bm_state +
  fired :: "nat list"

definition log_call :: "(nat \<Rightarrow> nat \<Rightarrow> timer_log \<Rightarrow> timer_log) \<Rightarrow> nat \<Rightarrow> nat \<Rightarrow> timer_log \<Rightarrow> timer_log" where
  "log_call cb f x s = cb f x (s\<lparr>fired := x # fired s\<rparr>)"

definition only_arg :: "nat \<Rightarrow> nat \<Rightarrow> timer_log \<Rightarrow> bool" where
  "only_arg i a s \<longleftrightarrow> (\<forall>j < length (bm_timer_pool s). tm_arg (timer_at s j) = a \<longleftrightarrow> j = i)"

definition leaves :: "nat \<Rightarrow> nat \<Rightarrow> (nat \<Rightarrow> nat \<Rightarrow> timer_log \<Rightarrow> timer_log) \<Rightarrow> bool" where
  "leaves i a cb \<longleftrightarrow> (\<forall>f x s. timer_at (cb f x s) i = timer_at s i \<and> length (bm_timer_pool (cb f x s)) = length (bm_timer_pool s) \<and>
     g_ticks (cb f x s) = g_ticks s \<and> fired (cb f x s) = fired s \<and> (only_arg i a s \<longrightarrow> only_arg i a (cb f x s)))"

lemma fired_simps [simp]:
  "fired (timer_put i t s) = fired s" "timer_at (s\<lparr>fired := xs\<rparr>) i = timer_at s i" "only_arg i a (s\<lparr>fired := xs\<rparr>) = only_arg i a s"
  by (simp_all add: timer_put_def timer_at_def only_arg_def)

lemma log_call_leaves:
  assumes "leaves i a cb"
  shows "timer_at (log_call cb f x s) i = timer_at s i" "length (bm_timer_pool (log_call cb f x s)) = length (bm_timer_pool s)"
    "g_ticks (log_call cb f x s) = g_ticks s" "fired (log_call cb f x s) = x # fired s" "only_arg i a s \<Longrightarrow> only_arg i a (log_call cb f x s)"
  using assms by (simp_all add: leaves_def log_call_def)

lemma only_arg_put: "only_arg i a s \<Longrightarrow> j < length (bm_timer_pool s) \<Longrightarrow> tm_arg t = tm_arg (timer_at s j) \<Longrightarrow> only_arg i a (timer_put j t s)"
  by (auto simp: only_arg_def)

lemma advance_one_frame:
  assumes "leaves i a cb" "j < length (bm_timer_pool s)" "only_arg i a s"
  shows "g_ticks (advance_one (log_call cb) j s) = g_ticks s"
    "length (bm_timer_pool (advance_one (log_call cb) j s)) = length (bm_timer_pool s)"
    "i \<noteq> j \<Longrightarrow> timer_at (advance_one (log_call cb) j s) i = timer_at s i"
    "i \<noteq> j \<Longrightarrow> count_list (fired (advance_one (log_call cb) j s)) a = count_list (fired s) a"
    "only_arg i a (advance_one (log_call cb) j s)"
  using assms(2,3) by (auto simp: advance_one_def Let_def log_call_leaves [OF assms(1)] only_arg_def [of _ _ s] intro!: only_arg_put split: option.splits)

text \<open>A periodic timer that is armed, with a callback.\<close>

definition periodic :: "bm_timer \<Rightarrow> bool" where
  "periodic t \<longleftrightarrow> tm_valid t \<and> tm_active t \<and> tm_auto_reload t \<and> tm_fn t \<noteq> None"

definition periodic_next :: "u64 \<Rightarrow> bm_timer \<Rightarrow> bm_timer" where
  "periodic_next now t = (if tm_deadline t \<le> now then t\<lparr>tm_deadline := now + ucast (tm_period t)\<rparr> else t)"

lemma advance_one_periodic:
  assumes "leaves i a cb" "i < length (bm_timer_pool s)" "periodic (timer_at s i)" "only_arg i a s"
  shows "timer_at (advance_one (log_call cb) i s) i = periodic_next (g_ticks s) (timer_at s i)"
    "count_list (fired (advance_one (log_call cb) i s)) a =
       count_list (fired s) a + (if tm_deadline (timer_at s i) \<le> g_ticks s then 1 else 0)"
  using assms(2-4) by (auto simp: advance_one_def Let_def only_arg_def periodic_def periodic_next_def bm_ticks_now_def log_call_leaves [OF assms(1)])

lemma advance_from_periodic:
  assumes cb: "leaves i a cb" and "j + k \<le> length (bm_timer_pool s)" "periodic (timer_at s i)" "only_arg i a s"
  defines "s' \<equiv> advance_from (log_call cb) j k s"
  shows "g_ticks s' = g_ticks s \<and> length (bm_timer_pool s') = length (bm_timer_pool s) \<and> only_arg i a s' \<and>
    timer_at s' i = (if j \<le> i \<and> i < j + k then periodic_next (g_ticks s) (timer_at s i) else timer_at s i) \<and>
    count_list (fired s') a = count_list (fired s) a +
      (if j \<le> i \<and> i < j + k \<and> tm_deadline (timer_at s i) \<le> g_ticks s then 1 else 0)"
  using assms(2-4) unfolding s'_def
proof (induction k arbitrary: j s)
  case (Suc k)
  have j: "j < length (bm_timer_pool s)" using Suc.prems(1) by simp
  let ?s = "advance_one (log_call cb) j s"
  note frame = advance_one_frame [OF cb j Suc.prems(3)]
  show ?case
  proof (cases "i = j")
    case True
    with j have one: "timer_at ?s i = periodic_next (g_ticks s) (timer_at s i)"
      "count_list (fired ?s) a = count_list (fired s) a + (if tm_deadline (timer_at s i) \<le> g_ticks s then 1 else 0)"
      using advance_one_periodic [OF cb] Suc.prems(2,3) by blast+
    have "periodic (timer_at ?s i)" using Suc.prems(2) by (simp add: one(1) periodic_def periodic_next_def)
    with Suc.IH [of "Suc j" ?s] Suc.prems(1) frame(1,2,5) one True show ?thesis by simp
  next
    case False
    then have "timer_at ?s i = timer_at s i" "count_list (fired ?s) a = count_list (fired s) a"
      using frame(3,4) by blast+
    with Suc.IH [of "Suc j" ?s] Suc.prems frame(1,2,5) False show ?thesis by auto
  qed
qed auto

text \<open>One tick.\<close>

lemma tick_periodic:
  assumes "i < length (bm_timer_pool s)" "periodic (timer_at s i)" "only_arg i a s" and cb: "leaves i a cb"
  defines "s' \<equiv> osal_baremetal_tick_with_timers (log_call cb) s"
  shows "g_ticks s' = g_ticks s + 1 \<and> length (bm_timer_pool s') = length (bm_timer_pool s) \<and> only_arg i a s' \<and>
    timer_at s' i = periodic_next (g_ticks s + 1) (timer_at s i) \<and>
    count_list (fired s') a = count_list (fired s) a + (if tm_deadline (timer_at s i) \<le> g_ticks s + 1 then 1 else 0)"
proof -
  let ?s = "s\<lparr>g_ticks := g_ticks s + 1\<rparr>"
  have eq: "timer_at ?s = timer_at s" by (simp add: timer_at_def fun_eq_iff)
  then have "periodic (timer_at ?s i)" "only_arg i a ?s" using assms(2,3) by (simp_all add: only_arg_def)
  from advance_from_periodic [OF cb _ this, of 0 "length (bm_timer_pool s)"] assms(1) eq
  show ?thesis
    by (simp add: s'_def osal_baremetal_tick_with_timers_def bm_advance_timers_def bm_ticks_advance_one_def)
qed

text \<open>Arithmetic of whole periods.\<close>

lemma period_boundary:
  fixes n p :: nat
  assumes "0 < p"
  shows "(n div p + 1) * p \<le> n + 1 \<longleftrightarrow> Suc n mod p = 0"
    and "Suc n mod p = 0 \<Longrightarrow> (n div p + 1) * p = n + 1"
    and "n < (n div p + 1) * p"
proof -
  have n: "n div p * p + n mod p = n" by simp
  have m: "n mod p < p" using assms by simp
  have e: "Suc n mod p = 0 \<longleftrightarrow> Suc (n mod p) = p" by (simp add: mod_Suc)
  show "(n div p + 1) * p \<le> n + 1 \<longleftrightarrow> Suc n mod p = 0"
    unfolding e distrib_right mult_1 using n m by linarith
  show "Suc n mod p = 0 \<Longrightarrow> (n div p + 1) * p = n + 1"
    unfolding e distrib_right mult_1 using n m by linarith
  show "n < (n div p + 1) * p"
    unfolding distrib_right mult_1 using n m by linarith
qed

definition ticks :: "(nat \<Rightarrow> nat \<Rightarrow> timer_log \<Rightarrow> timer_log) \<Rightarrow> nat \<Rightarrow> timer_log \<Rightarrow> timer_log" where
  "ticks cb n = (osal_baremetal_tick_with_timers (log_call cb) ^^ n)"

lemma ticks_periodic:
  assumes "i < length (bm_timer_pool s)" "periodic (timer_at s i)" "only_arg i a s"
    and "tm_deadline (timer_at s i) = g_ticks s + ucast (tm_period (timer_at s i))"
    and "0 < unat (tm_period (timer_at s i))"
    and "unat (g_ticks s) + n + unat (tm_period (timer_at s i)) < 2 ^ 64" and cb: "leaves i a cb"
  defines "p \<equiv> unat (tm_period (timer_at s i))"
  shows "length (bm_timer_pool (ticks cb n s)) = length (bm_timer_pool s) \<and> only_arg i a (ticks cb n s) \<and>
    unat (g_ticks (ticks cb n s)) = unat (g_ticks s) + n \<and>
    (\<exists>d. timer_at (ticks cb n s) i = (timer_at s i)\<lparr>tm_deadline := d\<rparr> \<and> unat d = unat (g_ticks s) + (n div p + 1) * p) \<and>
    count_list (fired (ticks cb n s)) a = count_list (fired s) a + n div p"
  using assms(6)
proof (induction n)
  case 0
  have "unat (ucast (tm_period (timer_at s i)) :: u64) = p" unfolding p_def by (rule unat_ucast_up) simp
  then have "unat (g_ticks s + ucast (tm_period (timer_at s i))) = unat (g_ticks s) + p"
    using 0 unat_add_fits [of "g_ticks s" "ucast (tm_period (timer_at s i))"] by (simp add: p_def)
  with assms(3,4) show ?case
    by (simp add: ticks_def) (metis (no_types, lifting) bm_timer.surjective bm_timer.update_convs(3))
next
  case (Suc n)
  let ?s = "ticks cb n s" and ?t = "timer_at s i"
  obtain d where IH: "length (bm_timer_pool ?s) = length (bm_timer_pool s)" "only_arg i a ?s"
    "unat (g_ticks ?s) = unat (g_ticks s) + n" "timer_at ?s i = ?t\<lparr>tm_deadline := d\<rparr>"
    "unat d = unat (g_ticks s) + (n div p + 1) * p" "count_list (fired ?s) a = count_list (fired s) a + n div p"
    using Suc by auto
  have p: "0 < p" using assms(5) by (simp add: p_def)
  have now: "unat (g_ticks ?s + 1) = unat (g_ticks s) + Suc n"
    using Suc.prems IH(3) unat_add_fits [of "g_ticks ?s" 1] by simp
  have "unat (ucast (tm_period ?t) :: u64) = p" unfolding p_def by (rule unat_ucast_up) simp
  then have next_d: "unat (g_ticks ?s + 1 + ucast (tm_period ?t)) = unat (g_ticks s) + Suc n + p"
    using Suc.prems now unat_add_fits [of "g_ticks ?s + 1" "ucast (tm_period ?t)"] by (simp add: p_def)
  have due: "d \<le> g_ticks ?s + 1 \<longleftrightarrow> Suc n mod p = 0"
    using period_boundary(1) [OF p, of n] by (simp add: word_le_nat_alt now IH(5))
  have per: "periodic (timer_at ?s i)" using assms(2) by (simp add: IH(4) periodic_def)
  have tick: "ticks cb (Suc n) s = osal_baremetal_tick_with_timers (log_call cb) ?s" by (simp add: ticks_def)
  note step = tick_periodic [OF _ per IH(2) cb]
  show ?case
  proof (cases "Suc n mod p = 0")
    case True
    with period_boundary(2) [OF p True]
    have "unat (g_ticks ?s + 1 + ucast (tm_period ?t)) = unat (g_ticks s) + (Suc n div p + 1) * p"
      by (simp add: next_d div_Suc)
    with step IH now True due assms(1) show ?thesis
      by (simp add: tick periodic_next_def div_Suc) blast
  next
    case False
    with step IH now due assms(1) show ?thesis
      by (simp add: tick periodic_next_def div_Suc) blast
  qed
qed

section \<open>Properties\<close>

text \<open>
  C8: a periodic timer started at some tick fires at every whole period and at no other time:
  \<open>n\<close> ticks later its callback has run exactly \<open>n div period\<close> times and it is still armed. The other timers of the pool may be in any state, and the callbacks, its own
  included, may do anything to them, stop them, re-arm them or create new ones, as long as they leave this timer and the clock alone (\<open>leaves\<close>). The callback of this timer is told apart
  by its argument, which no other timer has; the clock does not reach its last tick.
\<close>

theorem timer_periodic_rate:
  assumes "i < length (bm_timer_pool s)" "tm_valid (timer_at s i)" "tm_auto_reload (timer_at s i)"
    and "tm_fn (timer_at s i) \<noteq> None" "0 < unat (tm_period (timer_at s i))"
    and "\<forall>j < length (bm_timer_pool s). tm_arg (timer_at s j) = a \<longleftrightarrow> j = i" "leaves i a cb"
    and "unat (g_ticks s) + n + unat (tm_period (timer_at s i)) < 2 ^ 64"
    and "osal_timer_start (Some (Some i)) s = (r, s1)"
  shows "count_list (fired (ticks cb n s1)) a = count_list (fired s) a + n div unat (tm_period (timer_at s i)) \<and>
    osal_timer_is_active (Some (Some i)) (ticks cb n s1)"
proof -
  have s1: "timer_at s1 i = (timer_at s i)\<lparr>tm_deadline := g_ticks s + ucast (tm_period (timer_at s i)), tm_active := True\<rparr>"
    "g_ticks s1 = g_ticks s" "length (bm_timer_pool s1) = length (bm_timer_pool s)" "fired s1 = fired s"
    "only_arg i a s1"
    using assms(1,6,9) by (auto simp: osal_timer_start_def bm_ticks_now_def only_arg_def)
  then have "periodic (timer_at s1 i)" using assms by (simp add: periodic_def)
  from ticks_periodic [OF _ this s1(5), of n cb] assms(1,5,7,8) s1 show ?thesis
    by (auto simp: osal_timer_is_active_def)
qed

definition timer_demo :: timer_log where
  "timer_demo = \<lparr>g_ticks = 5, bm_tasks = [], bm_current = -1, bm_last_scheduled = -1,
     bm_mutex_pool = [], bm_mutex_used_bits = [], bm_sem_pool = [], bm_sem_used_bits = [],
     bm_queue_pool = [], bm_queue_used_bits = [],
     bm_timer_pool =
       [\<lparr>tm_fn = Some 1, tm_arg = 7, tm_deadline = 0, tm_period = 3, tm_auto_reload = True, tm_active = False, tm_valid = True\<rparr>,
        \<lparr>tm_fn = Some 1, tm_arg = 8, tm_deadline = 6, tm_period = 3, tm_auto_reload = False, tm_active = True, tm_valid = True\<rparr>],
     fired = []\<rparr>"

text \<open>A callback that changes the period of the other timer and starts it again.\<close>

definition meddle :: "nat \<Rightarrow> nat \<Rightarrow> timer_log \<Rightarrow> timer_log" where
  "meddle f x s = snd (osal_timer_start (Some (Some 1)) (snd (osal_timer_set_period (Some (Some 1)) 2 s)))"

lemma meddle_leaves: "leaves 0 7 meddle"
  unfolding leaves_def
proof (intro allI)
  fix f x and s :: timer_log
  show "timer_at (meddle f x s) 0 = timer_at s 0 \<and> length (bm_timer_pool (meddle f x s)) = length (bm_timer_pool s) \<and>
     g_ticks (meddle f x s) = g_ticks s \<and> fired (meddle f x s) = fired s \<and> (only_arg 0 7 s \<longrightarrow> only_arg 0 7 (meddle f x s))"
    by (cases "1 < length (bm_timer_pool s)")
      (auto simp: meddle_def osal_timer_start_def osal_timer_set_period_def only_arg_def, simp_all add: timer_put_def timer_at_def list_update_beyond)
qed

theorem timer_periodic_rate_witness:
  "count_list (fired (ticks meddle 100 (snd (osal_timer_start (Some (Some 0)) timer_demo)))) 7 = 33"
proof -
  have "timer_at timer_demo 0 = \<lparr>tm_fn = Some 1, tm_arg = 7, tm_deadline = 0, tm_period = 3, tm_auto_reload = True, tm_active = False, tm_valid = True\<rparr>"
    "length (bm_timer_pool timer_demo) = 2" "g_ticks timer_demo = 5" "fired timer_demo = []"
    by (simp_all add: timer_demo_def timer_at_def)
  moreover have "\<forall>j < length (bm_timer_pool timer_demo). tm_arg (timer_at timer_demo j) = 7 \<longleftrightarrow> j = 0"
    by (auto simp: timer_demo_def timer_at_def less_Suc_eq)
  ultimately show ?thesis
    using timer_periodic_rate [of 0 timer_demo 7 meddle 100 "fst (osal_timer_start (Some (Some 0)) timer_demo)"
        "snd (osal_timer_start (Some (Some 0)) timer_demo)"] meddle_leaves
    by simp
qed

text \<open>
  C11: a due one-shot timer is inactive after the tick, also when its callback re-arms it: the
  call of \<open>osal_timer_start\<close> made inside the callback answers \<open>Ok\<close> and is then undone.
\<close>

theorem oneshot_rearm_in_callback_lost:
  assumes "i < length (bm_timer_pool s)" "tm_valid (timer_at s i)" "tm_active (timer_at s i)"
    and "\<not> tm_auto_reload (timer_at s i)" "tm_fn (timer_at s i) = Some f" "tm_deadline (timer_at s i) \<le> g_ticks s"
    and "call = (\<lambda>f a s. snd (osal_timer_start (Some (Some i)) s))"
  shows "fst (osal_timer_start (Some (Some i)) s) = Ok \<and>
    osal_timer_is_active (Some (Some i)) (call f (tm_arg (timer_at s i)) s) \<and>
    \<not> osal_timer_is_active (Some (Some i)) (advance_one call i s)"
  using assms by (simp add: advance_one_def Let_def osal_timer_start_def osal_timer_is_active_def bm_ticks_now_def)

theorem oneshot_rearm_in_callback_lost_witness:
  "\<not> osal_timer_is_active (Some (Some 1))
     (advance_one (\<lambda>f a s. snd (osal_timer_start (Some (Some 1)) s)) 1 (timer_demo\<lparr>g_ticks := 6\<rparr>))"
  using oneshot_rearm_in_callback_lost [of 1 "timer_demo\<lparr>g_ticks := 6\<rparr>" 1 "\<lambda>f a s. snd (osal_timer_start (Some (Some 1)) s)"]
  by (simp add: timer_demo_def timer_at_def)

text \<open>
  Changing the period keeps the timer inactive or active as it was and keeps its mode and
  callback; a running timer expires one new period after the change. Resetting restarts the
  current period from now.
\<close>

theorem timer_set_period_preserves:
  assumes "i < length (bm_timer_pool s)" "unat (g_ticks s) + unat p < 2 ^ 64"
    and "osal_timer_set_period (Some (Some i)) p s = (r, s1)" "osal_timer_reset (Some (Some i)) s = (r2, s2)"
  shows "r = Ok \<and> osal_timer_is_active (Some (Some i)) s1 = osal_timer_is_active (Some (Some i)) s \<and>
    tm_auto_reload (timer_at s1 i) = tm_auto_reload (timer_at s i) \<and> tm_fn (timer_at s1 i) = tm_fn (timer_at s i) \<and>
    tm_period (timer_at s1 i) = p \<and> unat (tm_deadline (timer_at s1 i)) = unat (g_ticks s) + unat p \<and>
    r2 = Ok \<and> osal_timer_is_active (Some (Some i)) s2 \<and> s2 = snd (osal_timer_start (Some (Some i)) s) \<and>
    (\<forall>j. j \<noteq> i \<longrightarrow> timer_at s1 j = timer_at s j \<and> timer_at s2 j = timer_at s j)"
proof -
  have "unat (ucast p :: u64) = unat p" by (rule unat_ucast_up) simp
  then have "unat (g_ticks s + ucast p) = unat (g_ticks s) + unat p"
    using assms(2) unat_add_fits [of "g_ticks s" "ucast p"] by simp
  then show ?thesis
    using assms(1,3,4)
    by (auto simp: osal_timer_set_period_def osal_timer_reset_def osal_timer_stop_def osal_timer_start_def
        osal_timer_is_active_def bm_ticks_now_def) (simp add: timer_put_def timer_at_def)
qed

theorem timer_set_period_preserves_witness:
  "\<not> osal_timer_is_active (Some (Some 0)) (snd (osal_timer_set_period (Some (Some 0)) 9 timer_demo)) \<and>
   unat (tm_deadline (timer_at (snd (osal_timer_set_period (Some (Some 0)) 9 timer_demo)) 0)) = 14"
proof -
  have "unat (g_ticks timer_demo) + unat (9 :: tick_t) < 2 ^ 64" "g_ticks timer_demo = 5"
    "0 < length (bm_timer_pool timer_demo)" "\<not> osal_timer_is_active (Some (Some 0)) timer_demo"
    by (simp_all add: timer_demo_def osal_timer_is_active_def timer_at_def)
  with timer_set_period_preserves [of 0 timer_demo 9 "fst (osal_timer_set_period (Some (Some 0)) 9 timer_demo)"
      "snd (osal_timer_set_period (Some (Some 0)) 9 timer_demo)" "fst (osal_timer_reset (Some (Some 0)) timer_demo)"
      "snd (osal_timer_reset (Some (Some 0)) timer_demo)"]
  show ?thesis by simp
qed

end
