(* ===== verification/Bm_Task.thy ===== *)
theory Bm_Task
  imports Bm_State
begin

text \<open>
  The cooperative tasks of the bare-metal backend: the task table, the round-robin choice of the
  next task, and the life cycle of a task from creation to join or detach. The stack switches
  themselves (\<^verbatim>\<open>swapcontext\<close>) belong to the platform: \<open>run idx\<close> is what happens from the moment
  task \<open>idx\<close> is switched to until control comes back. The hosted build
  (\<^verbatim>\<open>OSAL_BM_TEST_SELF_TICK\<close>) is the one that has a scheduler; a production build refuses to
  create tasks.
\<close>

definition BM_TASK_VALID :: byte where "BM_TASK_VALID = 0x01"
definition BM_TASK_STARTED :: byte where "BM_TASK_STARTED = 0x02"
definition BM_TASK_FINISHED :: byte where "BM_TASK_FINISHED = 0x04"
definition BM_TASK_DETACHED :: byte where "BM_TASK_DETACHED = 0x08"
definition BM_TASK_WAITING :: byte where "BM_TASK_WAITING = 0x10"

lemmas task_flag_defs = BM_TASK_VALID_def BM_TASK_STARTED_def BM_TASK_FINISHED_def
  BM_TASK_DETACHED_def BM_TASK_WAITING_def

definition flag_set :: "byte \<Rightarrow> bm_task \<Rightarrow> bool" where
  "flag_set b t \<longleftrightarrow> tk_flags t AND b \<noteq> 0"

definition task_at :: "'z bm_state_scheme \<Rightarrow> nat \<Rightarrow> bm_task" where
  "task_at s i = bm_tasks s ! i"

definition task_put :: "nat \<Rightarrow> bm_task \<Rightarrow> 'z bm_state_scheme \<Rightarrow> 'z bm_state_scheme" where
  "task_put i t s = s\<lparr>bm_tasks := (bm_tasks s)[i := t]\<rparr>"

definition task_or :: "nat \<Rightarrow> byte \<Rightarrow> 'z bm_state_scheme \<Rightarrow> 'z bm_state_scheme" where
  "task_or i b s = task_put i ((task_at s i)\<lparr>tk_flags := tk_flags (task_at s i) OR b\<rparr>) s"

definition task_and_not :: "nat \<Rightarrow> byte \<Rightarrow> 'z bm_state_scheme \<Rightarrow> 'z bm_state_scheme" where
  "task_and_not i b s = task_put i ((task_at s i)\<lparr>tk_flags := tk_flags (task_at s i) AND NOT b\<rparr>) s"

section \<open>Choosing a task\<close>

definition task_ready :: "bool \<Rightarrow> bm_task \<Rightarrow> bool" where
  "task_ready include_waiting t \<longleftrightarrow> flag_set BM_TASK_VALID t \<and> \<not> flag_set BM_TASK_FINISHED t \<and>
     (include_waiting \<or> \<not> flag_set BM_TASK_WAITING t)"

text \<open>The loop over \<open>i\<close>, with \<open>k\<close> rounds to go; \<open>-1\<close> when no task is found.\<close>

fun next_ready_from :: "int \<Rightarrow> bool \<Rightarrow> int \<Rightarrow> int \<Rightarrow> nat \<Rightarrow> 'z bm_state_scheme \<Rightarrow> int" where
  "next_ready_from current include_waiting start i 0 s = - 1"
| "next_ready_from current include_waiting start i (Suc k) s =
     (let idx = (start + i) mod int (length (bm_tasks s)) in
      if idx \<noteq> current \<and> task_ready include_waiting (task_at s (nat idx)) then idx
      else next_ready_from current include_waiting start (i + 1) k s)"

definition rr_start :: "int \<Rightarrow> 'z bm_state_scheme \<Rightarrow> int" where
  "rr_start current s =
     (let anchor = (if current < 0 then bm_last_scheduled s else current)
      in if anchor < 0 then 0 else (anchor + 1) mod int (length (bm_tasks s)))"

definition bm_find_next_ready_task :: "int \<Rightarrow> bool \<Rightarrow> 'z bm_state_scheme \<Rightarrow> int" where
  "bm_find_next_ready_task current include_waiting s =
     next_ready_from current include_waiting (rr_start current s) 0 (length (bm_tasks s)) s"

text \<open>What the trampoline does once the entry function of task \<open>idx\<close> has returned.\<close>

definition task_finish :: "nat \<Rightarrow> 'z bm_state_scheme \<Rightarrow> 'z bm_state_scheme" where
  "task_finish idx s =
     (let s1 = task_and_not idx BM_TASK_WAITING (task_or idx BM_TASK_FINISHED s)
      in if flag_set BM_TASK_DETACHED (task_at s1 idx) then task_and_not idx BM_TASK_VALID s1 else s1)"

text \<open>Where the trampoline goes next: another ready task, the scheduler context, or \<open>abort\<close>.\<close>

datatype resume_target = Resume_task nat | Resume_scheduler | Abort

definition bm_task_trampoline ::
  "(nat \<Rightarrow> 'z bm_state_scheme \<Rightarrow> 'z bm_state_scheme) \<Rightarrow> bool \<Rightarrow> nat \<Rightarrow> 'z bm_state_scheme
   \<Rightarrow> resume_target \<times> 'z bm_state_scheme" where
  "bm_task_trampoline entry sched_ctx_valid idx s =
     (let s1 = task_finish idx (entry idx (s\<lparr>bm_current := int idx\<rparr>));
          nxt = bm_find_next_ready_task (int idx) False s1
      in if nxt \<ge> 0 then (Resume_task (nat nxt), s1\<lparr>bm_last_scheduled := nxt, bm_current := nxt\<rparr>)
         else (if sched_ctx_valid then Resume_scheduler else Abort, s1\<lparr>bm_current := - 1\<rparr>))"

text \<open>
  The scheduler, called by a task that yields or from outside; \<open>run_sched\<close> is the switch to the
  scheduler context.
\<close>

definition bm_schedule ::
  "(nat \<Rightarrow> 'z bm_state_scheme \<Rightarrow> 'z bm_state_scheme) \<Rightarrow> ('z bm_state_scheme \<Rightarrow> 'z bm_state_scheme) \<Rightarrow> bool
   \<Rightarrow> 'z bm_state_scheme \<Rightarrow> 'z bm_state_scheme" where
  "bm_schedule run run_sched sched_ctx_valid s =
     (if bm_current s < 0 then
        let nxt = bm_find_next_ready_task (- 1) True s in
        if nxt < 0 then s
        else (run (nat nxt) (s\<lparr>bm_last_scheduled := nxt, bm_current := nxt\<rparr>))\<lparr>bm_current := - 1\<rparr>
      else
        let previous = bm_current s;
            nxt = bm_find_next_ready_task previous False s
        in if nxt \<ge> 0 then (run (nat nxt) (s\<lparr>bm_last_scheduled := nxt, bm_current := nxt\<rparr>))\<lparr>bm_current := previous\<rparr>
           else if sched_ctx_valid then (run_sched (s\<lparr>bm_current := - 1\<rparr>))\<lparr>bm_current := previous\<rparr>
           else s)"

definition bm_wait_yield :: "('z bm_state_scheme \<Rightarrow> 'z bm_state_scheme) \<Rightarrow> 'z bm_state_scheme \<Rightarrow> 'z bm_state_scheme" where
  "bm_wait_yield osal_thread_yield s =
     (let s1 = (if bm_current s \<ge> 0 then task_or (nat (bm_current s)) BM_TASK_WAITING s else s);
          s2 = osal_thread_yield s1
      in if bm_current s2 \<ge> 0 then task_and_not (nat (bm_current s2)) BM_TASK_WAITING s2 else s2)"

section \<open>Life cycle\<close>

definition osal_thread_create_production :: "handle \<Rightarrow> 'z bm_state_scheme \<Rightarrow> error_code \<times> handle \<times> 'z bm_state_scheme" where
  "osal_thread_create_production hnd s = (Not_supported, None, s)"

fun first_unused_task :: "bm_task list \<Rightarrow> nat \<Rightarrow> nat option" where
  "first_unused_task [] i = None"
| "first_unused_task (t # ts) i = (if \<not> flag_set BM_TASK_VALID t then Some i else first_unused_task ts (Suc i))"

definition osal_thread_create ::
  "handle \<Rightarrow> nat \<Rightarrow> nat \<Rightarrow> handle \<Rightarrow> nat \<Rightarrow> 'z bm_state_scheme \<Rightarrow> error_code \<times> handle \<times> 'z bm_state_scheme" where
  "osal_thread_create hnd entry arg stack stack_bytes s =
     (case first_unused_task (bm_tasks s) 0 of
        Some i \<Rightarrow>
          (Ok, Some i,
           task_put i \<lparr>tk_flags = BM_TASK_VALID OR BM_TASK_STARTED, tk_entry = entry, tk_arg = arg,
             tk_stack = stack, tk_stack_bytes = stack_bytes\<rparr> s)
      | None \<Rightarrow> (Out_of_resources, hnd, s))"

fun join_loop ::
  "nat \<Rightarrow> tick_t \<Rightarrow> u64 \<Rightarrow> 'z bm_state_scheme env \<Rightarrow> 'z bm_state_scheme
   \<Rightarrow> (error_code \<times> 'z bm_state_scheme \<times> 'z bm_state_scheme env) option" where
  "join_loop i timeout deadline [] s =
     (if flag_set BM_TASK_FINISHED (task_at s i) then Some (Ok, task_and_not i BM_TASK_VALID s, []) else None)"
| "join_loop i timeout deadline (e # env) s =
     (if flag_set BM_TASK_FINISHED (task_at s i) then Some (Ok, task_and_not i BM_TASK_VALID s, e # env)
      else let s1 = fst e s in
        if timeout \<noteq> WAIT_FOREVER \<and> bm_ticks_now s1 \<ge> deadline then Some (Timeout, s1, env)
        else join_loop i timeout deadline env s1)"

text \<open>The handle is cleared only when the task was joined.\<close>

definition osal_thread_join ::
  "handle option \<Rightarrow> tick_t \<Rightarrow> 'z bm_state_scheme env \<Rightarrow> 'z bm_state_scheme
   \<Rightarrow> (error_code \<times> handle option \<times> 'z bm_state_scheme \<times> 'z bm_state_scheme env) option" where
  "osal_thread_join hnd timeout env s =
     (case native_of hnd of
        None \<Rightarrow> Some (Not_initialized, hnd, s, env)
      | Some i \<Rightarrow>
          map_option (\<lambda>(r, s', env'). (r, if r = Ok then Some None else hnd, s', env'))
            (join_loop i timeout (bm_ticks_now s + ucast timeout) env s))"

definition osal_thread_detach :: "handle option \<Rightarrow> 'z bm_state_scheme \<Rightarrow> error_code \<times> handle option \<times> 'z bm_state_scheme" where
  "osal_thread_detach hnd s =
     (case native_of hnd of
        None \<Rightarrow> (Not_initialized, hnd, s)
      | Some i \<Rightarrow> (Ok, Some None, task_or i BM_TASK_DETACHED s))"

fun sleep_loop :: "u64 \<Rightarrow> 'z bm_state_scheme env \<Rightarrow> 'z bm_state_scheme \<Rightarrow> ('z bm_state_scheme \<times> 'z bm_state_scheme env) option" where
  "sleep_loop wake [] s = (if bm_ticks_now s < wake then None else Some (s, []))"
| "sleep_loop wake (e # env) s = (if bm_ticks_now s < wake then sleep_loop wake env (fst e s) else Some (s, e # env))"

definition osal_thread_sleep_ms ::
  "u32 \<Rightarrow> 'z bm_state_scheme env \<Rightarrow> 'z bm_state_scheme \<Rightarrow> ('z bm_state_scheme \<times> 'z bm_state_scheme env) option" where
  "osal_thread_sleep_ms ms env s = sleep_loop (bm_ticks_now s + ucast ms) env s"

section \<open>Facts\<close>

lemma task_at_put [simp]:
  "i < length (bm_tasks s) \<Longrightarrow> task_at (task_put i t s) j = (if j = i then t else task_at s j)"
  by (simp add: task_at_def task_put_def nth_list_update)

lemma task_put_simps [simp]:
  "length (bm_tasks (task_put i t s)) = length (bm_tasks s)" "g_ticks (task_put i t s) = g_ticks s"
  by (simp_all add: task_put_def)

lemma flag_set_bit:
  "flag_set BM_TASK_VALID t \<longleftrightarrow> bit (tk_flags t) 0"
  "flag_set BM_TASK_FINISHED t \<longleftrightarrow> bit (tk_flags t) 2"
  "flag_set BM_TASK_DETACHED t \<longleftrightarrow> bit (tk_flags t) 3"
  "flag_set BM_TASK_WAITING t \<longleftrightarrow> bit (tk_flags t) 4"
  using bit_iff_and_push_bit_not_eq_0 [of "tk_flags t" 0] bit_iff_and_push_bit_not_eq_0 [of "tk_flags t" 2]
    bit_iff_and_push_bit_not_eq_0 [of "tk_flags t" 3] bit_iff_and_push_bit_not_eq_0 [of "tk_flags t" 4]
  by (simp_all add: flag_set_def task_flag_defs push_bit_eq_mult)

text \<open>The search returns the first candidate of the scanned range.\<close>

definition candidate :: "int \<Rightarrow> bool \<Rightarrow> 'z bm_state_scheme \<Rightarrow> int \<Rightarrow> bool" where
  "candidate current w s idx \<longleftrightarrow> idx \<noteq> current \<and> task_ready w (task_at s (nat idx))"

lemma next_ready_from_spec:
  fixes s :: "'z bm_state_scheme"
  defines "n \<equiv> int (length (bm_tasks s))"
  assumes "0 < n"
  shows "(next_ready_from current w start i k s = - 1 \<longleftrightarrow> (\<forall>m < k. \<not> candidate current w s ((start + i + int m) mod n))) \<and>
    (next_ready_from current w start i k s \<noteq> - 1 \<longrightarrow>
      (\<exists>m < k. next_ready_from current w start i k s = (start + i + int m) mod n \<and>
        candidate current w s ((start + i + int m) mod n) \<and>
        (\<forall>m' < m. \<not> candidate current w s ((start + i + int m') mod n))))"
proof (induction k arbitrary: i)
  case (Suc k)
  let ?idx = "(start + i) mod n"
  have ne: "?idx \<noteq> - 1" using assms(2) pos_mod_sign [of n "start + i"] by linarith
  show ?case
  proof (cases "candidate current w s ?idx")
    case True
    then have "next_ready_from current w start i (Suc k) s = ?idx"
      by (simp add: candidate_def n_def Let_def)
    with True ne show ?thesis by (auto intro!: exI [of _ 0])
  next
    case False
    then have eq: "next_ready_from current w start i (Suc k) s = next_ready_from current w start (i + 1) k s"
      by (auto simp: candidate_def n_def Let_def)
    let ?c = "\<lambda>m. candidate current w s ((start + i + int m) mod n)"
    have shift: "start + (i + 1) + int m = start + i + int (Suc m)" for m by simp
    have all: "(\<forall>m < Suc b. \<not> ?c m) \<longleftrightarrow> (\<forall>m < b. \<not> ?c (Suc m))" for b
      using False by (auto simp: less_Suc_eq_0_disj)
    note IH = Suc.IH [of "i + 1", unfolded shift]
    have "\<exists>m < Suc k. next_ready_from current w start (i + 1) k s = (start + i + int m) mod n \<and> ?c m \<and> (\<forall>m' < m. \<not> ?c m')"
      if r: "next_ready_from current w start (i + 1) k s \<noteq> - 1"
    proof -
      from IH r obtain m where "m < k" "next_ready_from current w start (i + 1) k s = (start + i + int (Suc m)) mod n"
        "?c (Suc m)" "\<forall>m' < m. \<not> ?c (Suc m')" by blast
      then show ?thesis using all [of m] by (intro exI [of _ "Suc m"]) simp
    qed
    with IH show ?thesis unfolding eq all [of k] by blast
  qed
qed simp

text \<open>The distance from one index to another going round the table.\<close>

definition rr_distance :: "nat \<Rightarrow> int \<Rightarrow> int \<Rightarrow> int" where
  "rr_distance n a j = (j - a - 1) mod int n"

lemma rr_start_step:
  assumes "0 < length (bm_tasks s)" "0 \<le> j" "j < int (length (bm_tasks s))"
    and "current < 0 \<Longrightarrow> bm_last_scheduled s = - 1 \<or> 0 \<le> bm_last_scheduled s"
  defines "a \<equiv> (if current < 0 then bm_last_scheduled s else current)"
  shows "(rr_start current s + rr_distance (length (bm_tasks s)) a j) mod int (length (bm_tasks s)) = j"
proof -
  let ?n = "int (length (bm_tasks s))"
  have "rr_start current s mod ?n = (a + 1) mod ?n"
    using assms(4) by (auto simp: rr_start_def a_def Let_def)
  then have "(rr_start current s + (j - a - 1) mod ?n) mod ?n = (a + 1 + (j - a - 1)) mod ?n"
    by (metis mod_add_left_eq mod_add_right_eq)
  then show ?thesis using assms(2,3) by (simp add: rr_distance_def)
qed

text \<open>Going round from the anchor, the task found comes no later than any other candidate.\<close>

lemma find_next_first:
  fixes s :: "'z bm_state_scheme" and current :: int and w :: bool
  defines "n \<equiv> length (bm_tasks s)"
    and "a \<equiv> (if current < 0 then bm_last_scheduled s else current)"
    and "r \<equiv> bm_find_next_ready_task current w s"
  assumes n: "0 < n" and last: "current < 0 \<Longrightarrow> bm_last_scheduled s = - 1 \<or> 0 \<le> bm_last_scheduled s"
  shows "(r = - 1 \<longrightarrow> (\<forall>j. 0 \<le> j \<longrightarrow> j < int n \<longrightarrow> \<not> candidate current w s j)) \<and>
    (r \<noteq> - 1 \<longrightarrow> 0 \<le> r \<and> r < int n \<and> candidate current w s r \<and>
      (\<forall>j. 0 \<le> j \<longrightarrow> j < int n \<longrightarrow> candidate current w s j \<longrightarrow> rr_distance n a r \<le> rr_distance n a j))"
proof -
  let ?st = "rr_start current s"
  have hit: "(?st + rr_distance n a j) mod int n = j" if "0 \<le> j" "j < int n" for j
    using rr_start_step [of s j current] that n last by (simp add: n_def a_def)
  have dist: "0 \<le> rr_distance n a j" "rr_distance n a j < int n" for j
    using n by (simp_all add: rr_distance_def)
  note spec = next_ready_from_spec [of s current w ?st 0 n, unfolded add_0_right]
  have r: "r = next_ready_from current w ?st 0 n s" by (simp add: r_def n_def bm_find_next_ready_task_def)
  have pos: "0 < int (length (bm_tasks s))" using n by (simp add: n_def)
  have dm: "int m = rr_distance n a ((?st + int m) mod int n)" if "m < n" for m
  proof -
    let ?j = "(?st + int m) mod int n"
    have "0 \<le> ?j" "?j < int n" using n by simp_all
    from hit [OF this] have "(?st + rr_distance n a ?j) mod int n = (?st + int m) mod int n" .
    then have "rr_distance n a ?j mod int n = int m mod int n"
      by (metis add_diff_cancel_left' mod_diff_left_eq)
    then show ?thesis using that dist [of ?j] by simp
  qed
  show ?thesis
  proof (cases "r = - 1")
    case True
    have "\<not> candidate current w s j" if "0 \<le> j" "j < int n" for j
      using spec [OF pos] True r hit [OF that] dist [of j]
      by (metis n_def nat_less_iff int_nat_eq)
    with True show ?thesis by simp
  next
    case False
    then obtain m where m: "m < n" "r = (?st + int m) mod int n" "candidate current w s r"
      "\<forall>m' < m. \<not> candidate current w s ((?st + int m') mod int n)"
      using spec [OF pos] r by (auto simp: n_def)
    have "rr_distance n a r \<le> rr_distance n a j" if "0 \<le> j" "j < int n" "candidate current w s j" for j
      using m(4) dm [OF m(1)] m(2) hit [OF that(1,2)] dist [of j] that(3)
      by (metis int_nat_eq leI of_nat_less_iff)
    with m n False show ?thesis by simp
  qed
qed

lemma rr_distance_decreases:
  assumes "0 < n" "0 \<le> r" "r < int n" "0 \<le> j" "j < int n" "r \<noteq> j" "rr_distance n a r \<le> rr_distance n a j"
  shows "rr_distance n r j < rr_distance n a j"
proof -
  let ?D = "\<lambda>k. (k - a - 1) mod int n"
  have "?D r \<noteq> ?D j"
  proof
    assume "?D r = ?D j"
    then have "(r - a - 1 + (a + 1)) mod int n = (j - a - 1 + (a + 1)) mod int n" by (metis mod_add_left_eq)
    with assms show False by simp
  qed
  with assms(7) have lt: "?D r < ?D j" by (simp add: rr_distance_def)
  have b: "0 \<le> ?D r" "?D j < int n" using assms(1) by simp_all
  have "(j - r - 1) mod int n = ((j - a - 1) - (r - a - 1) - 1) mod int n" by simp
  also have "\<dots> = (?D j - ?D r - 1) mod int n" by (metis mod_diff_eq mod_diff_left_eq)
  also have "\<dots> = ?D j - ?D r - 1" using lt b by (intro mod_pos_pos_trivial) linarith+
  finally show ?thesis using b by (simp add: rr_distance_def)
qed

lemma first_unused_task_Some:
  "first_unused_task ts i = Some j \<Longrightarrow> i \<le> j \<and> j < i + length ts \<and> \<not> flag_set BM_TASK_VALID (ts ! (j - i))"
  by (induction ts i rule: first_unused_task.induct) (fastforce simp: nth_Cons' Suc_le_eq split: if_splits)+

lemma thread_create_slot:
  assumes "osal_thread_create hnd en ar st sb s = (Ok, Some i, s')"
  shows "i < length (bm_tasks s) \<and> \<not> flag_set BM_TASK_VALID (task_at s i) \<and>
    task_at s' i = \<lparr>tk_flags = 3, tk_entry = en, tk_arg = ar, tk_stack = st, tk_stack_bytes = sb\<rparr> \<and>
    length (bm_tasks s') = length (bm_tasks s) \<and> (\<forall>j. j \<noteq> i \<longrightarrow> task_at s' j = task_at s j)"
proof (cases "first_unused_task (bm_tasks s) 0")
  case (Some k)
  then have k: "k < length (bm_tasks s)" "\<not> flag_set BM_TASK_VALID (task_at s k)"
    using first_unused_task_Some [of "bm_tasks s" 0 k] by (simp_all add: task_at_def)
  from assms Some have "i = k" and s': "s' = task_put k \<lparr>tk_flags = BM_TASK_VALID OR BM_TASK_STARTED, tk_entry = en,
      tk_arg = ar, tk_stack = st, tk_stack_bytes = sb\<rparr> s"
    by (auto simp: osal_thread_create_def)
  with k show ?thesis by (simp add: task_flag_defs)
qed (use assms in \<open>simp add: osal_thread_create_def\<close>)

lemma sleep_loop_returns:
  assumes "\<forall>e \<in> set env. ticking (fst e)" "unat wake \<le> unat (g_ticks s) + length env"
  shows "\<exists>s' env'. sleep_loop wake env s = Some (s', env') \<and> wake \<le> g_ticks s'"
  using assms
proof (induction env arbitrary: s)
  case Nil
  then show ?case by (simp add: bm_ticks_now_def not_less word_le_nat_alt word_less_nat_alt)
next
  case (Cons e env)
  show ?case
  proof (cases "bm_ticks_now s < wake")
    case True
    then have "unat (g_ticks s) < unat (g_ticks (fst e s))"
      using Cons.prems(1) by (intro tickingD [of "fst e" s wake]) (auto simp: bm_ticks_now_def word_less_nat_alt)
    with Cons True show ?thesis by simp
  qed (auto simp: bm_ticks_now_def not_less)
qed

lemma join_loop_returns:
  assumes "\<forall>e \<in> set env. ticking (fst e)" "unat deadline < unat (g_ticks s) + length env"
    and "unat (g_ticks s) \<le> unat deadline" "unat deadline < 2 ^ 64 - 1" "timeout \<noteq> WAIT_FOREVER"
  shows "\<exists>r s' env'. join_loop i timeout deadline env s = Some (r, s', env') \<and>
    ((r = Ok \<and> (\<exists>s0. flag_set BM_TASK_FINISHED (task_at s0 i) \<and> s' = task_and_not i BM_TASK_VALID s0)) \<or>
     (r = Timeout \<and> deadline \<le> g_ticks s'))"
  using assms(1-3)
proof (induction env arbitrary: s)
  case (Cons e env)
  show ?case
  proof (cases "flag_set BM_TASK_FINISHED (task_at s i) \<or> deadline \<le> bm_ticks_now (fst e s)")
    case True
    then show ?thesis using assms(5) by (auto simp: Let_def bm_ticks_now_def)
  next
    case False
    then have lt: "unat (g_ticks (fst e s)) < unat deadline" by (simp add: bm_ticks_now_def word_le_nat_alt)
    have "unat (g_ticks s) < 2 ^ 64 - 1" using Cons.prems(3) assms(4) by linarith
    then have "unat (g_ticks s) < unat (g_ticks (fst e s))"
      using Cons.prems(1) unfolding ticking_def by (meson list.set_intros(1))
    then have "unat deadline < unat (g_ticks (fst e s)) + length env" using Cons.prems(2) by simp
    with Cons.IH [of "fst e s"] Cons.prems(1) lt False show ?thesis by (simp add: Let_def)
  qed
qed simp

section \<open>Properties\<close>

text \<open>
  C9: the scheduler is round robin. From the anchor (the running task, or the task scheduled last)
  it picks the nearest other ready task going round the table, and none only if there is none; a
  ready task that is passed over has strictly moved nearer, so it waits for fewer than
  \<open>OSAL_BM_MAX_TASKS\<close> choices.
\<close>

theorem scheduler_round_robin:
  assumes "bm_tasks s \<noteq> []" "current < 0 \<longrightarrow> bm_last_scheduled s \<ge> - 1"
    and "a = (if current < 0 then bm_last_scheduled s else current)"
    and "r = bm_find_next_ready_task current w s"
  shows "(r = - 1 \<longrightarrow> (\<forall>j. 0 \<le> j \<longrightarrow> j < int (length (bm_tasks s)) \<longrightarrow> \<not> candidate current w s j)) \<and>
    (r \<noteq> - 1 \<longrightarrow> 0 \<le> r \<and> r < int (length (bm_tasks s)) \<and> candidate current w s r \<and>
      (\<forall>j. 0 \<le> j \<longrightarrow> j < int (length (bm_tasks s)) \<longrightarrow> candidate current w s j \<longrightarrow> j \<noteq> r \<longrightarrow>
         rr_distance (length (bm_tasks s)) r j < rr_distance (length (bm_tasks s)) a j))"
proof -
  have n: "0 < length (bm_tasks s)" using assms(1) by simp
  have last: "current < 0 \<Longrightarrow> bm_last_scheduled s = - 1 \<or> 0 \<le> bm_last_scheduled s" using assms(2) by linarith
  note first = find_next_first [of s current w, OF n last, folded assms(3,4)]
  then show ?thesis using rr_distance_decreases [OF n] by blast
qed

definition task_demo :: bm_state where
  "task_demo = \<lparr>g_ticks = 0,
     bm_tasks = map (\<lambda>f. \<lparr>tk_flags = f, tk_entry = 0, tk_arg = 0, tk_stack = None, tk_stack_bytes = 0\<rparr>) [3, 7, 19, 0],
     bm_current = -1, bm_last_scheduled = 0,
     bm_mutex_pool = [], bm_mutex_used_bits = [], bm_sem_pool = [], bm_sem_used_bits = [],
     bm_queue_pool = [], bm_queue_used_bits = [], bm_timer_pool = []\<rparr>"

theorem scheduler_round_robin_witness:
  "bm_find_next_ready_task (- 1) False task_demo = 0 \<and> bm_find_next_ready_task (- 1) True task_demo = 2 \<and>
   rr_distance 4 2 0 < rr_distance 4 0 0"
proof -
  have r: "bm_find_next_ready_task (- 1) True task_demo = 2" "bm_find_next_ready_task (- 1) False task_demo = 0"
    by (simp_all add: bm_find_next_ready_task_def rr_start_def task_demo_def task_ready_def task_at_def
        flag_set_def task_flag_defs)
  have c: "candidate (- 1) True task_demo 0"
    by (simp add: candidate_def task_ready_def task_at_def task_demo_def flag_set_def task_flag_defs)
  have l: "length (bm_tasks task_demo) = 4" "bm_last_scheduled task_demo = 0" "bm_tasks task_demo \<noteq> []"
    by (simp_all add: task_demo_def)
  from scheduler_round_robin [OF l(3), of "- 1" 0 2 True] r c l show ?thesis by simp
qed

text \<open>
  The life cycle of a task. Creation takes a free slot and clears its flags; a task that
  finishes and is then joined, and one that is detached and then finishes, both give their slot
  back, and the handle is cleared.
\<close>

theorem task_slot_reclaimed:
  assumes "osal_thread_create hnd en ar st sb s = (Ok, Some i, s1)"
  shows "osal_thread_join (Some (Some i)) timeout env (task_finish i s1) =
      Some (Ok, Some None, task_and_not i BM_TASK_VALID (task_finish i s1), env) \<and>
    \<not> flag_set BM_TASK_VALID (task_at (task_and_not i BM_TASK_VALID (task_finish i s1)) i) \<and>
    fst (osal_thread_detach (Some (Some i)) s1) = Ok \<and>
    \<not> flag_set BM_TASK_VALID (task_at (task_finish i (snd (snd (osal_thread_detach (Some (Some i)) s1)))) i)"
proof -
  note c = thread_create_slot [OF assms]
  have i: "i < length (bm_tasks s1)" using c by simp
  have fin: "flag_set BM_TASK_FINISHED (task_at (task_finish i s1) i)"
    using c i by (simp add: task_finish_def task_or_def task_and_not_def Let_def flag_set_def task_flag_defs)
  then have "join_loop i timeout d env (task_finish i s1) = Some (Ok, task_and_not i BM_TASK_VALID (task_finish i s1), env)" for d
    by (cases env) simp_all
  moreover have "\<not> flag_set BM_TASK_VALID (task_at (task_and_not i BM_TASK_VALID (task_finish i s1)) i)"
    using c i by (simp add: task_and_not_def task_finish_def task_or_def Let_def flag_set_def task_flag_defs)
  moreover have "\<not> flag_set BM_TASK_VALID (task_at (task_finish i (snd (snd (osal_thread_detach (Some (Some i)) s1)))) i)"
    using c i by (simp add: osal_thread_detach_def task_and_not_def task_finish_def task_or_def Let_def flag_set_def task_flag_defs)
  ultimately show ?thesis by (simp add: osal_thread_join_def osal_thread_detach_def)
qed

theorem task_slot_reclaimed_witness:
  "\<exists>s1. osal_thread_create None 1 2 None 0 task_demo = (Ok, Some 3, s1) \<and>
     fst (osal_thread_detach (Some (Some 3)) s1) = Ok"
proof -
  have "osal_thread_create None 1 2 None 0 task_demo = (Ok, Some 3, snd (snd (osal_thread_create None 1 2 None 0 task_demo)))"
    by (simp add: osal_thread_create_def task_demo_def flag_set_def task_flag_defs)
  from task_slot_reclaimed [OF this] this show ?thesis by blast
qed

text \<open>
  C12: a task that has already finished when it is detached keeps its slot: \<open>osal_thread_detach\<close>
  answers \<open>Ok\<close> and clears the handle, but the slot stays marked valid and finished, so neither
  join nor creation can ever take it again.
\<close>

theorem detach_after_finish_leaks:
  assumes "osal_thread_create hnd en ar st sb s = (Ok, Some i, s1)"
    and "osal_thread_detach (Some (Some i)) (task_finish i s1) = (r, h, s2)"
  shows "r = Ok \<and> h = Some None \<and> flag_set BM_TASK_VALID (task_at s2 i) \<and> flag_set BM_TASK_FINISHED (task_at s2 i) \<and>
    \<not> candidate c w s2 (int i) \<and> (\<forall>s3. osal_thread_create hnd en ar st sb s2 \<noteq> (Ok, Some i, s3))"
proof -
  note c = thread_create_slot [OF assms(1)]
  have v: "flag_set BM_TASK_VALID (task_at s2 i)" and f: "flag_set BM_TASK_FINISHED (task_at s2 i)" and "r = Ok" "h = Some None"
    using c assms(2)
    by (auto simp: osal_thread_detach_def task_and_not_def task_finish_def task_or_def Let_def flag_set_def task_flag_defs)
  moreover have "osal_thread_create hnd en ar st sb s2 \<noteq> (Ok, Some i, s3)" for s3
    using thread_create_slot [of hnd en ar st sb s2 i s3] v by blast
  ultimately show ?thesis by (simp add: candidate_def task_ready_def)
qed

theorem detach_after_finish_leaks_witness:
  "\<exists>s1 s2. osal_thread_create None 1 2 None 0 task_demo = (Ok, Some 3, s1) \<and>
     osal_thread_detach (Some (Some 3)) (task_finish 3 s1) = (Ok, Some None, s2) \<and>
     flag_set BM_TASK_VALID (task_at s2 3)"
proof -
  let ?s1 = "snd (snd (osal_thread_create None 1 2 None 0 task_demo))"
  have c: "osal_thread_create None 1 2 None 0 task_demo = (Ok, Some 3, ?s1)"
    by (simp add: osal_thread_create_def task_demo_def flag_set_def task_flag_defs)
  obtain r h s2 where d: "osal_thread_detach (Some (Some 3)) (task_finish 3 ?s1) = (r, h, s2)" by (metis prod_cases3)
  from detach_after_finish_leaks [OF c d] c d show ?thesis by blast
qed

text \<open>
  \<open>osal_thread_sleep_ms\<close> returns, not before \<open>ms\<close> ticks have passed, after at most \<open>ms\<close>
  scheduling points at which time passes; a timed join returns after at most \<open>timeout + 1\<close> of
  them, with \<open>Ok\<close> only for a finished task, whose slot it frees, and \<open>Timeout\<close> only at or after the
  deadline.
\<close>

theorem sleep_and_join_return:
  assumes "\<forall>e \<in> set env. ticking (fst e)" "unat (g_ticks s) + unat (ms :: u32) < 2 ^ 64 - 1" "unat ms < length env"
    and "ms \<noteq> WAIT_FOREVER"
  shows "(\<exists>s' env'. osal_thread_sleep_ms ms env s = Some (s', env') \<and> unat (g_ticks s) + unat ms \<le> unat (g_ticks s')) \<and>
    (\<exists>r h s' env'. osal_thread_join (Some (Some i)) ms env s = Some (r, h, s', env') \<and>
      ((r = Ok \<and> h = Some None \<and> (\<exists>s0. flag_set BM_TASK_FINISHED (task_at s0 i) \<and> s' = task_and_not i BM_TASK_VALID s0)) \<or>
       (r = Timeout \<and> h = Some (Some i) \<and> unat (g_ticks s) + unat ms \<le> unat (g_ticks s'))))"
proof -
  have "unat (ucast ms :: u64) = unat ms" by (rule unat_ucast_up) simp
  then have d: "unat (g_ticks s + ucast ms) = unat (g_ticks s) + unat ms"
    using assms(2) unat_add_fits [of "g_ticks s" "ucast ms"] by simp
  obtain s1 e1 where "sleep_loop (g_ticks s + ucast ms) env s = Some (s1, e1)" "g_ticks s + ucast ms \<le> g_ticks s1"
    using sleep_loop_returns [OF assms(1), of "g_ticks s + ucast ms" s] d assms(3) by auto
  moreover obtain r s2 e2 where "join_loop i ms (g_ticks s + ucast ms) env s = Some (r, s2, e2)"
    "(r = Ok \<and> (\<exists>s0. flag_set BM_TASK_FINISHED (task_at s0 i) \<and> s2 = task_and_not i BM_TASK_VALID s0)) \<or>
     (r = Timeout \<and> g_ticks s + ucast ms \<le> g_ticks s2)"
    using join_loop_returns [OF assms(1), of "g_ticks s + ucast ms" s ms i] d assms(2-4) by auto
  ultimately show ?thesis
    using d by (auto simp: osal_thread_sleep_ms_def osal_thread_join_def bm_ticks_now_def word_le_nat_alt)
qed

theorem sleep_and_join_return_witness:
  "\<exists>s' env'. osal_thread_sleep_ms 2 [(osal_baremetal_tick, False), (osal_baremetal_tick, False), (osal_baremetal_tick, False)] task_demo =
     Some (s', env') \<and> 2 \<le> unat (g_ticks s')"
proof -
  have "g_ticks task_demo = 0" by (simp add: task_demo_def)
  with sleep_and_join_return [of "[(osal_baremetal_tick, False), (osal_baremetal_tick, False), (osal_baremetal_tick, False)]" task_demo 2 0]
  show ?thesis by (auto simp: WAIT_FOREVER_def ticking_tick)
qed

end
