(* ===== verification/Bm_Sync.thy ===== *)
theory Bm_Sync
  imports Bm_State
begin

text \<open>
  Mutexes and counting semaphores of the bare-metal backend, both taken from static pools with an
  occupancy bit map. A mutex is an atomic flag, a semaphore an atomic counter with a maximum; the
  last section runs any number of give and take calls against one counter, each split into its
  load and its compare-exchange.
\<close>

section \<open>Mutexes\<close>

definition osal_mutex_create :: "handle \<Rightarrow> 'z bm_state_scheme \<Rightarrow> error_code \<times> handle \<times> 'z bm_state_scheme" where
  "osal_mutex_create hnd s =
     (case first_free (bm_mutex_used_bits s) 0 (length (bm_mutex_pool s)) of
        Some i \<Rightarrow>
          (Ok, Some i,
           s\<lparr>bm_mutex_used_bits := bit_mark (bm_mutex_used_bits s) i,
             bm_mutex_pool := (bm_mutex_pool s)[i := (bm_mutex_pool s ! i)\<lparr>mtx_flag := False\<rparr>]\<rparr>)
      | None \<Rightarrow> (Out_of_resources, hnd, s))"

definition osal_mutex_destroy :: "handle option \<Rightarrow> 'z bm_state_scheme \<Rightarrow> error_code \<times> handle \<times> 'z bm_state_scheme" where
  "osal_mutex_destroy hnd s =
     (case native_of hnd of
        None \<Rightarrow> (Ok, None, s)
      | Some i \<Rightarrow>
          (Ok, None,
           if i < length (bm_mutex_pool s)
           then s\<lparr>bm_mutex_used_bits := bit_unmark (bm_mutex_used_bits s) i\<rparr> else s))"

text \<open>\<^verbatim>\<open>flag.test_and_set()\<close>: the old value, with the flag set.\<close>

definition mutex_test_and_set :: "nat \<Rightarrow> 'z bm_state_scheme \<Rightarrow> bool \<times> 'z bm_state_scheme" where
  "mutex_test_and_set i s =
     (mtx_flag (bm_mutex_pool s ! i),
      s\<lparr>bm_mutex_pool := (bm_mutex_pool s)[i := (bm_mutex_pool s ! i)\<lparr>mtx_flag := True\<rparr>]\<rparr>)"

definition mutex_lock_body :: "nat \<Rightarrow> u64 \<Rightarrow> 'z bm_state_scheme \<Rightarrow> error_code option \<times> 'z bm_state_scheme" where
  "mutex_lock_body i deadline s =
     (case mutex_test_and_set i s of (was_set, s') \<Rightarrow>
        if \<not> was_set then (Some Ok, s')
        else if bm_ticks_now s' \<ge> deadline then (Some Timeout, s')
        else (None, s'))"

definition osal_mutex_lock ::
  "handle option \<Rightarrow> tick_t \<Rightarrow> 'z bm_state_scheme env \<Rightarrow> 'z bm_state_scheme
   \<Rightarrow> (error_code \<times> 'z bm_state_scheme \<times> 'z bm_state_scheme env) option" where
  "osal_mutex_lock hnd timeout env s =
     (case native_of hnd of
        None \<Rightarrow> Some (Not_initialized, s, env)
      | Some i \<Rightarrow> wait_loop (mutex_lock_body i (bm_deadline timeout s)) env s)"

definition osal_mutex_try_lock :: "handle option \<Rightarrow> 'z bm_state_scheme \<Rightarrow> error_code \<times> 'z bm_state_scheme" where
  "osal_mutex_try_lock hnd s =
     (case native_of hnd of
        None \<Rightarrow> (Not_initialized, s)
      | Some i \<Rightarrow>
          (case mutex_test_and_set i s of (was_set, s') \<Rightarrow> (if was_set then Would_block else Ok, s')))"

definition osal_mutex_unlock :: "handle option \<Rightarrow> 'z bm_state_scheme \<Rightarrow> error_code \<times> 'z bm_state_scheme" where
  "osal_mutex_unlock hnd s =
     (case native_of hnd of
        None \<Rightarrow> (Not_initialized, s)
      | Some i \<Rightarrow>
          (Ok, s\<lparr>bm_mutex_pool := (bm_mutex_pool s)[i := (bm_mutex_pool s ! i)\<lparr>mtx_flag := False\<rparr>]\<rparr>))"

section \<open>Semaphores\<close>

definition osal_semaphore_create ::
  "handle option \<Rightarrow> u32 \<Rightarrow> u32 \<Rightarrow> 'z bm_state_scheme \<Rightarrow> error_code \<times> handle option \<times> 'z bm_state_scheme" where
  "osal_semaphore_create hnd init mx s =
     (if hnd = None \<or> mx = 0 \<or> init > mx then (Invalid_argument, hnd, s)
      else case first_free (bm_sem_used_bits s) 0 (length (bm_sem_pool s)) of
        Some i \<Rightarrow>
          (Ok, Some (Some i),
           s\<lparr>bm_sem_used_bits := bit_mark (bm_sem_used_bits s) i,
             bm_sem_pool := (bm_sem_pool s)[i := (bm_sem_pool s ! i)\<lparr>sem_count := init, sem_max := mx\<rparr>]\<rparr>)
      | None \<Rightarrow> (Out_of_resources, hnd, s))"

definition osal_semaphore_destroy :: "handle option \<Rightarrow> 'z bm_state_scheme \<Rightarrow> error_code \<times> handle \<times> 'z bm_state_scheme" where
  "osal_semaphore_destroy hnd s =
     (case native_of hnd of
        None \<Rightarrow> (Ok, None, s)
      | Some i \<Rightarrow>
          (Ok, None,
           if i < length (bm_sem_pool s)
           then s\<lparr>bm_sem_used_bits := bit_unmark (bm_sem_used_bits s) i\<rparr> else s))"

definition sem_get :: "nat \<Rightarrow> 'z bm_state_scheme \<Rightarrow> u32" where
  "sem_get i s = sem_count (bm_sem_pool s ! i)"

definition sem_set :: "nat \<Rightarrow> u32 \<Rightarrow> 'z bm_state_scheme \<Rightarrow> 'z bm_state_scheme" where
  "sem_set i c s = s\<lparr>bm_sem_pool := (bm_sem_pool s)[i := (bm_sem_pool s ! i)\<lparr>sem_count := c\<rparr>]\<rparr>"

text \<open>
  The retry loop of \<open>give\<close>: \<open>count\<close> is the value last loaded. Between the load and the
  compare-exchange the environment runs; a failed compare-exchange reloads \<open>count\<close>.
\<close>

fun sem_give_loop ::
  "nat \<Rightarrow> u32 \<Rightarrow> 'z bm_state_scheme env \<Rightarrow> 'z bm_state_scheme
   \<Rightarrow> (error_code \<times> 'z bm_state_scheme \<times> 'z bm_state_scheme env) option" where
  "sem_give_loop i count [] s =
     (if count < sem_max (bm_sem_pool s ! i) then None else Some (Overflow, s, []))"
| "sem_give_loop i count (e # env) s =
     (if count < sem_max (bm_sem_pool s ! i) then
        let s1 = fst e s in
        if sem_get i s1 = count \<and> \<not> snd e then Some (Ok, sem_set i (count + 1) s1, env)
        else sem_give_loop i (sem_get i s1) env s1
      else Some (Overflow, s, e # env))"

definition osal_semaphore_give ::
  "handle option \<Rightarrow> 'z bm_state_scheme env \<Rightarrow> 'z bm_state_scheme
   \<Rightarrow> (error_code \<times> 'z bm_state_scheme \<times> 'z bm_state_scheme env) option" where
  "osal_semaphore_give hnd env s =
     (case native_of hnd of
        None \<Rightarrow> Some (Not_initialized, s, env)
      | Some i \<Rightarrow> sem_give_loop i (sem_get i s) env s)"

definition osal_semaphore_give_isr ::
  "handle option \<Rightarrow> 'z bm_state_scheme env \<Rightarrow> 'z bm_state_scheme
   \<Rightarrow> (error_code \<times> 'z bm_state_scheme \<times> 'z bm_state_scheme env) option" where
  "osal_semaphore_give_isr hnd env s = osal_semaphore_give hnd env s"

fun sem_take_loop ::
  "nat \<Rightarrow> tick_t \<Rightarrow> u64 \<Rightarrow> 'z bm_state_scheme env \<Rightarrow> 'z bm_state_scheme
   \<Rightarrow> (error_code \<times> 'z bm_state_scheme \<times> 'z bm_state_scheme env) option" where
  "sem_take_loop i timeout deadline [] s =
     (if sem_get i s > 0 then None
      else if timeout = NO_WAIT then Some (Would_block, s, [])
      else if bm_ticks_now s \<ge> deadline then Some (Timeout, s, [])
      else None)"
| "sem_take_loop i timeout deadline (e # env) s =
     (let c = sem_get i s in
      if c > 0 then
        let s1 = fst e s in
        if sem_get i s1 = c \<and> \<not> snd e then Some (Ok, sem_set i (c - 1) s1, env)
        else sem_take_loop i timeout deadline env s1
      else if timeout = NO_WAIT then Some (Would_block, s, e # env)
      else if bm_ticks_now s \<ge> deadline then Some (Timeout, s, e # env)
      else sem_take_loop i timeout deadline env (fst e s))"

definition osal_semaphore_take ::
  "handle option \<Rightarrow> tick_t \<Rightarrow> 'z bm_state_scheme env \<Rightarrow> 'z bm_state_scheme
   \<Rightarrow> (error_code \<times> 'z bm_state_scheme \<times> 'z bm_state_scheme env) option" where
  "osal_semaphore_take hnd timeout env s =
     (case native_of hnd of
        None \<Rightarrow> Some (Not_initialized, s, env)
      | Some i \<Rightarrow> sem_take_loop i timeout (bm_deadline timeout s) env s)"

definition osal_semaphore_try_take ::
  "handle option \<Rightarrow> 'z bm_state_scheme env \<Rightarrow> 'z bm_state_scheme
   \<Rightarrow> (error_code \<times> 'z bm_state_scheme \<times> 'z bm_state_scheme env) option" where
  "osal_semaphore_try_take hnd env s = osal_semaphore_take hnd NO_WAIT env s"

section \<open>The pools\<close>

definition mutex_pool_ok :: "'z bm_state_scheme \<Rightarrow> bool" where
  "mutex_pool_ok s \<longleftrightarrow> bits_cover (bm_mutex_used_bits s) (length (bm_mutex_pool s))"

definition sem_pool_ok :: "'z bm_state_scheme \<Rightarrow> bool" where
  "sem_pool_ok s \<longleftrightarrow> bits_cover (bm_sem_used_bits s) (length (bm_sem_pool s))"

definition mutex_used :: "'z bm_state_scheme \<Rightarrow> nat set" where
  "mutex_used s = used_set (bm_mutex_used_bits s) (length (bm_mutex_pool s))"

definition sem_used :: "'z bm_state_scheme \<Rightarrow> nat set" where
  "sem_used s = used_set (bm_sem_used_bits s) (length (bm_sem_pool s))"

text \<open>Creation and destruction as a client of the pool sees them.\<close>

definition mutex_alloc :: "'z bm_state_scheme \<Rightarrow> nat option \<times> 'z bm_state_scheme" where
  "mutex_alloc s = (case osal_mutex_create None s of (r, h, s') \<Rightarrow> (if r = Ok then h else None, s'))"

definition mutex_release :: "nat \<Rightarrow> 'z bm_state_scheme \<Rightarrow> 'z bm_state_scheme" where
  "mutex_release i s = snd (snd (osal_mutex_destroy (Some (Some i)) s))"

definition sem_alloc :: "u32 \<Rightarrow> u32 \<Rightarrow> 'z bm_state_scheme \<Rightarrow> nat option \<times> 'z bm_state_scheme" where
  "sem_alloc init mx s =
     (case osal_semaphore_create (Some None) init mx s of (r, h, s') \<Rightarrow> (if r = Ok then native_of h else None, s'))"

definition sem_release :: "nat \<Rightarrow> 'z bm_state_scheme \<Rightarrow> 'z bm_state_scheme" where
  "sem_release i s = snd (snd (osal_semaphore_destroy (Some (Some i)) s))"

lemmas mutex_pool_defs = mutex_pool_ok_def mutex_used_def mutex_alloc_def mutex_release_def
  osal_mutex_create_def osal_mutex_destroy_def

lemmas sem_pool_defs = sem_pool_ok_def sem_used_def sem_alloc_def sem_release_def
  osal_semaphore_create_def osal_semaphore_destroy_def

interpretation mutexes: slot_pool mutex_pool_ok "\<lambda>s. length (bm_mutex_pool s)" mutex_used mutex_alloc mutex_release
proof unfold_locales
  fix s s' :: "'z bm_state_scheme" and i
  show "mutex_pool_ok s \<Longrightarrow> mutex_used s \<subseteq> {..<length (bm_mutex_pool s)}"
    by (auto simp: mutex_used_def used_set_def)
  show "mutex_pool_ok s \<Longrightarrow> mutex_alloc s = (Some i, s') \<Longrightarrow>
      i < length (bm_mutex_pool s) \<and> i \<notin> mutex_used s \<and> mutex_used s' = insert i (mutex_used s) \<and>
      mutex_pool_ok s' \<and> length (bm_mutex_pool s') = length (bm_mutex_pool s)"
    by (auto simp: mutex_pool_defs pool_simps dest: first_free_pool split: option.splits)
  show "mutex_pool_ok s \<Longrightarrow> mutex_alloc s = (None, s') \<Longrightarrow> mutex_used s = {..<length (bm_mutex_pool s)} \<and> s' = s"
    by (auto simp: mutex_pool_defs dest: first_free_pool split: option.splits)
  show "mutex_pool_ok s \<Longrightarrow> i \<in> mutex_used s \<Longrightarrow> mutex_used (mutex_release i s) = mutex_used s - {i} \<and>
      mutex_pool_ok (mutex_release i s) \<and> length (bm_mutex_pool (mutex_release i s)) = length (bm_mutex_pool s)"
    by (simp add: mutex_pool_defs pool_simps)
qed

text \<open>The laws for semaphores hold for every admissible initial count and maximum.\<close>

lemma sem_alloc_some:
  assumes "sem_pool_ok s" "sem_alloc init mx s = (Some i, s')"
  shows "i < length (bm_sem_pool s) \<and> i \<notin> sem_used s \<and> sem_used s' = insert i (sem_used s) \<and>
      sem_pool_ok s' \<and> length (bm_sem_pool s') = length (bm_sem_pool s) \<and>
      bm_sem_pool s' ! i = \<lparr>sem_count = init, sem_max = mx\<rparr>"
  using assms
  by (auto simp: sem_pool_defs pool_simps dest: first_free_pool split: option.splits if_splits)

interpretation sems: slot_pool sem_pool_ok "\<lambda>s. length (bm_sem_pool s)" sem_used "sem_alloc 0 1" sem_release
proof unfold_locales
  fix s s' :: "'z bm_state_scheme" and i
  show "sem_pool_ok s \<Longrightarrow> sem_used s \<subseteq> {..<length (bm_sem_pool s)}"
    by (auto simp: sem_used_def used_set_def)
  show "sem_pool_ok s \<Longrightarrow> sem_alloc 0 1 s = (Some i, s') \<Longrightarrow>
      i < length (bm_sem_pool s) \<and> i \<notin> sem_used s \<and> sem_used s' = insert i (sem_used s) \<and>
      sem_pool_ok s' \<and> length (bm_sem_pool s') = length (bm_sem_pool s)"
    using sem_alloc_some by blast
  show "sem_pool_ok s \<Longrightarrow> sem_alloc 0 1 s = (None, s') \<Longrightarrow> sem_used s = {..<length (bm_sem_pool s)} \<and> s' = s"
    by (auto simp: sem_pool_defs dest: first_free_pool split: option.splits if_splits)
  show "sem_pool_ok s \<Longrightarrow> i \<in> sem_used s \<Longrightarrow> sem_used (sem_release i s) = sem_used s - {i} \<and>
      sem_pool_ok (sem_release i s) \<and> length (bm_sem_pool (sem_release i s)) = length (bm_sem_pool s)"
    by (simp add: sem_pool_defs pool_simps)
qed

section \<open>Mutual exclusion\<close>

text \<open>
  Any number of tasks use mutex \<open>i\<close>: an attempt of the lock loop or a \<open>try_lock\<close>, an unlock by a
  task that holds it, and ticks in between. The second component is the set of tasks whose last
  lock call returned \<open>Ok\<close>.
\<close>

inductive mutex_reach :: "nat \<Rightarrow> bm_state \<Rightarrow> bm_state \<times> nat set \<Rightarrow> bool" for i s0 where
  mutex_start: "mutex_reach i s0 (s0, {})"
| mutex_attempt:
    "mutex_reach i s0 (s, H) \<Longrightarrow> mutex_lock_body i d s = (r, s') \<Longrightarrow>
     mutex_reach i s0 (s', if r = Some Ok then insert t H else H)"
| mutex_try:
    "mutex_reach i s0 (s, H) \<Longrightarrow> osal_mutex_try_lock (Some (Some i)) s = (r, s') \<Longrightarrow>
     mutex_reach i s0 (s', if r = Ok then insert t H else H)"
| mutex_unlock:
    "mutex_reach i s0 (s, H) \<Longrightarrow> t \<in> H \<Longrightarrow> osal_mutex_unlock (Some (Some i)) s = (r, s') \<Longrightarrow>
     mutex_reach i s0 (s', H - {t})"
| mutex_tick: "mutex_reach i s0 (s, H) \<Longrightarrow> mutex_reach i s0 (osal_baremetal_tick s, H)"

definition mutex_held_ok :: "nat \<Rightarrow> bm_state \<times> nat set \<Rightarrow> bool" where
  "mutex_held_ok i p \<longleftrightarrow> i < length (bm_mutex_pool (fst p)) \<and>
     (if mtx_flag (bm_mutex_pool (fst p) ! i) then \<exists>t. snd p = {t} else snd p = {})"

lemma mutex_test_and_set_held:
  assumes "mutex_held_ok i (s, H)" "mutex_test_and_set i s = (w, s')"
  shows "mutex_held_ok i (s', if w then H else insert t H)"
  using assms by (auto simp: mutex_held_ok_def mutex_test_and_set_def)

lemma mutex_reach_held:
  "mutex_reach i s0 p \<Longrightarrow> mutex_held_ok i (s0, {}) \<Longrightarrow> mutex_held_ok i p"
proof (induction rule: mutex_reach.induct)
  case (mutex_attempt s H d r s' t)
  then show ?case
    using mutex_test_and_set_held [of i s H]
    by (auto simp: mutex_lock_body_def split: prod.splits if_splits)
next
  case (mutex_try s H r s' t)
  then show ?case
    using mutex_test_and_set_held [of i s H]
    by (auto simp: osal_mutex_try_lock_def split: prod.splits if_splits)
next
  case (mutex_unlock s H t r s')
  then have "H - {t} = {}" "i < length (bm_mutex_pool s)"
    by (auto simp: mutex_held_ok_def split: if_splits)
  with mutex_unlock.hyps(3) show ?case by (auto simp: osal_mutex_unlock_def mutex_held_ok_def)
next
  case (mutex_tick s H)
  then have "mutex_held_ok i (s, H)" by blast
  then show ?case by (auto simp: mutex_held_ok_def osal_baremetal_tick_def bm_ticks_advance_one_def)
qed simp

section \<open>Semaphore operations\<close>

lemma sem_get_set [simp]: "i < length (bm_sem_pool s) \<Longrightarrow> sem_get i (sem_set i c s) = c"
  by (simp add: sem_get_def sem_set_def)

lemma sem_get_set_other [simp]: "j \<noteq> i \<Longrightarrow> sem_get j (sem_set i c s) = sem_get j s"
  by (simp add: sem_get_def sem_set_def)

text \<open>
  Interference that neither fails a compare-exchange nor takes the permits the operation has seen:
  the semaphore may be given to while it is empty.
\<close>

definition sem_calm :: "nat \<Rightarrow> 'z bm_state_scheme env \<Rightarrow> bool" where
  "sem_calm i env \<longleftrightarrow> (\<forall>e \<in> set env. \<not> snd e \<and> (\<forall>s. sem_get i s > 0 \<longrightarrow> sem_get i (fst e s) = sem_get i s))"

lemma sem_take_loop_returns:
  assumes "sem_calm i env" "\<forall>e \<in> set env. ticking (fst e)"
    and "unat deadline < unat (g_ticks s) + length env" "env \<noteq> []"
  shows "\<exists>r. sem_take_loop i timeout deadline env s = Some r"
  using assms
proof (induction env arbitrary: s)
  case Nil
  then show ?case by simp
next
  case (Cons e env)
  show ?case
  proof (cases "sem_get i s > 0 \<or> timeout = NO_WAIT \<or> deadline \<le> bm_ticks_now s")
    case True
    then show ?thesis using Cons.prems(1) by (auto simp: sem_calm_def Let_def)
  next
    case False
    then have "unat (g_ticks s) < unat deadline"
      by (simp add: bm_ticks_now_def word_le_nat_alt)
    then have "unat (g_ticks s) < unat (g_ticks (fst e s))"
      using Cons.prems(2) by (intro tickingD) auto
    then have "unat deadline < unat (g_ticks (fst e s)) + length env" using Cons.prems(3) by simp
    moreover have "sem_calm i env" using Cons.prems(1) by (simp add: sem_calm_def)
    moreover have "env \<noteq> []" using Cons.prems(3) \<open>unat (g_ticks s) < unat deadline\<close> by auto
    ultimately show ?thesis using Cons.IH Cons.prems(2) False by simp
  qed
qed

text \<open>
  Whatever the interference, a take that returns either took exactly one permit of a positive
  count in its last step, or saw no permit at the moment it gave up.
\<close>

lemma sem_take_loop_result:
  assumes "sem_take_loop i timeout deadline env s = Some (r, s', env')"
  shows "\<exists>pre. env = pre @ env' \<and> (let s0 = env_run pre s in
    (r = Ok \<and> sem_get i s0 > 0 \<and> s' = sem_set i (sem_get i s0 - 1) s0) \<or>
    (r = Would_block \<and> timeout = NO_WAIT \<and> sem_get i s0 = 0 \<and> s' = s0) \<or>
    (r = Timeout \<and> timeout \<noteq> NO_WAIT \<and> sem_get i s0 = 0 \<and> deadline \<le> g_ticks s0 \<and> s' = s0))"
  using assms
proof (induction env arbitrary: s)
  case Nil
  then show ?case by (auto simp: bm_ticks_now_def word_gt_0 split: if_splits)
next
  case (Cons e env)
  have "(sem_get i s > 0 \<and> sem_get i (fst e s) = sem_get i s \<and> \<not> snd e) \<or> sem_take_loop i timeout deadline env (fst e s) = Some (r, s', env') \<or>
    (sem_get i s = 0 \<and> e # env = env' \<and> s = s' \<and> (r = Would_block \<and> timeout = NO_WAIT \<or> r = Timeout \<and> timeout \<noteq> NO_WAIT \<and> deadline \<le> g_ticks s))"
    using Cons.prems word_gt_0 [of "sem_get i s"] by (simp add: Let_def bm_ticks_now_def split: if_split_asm)
  then consider "sem_get i s > 0" "sem_get i (fst e s) = sem_get i s" "\<not> snd e" | "sem_take_loop i timeout deadline env (fst e s) = Some (r, s', env')"
    | "sem_get i s = 0" "e # env = env'" "s = s'" "r = Would_block \<and> timeout = NO_WAIT \<or> r = Timeout \<and> timeout \<noteq> NO_WAIT \<and> deadline \<le> g_ticks s"
    by blast
  then show ?case
  proof cases
    case 1
    then show ?thesis using Cons.prems by (intro exI [of _ "[e]"]) (auto simp: Let_def)
  next
    case 2
    from Cons.IH [OF this] obtain pre where "env = pre @ env'" and p: "let s0 = env_run pre (fst e s) in
      (r = Ok \<and> sem_get i s0 > 0 \<and> s' = sem_set i (sem_get i s0 - 1) s0) \<or> (r = Would_block \<and> timeout = NO_WAIT \<and> sem_get i s0 = 0 \<and> s' = s0) \<or>
      (r = Timeout \<and> timeout \<noteq> NO_WAIT \<and> sem_get i s0 = 0 \<and> deadline \<le> g_ticks s0 \<and> s' = s0)" by blast
    then show ?thesis by (intro exI [of _ "e # pre"]) simp
  next
    case 3
    then show ?thesis by (intro exI [of _ "[]"]) auto
  qed
qed

lemma sem_give_loop_result:
  assumes "sem_give_loop i c env s = Some (r, s', env')" "c = sem_get i s"
    and "\<And>e s. e \<in> set env \<Longrightarrow> sem_max (bm_sem_pool (fst e s) ! i) = sem_max (bm_sem_pool s ! i)"
  shows "(r = Ok \<and> (\<exists>s0. sem_get i s0 < sem_max (bm_sem_pool s0 ! i) \<and> s' = sem_set i (sem_get i s0 + 1) s0)) \<or>
    (r = Overflow \<and> sem_get i s' \<ge> sem_max (bm_sem_pool s' ! i))"
  using assms
proof (induction i c env s rule: sem_give_loop.induct)
  case (1 i count s)
  then show ?case by (auto split: if_splits)
next
  case (2 i count e env s)
  show ?case
  proof (cases "count < sem_max (bm_sem_pool s ! i) \<and> sem_get i (fst e s) = count \<and> \<not> snd e")
    case True
    with 2 have "r = Ok" "s' = sem_set i (sem_get i (fst e s) + 1) (fst e s)"
      "sem_get i (fst e s) < sem_max (bm_sem_pool (fst e s) ! i)"
      by (auto simp: Let_def)
    then show ?thesis by metis
  qed (use 2 in \<open>auto simp: Let_def split: if_splits\<close>)
qed

text \<open>The operations when nothing interferes, for the components built on them.\<close>

lemma mutex_lock_free:
  assumes "\<not> mtx_flag (bm_mutex_pool s ! i)"
  shows "osal_mutex_lock (Some (Some i)) timeout env s =
    Some (Ok, s\<lparr>bm_mutex_pool := (bm_mutex_pool s)[i := (bm_mutex_pool s ! i)\<lparr>mtx_flag := True\<rparr>]\<rparr>, env)"
  using assms by (cases env) (simp_all add: osal_mutex_lock_def mutex_lock_body_def mutex_test_and_set_def)

lemma mutex_unlock_relock:
  assumes "i < length (bm_mutex_pool s)" "\<not> mtx_flag (bm_mutex_pool s ! i)"
    and "bm_mutex_pool s' = (bm_mutex_pool s)[i := (bm_mutex_pool s ! i)\<lparr>mtx_flag := True\<rparr>]"
  shows "osal_mutex_unlock (Some (Some i)) s' = (Ok, s'\<lparr>bm_mutex_pool := bm_mutex_pool s\<rparr>)"
proof -
  have "(bm_mutex_pool s ! i)\<lparr>mtx_flag := False\<rparr> = bm_mutex_pool s ! i"
    using assms(2) by (cases "bm_mutex_pool s ! i") simp
  then show ?thesis using assms(1,3) by (simp add: osal_mutex_unlock_def)
qed

lemma sem_take_quiet:
  "sem_get i s > 0 \<Longrightarrow>
   osal_semaphore_take (Some (Some i)) timeout ((id, False) # env) s = Some (Ok, sem_set i (sem_get i s - 1) s, env)"
  by (simp add: osal_semaphore_take_def Let_def)

lemma sem_try_take_empty:
  "sem_get i s = 0 \<Longrightarrow> osal_semaphore_try_take (Some (Some i)) env s = Some (Would_block, s, env)"
  by (cases env) (simp_all add: osal_semaphore_try_take_def osal_semaphore_take_def Let_def)

lemma sem_give_quiet:
  "sem_get i s < sem_max (bm_sem_pool s ! i) \<Longrightarrow>
   osal_semaphore_give (Some (Some i)) ((id, False) # env) s = Some (Ok, sem_set i (sem_get i s + 1) s, env)"
  by (simp add: osal_semaphore_give_def Let_def)

text \<open>An environment in which nothing interferes with the next \<open>m\<close> steps.\<close>

definition calm :: "nat \<Rightarrow> 's env" where
  "calm m = replicate m (id, False)"

lemma calm_Suc: "calm (Suc m) @ rest = (id, False) # (calm m @ rest)"
  by (simp add: calm_def)

lemma sem_set_same: "sem_set i (sem_get i s) s = s"
  by (simp add: sem_set_def sem_get_def)

text \<open>One token in each of the semaphores \<open>T\<close>.\<close>

definition give_tokens :: "nat set \<Rightarrow> 'z bm_state_scheme \<Rightarrow> 'z bm_state_scheme" where
  "give_tokens T s =
     s\<lparr>bm_sem_pool := map (\<lambda>i. if i \<in> T then (bm_sem_pool s ! i)\<lparr>sem_count := 1\<rparr> else bm_sem_pool s ! i) [0..<length (bm_sem_pool s)]\<rparr>"

lemma give_tokens_frame [simp]:
  "bm_mutex_pool (give_tokens T s) = bm_mutex_pool s" "g_ticks (give_tokens T s) = g_ticks s"
  "length (bm_sem_pool (give_tokens T s)) = length (bm_sem_pool s)"
  by (simp_all add: give_tokens_def)

lemma sem_get_tokens: "i < length (bm_sem_pool s) \<Longrightarrow> sem_get i (give_tokens T s) = (if i \<in> T then 1 else sem_get i s)"
  by (simp add: give_tokens_def sem_get_def)

lemma sem_max_tokens [simp]: "i < length (bm_sem_pool s) \<Longrightarrow> sem_max (bm_sem_pool (give_tokens T s) ! i) = sem_max (bm_sem_pool s ! i)"
  by (simp add: give_tokens_def)

lemma give_tokens_empty: "give_tokens {} s = s"
  by (simp add: give_tokens_def map_nth)

lemma sem_set_tokens: "sem_set i 1 (give_tokens T s) = give_tokens (insert i T) s"
proof -
  have "(bm_sem_pool (give_tokens T s))[i := (bm_sem_pool (give_tokens T s) ! i)\<lparr>sem_count := 1\<rparr>] =
      bm_sem_pool (give_tokens (insert i T) s)" (is "?l = ?r")
  proof (rule nth_equalityI)
    fix j assume "j < length ?l"
    then show "?l ! j = ?r ! j" by (cases "j = i") (simp_all add: give_tokens_def)
  qed simp
  then show ?thesis by (simp add: sem_set_def) (simp add: give_tokens_def)
qed

text \<open>A free mutex, and taking and giving it back around something that leaves the mutexes alone.\<close>

definition mutex_free :: "handle \<Rightarrow> 'z bm_state_scheme \<Rightarrow> bool" where
  "mutex_free h s \<longleftrightarrow> (\<exists>g. h = Some g \<and> g < length (bm_mutex_pool s) \<and> \<not> mtx_flag (bm_mutex_pool s ! g))"

definition mutex_set :: "nat \<Rightarrow> bool \<Rightarrow> 'z bm_state_scheme \<Rightarrow> 'z bm_state_scheme" where
  "mutex_set g b s = s\<lparr>bm_mutex_pool := (bm_mutex_pool s)[g := (bm_mutex_pool s ! g)\<lparr>mtx_flag := b\<rparr>]\<rparr>"

lemma mutex_lock_set: "\<not> mtx_flag (bm_mutex_pool s ! g) \<Longrightarrow> osal_mutex_lock (Some (Some g)) timeout env s = Some (Ok, mutex_set g True s, env)"
  by (simp add: mutex_lock_free mutex_set_def)

lemma mutex_unlock_set: "osal_mutex_unlock (Some (Some g)) s = (Ok, mutex_set g False s)"
  by (simp add: osal_mutex_unlock_def mutex_set_def)

lemma mutex_set_undo: "\<not> mtx_flag (bm_mutex_pool s ! g) \<Longrightarrow> mutex_set g False (mutex_set g True s) = s"
proof (cases "g < length (bm_mutex_pool s)")
  assume "\<not> mtx_flag (bm_mutex_pool s ! g)"
  then have "(bm_mutex_pool s ! g)\<lparr>mtx_flag := False\<rparr> = bm_mutex_pool s ! g" by (cases "bm_mutex_pool s ! g") simp
  then show "g < length (bm_mutex_pool s) \<Longrightarrow> ?thesis" by (simp add: mutex_set_def)
qed (simp add: mutex_set_def list_update_beyond)

lemma mutex_set_frame [simp]:
  "bm_sem_pool (mutex_set g b s) = bm_sem_pool s" "g_ticks (mutex_set g b s) = g_ticks s"
  "sem_get i (mutex_set g b s) = sem_get i s" "length (bm_mutex_pool (mutex_set g b s)) = length (bm_mutex_pool s)"
  "g < length (bm_mutex_pool s) \<Longrightarrow> mtx_flag (bm_mutex_pool (mutex_set g b s) ! h) = (if h = g then b else mtx_flag (bm_mutex_pool s ! h))"
  by (simp_all add: mutex_set_def sem_get_def nth_list_update)

lemma mutex_pool_sem_set: "bm_mutex_pool (sem_set i c s) = bm_mutex_pool s"
  by (simp add: sem_set_def)

text \<open>Dropping the token a binary semaphore may hold takes at most one undisturbed step.\<close>

lemma sem_drain:
  assumes "sem_get i s \<le> 1" "length fs = unat (sem_get i s)" "\<forall>f \<in> set fs. f s = s"
  shows "\<exists>r. osal_semaphore_try_take (Some (Some i)) (map (\<lambda>f. (f, False)) fs @ rest) s = Some (r, sem_set i 0 s, rest)"
proof (cases "sem_get i s = 0")
  case True
  then have "sem_set i 0 s = s" using sem_set_same [of i s] by simp
  with True sem_try_take_empty [of i s] assms(2) show ?thesis by simp
next
  case False
  then have one: "sem_get i s = 1" "sem_get i s > 0" using word_le_one assms(1) by (auto simp: word_gt_0)
  then obtain f where "fs = [f]" using assms(2) by (auto simp: length_Suc_conv)
  with one assms(3) show ?thesis by (simp add: osal_semaphore_try_take_def osal_semaphore_take_def Let_def)
qed

text \<open>A give that nothing interferes with returns, and changes at most the counter.\<close>

lemma sem_give_calm_env:
  obtains r c env' where
    "osal_semaphore_give (Some (Some i)) ((id, False) # env) s = Some (r, sem_set i c s, env')"
    "env' = env \<or> env' = (id, False) # env"
proof (cases "sem_get i s < sem_max (bm_sem_pool s ! i)")
  case True
  then show ?thesis using that sem_give_quiet [OF True] by blast
next
  case False
  then have "osal_semaphore_give (Some (Some i)) ((id, False) # env) s = Some (Overflow, sem_set i (sem_get i s) s, (id, False) # env)"
    by (simp add: osal_semaphore_give_def sem_set_same)
  then show ?thesis by (rule that) simp
qed

lemma sem_give_calm:
  obtains r c env' where
    "osal_semaphore_give (Some (Some i)) ((id, False) # env) s = Some (r, sem_set i c s, env')"
  by (rule sem_give_calm_env)

text \<open>
  What the interference keeps, and what does not depend on the mutexes and the semaphore counters,
  survives a blocking call.
\<close>

lemma wait_loop_inv:
  assumes "wait_loop body env s = Some (r, s', env')" "I s"
    and "\<And>e s. e \<in> set env \<Longrightarrow> I s \<Longrightarrow> I (fst e s)" "\<And>s. I s \<Longrightarrow> I (snd (body s))"
  shows "I s' \<and> set env' \<subseteq> set env"
  using assms(1-3)
proof (induction env arbitrary: s)
  case Nil
  then show ?case using assms(4) [of s] by (auto split: prod.splits option.splits)
next
  case (Cons e env)
  obtain o' s1 where b: "body s = (o', s1)" by fastforce
  with assms(4) [OF Cons.prems(2)] have "I s1" by simp
  show ?case
  proof (cases o')
    case None
    have "I (fst e s1)" using Cons.prems(3) [of e s1] \<open>I s1\<close> by simp
    then have "I s' \<and> set env' \<subseteq> set env" using Cons.IH [of "fst e s1"] Cons.prems(1,3) b None by simp
    then show ?thesis by auto
  qed (use b Cons.prems \<open>I s1\<close> in auto)
qed

lemma mutex_lock_inv:
  assumes "osal_mutex_lock h t env s = Some (r, s', env')" "I s"
    and "\<And>e s. e \<in> set env \<Longrightarrow> I s \<Longrightarrow> I (fst e s)" "\<And>b s. I s \<Longrightarrow> I (s\<lparr>bm_mutex_pool := b\<rparr>)"
  shows "I s' \<and> set env' \<subseteq> set env"
proof (cases "native_of h")
  case (Some i)
  have "I (snd (mutex_lock_body i d u))" if "I u" for d u
    using assms(4) [OF that] by (simp add: mutex_lock_body_def mutex_test_and_set_def)
  with assms Some show ?thesis using wait_loop_inv [of "mutex_lock_body i (bm_deadline t s)" env s r s' env' I]
    by (simp add: osal_mutex_lock_def)
qed (use assms in \<open>auto simp: osal_mutex_lock_def\<close>)

lemma sem_take_inv:
  assumes "osal_semaphore_take h t env s = Some (r, s', env')" "I s"
    and "\<And>e s. e \<in> set env \<Longrightarrow> I s \<Longrightarrow> I (fst e s)" "\<And>i c s. I s \<Longrightarrow> I (sem_set i c s)"
  shows "I s' \<and> set env' \<subseteq> set env"
proof -
  have loop: "I s' \<and> set env' \<subseteq> set env"
    if "sem_take_loop i t d env s = Some (r, s', env')" "I s" "\<And>e s. e \<in> set env \<Longrightarrow> I s \<Longrightarrow> I (fst e s)" for i d env s
    using that
  proof (induction i t d env s rule: sem_take_loop.induct)
    case (2 i t d e env s)
    have e: "I (fst e s)" using 2 by simp
    show ?case
    proof (cases "sem_get i s > 0 \<and> sem_get i (fst e s) = sem_get i s \<and> \<not> snd e")
      case True
      then show ?thesis using 2 assms(4) [OF e] by (auto simp: Let_def)
    qed (use 2 e in \<open>fastforce simp: Let_def split: if_splits\<close>)
  qed (auto split: if_splits)
  show ?thesis
  proof (cases "native_of h")
    case (Some i)
    then show ?thesis using assms loop [of i "bm_deadline t s" env s] by (simp add: osal_semaphore_take_def)
  qed (use assms in \<open>auto simp: osal_semaphore_take_def\<close>)
qed

lemma sem_give_inv:
  assumes "osal_semaphore_give h env s = Some (r, s', env')" "I s"
    and "\<And>e s. e \<in> set env \<Longrightarrow> I s \<Longrightarrow> I (fst e s)" "\<And>i c s. I s \<Longrightarrow> I (sem_set i c s)"
  shows "I s' \<and> set env' \<subseteq> set env"
proof -
  have loop: "I s' \<and> set env' \<subseteq> set env"
    if "sem_give_loop i c env s = Some (r, s', env')" "I s" "\<And>e s. e \<in> set env \<Longrightarrow> I s \<Longrightarrow> I (fst e s)" for i c env s
    using that
  proof (induction i c env s rule: sem_give_loop.induct)
    case (2 i c e env s)
    have e: "I (fst e s)" using 2 by simp
    show ?case
    proof (cases "c < sem_max (bm_sem_pool s ! i) \<and> sem_get i (fst e s) = c \<and> \<not> snd e")
      case True
      then show ?thesis using 2 assms(4) [OF e] by (auto simp: Let_def)
    qed (use 2 e in \<open>fastforce simp: Let_def split: if_splits\<close>)
  qed (auto split: if_splits)
  show ?thesis
  proof (cases "native_of h")
    case (Some i)
    then show ?thesis using assms loop [of i "sem_get i s" env s] by (simp add: osal_semaphore_give_def)
  qed (use assms in \<open>auto simp: osal_semaphore_give_def\<close>)
qed

lemma mutex_create_ok:
  assumes "osal_mutex_create h s = (Ok, g, s')"
  obtains i b u where "g = Some i" "i < length (bm_mutex_pool s)" "\<not> mtx_flag (b ! i)" "length b = length (bm_mutex_pool s)"
    "s' = s\<lparr>bm_mutex_used_bits := u, bm_mutex_pool := b\<rparr>"
proof (cases "first_free (bm_mutex_used_bits s) 0 (length (bm_mutex_pool s))")
  case (Some i)
  with assms have "g = Some i" "s' = s\<lparr>bm_mutex_used_bits := bit_mark (bm_mutex_used_bits s) i,
      bm_mutex_pool := (bm_mutex_pool s)[i := (bm_mutex_pool s ! i)\<lparr>mtx_flag := False\<rparr>]\<rparr>"
    by (simp_all add: osal_mutex_create_def)
  with that [of i "(bm_mutex_pool s)[i := (bm_mutex_pool s ! i)\<lparr>mtx_flag := False\<rparr>]"] first_free_pool(1) [OF Some]
  show ?thesis by simp
qed (use assms in \<open>simp add: osal_mutex_create_def\<close>)

lemma semaphore_create_ok:
  assumes "osal_semaphore_create (Some h) c mx s = (Ok, g, s')"
  obtains i b u where "g = Some (Some i)" "i < length (bm_sem_pool s)" "b ! i = \<lparr>sem_count = c, sem_max = mx\<rparr>"
    "length b = length (bm_sem_pool s)" "s' = s\<lparr>bm_sem_used_bits := u, bm_sem_pool := b\<rparr>"
proof (cases "first_free (bm_sem_used_bits s) 0 (length (bm_sem_pool s))")
  case (Some i)
  with assms have "g = Some (Some i)" "s' = s\<lparr>bm_sem_used_bits := bit_mark (bm_sem_used_bits s) i,
      bm_sem_pool := (bm_sem_pool s)[i := (bm_sem_pool s ! i)\<lparr>sem_count := c, sem_max := mx\<rparr>]\<rparr>"
    by (simp_all add: osal_semaphore_create_def split: if_splits)
  moreover have "i < length (bm_sem_pool s)" using first_free_pool(1) [OF Some] by blast
  moreover have "(bm_sem_pool s)[i := (bm_sem_pool s ! i)\<lparr>sem_count := c, sem_max := mx\<rparr>] ! i = \<lparr>sem_count = c, sem_max = mx\<rparr>"
    using calculation(3) by (cases "bm_sem_pool s ! i") simp
  ultimately show ?thesis using that length_list_update by metis
qed (use assms in \<open>simp add: osal_semaphore_create_def split: if_splits\<close>)

section \<open>Concurrent gives and takes on one counter\<close>

text \<open>
  The atomic counter under any number of threads. A give loads the counter; with a value below the
  maximum it attempts the compare-exchange, which succeeds only if the counter still has that
  value, and reloads otherwise; a take does the same with a positive value. \<open>Give c\<close> and \<open>Take c\<close>
  are threads between load and compare-exchange, holding the value they loaded. \<open>n_gives\<close> and
  \<open>n_takes\<close> count the calls that returned \<open>Ok\<close>.
\<close>

datatype sem_pc = Idle | Give u32 | Take u32

record sem_sys =
  counter :: u32
  maximum :: u32
  pcs :: "nat \<Rightarrow> sem_pc"
  n_gives :: nat
  n_takes :: nat

inductive sem_step :: "sem_sys \<Rightarrow> sem_sys \<Rightarrow> bool" where
  give_load: "pcs s t = Idle \<Longrightarrow> sem_step s (s\<lparr>pcs := (pcs s)(t := Give (counter s))\<rparr>)"
| give_overflow: "pcs s t = Give c \<Longrightarrow> \<not> c < maximum s \<Longrightarrow> sem_step s (s\<lparr>pcs := (pcs s)(t := Idle)\<rparr>)"
| give_cas: "pcs s t = Give c \<Longrightarrow> c < maximum s \<Longrightarrow> counter s = c \<Longrightarrow>
    sem_step s (s\<lparr>counter := c + 1, pcs := (pcs s)(t := Idle), n_gives := Suc (n_gives s)\<rparr>)"
| give_retry: "pcs s t = Give c \<Longrightarrow> c < maximum s \<Longrightarrow> sem_step s (s\<lparr>pcs := (pcs s)(t := Give (counter s))\<rparr>)"
| take_load: "pcs s t = Idle \<Longrightarrow> sem_step s (s\<lparr>pcs := (pcs s)(t := Take (counter s))\<rparr>)"
| take_empty: "pcs s t = Take 0 \<Longrightarrow> sem_step s (s\<lparr>pcs := (pcs s)(t := Idle)\<rparr>)"
| take_cas: "pcs s t = Take c \<Longrightarrow> c > 0 \<Longrightarrow> counter s = c \<Longrightarrow>
    sem_step s (s\<lparr>counter := c - 1, pcs := (pcs s)(t := Idle), n_takes := Suc (n_takes s)\<rparr>)"
| take_retry: "pcs s t = Take c \<Longrightarrow> c > 0 \<Longrightarrow> sem_step s (s\<lparr>pcs := (pcs s)(t := Idle)\<rparr>)"

definition sem_start :: "u32 \<Rightarrow> u32 \<Rightarrow> sem_sys" where
  "sem_start init mx = \<lparr>counter = init, maximum = mx, pcs = (\<lambda>_. Idle), n_gives = 0, n_takes = 0\<rparr>"

inductive_cases sem_stepE: "sem_step s s'"

definition sem_sys_ok :: "u32 \<Rightarrow> u32 \<Rightarrow> sem_sys \<Rightarrow> bool" where
  "sem_sys_ok init mx s \<longleftrightarrow> maximum s = mx \<and> counter s \<le> mx \<and>
     unat (counter s) + n_takes s = unat init + n_gives s"

lemma sem_step_ok: "sem_step s s' \<Longrightarrow> sem_sys_ok init mx s \<Longrightarrow> sem_sys_ok init mx s'"
proof (induction rule: sem_step.induct)
  case (give_cas s t c)
  then show ?case
    using unat_word_Suc [of c "maximum s"] by (auto simp: sem_sys_ok_def inc_le)
next
  case (take_cas s t c)
  then have "c - 1 \<le> c" using unat_word_pred [of c] by (simp add: word_le_nat_alt)
  with take_cas show ?case
    using unat_word_pred [of c] by (auto simp: sem_sys_ok_def)
qed (simp_all add: sem_sys_ok_def)

lemma sem_reach_ok: "sem_step\<^sup>*\<^sup>* (sem_start init mx) s \<Longrightarrow> init \<le> mx \<Longrightarrow> sem_sys_ok init mx s"
proof (induction rule: rtranclp_induct)
  case base
  then show ?case by (simp add: sem_start_def sem_sys_ok_def)
next
  case (step y z)
  then show ?case using sem_step_ok by blast
qed

section \<open>Properties\<close>

definition bm_demo :: bm_state where
  "bm_demo = \<lparr>g_ticks = 10, bm_tasks = [], bm_current = -1, bm_last_scheduled = -1,
     bm_mutex_pool = replicate 2 \<lparr>mtx_flag = False\<rparr>, bm_mutex_used_bits = [0],
     bm_sem_pool = replicate 2 \<lparr>sem_count = 0, sem_max = 1\<rparr>, bm_sem_used_bits = [0],
     bm_queue_pool = [], bm_queue_used_bits = [], bm_timer_pool = []\<rparr>"

text \<open>
  Starting from empty pools, after any sequence of creations and destructions of mutexes the
  live handles are pairwise different, they are exactly the marked slots, there are at most as many
  as the pool has slots, and the next creation fails exactly when there are that many; the same
  holds of semaphores.
\<close>

theorem sync_pools_exclusive:
  assumes "mutex_pool_ok s" "mutex_used s = {}" "sem_pool_ok s" "sem_used s = {}"
    and "pool_run mutex_alloc mutex_release cs ([], s) = (ms, s1)"
    and "pool_run (sem_alloc 0 1) sem_release ds ([], s) = (ss, s2)"
  shows "distinct ms \<and> set ms = mutex_used s1 \<and> length ms \<le> length (bm_mutex_pool s) \<and>
    (fst (mutex_alloc s1) = None \<longleftrightarrow> length ms = length (bm_mutex_pool s)) \<and>
    distinct ss \<and> set ss = sem_used s2 \<and> length ss \<le> length (bm_sem_pool s) \<and>
    (fst (sem_alloc 0 1 s2) = None \<longleftrightarrow> length ss = length (bm_sem_pool s))"
  using mutexes.run_live [OF assms(1) _ _ assms(5)] sems.run_live [OF assms(3) _ _ assms(6)]
    mutexes.alloc_fails_iff [of s1 ms] sems.alloc_fails_iff [of s2 ss] assms(2,4)
  by auto

theorem sync_pools_exclusive_witness:
  "let run = pool_run mutex_alloc mutex_release [Acquire, Acquire, Acquire, Release 0, Acquire] ([], bm_demo)
   in fst run = [1, 0] \<and> distinct (fst run) \<and> fst (mutex_alloc (snd run)) = None"
proof -
  have ok: "mutex_pool_ok bm_demo" "mutex_used bm_demo = {}" "sem_pool_ok bm_demo" "sem_used bm_demo = {}"
    by (auto simp: bm_demo_def mutex_pool_ok_def mutex_used_def sem_pool_ok_def sem_used_def bits_cover_def
        used_set_def bit_used_def nth_Cons' split: if_splits)
  let ?run = "pool_run mutex_alloc mutex_release [Acquire, Acquire, Acquire, Release 0, Acquire] ([], bm_demo)"
  have fst: "fst ?run = [1, 0]"
    by (simp add: pool_run_def bm_demo_def mutex_pool_defs numeral_2_eq_2 bit_used_def bit_mark_def bit_unmark_def)
  have "pool_run (sem_alloc 0 1) sem_release [] ([], bm_demo) = ([], bm_demo)" by (simp add: pool_run_def)
  from sync_pools_exclusive [OF ok, of _ "fst ?run" "snd ?run", OF _ this] fst show ?thesis
    by (simp add: Let_def bm_demo_def)
qed

text \<open>
  C4: mutual exclusion. However the lock attempts, try-locks, unlocks by the holder and ticks of
  any number of tasks are interleaved on a new mutex, at most one task holds it, and the flag is
  set exactly while one does.
\<close>

theorem mutex_exclusion:
  assumes "mutex_reach i s0 (s, H)" "i < length (bm_mutex_pool s0)" "\<not> mtx_flag (bm_mutex_pool s0 ! i)"
  shows "(\<forall>t u. t \<in> H \<longrightarrow> u \<in> H \<longrightarrow> t = u) \<and> (mtx_flag (bm_mutex_pool s ! i) \<longleftrightarrow> H \<noteq> {})"
  using mutex_reach_held [OF assms(1)] assms(2,3) by (auto simp: mutex_held_ok_def split: if_splits)

theorem mutex_exclusion_witness:
  "mtx_flag (bm_mutex_pool (snd (osal_mutex_try_lock (Some (Some 1)) (snd (osal_mutex_try_lock (Some (Some 1)) bm_demo)))) ! 1)"
proof -
  let ?s1 = "snd (osal_mutex_try_lock (Some (Some 1)) bm_demo)"
  let ?s2 = "snd (osal_mutex_try_lock (Some (Some 1)) ?s1)"
  have "mutex_reach 1 bm_demo (?s1, if fst (osal_mutex_try_lock (Some (Some 1)) bm_demo) = Ok then insert 7 {} else {})"
    by (rule mutex_try [OF mutex_start]) simp
  moreover have "fst (osal_mutex_try_lock (Some (Some 1)) bm_demo) = Ok"
    by (simp add: osal_mutex_try_lock_def mutex_test_and_set_def bm_demo_def)
  ultimately have "mutex_reach 1 bm_demo (?s1, {7})" by simp
  from mutex_try [OF this, of "fst (osal_mutex_try_lock (Some (Some 1)) ?s1)" ?s2 8]
  have "mutex_reach 1 bm_demo (?s2, {7})"
    by (simp add: osal_mutex_try_lock_def mutex_test_and_set_def bm_demo_def)
  from mutex_exclusion [OF this] show ?thesis by (simp add: bm_demo_def)
qed

text \<open>
  C3: the semaphore counter under any interleaving of concurrent gives and takes, stale loads and
  spurious compare-exchange failures included: it never exceeds the maximum, never wraps, and
  equals the initial count plus the successful gives minus the successful takes.
\<close>

theorem semaphore_conserves:
  assumes "sem_step\<^sup>*\<^sup>* (sem_start init mx) s" "init \<le> mx"
  shows "counter s \<le> mx \<and> unat (counter s) + n_takes s = unat init + n_gives s \<and>
    n_takes s \<le> unat init + n_gives s \<and> n_gives s \<le> unat mx + n_takes s"
  using sem_reach_ok [OF assms] by (auto simp: sem_sys_ok_def word_le_nat_alt)

theorem semaphore_conserves_witness:
  "counter ((sem_start 0 1)\<lparr>counter := 1, pcs := (\<lambda>_. Idle)(4 := Idle), n_gives := 1\<rparr>) \<le> (1 :: u32)"
proof -
  let ?s0 = "sem_start 0 1"
  have "sem_step ?s0 (?s0\<lparr>pcs := (pcs ?s0)(4 := Give (counter ?s0))\<rparr>)"
    by (rule give_load) (simp add: sem_start_def)
  moreover have "sem_step (?s0\<lparr>pcs := (pcs ?s0)(4 := Give (counter ?s0))\<rparr>)
      (?s0\<lparr>counter := 1, pcs := (\<lambda>_. Idle)(4 := Idle), n_gives := 1\<rparr>)"
    using give_cas [of "?s0\<lparr>pcs := (pcs ?s0)(4 := Give (counter ?s0))\<rparr>" 4 0] by (simp add: sem_start_def)
  ultimately have "sem_step\<^sup>*\<^sup>* ?s0 (?s0\<lparr>counter := 1, pcs := (\<lambda>_. Idle)(4 := Idle), n_gives := 1\<rparr>)"
    by (meson rtranclp.rtrancl_refl rtranclp.rtrancl_into_rtrancl)
  from semaphore_conserves [OF this] show ?thesis by simp
qed

text \<open>
  C5: a timed \<open>osal_semaphore_take\<close> returns after at most \<open>timeout + 1\<close> scheduling points when time
  passes at each of them and nobody races it for the permit it sees (\<open>sem_calm\<close>). With \<open>s0\<close> the state that the others alone have made of \<open>s\<close> at the
  points that were used up: it returns \<open>Ok\<close> with the state \<open>s0\<close> less exactly one permit of this semaphore, of which there was one; or, leaving \<open>s0\<close> as it is,
  \<open>Would_block\<close> only for \<open>NO_WAIT\<close> and with no permit there, or \<open>Timeout\<close> only with no permit there and not before the deadline.
\<close>

theorem semaphore_take_timed:
  assumes "timeout \<noteq> WAIT_FOREVER" "unat (g_ticks s) + unat timeout < 2 ^ 64"
    and "sem_calm i env" "\<forall>e \<in> set env. ticking (fst e)" "unat timeout < length env"
  shows "\<exists>r s' pre env'. osal_semaphore_take (Some (Some i)) timeout env s = Some (r, s', env') \<and> env = pre @ env' \<and> (let s0 = env_run pre s in
    (r = Ok \<and> sem_get i s0 > 0 \<and> s' = sem_set i (sem_get i s0 - 1) s0) \<or>
    (r = Would_block \<and> timeout = NO_WAIT \<and> sem_get i s0 = 0 \<and> s' = s0) \<or>
    (r = Timeout \<and> timeout \<noteq> NO_WAIT \<and> sem_get i s0 = 0 \<and> s' = s0 \<and> unat (g_ticks s) + unat timeout \<le> unat (g_ticks s0)))"
proof -
  note d = unat_bm_deadline [OF assms(1,2)]
  have "unat (bm_deadline timeout s) < unat (g_ticks s) + length env" "env \<noteq> []"
    using d assms(5) by auto
  from sem_take_loop_returns [OF assms(3,4) this] obtain r s' env'
    where run: "sem_take_loop i timeout (bm_deadline timeout s) env s = Some (r, s', env')" by (metis prod_cases3)
  from sem_take_loop_result [OF this] obtain pre where "env = pre @ env'" and p: "let s0 = env_run pre s in
    (r = Ok \<and> sem_get i s0 > 0 \<and> s' = sem_set i (sem_get i s0 - 1) s0) \<or> (r = Would_block \<and> timeout = NO_WAIT \<and> sem_get i s0 = 0 \<and> s' = s0) \<or>
    (r = Timeout \<and> timeout \<noteq> NO_WAIT \<and> sem_get i s0 = 0 \<and> bm_deadline timeout s \<le> g_ticks s0 \<and> s' = s0)" by blast
  with run d show ?thesis
    by (intro exI [of _ r] exI [of _ s'] exI [of _ pre] exI [of _ env']) (auto simp: osal_semaphore_take_def word_le_nat_alt Let_def)
qed

text \<open>The tick interrupt alone is a calm, ticking environment.\<close>

lemma sem_calm_ticks: "sem_calm i (replicate n (osal_baremetal_tick, False))"
  by (simp add: sem_calm_def osal_baremetal_tick_def bm_ticks_advance_one_def sem_get_def)

lemma replicate_numeral_4: "replicate 4 x = [x, x, x, x]" "replicate 2 x = [x, x]"
  by (simp_all add: numeral_eq_Suc)

theorem semaphore_take_timed_witness:
  "\<exists>s' env'. osal_semaphore_take (Some (Some 0)) 3 (replicate 4 (osal_baremetal_tick, False)) bm_demo = Some (Timeout, s', env') \<and>
     sem_get 0 s' = 0 \<and> 13 \<le> unat (g_ticks s')"
proof -
  let ?env = "replicate 4 (osal_baremetal_tick :: bm_state \<Rightarrow> bm_state, False)"
  have run: "osal_semaphore_take (Some (Some 0)) 3 ?env bm_demo =
      Some (Timeout, bm_demo\<lparr>g_ticks := 13\<rparr>, [(osal_baremetal_tick, False)])"
    by (simp add: osal_semaphore_take_def bm_demo_def replicate_numeral_4 sem_get_def Let_def bm_deadline_def
        bm_ticks_now_def NO_WAIT_def WAIT_FOREVER_def osal_baremetal_tick_def bm_ticks_advance_one_def)
  have "unat (g_ticks bm_demo) + unat (3 :: tick_t) < 2 ^ 64" "g_ticks bm_demo = 10" by (simp_all add: bm_demo_def)
  with semaphore_take_timed [of 3 bm_demo 0 ?env] run show ?thesis
    by (auto simp: WAIT_FOREVER_def ticking_tick sem_calm_ticks Let_def)
qed

text \<open>
  A timed \<open>osal_mutex_lock\<close> returns within \<open>timeout\<close> scheduling points when time passes at each
  of them; it answers \<open>Ok\<close> exactly when its last test-and-set found the flag clear, and \<open>Timeout\<close>
  only at or after the deadline; the flag is set afterwards in both cases.
\<close>

theorem mutex_lock_timed:
  assumes "timeout \<noteq> WAIT_FOREVER" "unat (g_ticks s) + unat timeout < 2 ^ 64" "i < length (bm_mutex_pool s)"
    and "\<forall>e \<in> set env. ticking (fst e)" "unat timeout \<le> length env"
    and "\<forall>e \<in> set env. \<forall>s. length (bm_mutex_pool (fst e s)) = length (bm_mutex_pool s)"
  shows "\<exists>r s0 s' env'. osal_mutex_lock (Some (Some i)) timeout env s = Some (r, s', env') \<and>
    mutex_test_and_set i s0 = (r \<noteq> Ok, s') \<and> mtx_flag (bm_mutex_pool s' ! i) \<and>
    (r = Ok \<or> (r = Timeout \<and> unat (g_ticks s) + unat timeout \<le> unat (g_ticks s')))"
proof -
  note d = unat_bm_deadline [OF assms(1,2)]
  let ?b = "mutex_lock_body i (bm_deadline timeout s)"
  have giveup: "g_ticks s2 = g_ticks s1 \<and> g_ticks s1 < bm_deadline timeout s" if "?b s1 = (None, s2)"
    for s1 s2 :: "'a bm_state_scheme"
    using that by (auto simp: mutex_lock_body_def mutex_test_and_set_def bm_ticks_now_def split: if_splits)
  have "unat (bm_deadline timeout s) \<le> unat (g_ticks s) + length env" using d assms(5) by simp
  from wait_loop_returns [of ?b "bm_deadline timeout s", OF giveup assms(4) this]
  obtain r s' env' where run: "wait_loop ?b env s = Some (r, s', env')" by auto
  have "\<exists>s0. i < length (bm_mutex_pool s0) \<and> ?b s0 = (Some r, s')"
    by (rule wait_loop_last [OF run]) (use assms(3,6) in \<open>auto simp: mutex_lock_body_def mutex_test_and_set_def split: if_splits\<close>)
  with run d show ?thesis
    by (fastforce simp: osal_mutex_lock_def mutex_lock_body_def mutex_test_and_set_def bm_ticks_now_def
        word_le_nat_alt split: if_splits)
qed

theorem mutex_lock_timed_witness:
  "\<exists>s' env'. osal_mutex_lock (Some (Some 0)) 2 (replicate 2 (osal_baremetal_tick, False)) bm_demo = Some (Ok, s', env') \<and>
     mtx_flag (bm_mutex_pool s' ! 0)"
proof -
  let ?env = "replicate 2 (osal_baremetal_tick :: bm_state \<Rightarrow> bm_state, False)"
  have run: "\<exists>s' env'. osal_mutex_lock (Some (Some 0)) 2 ?env bm_demo = Some (Ok, s', env')"
    by (simp add: osal_mutex_lock_def bm_demo_def replicate_numeral_4 mutex_lock_body_def mutex_test_and_set_def)
  have "unat (g_ticks bm_demo) + unat (2 :: tick_t) < 2 ^ 64" by (simp add: bm_demo_def)
  with mutex_lock_timed [of 2 bm_demo 0 ?env] run show ?thesis
    by (auto simp: WAIT_FOREVER_def ticking_tick bm_demo_def osal_baremetal_tick_def bm_ticks_advance_one_def)
qed

end
