(* ===== verification/Bit_Scan.thy ===== *)
theory Bit_Scan
  imports Osal_Prelude
begin

text \<open>
  The two word operations with which the emulated primitives walk their bit maps: the index of the
  lowest set bit (the portable loop that stands beside \<^verbatim>\<open>__builtin_ctz\<close> in
  \<^verbatim>\<open>emulated_memory_pool.inl\<close> and \<^verbatim>\<open>emulated_event_flags.inl\<close>), and clearing that bit by
  \<open>w AND (w - 1)\<close>. For a zero word, which no caller passes, the loop would not end: here \<open>0\<close>.
\<close>

function first_set_bit :: "'a::len word \<Rightarrow> nat" where
  "first_set_bit w =
     (if w = 0 then 0
      else if w AND 1 = 0 then Suc (first_set_bit (drop_bit 1 w))
      else 0)"
  by pat_completeness auto

termination
proof (relation "measure unat")
  fix w :: "'a word"
  assume "w \<noteq> 0"
  then have "unat w div 2 < unat w" by (simp add: unat_gt_0)
  moreover have "unat (drop_bit 1 w) = unat w div 2"
    unfolding unat_drop_bit_eq by (simp add: drop_bit_eq_div)
  ultimately show "(drop_bit 1 w, w) \<in> measure unat" by (simp only: in_measure)
qed simp

declare first_set_bit.simps [simp del]

lemma first_set_bit_spec: "m \<noteq> 0 \<Longrightarrow> bit m (first_set_bit m) \<and> (\<forall>k < first_set_bit m. \<not> bit m k)"
proof (induction m rule: first_set_bit.induct)
  case (1 m)
  show ?case
  proof (cases "m AND 1 = 0")
    case True
    then have b0: "\<not> bit m 0"
      unfolding bit_iff_and_push_bit_not_eq_0 [of m 0] push_bit_0_id id_apply by blast
    have "drop_bit 1 m \<noteq> 0"
    proof
      assume z: "drop_bit 1 m = 0"
      have "bit m k \<longleftrightarrow> False" for k
        using b0 z bit_drop_bit_eq [of 1 m] by (cases k) (auto simp: fun_eq_iff)
      then have "m = 0" by (simp add: bit_eq_iff)
      with "1.prems" show False by simp
    qed
    with "1.IH" "1.prems" True
    have IH: "bit (drop_bit 1 m) (first_set_bit (drop_bit 1 m))"
      "\<forall>k < first_set_bit (drop_bit 1 m). \<not> bit (drop_bit 1 m) k" by blast+
    have "first_set_bit m = Suc (first_set_bit (drop_bit 1 m))"
      using True "1.prems" by (simp add: first_set_bit.simps [of m])
    with IH b0 show ?thesis by (auto simp: bit_drop_bit_eq less_Suc_eq_0_disj)
  next
    case False
    then have "bit m 0" unfolding bit_iff_and_push_bit_not_eq_0 [of m 0] push_bit_0_id id_apply by blast
    moreover have "first_set_bit m = 0" using False by (simp add: first_set_bit.simps [of m])
    ultimately show ?thesis by simp
  qed
qed

lemma first_set_bit_less: "m \<noteq> 0 \<Longrightarrow> first_set_bit (m :: 'a::len word) < LENGTH('a)"
  using first_set_bit_spec bit_imp_le_length by blast

text \<open>Clearing the lowest bit changes that bit only.\<close>

lemma bit_clear_lowest:
  assumes "w \<noteq> (0 :: 'a::len word)"
  shows "bit (w AND (w - 1)) k \<longleftrightarrow> bit w k \<and> k \<noteq> first_set_bit w"
proof -
  let ?n = "first_set_bit w"
  note n = first_set_bit_spec [OF assms]
  have l: "?n < LENGTH('a)" by (rule first_set_bit_less [OF assms])
  define u where "u = w AND NOT (push_bit ?n 1)"
  have bu: "bit u i \<longleftrightarrow> bit w i \<and> i \<noteq> ?n" for i
    by (auto simp: u_def bit_and_iff bit_not_iff bit_push_bit_iff bit_1_iff bit_exp_iff dest: bit_imp_le_length)
  have "w = u OR push_bit ?n 1"
    by (rule bit_eqI) (use n l in \<open>auto simp: bit_or_iff bu bit_push_bit_iff bit_1_iff bit_exp_iff\<close>)
  moreover have "u AND push_bit ?n 1 = 0"
    by (rule bit_eqI) (auto simp: bit_and_iff bu bit_push_bit_iff bit_1_iff bit_exp_iff)
  ultimately have w: "w = u + push_bit ?n 1" by (simp add: disjunctive_add_eq_or)
  have "u AND mask ?n = 0"
    by (rule bit_eqI) (use n in \<open>auto simp: bit_and_iff bu bit_mask_iff\<close>)
  then have "u + mask ?n = u OR mask ?n" by (rule disjunctive_add_eq_or)
  moreover have "w - 1 = u + mask ?n" by (subst w) (simp add: mask_eq_exp_minus_1 push_bit_eq_mult)
  ultimately have "bit (w - 1) k \<longleftrightarrow> bit u k \<or> bit (mask ?n :: 'a word) k" by (simp add: bit_or_iff)
  then show ?thesis using n by (auto simp: bit_and_iff bu bit_mask_iff)
qed

lemma clear_lowest_less: "w \<noteq> 0 \<Longrightarrow> unat (w AND (w - 1)) < unat (w :: 'a::len word)"
proof -
  assume "w \<noteq> 0"
  then have "w AND (w - 1) \<noteq> w"
    using bit_clear_lowest [of w "first_set_bit w"] first_set_bit_spec [of w] by metis
  moreover have "w AND (w - 1) \<le> w" by (metis word_and_le2)
  ultimately show ?thesis by (simp add: word_less_nat_alt [symmetric])
qed

end
