(* ===== verification/Osal_Diagnostics.thy ===== *)
theory Osal_Diagnostics
  imports Osal_Error
begin

text \<open>
  \<^verbatim>\<open>include/osal/diagnostics.hpp\<close>: the resource counters the pools report to. Every member is a
  32-bit atomic, so the additions wrap; the two compare-exchange loops are modelled by their net
  effect on an uncontended counter.
\<close>

record diagnostic_counters =
  dg_capacity :: u32
  dg_in_use :: u32
  dg_high_water :: u32
  dg_attempts :: u32
  dg_successes :: u32
  dg_failures :: u32
  dg_contention :: u32
  dg_drops :: u32
  dg_backlog :: u32

definition diag_zero :: diagnostic_counters where
  "diag_zero = \<lparr>dg_capacity = 0, dg_in_use = 0, dg_high_water = 0, dg_attempts = 0, dg_successes = 0,
     dg_failures = 0, dg_contention = 0, dg_drops = 0, dg_backlog = 0\<rparr>"

definition diag_attempt :: "error_code \<Rightarrow> diagnostic_counters \<Rightarrow> diagnostic_counters" where
  "diag_attempt status d =
     (let d1 = d\<lparr>dg_attempts := dg_attempts d + 1\<rparr>
      in if result_ok status then d1\<lparr>dg_successes := dg_successes d1 + 1\<rparr>
         else d1\<lparr>dg_failures := dg_failures d1 + 1\<rparr>)"

definition raise_high_water :: "u32 \<Rightarrow> diagnostic_counters \<Rightarrow> diagnostic_counters" where
  "raise_high_water current d = (if dg_high_water d < current then d\<lparr>dg_high_water := current\<rparr> else d)"

definition diag_acquire :: "diagnostic_counters \<Rightarrow> diagnostic_counters" where
  "diag_acquire d =
     (let current = dg_in_use d + 1
      in raise_high_water current (d\<lparr>dg_in_use := current\<rparr>))"

definition diag_release :: "diagnostic_counters \<Rightarrow> diagnostic_counters" where
  "diag_release d = (if dg_in_use d \<noteq> 0 then d\<lparr>dg_in_use := dg_in_use d - 1\<rparr> else d)"

definition diag_set_capacity :: "u32 \<Rightarrow> diagnostic_counters \<Rightarrow> diagnostic_counters" where
  "diag_set_capacity c d = d\<lparr>dg_capacity := c\<rparr>"

definition diag_dropped :: "diagnostic_counters \<Rightarrow> diagnostic_counters" where
  "diag_dropped d = d\<lparr>dg_drops := dg_drops d + 1\<rparr>"

definition diag_contended :: "diagnostic_counters \<Rightarrow> diagnostic_counters" where
  "diag_contended d = d\<lparr>dg_contention := dg_contention d + 1\<rparr>"

definition diag_set_backlog :: "u32 \<Rightarrow> diagnostic_counters \<Rightarrow> diagnostic_counters" where
  "diag_set_backlog b d = raise_high_water b (d\<lparr>dg_backlog := b\<rparr>)"

text \<open>The calls a client can make, for stating what any sequence of them keeps.\<close>

datatype diag_op = Attempt error_code | Acquire_slot | Release_slot | Set_capacity u32 | Dropped | Contended | Set_backlog u32

fun diag_apply :: "diag_op \<Rightarrow> diagnostic_counters \<Rightarrow> diagnostic_counters" where
  "diag_apply (Attempt r) d = diag_attempt r d"
| "diag_apply Acquire_slot d = diag_acquire d"
| "diag_apply Release_slot d = diag_release d"
| "diag_apply (Set_capacity c) d = diag_set_capacity c d"
| "diag_apply Dropped d = diag_dropped d"
| "diag_apply Contended d = diag_contended d"
| "diag_apply (Set_backlog b) d = diag_set_backlog b d"

lemmas diag_defs = diag_attempt_def diag_acquire_def diag_release_def diag_set_capacity_def diag_dropped_def
  diag_contended_def diag_set_backlog_def raise_high_water_def Let_def

definition diag_ok :: "diagnostic_counters \<Rightarrow> bool" where
  "diag_ok d \<longleftrightarrow> dg_attempts d = dg_successes d + dg_failures d \<and> dg_in_use d \<le> dg_high_water d \<and>
     dg_backlog d \<le> dg_high_water d"

lemma diag_apply_ok: "diag_ok d \<Longrightarrow> diag_ok (diag_apply op d) \<and> dg_high_water d \<le> dg_high_water (diag_apply op d)"
proof (cases op)
  case Release_slot
  assume "diag_ok d"
  moreover have "dg_in_use d \<noteq> 0 \<Longrightarrow> dg_in_use d - 1 \<le> dg_in_use d"
    using unat_word_pred [of "dg_in_use d"] by (simp add: word_le_nat_alt word_gt_0)
  ultimately show ?thesis using Release_slot by (auto simp: diag_ok_def diag_defs)
next
  case Acquire_slot
  assume "diag_ok d"
  then show ?thesis using Acquire_slot by (auto simp: diag_ok_def diag_defs not_less less_imp_le)
next
  case (Set_backlog b)
  assume "diag_ok d"
  then show ?thesis using Set_backlog by (auto simp: diag_ok_def diag_defs not_less less_imp_le)
qed (auto simp: diag_ok_def diag_defs)

text \<open>
  From zeroed counters, after any sequence of calls the attempts are the successes plus the
  failures (modulo the counter width), the high-water mark bounds the slots in use and the backlog,
  and no call ever lowers the mark.
\<close>

theorem diagnostics_consistent:
  "let d = fold diag_apply ops diag_zero
   in dg_attempts d = dg_successes d + dg_failures d \<and> dg_in_use d \<le> dg_high_water d \<and> dg_backlog d \<le> dg_high_water d \<and>
      dg_high_water d \<le> dg_high_water (diag_apply op d)"
proof -
  have "diag_ok (fold diag_apply ops d)" if "diag_ok d" for d
    using that by (induction ops arbitrary: d) (auto simp: diag_apply_ok)
  then have "diag_ok (fold diag_apply ops diag_zero)" by (simp add: diag_ok_def diag_zero_def)
  with diag_apply_ok [of "fold diag_apply ops diag_zero" op] show ?thesis by (simp add: diag_ok_def Let_def)
qed

end
