(* ===== verification/Osal_Mempool.thy ===== *)
theory Osal_Mempool
  imports Bm_Sync Bit_Scan Osal_Diagnostics "HOL-Library.Monad_Syntax"
begin

text \<open>
  The emulated fixed-size memory pool, \<^verbatim>\<open>src/common/emulated_memory_pool.inl\<close>, on the bare-metal
  mutex and semaphore: a bit map of allocated blocks guarded by a mutex, and a counting semaphore
  that holds one permit per free block. Addresses are natural numbers; a block pointer is \<open>None\<close>
  for \<^verbatim>\<open>nullptr\<close>.
\<close>

record emulated_pool_obj =
  po_buffer :: nat
  po_block_size :: nat
  po_block_count :: nat
  po_bitmap :: "u32 list"
  po_bitmap_words :: nat
  po_available :: nat
  po_guard :: handle
  po_sem :: handle

record mpool_state = bm_state +
  emu_mpool_pool :: "emulated_pool_obj list"
  emu_mpool_used :: "bool list"
  mpool_diag :: diagnostic_counters

type_synonym mpool_env = "mpool_state env"

definition mpool_diag_update1 :: "(diagnostic_counters \<Rightarrow> diagnostic_counters) \<Rightarrow> mpool_state \<Rightarrow> mpool_state" where
  "mpool_diag_update1 f s = s\<lparr>mpool_diag := f (mpool_diag s)\<rparr>"

text \<open>The exchange on a slot that is already used leaves it used.\<close>

definition emu_mpool_acquire :: "mpool_state \<Rightarrow> nat option \<times> mpool_state" where
  "emu_mpool_acquire s =
     (let s0 = mpool_diag_update1 (diag_set_capacity (of_nat (length (emu_mpool_pool s)))) s
      in case first_unused (emu_mpool_used s0) 0 of
           Some i \<Rightarrow> (Some i, mpool_diag_update1 (diag_acquire \<circ> diag_attempt Ok)
                        (s0\<lparr>emu_mpool_used := (emu_mpool_used s0)[i := True]\<rparr>))
         | None \<Rightarrow> (None, mpool_diag_update1 (diag_attempt Out_of_resources) s0))"

definition emu_mpool_release :: "nat \<Rightarrow> mpool_state \<Rightarrow> mpool_state" where
  "emu_mpool_release p s =
     (if p < length (emu_mpool_pool s)
      then (mpool_diag_update1 diag_release s)\<lparr>emu_mpool_used := (emu_mpool_used s)[p := False]\<rparr> else s)"

definition pool_bitmap_word_mask :: "emulated_pool_obj \<Rightarrow> nat \<Rightarrow> u32" where
  "pool_bitmap_word_mask p word_index =
     (let word_base = word_index * 32;
          remaining = po_block_count p - word_base
      in if remaining \<ge> 32 then 0xFFFFFFFF else push_bit remaining 1 - 1)"

definition pool_first_free_bit :: "u32 \<Rightarrow> nat" where
  "pool_first_free_bit free_mask = first_set_bit free_mask"

text \<open>The loop over the words of the bit map, from word \<open>w\<close>, with \<open>k\<close> words to go.\<close>

fun bitmap_alloc_from :: "emulated_pool_obj \<Rightarrow> nat \<Rightarrow> nat \<Rightarrow> nat \<times> emulated_pool_obj" where
  "bitmap_alloc_from p w 0 = (po_block_count p, p)"
| "bitmap_alloc_from p w (Suc k) =
     (let free_mask = NOT (po_bitmap p ! w) AND pool_bitmap_word_mask p w in
      if free_mask \<noteq> 0 then
        let b = pool_first_free_bit free_mask;
            idx = w * 32 + b
        in (idx, p\<lparr>po_bitmap := (po_bitmap p)[w := po_bitmap p ! w OR push_bit b 1],
                   po_available := po_available p - 1\<rparr>)
      else bitmap_alloc_from p (Suc w) k)"

definition pool_bitmap_alloc :: "emulated_pool_obj \<Rightarrow> nat \<times> emulated_pool_obj" where
  "pool_bitmap_alloc p = bitmap_alloc_from p 0 (po_bitmap_words p)"

definition pool_bitmap_free :: "nat \<Rightarrow> emulated_pool_obj \<Rightarrow> emulated_pool_obj" where
  "pool_bitmap_free idx p =
     (let w = idx div 32; b = idx mod 32
      in p\<lparr>po_bitmap := (po_bitmap p)[w := po_bitmap p ! w AND NOT (push_bit b 1)],
           po_available := po_available p + 1\<rparr>)"

definition pool_obj :: "mpool_state \<Rightarrow> nat \<Rightarrow> emulated_pool_obj" where
  "pool_obj s p = emu_mpool_pool s ! p"

definition pool_put :: "nat \<Rightarrow> emulated_pool_obj \<Rightarrow> mpool_state \<Rightarrow> mpool_state" where
  "pool_put p obj s = s\<lparr>emu_mpool_pool := (emu_mpool_pool s)[p := obj]\<rparr>"

section \<open>Creation and destruction\<close>

text \<open>\<open>buffer\<close> is \<open>None\<close> for a null pointer; \<open>bitmap_words\<close> is checked against the array size.\<close>

definition osal_memory_pool_create ::
  "handle option \<Rightarrow> nat option \<Rightarrow> nat \<Rightarrow> nat \<Rightarrow> nat \<Rightarrow> mpool_state \<Rightarrow> error_code \<times> handle option \<times> mpool_state" where
  "osal_memory_pool_create hnd buffer buf_bytes block_size block_count s =
     (if hnd = None \<or> buffer = None \<or> block_size = 0 \<or> block_count = 0 then (Invalid_argument, hnd, s)
      else if block_count > buf_bytes div block_size then (Invalid_argument, hnd, s)
      else case emu_mpool_acquire s of
        (None, s1) \<Rightarrow> (Out_of_resources, hnd, s1)
      | (Some p, s1) \<Rightarrow>
          let words = (block_count + 31) div 32;
              obj = (pool_obj s1 p)\<lparr>po_buffer := the buffer, po_block_size := block_size,
                po_block_count := block_count, po_available := block_count, po_bitmap_words := words\<rparr>;
              s2 = pool_put p obj s1
          in if words > length (po_bitmap obj) then (Invalid_argument, hnd, emu_mpool_release p s2)
             else
               let obj1 = obj\<lparr>po_bitmap := replicate words 0 @ drop words (po_bitmap obj)\<rparr>
               in case osal_mutex_create (po_guard obj1) (pool_put p obj1 s2) of (r3, g, s3) \<Rightarrow>
                    let obj3 = obj1\<lparr>po_guard := g\<rparr> in
                    if r3 \<noteq> Ok then (Out_of_resources, hnd, emu_mpool_release p (pool_put p obj3 s3))
                    else case osal_semaphore_create (Some (po_sem obj3)) (of_nat block_count) (of_nat block_count)
                                (pool_put p obj3 s3) of (r4, sh, s4) \<Rightarrow>
                      let obj4 = obj3\<lparr>po_sem := the sh\<rparr> in
                      if r4 \<noteq> Ok then
                        case osal_mutex_destroy (Some (po_guard obj4)) (pool_put p obj4 s4) of (_, g5, s5) \<Rightarrow>
                          (Out_of_resources, hnd, emu_mpool_release p (pool_put p (obj4\<lparr>po_guard := g5\<rparr>) s5))
                      else (Ok, Some (Some p), pool_put p obj4 s4))"

definition osal_memory_pool_destroy :: "handle option \<Rightarrow> mpool_state \<Rightarrow> error_code \<times> handle option \<times> mpool_state" where
  "osal_memory_pool_destroy hnd s =
     (case native_of hnd of
        None \<Rightarrow> (Ok, hnd, s)
      | Some p \<Rightarrow>
          case osal_semaphore_destroy (Some (po_sem (pool_obj s p))) s of (_, sh, s1) \<Rightarrow>
          case osal_mutex_destroy (Some (po_guard (pool_obj s1 p))) s1 of (_, g, s2) \<Rightarrow>
            (Ok, Some None,
             emu_mpool_release p (pool_put p ((pool_obj s2 p)\<lparr>po_sem := sh, po_guard := g\<rparr>) s2)))"

section \<open>Blocks\<close>

text \<open>The common part of both allocations, once a permit has been taken.\<close>

definition claim_block :: "nat \<Rightarrow> mpool_env \<Rightarrow> mpool_state \<Rightarrow> (nat option \<times> mpool_state \<times> mpool_env) option" where
  "claim_block p env s = do {
     (_, s1, env1) \<leftarrow> osal_mutex_lock (Some (po_guard (pool_obj s p))) WAIT_FOREVER env s;
     let (idx, obj) = pool_bitmap_alloc (pool_obj s1 p);
     let (_, s2) = osal_mutex_unlock (Some (po_guard obj)) (pool_put p obj s1);
     if idx \<ge> po_block_count obj then do {
       (_, s3, env3) \<leftarrow> osal_semaphore_give (Some (po_sem obj)) env1 s2;
       Some (None, s3, env3) }
     else Some (Some (po_buffer obj + idx * po_block_size obj), s2, env1) }"

definition osal_memory_pool_allocate ::
  "handle option \<Rightarrow> mpool_env \<Rightarrow> mpool_state \<Rightarrow> (nat option \<times> mpool_state \<times> mpool_env) option" where
  "osal_memory_pool_allocate hnd env s =
     (case native_of hnd of
        None \<Rightarrow> Some (None, s, env)
      | Some p \<Rightarrow> do {
          (r, s1, env1) \<leftarrow> osal_semaphore_try_take (Some (po_sem (pool_obj s p))) env s;
          if r \<noteq> Ok then Some (None, s1, env1) else claim_block p env1 s1 })"

definition osal_memory_pool_allocate_timed ::
  "handle option \<Rightarrow> tick_t \<Rightarrow> mpool_env \<Rightarrow> mpool_state \<Rightarrow> (nat option \<times> mpool_state \<times> mpool_env) option" where
  "osal_memory_pool_allocate_timed hnd timeout env s =
     (case native_of hnd of
        None \<Rightarrow> Some (None, s, env)
      | Some p \<Rightarrow> do {
          (r, s1, env1) \<leftarrow> osal_semaphore_take (Some (po_sem (pool_obj s p))) timeout env s;
          if r \<noteq> Ok then Some (None, s1, env1) else claim_block p env1 s1 })"

definition osal_memory_pool_deallocate ::
  "handle option \<Rightarrow> nat option \<Rightarrow> mpool_env \<Rightarrow> mpool_state \<Rightarrow> (error_code \<times> mpool_state \<times> mpool_env) option" where
  "osal_memory_pool_deallocate hnd block env s =
     (case (native_of hnd, block) of
        (Some p, Some block_address) \<Rightarrow>
          let obj = pool_obj s p;
              pool_bytes = po_block_count obj * po_block_size obj;
              buffer_address = po_buffer obj
          in if block_address < buffer_address \<or> block_address - buffer_address \<ge> pool_bytes
             then Some (Invalid_argument, s, env)
             else let offset = block_address - buffer_address in
               if offset mod po_block_size obj \<noteq> 0 then Some (Invalid_argument, s, env)
               else do {
                 let idx = offset div po_block_size obj;
                 (_, s1, env1) \<leftarrow> osal_mutex_lock (Some (po_guard obj)) WAIT_FOREVER env s;
                 let obj1 = pool_obj s1 p;
                 if po_bitmap obj1 ! (idx div 32) AND push_bit (idx mod 32) 1 = 0 then
                   Some (Invalid_argument, snd (osal_mutex_unlock (Some (po_guard obj1)) s1), env1)
                 else do {
                   let s2 = snd (osal_mutex_unlock (Some (po_guard obj1)) (pool_put p (pool_bitmap_free idx obj1) s1));
                   (_, s3, env3) \<leftarrow> osal_semaphore_give (Some (po_sem obj1)) env1 s2;
                   Some (Ok, s3, env3) } }
      | _ \<Rightarrow> Some (Invalid_argument, s, env))"

definition osal_memory_pool_available :: "handle option \<Rightarrow> mpool_env \<Rightarrow> mpool_state \<Rightarrow> (nat \<times> mpool_state \<times> mpool_env) option" where
  "osal_memory_pool_available hnd env s =
     (case native_of hnd of
        None \<Rightarrow> Some (0, s, env)
      | Some p \<Rightarrow> do {
          (_, s1, env1) \<leftarrow> osal_mutex_lock (Some (po_guard (pool_obj s p))) WAIT_FOREVER env s;
          let available = po_available (pool_obj s1 p);
          Some (available, snd (osal_mutex_unlock (Some (po_guard (pool_obj s1 p))) s1), env1) })"

section \<open>The bit map\<close>

definition block_used :: "emulated_pool_obj \<Rightarrow> nat \<Rightarrow> bool" where
  "block_used p i \<longleftrightarrow> bit (po_bitmap p ! (i div 32)) (i mod 32)"

definition free_blocks :: "emulated_pool_obj \<Rightarrow> nat set" where
  "free_blocks p = {i. i < po_block_count p \<and> \<not> block_used p i}"

definition obj_ok :: "emulated_pool_obj \<Rightarrow> bool" where
  "obj_ok p \<longleftrightarrow> 0 < po_block_size p \<and> po_bitmap_words p = (po_block_count p + 31) div 32 \<and>
     po_bitmap_words p \<le> length (po_bitmap p) \<and> po_available p = card (free_blocks p)"

lemma block_used_test: "po_bitmap p ! (i div 32) AND push_bit (i mod 32) 1 = 0 \<longleftrightarrow> \<not> block_used p i"
  by (simp add: block_used_def bit_iff_and_push_bit_not_eq_0)

lemma bit_word_mask:
  assumes "b < 32"
  shows "bit (pool_bitmap_word_mask p w) b \<longleftrightarrow> w * 32 + b < po_block_count p"
proof (cases "po_block_count p - w * 32 \<ge> 32")
  case True
  then have "pool_bitmap_word_mask p w = - 1" by (simp add: pool_bitmap_word_mask_def Let_def)
  moreover have "w * 32 + b < po_block_count p" using True assms by linarith
  ultimately show ?thesis using assms by simp
next
  case False
  then have "pool_bitmap_word_mask p w = mask (po_block_count p - w * 32)"
    by (simp add: pool_bitmap_word_mask_def Let_def mask_eq_exp_minus_1)
  then show ?thesis using assms by (auto simp: bit_mask_iff)
qed

lemma index_split: "(w * 32 + b) div 32 = w" "(w * 32 + b) mod 32 = b" if "b < (32 :: nat)"
  using that by simp_all

text \<open>A word of the bit map with no usable free bit.\<close>

lemma word_full_iff:
  "NOT (po_bitmap p ! w) AND pool_bitmap_word_mask p w = 0 \<longleftrightarrow>
   (\<forall>b < 32. w * 32 + b < po_block_count p \<longrightarrow> block_used p (w * 32 + b))" (is "?m = 0 \<longleftrightarrow> _")
proof -
  have "?m = 0 \<longleftrightarrow> (\<forall>b < 32. \<not> bit ?m b)" by (auto simp: bit_eq_iff dest: bit_imp_le_length)
  also have "\<dots> \<longleftrightarrow> (\<forall>b < 32. w * 32 + b < po_block_count p \<longrightarrow> block_used p (w * 32 + b))"
    by (auto simp: bit_and_iff bit_not_iff bit_word_mask block_used_def index_split)
  finally show ?thesis .
qed

lemma bitmap_alloc_from_spec:
  assumes "bitmap_alloc_from p w k = (idx, p')"
  shows "(idx = po_block_count p \<and> p' = p \<and> (\<forall>i. w * 32 \<le> i \<longrightarrow> i < (w + k) * 32 \<longrightarrow> i < po_block_count p \<longrightarrow> block_used p i)) \<or>
    (idx < po_block_count p \<and> \<not> block_used p idx \<and> idx div 32 < w + k \<and>
     (\<forall>i. w * 32 \<le> i \<longrightarrow> i < idx \<longrightarrow> block_used p i) \<and>
     p' = p\<lparr>po_bitmap := (po_bitmap p)[idx div 32 := po_bitmap p ! (idx div 32) OR push_bit (idx mod 32) 1],
             po_available := po_available p - 1\<rparr>)"
  using assms
proof (induction k arbitrary: w)
  case (Suc k)
  let ?m = "NOT (po_bitmap p ! w) AND pool_bitmap_word_mask p w" and ?b = "pool_first_free_bit (NOT (po_bitmap p ! w) AND pool_bitmap_word_mask p w)"
  have dm: "i = i div 32 * 32 + i mod 32" for i :: nat by simp
  show ?case
  proof (cases "?m = 0")
    case True
    then have run: "bitmap_alloc_from p (Suc w) k = (idx, p')" using Suc.prems by (simp add: Let_def)
    have here: "block_used p i" if "w * 32 \<le> i" "i < Suc w * 32" "i < po_block_count p" for i
    proof -
      have "i div 32 = w" using that by (simp add: div_nat_eqI)
      with dm [of i] True [unfolded word_full_iff] that(3) show ?thesis by (metis mod_less_divisor zero_less_numeral)
    qed
    from Suc.IH [OF run] show ?thesis
    proof (elim disjE conjE)
      assume "idx = po_block_count p" "p' = p"
        and rest: "\<forall>i. Suc w * 32 \<le> i \<longrightarrow> i < (Suc w + k) * 32 \<longrightarrow> i < po_block_count p \<longrightarrow> block_used p i"
      moreover have "block_used p i" if "w * 32 \<le> i" "i < (w + Suc k) * 32" "i < po_block_count p" for i
        using that here rest by (cases "i < Suc w * 32") (simp_all add: not_less)
      ultimately show ?thesis by blast
    next
      assume a: "idx < po_block_count p" "\<not> block_used p idx" "idx div 32 < Suc w + k"
        "\<forall>i. Suc w * 32 \<le> i \<longrightarrow> i < idx \<longrightarrow> block_used p i"
        "p' = p\<lparr>po_bitmap := (po_bitmap p)[idx div 32 := po_bitmap p ! (idx div 32) OR push_bit (idx mod 32) 1],
             po_available := po_available p - 1\<rparr>"
      moreover have "block_used p i" if "w * 32 \<le> i" "i < idx" for i
        using that here a(1,4) by (cases "i < Suc w * 32") (simp_all add: not_less)
      ultimately show ?thesis by auto
    qed
  next
    case False
    then have b: "bit ?m ?b" "\<forall>k < ?b. \<not> bit ?m k" using first_set_bit_spec by (auto simp: pool_first_free_bit_def)
    then have b32: "?b < 32" using bit_imp_le_length [of ?m ?b] by simp
    from Suc.prems False have idx: "idx = w * 32 + ?b" and p': "p' = p\<lparr>po_bitmap := (po_bitmap p)[w := po_bitmap p ! w OR push_bit ?b 1],
        po_available := po_available p - 1\<rparr>"
      by (auto simp: Let_def)
    have d: "idx div 32 = w" "idx mod 32 = ?b" using b32 by (simp_all add: idx)
    from b(1) b32 have "idx < po_block_count p" "\<not> block_used p idx"
      by (simp_all add: bit_and_iff bit_not_iff bit_word_mask block_used_def d flip: idx)
    moreover have "block_used p i" if "w * 32 \<le> i" "i < idx" for i
    proof -
      have "i div 32 = w" using that b32 by (simp add: idx div_nat_eqI)
      moreover have "i mod 32 < ?b" using that \<open>i div 32 = w\<close> dm [of i] by (simp add: idx)
      moreover have "w * 32 + i mod 32 < po_block_count p"
        using \<open>i div 32 = w\<close> dm [of i] that(2) \<open>idx < po_block_count p\<close> by simp
      ultimately show ?thesis
        using b(2) b32 by (auto simp: bit_and_iff bit_not_iff bit_word_mask block_used_def)
    qed
    ultimately show ?thesis using p' d by simp
  qed
qed auto

lemma block_used_set:
  assumes "i div 32 < length (po_bitmap p)"
  shows "block_used (p\<lparr>po_bitmap := (po_bitmap p)[i div 32 := po_bitmap p ! (i div 32) OR push_bit (i mod 32) 1], po_available := a\<rparr>) j \<longleftrightarrow>
    j = i \<or> block_used p j"
proof -
  have "j = i \<longleftrightarrow> j div 32 = i div 32 \<and> j mod 32 = i mod 32" by (metis div_mult_mod_eq)
  moreover have "i mod 32 < 32" by simp
  ultimately show ?thesis
    using assms by (cases "j div 32 = i div 32") (auto simp: block_used_def bit_or_iff bit_exp_iff)
qed

lemma block_used_clear:
  assumes "i div 32 < length (po_bitmap p)"
  shows "block_used (pool_bitmap_free i p) j \<longleftrightarrow> j \<noteq> i \<and> block_used p j"
proof -
  have "j = i \<longleftrightarrow> j div 32 = i div 32 \<and> j mod 32 = i mod 32" by (metis div_mult_mod_eq)
  moreover have "j mod 32 < 32" by simp
  ultimately show ?thesis
    using assms
    by (cases "j div 32 = i div 32")
      (auto simp: block_used_def pool_bitmap_free_def Let_def bit_and_iff bit_not_iff bit_exp_iff)
qed

lemma finite_free_blocks [simp]: "finite (free_blocks p)"
  by (simp add: free_blocks_def)

lemma obj_ok_index: "obj_ok p \<Longrightarrow> i < po_block_count p \<Longrightarrow> i div 32 < length (po_bitmap p)"
  by (auto simp: obj_ok_def)

lemma pool_bitmap_alloc_spec:
  assumes "obj_ok p" "pool_bitmap_alloc p = (idx, p')"
  shows "(free_blocks p = {} \<and> idx = po_block_count p \<and> p' = p) \<or>
    (idx \<in> free_blocks p \<and> (\<forall>i \<in> free_blocks p. idx \<le> i) \<and> free_blocks p' = free_blocks p - {idx} \<and> obj_ok p' \<and>
     p' = p\<lparr>po_bitmap := po_bitmap p', po_available := po_available p - 1\<rparr>)"
  using bitmap_alloc_from_spec [OF assms(2) [unfolded pool_bitmap_alloc_def]]
proof (elim disjE conjE)
  assume "idx = po_block_count p" "p' = p"
    and all: "\<forall>i. 0 * 32 \<le> i \<longrightarrow> i < (0 + po_bitmap_words p) * 32 \<longrightarrow> i < po_block_count p \<longrightarrow> block_used p i"
  moreover have "po_block_count p \<le> po_bitmap_words p * 32" using assms(1) by (simp add: obj_ok_def)
  then have "free_blocks p = {}" using all by (auto simp: free_blocks_def)
  ultimately show ?thesis by simp
next
  assume a: "idx < po_block_count p" "\<not> block_used p idx" "\<forall>i. 0 * 32 \<le> i \<longrightarrow> i < idx \<longrightarrow> block_used p i"
    "p' = p\<lparr>po_bitmap := (po_bitmap p)[idx div 32 := po_bitmap p ! (idx div 32) OR push_bit (idx mod 32) 1],
             po_available := po_available p - 1\<rparr>"
  then have free: "free_blocks p' = free_blocks p - {idx}"
    using block_used_set [OF obj_ok_index [OF assms(1) a(1)]] by (auto simp: free_blocks_def)
  moreover have "idx \<in> free_blocks p" using a by (simp add: free_blocks_def)
  moreover from this have "obj_ok p'"
    using assms(1) free a(4) by (simp add: obj_ok_def card_Diff_singleton)
  ultimately show ?thesis using a by (auto simp: free_blocks_def not_less [symmetric])
qed

lemma pool_bitmap_free_spec:
  assumes "obj_ok p" "i < po_block_count p" "block_used p i"
  shows "free_blocks (pool_bitmap_free i p) = insert i (free_blocks p) \<and> obj_ok (pool_bitmap_free i p)"
proof -
  have eq: "po_block_count (pool_bitmap_free i p) = po_block_count p" "po_block_size (pool_bitmap_free i p) = po_block_size p"
    "po_bitmap_words (pool_bitmap_free i p) = po_bitmap_words p" "length (po_bitmap (pool_bitmap_free i p)) = length (po_bitmap p)"
    "po_available (pool_bitmap_free i p) = po_available p + 1"
    by (simp_all add: pool_bitmap_free_def Let_def)
  have free: "free_blocks (pool_bitmap_free i p) = insert i (free_blocks p)"
    using block_used_clear [OF obj_ok_index [OF assms(1,2)]] assms(2) by (auto simp: free_blocks_def eq)
  moreover have "i \<notin> free_blocks p" using assms(3) by (simp add: free_blocks_def)
  ultimately show ?thesis using assms(1) by (simp add: obj_ok_def eq)
qed

section \<open>The pool object in the state\<close>

text \<open>
  A pool at rest: no task is inside its critical section, and the semaphore has one permit per
  free block.
\<close>

definition mpool_inv :: "nat \<Rightarrow> mpool_state \<Rightarrow> bool" where
  "mpool_inv p s \<longleftrightarrow> p < length (emu_mpool_pool s) \<and> obj_ok (pool_obj s p) \<and> po_block_count (pool_obj s p) < 2 ^ 32 \<and>
     (case (po_guard (pool_obj s p), po_sem (pool_obj s p)) of
        (Some g, Some m) \<Rightarrow>
          g < length (bm_mutex_pool s) \<and> \<not> mtx_flag (bm_mutex_pool s ! g) \<and> m < length (bm_sem_pool s) \<and>
          unat (sem_get m s) = po_available (pool_obj s p) \<and>
          unat (sem_max (bm_sem_pool s ! m)) = po_block_count (pool_obj s p)
      | _ \<Rightarrow> False)"

lemma pool_obj_put [simp]:
  "p < length (emu_mpool_pool s) \<Longrightarrow> pool_obj (pool_put p obj s) q = (if q = p then obj else pool_obj s q)"
  by (simp add: pool_obj_def pool_put_def nth_list_update)

lemma pool_put_simps [simp]:
  "bm_mutex_pool (pool_put p obj s) = bm_mutex_pool s" "bm_sem_pool (pool_put p obj s) = bm_sem_pool s"
  "length (emu_mpool_pool (pool_put p obj s)) = length (emu_mpool_pool s)"
  "sem_get m (pool_put p obj s) = sem_get m s"
  by (simp_all add: pool_put_def sem_get_def)

lemma sem_set_simps [simp]:
  "pool_obj (sem_set m c s) p = pool_obj s p" "bm_mutex_pool (sem_set m c s) = bm_mutex_pool s"
  "length (bm_sem_pool (sem_set m c s)) = length (bm_sem_pool s)"
  "emu_mpool_pool (sem_set m c s) = emu_mpool_pool s"
  "m < length (bm_sem_pool s) \<Longrightarrow> sem_max (bm_sem_pool (sem_set m c s) ! m) = sem_max (bm_sem_pool s ! m)"
  by (simp_all add: sem_set_def pool_obj_def)

lemma mpool_invE:
  assumes "mpool_inv p s"
  obtains g m where "p < length (emu_mpool_pool s)" "obj_ok (pool_obj s p)" "po_block_count (pool_obj s p) < 2 ^ 32"
    "po_guard (pool_obj s p) = Some g" "po_sem (pool_obj s p) = Some m" "g < length (bm_mutex_pool s)"
    "\<not> mtx_flag (bm_mutex_pool s ! g)" "m < length (bm_sem_pool s)" "unat (sem_get m s) = po_available (pool_obj s p)"
    "unat (sem_max (bm_sem_pool s ! m)) = po_block_count (pool_obj s p)"
  using assms by (auto simp: mpool_inv_def split: option.splits)

text \<open>Claiming a block of a free pool, with the guard not held.\<close>

lemma claim_block_eq:
  assumes "p < length (emu_mpool_pool s)" "po_guard (pool_obj s p) = Some g" "g < length (bm_mutex_pool s)"
    and "\<not> mtx_flag (bm_mutex_pool s ! g)" "pool_bitmap_alloc (pool_obj s p) = (idx, obj)"
    and "idx < po_block_count obj" "po_guard obj = Some g"
  shows "claim_block p env s = Some (Some (po_buffer obj + idx * po_block_size obj), pool_put p obj s, env)"
proof -
  let ?s1 = "s\<lparr>bm_mutex_pool := (bm_mutex_pool s)[g := (bm_mutex_pool s ! g)\<lparr>mtx_flag := True\<rparr>]\<rparr>"
  have lock: "osal_mutex_lock (Some (Some g)) WAIT_FOREVER env s = Some (Ok, ?s1, env)"
    by (rule mutex_lock_free [OF assms(4)])
  have unlock: "osal_mutex_unlock (Some (Some g)) (pool_put p obj ?s1) = (Ok, pool_put p obj s)"
    using mutex_unlock_relock [OF assms(3,4), of "pool_put p obj ?s1"] by (simp add: pool_put_def)
  have obj: "pool_obj ?s1 p = pool_obj s p" by (simp add: pool_obj_def)
  show ?thesis
    unfolding claim_block_def assms(2) lock using assms(5-7) by (simp add: obj unlock not_le)
qed

lemma mpool_allocate_some:
  assumes "mpool_inv p s" "free_blocks (pool_obj s p) \<noteq> {}"
  obtains idx s' where "idx \<in> free_blocks (pool_obj s p)" "\<forall>i \<in> free_blocks (pool_obj s p). idx \<le> i"
    "osal_memory_pool_allocate (Some (Some p)) ((id, False) # env) s =
       Some (Some (po_buffer (pool_obj s p) + idx * po_block_size (pool_obj s p)), s', env)"
    "mpool_inv p s'" "free_blocks (pool_obj s' p) = free_blocks (pool_obj s p) - {idx}"
    "pool_obj s' p = (pool_obj s p)\<lparr>po_bitmap := po_bitmap (pool_obj s' p), po_available := po_available (pool_obj s p) - 1\<rparr>"
    "length (emu_mpool_pool s') = length (emu_mpool_pool s)"
proof -
  from assms(1) obtain g m where inv: "p < length (emu_mpool_pool s)" "obj_ok (pool_obj s p)"
    "po_block_count (pool_obj s p) < 2 ^ 32"
    "po_guard (pool_obj s p) = Some g" "po_sem (pool_obj s p) = Some m" "g < length (bm_mutex_pool s)"
    "\<not> mtx_flag (bm_mutex_pool s ! g)" "m < length (bm_sem_pool s)" "unat (sem_get m s) = po_available (pool_obj s p)"
    "unat (sem_max (bm_sem_pool s ! m)) = po_block_count (pool_obj s p)" by (rule mpool_invE)
  have avail: "0 < po_available (pool_obj s p)" using inv(2) assms(2) by (simp add: obj_ok_def card_gt_0_iff)
  then have pos: "0 < sem_get m s" using inv(9) by (simp add: word_less_nat_alt)
  let ?s1 = "sem_set m (sem_get m s - 1) s"
  obtain idx obj where al: "pool_bitmap_alloc (pool_obj s p) = (idx, obj)" by fastforce
  with pool_bitmap_alloc_spec [OF inv(2) al] assms(2)
  have idx: "idx \<in> free_blocks (pool_obj s p)" "\<forall>i \<in> free_blocks (pool_obj s p). idx \<le> i"
    "free_blocks obj = free_blocks (pool_obj s p) - {idx}" "obj_ok obj"
    and obj: "obj = (pool_obj s p)\<lparr>po_bitmap := po_bitmap obj, po_available := po_available (pool_obj s p) - 1\<rparr>"
    by auto
  have same: "po_block_count obj = po_block_count (pool_obj s p)" "po_guard obj = Some g" "po_sem obj = Some m"
    "po_buffer obj = po_buffer (pool_obj s p)" "po_block_size obj = po_block_size (pool_obj s p)"
    "po_available obj = po_available (pool_obj s p) - 1"
    by (subst obj, simp add: inv(4,5))+
  have "claim_block p env ?s1 = Some (Some (po_buffer obj + idx * po_block_size obj), pool_put p obj ?s1, env)"
    using claim_block_eq [of p ?s1 g idx obj env] inv al idx(1) same by (simp add: free_blocks_def)
  then have run: "osal_memory_pool_allocate (Some (Some p)) ((id, False) # env) s =
      Some (Some (po_buffer obj + idx * po_block_size obj), pool_put p obj ?s1, env)"
    using sem_take_quiet [OF pos, of NO_WAIT env] inv(5)
    by (simp add: osal_memory_pool_allocate_def osal_semaphore_try_take_def)
  have "unat (sem_get m s - 1) = po_available obj" using unat_word_pred [OF pos] inv(9) same(6) by simp
  then have "mpool_inv p (pool_put p obj ?s1)"
    using inv idx(4) same by (simp add: mpool_inv_def)
  with that [of idx "pool_put p obj ?s1"] run idx same obj inv(1) show ?thesis by simp
qed

lemma mpool_allocate_none:
  assumes "mpool_inv p s" "free_blocks (pool_obj s p) = {}"
  shows "osal_memory_pool_allocate (Some (Some p)) env s = Some (None, s, env)"
proof -
  from assms(1) obtain g m where "obj_ok (pool_obj s p)" "po_sem (pool_obj s p) = Some m"
    "unat (sem_get m s) = po_available (pool_obj s p)" by (rule mpool_invE)
  with assms(2) have "sem_get m s = 0" "po_sem (pool_obj s p) = Some m" by (simp_all add: obj_ok_def unat_eq_0)
  then show ?thesis by (simp add: osal_memory_pool_allocate_def sem_try_take_empty)
qed

definition block_addr :: "emulated_pool_obj \<Rightarrow> nat \<Rightarrow> nat" where
  "block_addr obj i = po_buffer obj + i * po_block_size obj"

lemma block_addr_checks:
  assumes "0 < po_block_size obj" "i < po_block_count obj"
  shows "\<not> block_addr obj i < po_buffer obj" "block_addr obj i - po_buffer obj < po_block_count obj * po_block_size obj"
    "(block_addr obj i - po_buffer obj) mod po_block_size obj = 0" "(block_addr obj i - po_buffer obj) div po_block_size obj = i"
  using assms by (simp_all add: block_addr_def)

lemma mpool_deallocate_used:
  assumes "mpool_inv p s" "i < po_block_count (pool_obj s p)" "block_used (pool_obj s p) i"
  obtains s' where
    "osal_memory_pool_deallocate (Some (Some p)) (Some (block_addr (pool_obj s p) i)) ((id, False) # env) s = Some (Ok, s', env)"
    "mpool_inv p s'" "free_blocks (pool_obj s' p) = insert i (free_blocks (pool_obj s p))"
    "pool_obj s' p = pool_bitmap_free i (pool_obj s p)" "length (emu_mpool_pool s') = length (emu_mpool_pool s)"
proof -
  from assms(1) obtain g m where inv: "p < length (emu_mpool_pool s)" "obj_ok (pool_obj s p)"
    "po_block_count (pool_obj s p) < 2 ^ 32"
    "po_guard (pool_obj s p) = Some g" "po_sem (pool_obj s p) = Some m" "g < length (bm_mutex_pool s)"
    "\<not> mtx_flag (bm_mutex_pool s ! g)" "m < length (bm_sem_pool s)" "unat (sem_get m s) = po_available (pool_obj s p)"
    "unat (sem_max (bm_sem_pool s ! m)) = po_block_count (pool_obj s p)" by (rule mpool_invE)
  let ?o = "pool_obj s p" and ?f = "pool_bitmap_free i (pool_obj s p)"
  let ?s1 = "s\<lparr>bm_mutex_pool := (bm_mutex_pool s)[g := (bm_mutex_pool s ! g)\<lparr>mtx_flag := True\<rparr>]\<rparr>"
  let ?s2 = "pool_put p ?f s"
  have bs: "0 < po_block_size ?o" using inv(2) by (simp add: obj_ok_def)
  have lock: "osal_mutex_lock (Some (Some g)) WAIT_FOREVER env' s = Some (Ok, ?s1, env')" for env'
    by (rule mutex_lock_free [OF inv(7)])
  have unlock: "osal_mutex_unlock (Some (Some g)) (pool_put p ?f ?s1) = (Ok, ?s2)"
    using mutex_unlock_relock [OF inv(6,7), of "pool_put p ?f ?s1"] by (simp add: pool_put_def)
  have o1: "pool_obj ?s1 p = ?o" by (simp add: pool_obj_def)
  note fs = pool_bitmap_free_spec [OF inv(2) assms(2,3)]
  have "i \<notin> free_blocks ?o" using assms(3) by (simp add: free_blocks_def)
  then have "card (free_blocks ?o) < po_block_count ?o"
    using assms(2) psubset_card_mono [of "{..<po_block_count ?o}" "free_blocks ?o"] by (auto simp: free_blocks_def)
  then have lt: "sem_get m ?s2 < sem_max (bm_sem_pool ?s2 ! m)"
    using inv(2,9,10) by (simp add: word_less_nat_alt obj_ok_def)
  let ?s3 = "sem_set m (sem_get m ?s2 + 1) ?s2"
  have run: "osal_memory_pool_deallocate (Some (Some p)) (Some (block_addr ?o i)) ((id, False) # env) s = Some (Ok, ?s3, env)"
    using assms(3) block_addr_checks [OF bs assms(2)] sem_give_quiet [OF lt, of env]
    unfolding osal_memory_pool_deallocate_def
    by (simp add: Let_def inv(4,5) lock o1 block_used_test unlock del: push_bit_of_1)
  have f: "po_guard ?f = Some g" "po_sem ?f = Some m" "po_block_count ?f = po_block_count ?o" "po_available ?f = po_available ?o + 1"
    using inv(4,5) by (simp_all add: pool_bitmap_free_def Let_def)
  have "unat (sem_get m s + 1) = po_available ?f" using unat_word_Suc [OF lt] inv(9) f(4) by simp
  then have "mpool_inv p ?s3" using inv fs f by (simp add: mpool_inv_def)
  with that [of ?s3] run fs inv(1) show ?thesis by simp
qed

text \<open>Pointers outside the buffer, inside a block, or to a free block are refused and change nothing.\<close>

lemma mpool_deallocate_refused:
  assumes "mpool_inv p s"
    and "\<forall>i < po_block_count (pool_obj s p). a = block_addr (pool_obj s p) i \<longrightarrow> \<not> block_used (pool_obj s p) i"
  shows "osal_memory_pool_deallocate (Some (Some p)) (Some a) env s = Some (Invalid_argument, s, env)"
proof -
  from assms(1) obtain g where inv: "obj_ok (pool_obj s p)" "po_guard (pool_obj s p) = Some g"
    "g < length (bm_mutex_pool s)" "\<not> mtx_flag (bm_mutex_pool s ! g)" by (rule mpool_invE)
  let ?o = "pool_obj s p"
  let ?s1 = "s\<lparr>bm_mutex_pool := (bm_mutex_pool s)[g := (bm_mutex_pool s ! g)\<lparr>mtx_flag := True\<rparr>]\<rparr>"
  let ?off = "a - po_buffer ?o"
  show ?thesis
  proof (cases "a < po_buffer ?o \<or> ?off \<ge> po_block_count ?o * po_block_size ?o \<or> ?off mod po_block_size ?o \<noteq> 0")
    case True
    then show ?thesis by (auto simp: osal_memory_pool_deallocate_def Let_def)
  next
    case False
    let ?i = "?off div po_block_size ?o"
    have "a = block_addr ?o ?i" using False by (auto simp: block_addr_def)
    moreover have "?i < po_block_count ?o" using False by (simp add: less_mult_imp_div_less)
    ultimately have free: "\<not> block_used ?o ?i" using assms(2) by blast
    have o1: "pool_obj ?s1 p = ?o" by (simp add: pool_obj_def)
    have lock: "osal_mutex_lock (Some (Some g)) WAIT_FOREVER env s = Some (Ok, ?s1, env)"
      by (rule mutex_lock_free [OF inv(4)])
    have "osal_mutex_unlock (Some (Some g)) ?s1 = (Ok, s)"
      using mutex_unlock_relock [OF inv(3,4), of ?s1] by simp
    with False free inv(2) show ?thesis
      unfolding osal_memory_pool_deallocate_def
      by (simp add: Let_def lock o1 block_used_test del: push_bit_of_1)
  qed
qed

section \<open>Blocks as a slot pool\<close>

definition blocks_used :: "nat \<Rightarrow> mpool_state \<Rightarrow> nat set" where
  "blocks_used p s = {i. i < po_block_count (pool_obj s p) \<and> block_used (pool_obj s p) i}"

definition block_alloc :: "nat \<Rightarrow> mpool_state \<Rightarrow> nat option \<times> mpool_state" where
  "block_alloc p s =
     (case osal_memory_pool_allocate (Some (Some p)) [(id, False)] s of
        Some (Some a, s', _) \<Rightarrow> (Some ((a - po_buffer (pool_obj s p)) div po_block_size (pool_obj s p)), s')
      | Some (None, s', _) \<Rightarrow> (None, s')
      | None \<Rightarrow> (None, s))"

definition block_release :: "nat \<Rightarrow> nat \<Rightarrow> mpool_state \<Rightarrow> mpool_state" where
  "block_release p i s =
     (case osal_memory_pool_deallocate (Some (Some p)) (Some (block_addr (pool_obj s p) i)) [(id, False)] s of
        Some (_, s', _) \<Rightarrow> s' | None \<Rightarrow> s)"

lemma blocks_used_free: "blocks_used p s = {..<po_block_count (pool_obj s p)} - free_blocks (pool_obj s p)"
  by (auto simp: blocks_used_def free_blocks_def)

lemma block_alloc_some:
  assumes "mpool_inv p s" "block_alloc p s = (Some i, s')"
  shows "i \<in> free_blocks (pool_obj s p) \<and> free_blocks (pool_obj s' p) = free_blocks (pool_obj s p) - {i} \<and>
    mpool_inv p s' \<and> po_block_count (pool_obj s' p) = po_block_count (pool_obj s p)"
proof (cases "free_blocks (pool_obj s p) = {}")
  case True
  then show ?thesis using assms mpool_allocate_none [OF assms(1) True] by (simp add: block_alloc_def)
next
  case False
  have bs: "0 < po_block_size (pool_obj s p)" using assms(1) by (simp add: mpool_inv_def obj_ok_def)
  obtain idx t where a: "idx \<in> free_blocks (pool_obj s p)"
    "osal_memory_pool_allocate (Some (Some p)) [(id, False)] s =
       Some (Some (po_buffer (pool_obj s p) + idx * po_block_size (pool_obj s p)), t, [])"
    "mpool_inv p t" "free_blocks (pool_obj t p) = free_blocks (pool_obj s p) - {idx}"
    and obj: "pool_obj t p = (pool_obj s p)\<lparr>po_bitmap := po_bitmap (pool_obj t p), po_available := po_available (pool_obj s p) - 1\<rparr>"
    by (rule mpool_allocate_some [OF assms(1) False, of "[]"])
  have "po_block_count (pool_obj t p) = po_block_count (pool_obj s p)" by (subst obj) simp
  with assms(2) a bs show ?thesis by (simp add: block_alloc_def)
qed

lemma block_release_used:
  assumes "mpool_inv p s" "i \<in> blocks_used p s"
  shows "mpool_inv p (block_release p i s) \<and>
    free_blocks (pool_obj (block_release p i s) p) = insert i (free_blocks (pool_obj s p)) \<and>
    po_block_count (pool_obj (block_release p i s) p) = po_block_count (pool_obj s p)"
proof -
  obtain t where "osal_memory_pool_deallocate (Some (Some p)) (Some (block_addr (pool_obj s p) i)) [(id, False)] s = Some (Ok, t, [])"
    "mpool_inv p t" "free_blocks (pool_obj t p) = insert i (free_blocks (pool_obj s p))"
    "pool_obj t p = pool_bitmap_free i (pool_obj s p)"
    using mpool_deallocate_used [OF assms(1), of i "[]"] assms(2) by (auto simp: blocks_used_def)
  then show ?thesis by (simp add: block_release_def pool_bitmap_free_def Let_def)
qed

lemma block_alloc_law:
  assumes "mpool_inv p s" "block_alloc p s = (Some i, s')"
  shows "i < po_block_count (pool_obj s p) \<and> i \<notin> blocks_used p s \<and> blocks_used p s' = insert i (blocks_used p s) \<and>
      mpool_inv p s' \<and> po_block_count (pool_obj s' p) = po_block_count (pool_obj s p)"
proof -
  note f = block_alloc_some [OF assms]
  have "i < po_block_count (pool_obj s p)" using f by (simp add: free_blocks_def)
  moreover have "blocks_used p s' = insert i (blocks_used p s)" "i \<notin> blocks_used p s"
    using f calculation unfolding blocks_used_free by fastforce+
  ultimately show ?thesis using f by blast
qed

lemma block_release_law:
  assumes "mpool_inv p s" "i \<in> blocks_used p s"
  shows "blocks_used p (block_release p i s) = blocks_used p s - {i} \<and>
      mpool_inv p (block_release p i s) \<and> po_block_count (pool_obj (block_release p i s) p) = po_block_count (pool_obj s p)"
proof -
  note f = block_release_used [OF assms]
  then have "blocks_used p (block_release p i s) = blocks_used p s - {i}" unfolding blocks_used_free by fastforce
  with f show ?thesis by blast
qed

interpretation blocks: slot_pool "mpool_inv p" "\<lambda>s. po_block_count (pool_obj s p)" "blocks_used p" "block_alloc p" "block_release p"
proof unfold_locales
  fix s s' :: mpool_state and i
  show "blocks_used p s \<subseteq> {..<po_block_count (pool_obj s p)}" by (auto simp: blocks_used_def)
  show "mpool_inv p s \<Longrightarrow> block_alloc p s = (Some i, s') \<Longrightarrow>
      i < po_block_count (pool_obj s p) \<and> i \<notin> blocks_used p s \<and> blocks_used p s' = insert i (blocks_used p s) \<and>
      mpool_inv p s' \<and> po_block_count (pool_obj s' p) = po_block_count (pool_obj s p)"
    by (rule block_alloc_law)
  show "mpool_inv p s \<Longrightarrow> block_alloc p s = (None, s') \<Longrightarrow> blocks_used p s = {..<po_block_count (pool_obj s p)} \<and> s' = s"
  proof (cases "free_blocks (pool_obj s p) = {}")
    case True
    assume "mpool_inv p s" "block_alloc p s = (None, s')"
    with True mpool_allocate_none [of p s] show ?thesis by (auto simp: block_alloc_def blocks_used_free)
  next
    case False
    assume "mpool_inv p s" "block_alloc p s = (None, s')"
    from mpool_allocate_some [OF this(1) False, of "[]"]
    obtain a t where "osal_memory_pool_allocate (Some (Some p)) [(id, False)] s = Some (Some a, t, [])" .
    with \<open>block_alloc p s = (None, s')\<close> show ?thesis by (simp add: block_alloc_def)
  qed
  show "mpool_inv p s \<Longrightarrow> i \<in> blocks_used p s \<Longrightarrow> blocks_used p (block_release p i s) = blocks_used p s - {i} \<and>
      mpool_inv p (block_release p i s) \<and> po_block_count (pool_obj (block_release p i s) p) = po_block_count (pool_obj s p)"
    by (rule block_release_law)
qed

text \<open>Different blocks do not overlap, and each lies in the buffer.\<close>

lemma block_addr_disjoint:
  assumes "i \<noteq> j"
  shows "block_addr obj i + po_block_size obj \<le> block_addr obj j \<or> block_addr obj j + po_block_size obj \<le> block_addr obj i"
proof (cases "i < j")
  case True
  then have "(i + 1) * po_block_size obj \<le> j * po_block_size obj" by (intro mult_right_mono) simp_all
  then show ?thesis by (simp add: block_addr_def)
next
  case False
  with assms have "(j + 1) * po_block_size obj \<le> i * po_block_size obj" by (intro mult_right_mono) simp_all
  then show ?thesis by (simp add: block_addr_def)
qed

lemma block_addr_inside:
  "i < po_block_count obj \<Longrightarrow> block_addr obj i + po_block_size obj \<le> po_buffer obj + po_block_count obj * po_block_size obj"
proof -
  assume "i < po_block_count obj"
  then have "(i + 1) * po_block_size obj \<le> po_block_count obj * po_block_size obj" by (intro mult_right_mono) simp_all
  then show ?thesis by (simp add: block_addr_def)
qed

section \<open>Creation establishes the invariant\<close>

lemma mpool_acquire_some:
  assumes "emu_mpool_acquire s = (Some p, s1)"
  shows "p < length (emu_mpool_used s) \<and> \<not> emu_mpool_used s ! p \<and> emu_mpool_used s1 = (emu_mpool_used s)[p := True] \<and>
    emu_mpool_pool s1 = emu_mpool_pool s \<and> bm_mutex_pool s1 = bm_mutex_pool s \<and> bm_sem_pool s1 = bm_sem_pool s \<and>
    bm_mutex_used_bits s1 = bm_mutex_used_bits s \<and> bm_sem_used_bits s1 = bm_sem_used_bits s"
proof (cases "first_unused (emu_mpool_used s) 0")
  case (Some i)
  with assms first_unused_Some [OF Some] show ?thesis
    by (auto simp: emu_mpool_acquire_def mpool_diag_update1_def Let_def)
qed (use assms in \<open>simp add: emu_mpool_acquire_def mpool_diag_update1_def Let_def\<close>)

lemma memory_pool_create_steps:
  assumes "osal_memory_pool_create (Some h) (Some buf) bytes bs bc s = (Ok, hnd, s')"
  obtains p s1 obj g s3 m s4 where "emu_mpool_acquire s = (Some p, s1)" "0 < bs" "0 < bc" "bc \<le> bytes div bs"
    "(bc + 31) div 32 \<le> length (po_bitmap (pool_obj s1 p))"
    "obj = (pool_obj s1 p)\<lparr>po_buffer := buf, po_block_size := bs, po_block_count := bc, po_available := bc,
        po_bitmap_words := (bc + 31) div 32,
        po_bitmap := replicate ((bc + 31) div 32) 0 @ drop ((bc + 31) div 32) (po_bitmap (pool_obj s1 p))\<rparr>"
    "osal_mutex_create (po_guard obj) (pool_put p obj (pool_put p (obj\<lparr>po_bitmap := po_bitmap (pool_obj s1 p)\<rparr>) s1)) = (Ok, g, s3)"
    "osal_semaphore_create (Some (po_sem obj)) (of_nat bc) (of_nat bc) (pool_put p (obj\<lparr>po_guard := g\<rparr>) s3) = (Ok, m, s4)"
    "hnd = Some (Some p)" "s' = pool_put p (obj\<lparr>po_guard := g, po_sem := the m\<rparr>) s4"
  using assms
  unfolding osal_memory_pool_create_def Let_def
  by (simp split: if_splits prod.splits option.splits)

lemma memory_pool_create_inv:
  assumes "osal_memory_pool_create (Some h) (Some buf) bytes bs bc s = (Ok, hnd, s')"
    and "length (emu_mpool_used s) = length (emu_mpool_pool s)" "bc < 2 ^ 32"
  shows "\<exists>p. hnd = Some (Some p) \<and> p < length (emu_mpool_pool s) \<and> \<not> emu_mpool_used s ! p \<and> mpool_inv p s' \<and>
    po_buffer (pool_obj s' p) = buf \<and> po_block_size (pool_obj s' p) = bs \<and> po_block_count (pool_obj s' p) = bc \<and>
    free_blocks (pool_obj s' p) = {..<bc} \<and> bc * bs \<le> bytes"
  using assms(1)
proof (rule memory_pool_create_steps)
  fix p s1 obj g s3 m s4
  assume acq: "emu_mpool_acquire s = (Some p, s1)" and pos: "0 < bs" "0 < bc" "bc \<le> bytes div bs"
    and fit: "(bc + 31) div 32 \<le> length (po_bitmap (pool_obj s1 p))"
    and obj: "obj = (pool_obj s1 p)\<lparr>po_buffer := buf, po_block_size := bs, po_block_count := bc, po_available := bc,
        po_bitmap_words := (bc + 31) div 32,
        po_bitmap := replicate ((bc + 31) div 32) 0 @ drop ((bc + 31) div 32) (po_bitmap (pool_obj s1 p))\<rparr>"
    and mc: "osal_mutex_create (po_guard obj) (pool_put p obj (pool_put p (obj\<lparr>po_bitmap := po_bitmap (pool_obj s1 p)\<rparr>) s1)) = (Ok, g, s3)"
    and sc: "osal_semaphore_create (Some (po_sem obj)) (of_nat bc) (of_nat bc) (pool_put p (obj\<lparr>po_guard := g\<rparr>) s3) = (Ok, m, s4)"
    and hnd: "hnd = Some (Some p)" and s': "s' = pool_put p (obj\<lparr>po_guard := g, po_sem := the m\<rparr>) s4"
  note a = mpool_acquire_some [OF acq]
  obtain gi gb gu where g: "g = Some gi" "gi < length (bm_mutex_pool s1)" "\<not> mtx_flag (gb ! gi)"
    "length gb = length (bm_mutex_pool s1)"
    "s3 = (pool_put p obj (pool_put p (obj\<lparr>po_bitmap := po_bitmap (pool_obj s1 p)\<rparr>) s1))\<lparr>bm_mutex_used_bits := gu, bm_mutex_pool := gb\<rparr>"
    using mc by (rule mutex_create_ok) simp
  obtain mi mb mu where m: "m = Some (Some mi)" "mi < length (bm_sem_pool s3)"
    "mb ! mi = \<lparr>sem_count = of_nat bc, sem_max = of_nat bc\<rparr>" "length mb = length (bm_sem_pool s3)"
    "s4 = (pool_put p (obj\<lparr>po_guard := g\<rparr>) s3)\<lparr>bm_sem_used_bits := mu, bm_sem_pool := mb\<rparr>"
    using sc by (rule semaphore_create_ok) simp
  have p: "p < length (emu_mpool_pool s)" "length (emu_mpool_pool s4) = length (emu_mpool_pool s)"
    using a assms(2) by (simp_all add: g(5) m(5))
  then have o': "pool_obj s' p = obj\<lparr>po_guard := Some gi, po_sem := Some mi\<rparr>" by (simp add: s' g(1) m(1))
  have unused: "\<not> block_used (pool_obj s' p) i" if "i < bc" for i
  proof -
    have "i div 32 < (bc + 31) div 32" using that by auto
    then show ?thesis by (simp add: block_used_def o' obj nth_append)
  qed
  then have free: "free_blocks (pool_obj s' p) = {..<bc}" by (auto simp: free_blocks_def o' obj)
  then have "obj_ok (pool_obj s' p)" using pos fit by (simp add: obj_ok_def o' obj)
  moreover have "unat (of_nat bc :: u32) = bc" using assms(3) by (simp add: unat_of_nat take_bit_nat_eq_self)
  ultimately have "mpool_inv p s'"
    using p g m assms(3) by (simp add: mpool_inv_def o') (simp add: s' sem_get_def obj)
  moreover have "bc * bs \<le> bytes" using pos(3) by (simp add: less_eq_div_iff_mult_less_eq pos(1))
  ultimately show ?thesis using hnd p(1) a free by (intro exI [of _ p]) (simp add: o' obj)
qed

lemma memory_pool_create_fresh:
  assumes "osal_memory_pool_create (Some h) (Some buf) bytes bs bc s = (Ok, Some (Some p), s0)"
    and "length (emu_mpool_used s) = length (emu_mpool_pool s)" "bc < 2 ^ 32"
  shows "mpool_inv p s0 \<and> blocks_used p s0 = {}"
  using memory_pool_create_inv [OF assms] by (auto simp: blocks_used_free)

section \<open>Properties\<close>

text \<open>
  C13: blocks are handed out exclusively. On a pool that was just created, after any sequence of
  allocations and deallocations of live blocks, the live blocks are pairwise different, so their
  byte ranges do not overlap and lie inside the caller's buffer; the number of free blocks reported
  is the number that is not live, and the next allocation fails exactly when all blocks are live.
\<close>

theorem mpool_blocks_exclusive:
  assumes "osal_memory_pool_create (Some h) (Some buf) bytes bs bc s = (Ok, Some (Some p), s0)"
    and "length (emu_mpool_used s) = length (emu_mpool_pool s)" "bc < 2 ^ 32"
    and "pool_run (block_alloc p) (block_release p) ops ([], s0) = (live, s1)"
  shows "distinct live \<and> length live \<le> bc \<and>
    po_available (pool_obj s1 p) + length live = bc \<and>
    (fst (block_alloc p s1) = None \<longleftrightarrow> length live = bc) \<and>
    (\<forall>i \<in> set live. block_addr (pool_obj s0 p) i + bs \<le> buf + bytes \<and>
       (\<forall>j \<in> set live. i \<noteq> j \<longrightarrow> block_addr (pool_obj s0 p) i + bs \<le> block_addr (pool_obj s0 p) j \<or>
          block_addr (pool_obj s0 p) j + bs \<le> block_addr (pool_obj s0 p) i))"
proof -
  from memory_pool_create_inv [OF assms(1-3)]
  have c: "mpool_inv p s0" "po_buffer (pool_obj s0 p) = buf" "po_block_size (pool_obj s0 p) = bs"
    "po_block_count (pool_obj s0 p) = bc" "free_blocks (pool_obj s0 p) = {..<bc}" "bc * bs \<le> bytes" by auto
  have "blocks_used p s0 = {}" by (simp add: blocks_used_free c)
  then have run: "distinct live" "set live = blocks_used p s1" "length live \<le> bc" "mpool_inv p s1"
    "po_block_count (pool_obj s1 p) = bc"
    using blocks.run_live [OF c(1) _ _ assms(4)] c(4) by auto
  have "finite (blocks_used p s1)" "card (blocks_used p s1) = length live"
    using run(1,2) by (metis List.finite_set, metis distinct_card)
  moreover have "blocks_used p s1 \<union> free_blocks (pool_obj s1 p) = {..<bc}" "blocks_used p s1 \<inter> free_blocks (pool_obj s1 p) = {}"
    using run(5) by (auto simp: blocks_used_def free_blocks_def)
  ultimately have "po_available (pool_obj s1 p) + length live = bc"
    using run(4) card_Un_disjoint [of "blocks_used p s1" "free_blocks (pool_obj s1 p)"]
    by (simp add: mpool_inv_def obj_ok_def)
  moreover have "fst (block_alloc p s1) = None \<longleftrightarrow> length live = bc"
    using blocks.alloc_fails_iff [OF run(4,1,2)] run(5) by simp
  moreover have "block_addr (pool_obj s0 p) i + bs \<le> buf + bytes" if "i \<in> set live" for i
  proof -
    have "i < po_block_count (pool_obj s0 p)" using that run(2,5) c(4) by (auto simp: blocks_used_def)
    from block_addr_inside [OF this] show ?thesis using c by simp
  qed
  ultimately show ?thesis
    using run(1,3) block_addr_disjoint [of _ _ "pool_obj s0 p", unfolded c(3)] by blast
qed

definition mpool_demo :: mpool_state where
  "mpool_demo = \<lparr>g_ticks = 0, bm_tasks = [], bm_current = -1, bm_last_scheduled = -1,
     bm_mutex_pool = [\<lparr>mtx_flag = True\<rparr>], bm_mutex_used_bits = [0],
     bm_sem_pool = [\<lparr>sem_count = 9, sem_max = 9\<rparr>], bm_sem_used_bits = [0],
     bm_queue_pool = [], bm_queue_used_bits = [], bm_timer_pool = [],
     emu_mpool_pool = [\<lparr>po_buffer = 0, po_block_size = 0, po_block_count = 0, po_bitmap = [0xFF], po_bitmap_words = 0,
       po_available = 0, po_guard = None, po_sem = None\<rparr>],
     emu_mpool_used = [False], mpool_diag = diag_zero\<rparr>"

lemma mpool_demo_create:
  "osal_memory_pool_create (Some None) (Some 4096) 64 16 2 mpool_demo =
     (Ok, Some (Some 0), snd (snd (osal_memory_pool_create (Some None) (Some 4096) 64 16 2 mpool_demo)))"
  by (simp add: osal_memory_pool_create_def mpool_demo_def emu_mpool_acquire_def mpool_diag_update1_def Let_def
      osal_mutex_create_def osal_semaphore_create_def bit_used_def pool_put_def pool_obj_def)

theorem mpool_blocks_exclusive_witness:
  "let s0 = snd (snd (osal_memory_pool_create (Some None) (Some 4096) 64 16 2 mpool_demo));
       run = pool_run (block_alloc 0) (block_release 0) [Acquire, Acquire, Acquire] ([], s0)
   in distinct (fst run) \<and> length (fst run) \<le> 2"
proof -
  let ?s0 = "snd (snd (osal_memory_pool_create (Some None) (Some 4096) 64 16 2 mpool_demo))"
  obtain live s1 where run: "pool_run (block_alloc 0) (block_release 0) [Acquire, Acquire, Acquire] ([], ?s0) = (live, s1)"
    by fastforce
  have "length (emu_mpool_used mpool_demo) = length (emu_mpool_pool mpool_demo)" by (simp add: mpool_demo_def)
  from mpool_blocks_exclusive [OF mpool_demo_create this _ run] run show ?thesis by (simp add: Let_def)
qed

text \<open>
  Deallocation accepts exactly the addresses of live blocks. Any other pointer (outside the
  buffer, not at a block boundary, or to a block that is free already, so also a double free) is
  answered \<open>Invalid_argument\<close> and leaves the whole state as it was; for a live block the block
  becomes free and nothing else changes in the bit map.
\<close>

theorem mpool_deallocate_exact:
  assumes "mpool_inv p s"
  shows "(\<exists>i \<in> blocks_used p s. a = block_addr (pool_obj s p) i \<and>
      (\<exists>s'. osal_memory_pool_deallocate (Some (Some p)) (Some a) ((id, False) # env) s = Some (Ok, s', env) \<and>
         mpool_inv p s' \<and> blocks_used p s' = blocks_used p s - {i})) \<or>
    (a \<notin> block_addr (pool_obj s p) ` blocks_used p s \<and>
      osal_memory_pool_deallocate (Some (Some p)) (Some a) ((id, False) # env) s = Some (Invalid_argument, s, (id, False) # env))"
proof (cases "a \<in> block_addr (pool_obj s p) ` blocks_used p s")
  case True
  then obtain i where i: "i \<in> blocks_used p s" "a = block_addr (pool_obj s p) i" by blast
  then have u: "i < po_block_count (pool_obj s p)" "block_used (pool_obj s p) i" by (simp_all add: blocks_used_def)
  from mpool_deallocate_used [OF assms u, of env] obtain s' where
    d: "osal_memory_pool_deallocate (Some (Some p)) (Some (block_addr (pool_obj s p) i)) ((id, False) # env) s = Some (Ok, s', env)"
    "mpool_inv p s'" "free_blocks (pool_obj s' p) = insert i (free_blocks (pool_obj s p))"
    "pool_obj s' p = pool_bitmap_free i (pool_obj s p)" .
  have "blocks_used p s' = blocks_used p s - {i}"
    unfolding blocks_used_free d(3) by (auto simp: d(4) pool_bitmap_free_def Let_def)
  with d(1,2) i show ?thesis
    by (intro disjI1 bexI [of _ i] conjI exI [of _ s']) simp_all
next
  case False
  then have "\<forall>i < po_block_count (pool_obj s p). a = block_addr (pool_obj s p) i \<longrightarrow> \<not> block_used (pool_obj s p) i"
    by (auto simp: blocks_used_def)
  with False mpool_deallocate_refused [OF assms] show ?thesis by simp
qed

definition mpool_demo_created :: mpool_state where
  "mpool_demo_created = snd (snd (osal_memory_pool_create (Some None) (Some 4096) 64 16 2 mpool_demo))"

lemma mpool_demo_fresh: "mpool_inv 0 mpool_demo_created \<and> blocks_used 0 mpool_demo_created = {}"
proof (rule memory_pool_create_fresh [of None 4096 64 16 2 mpool_demo])
  show "osal_memory_pool_create (Some None) (Some 4096) 64 16 2 mpool_demo = (Ok, Some (Some 0), mpool_demo_created)"
    unfolding mpool_demo_created_def by (rule mpool_demo_create)
  show "length (emu_mpool_used mpool_demo) = length (emu_mpool_pool mpool_demo)" by (simp add: mpool_demo_def)
qed simp

theorem mpool_deallocate_exact_witness:
  "osal_memory_pool_deallocate (Some (Some 0)) (Some 4112) [(id, False)] mpool_demo_created =
     Some (Invalid_argument, mpool_demo_created, [(id, False)])"
  using mpool_deallocate_exact [of 0 mpool_demo_created 4112 "[]"] mpool_demo_fresh by simp

end
