(* ===== verification/Byte_Ring.thy ===== *)
theory Byte_Ring
  imports Ring_Algebra
begin

text \<open>
  The byte ring that the emulated stream buffer and message buffer each keep in their control
  object: \<open>capacity + 1\<close> bytes, a write index the producer owns and a read index the consumer owns.
  Both objects extend the record below; the ring operations of each file are defined in its own
  theory and shown to satisfy the contract \<open>byte_stream\<close>.
\<close>

record byte_ring =
  br_buf :: "byte list"
  br_ring_size :: nat
  br_capacity :: nat
  br_head :: nat
  br_tail :: nat

definition br_inv :: "'z byte_ring_scheme \<Rightarrow> bool" where
  "br_inv r \<longleftrightarrow> length (br_buf r) = br_ring_size r \<and> br_ring_size r = br_capacity r + 1 \<and> 0 < br_capacity r \<and>
     br_head r < br_ring_size r \<and> br_tail r < br_ring_size r"

definition br_bytes :: "'z byte_ring_scheme \<Rightarrow> byte list" where
  "br_bytes r = ring_seq (br_buf r) (br_tail r) (ring_used (br_ring_size r) (br_head r) (br_tail r))"

lemma br_bytes_cong:
  "br_buf r = br_buf r' \<Longrightarrow> br_head r = br_head r' \<Longrightarrow> br_tail r = br_tail r' \<Longrightarrow> br_ring_size r = br_ring_size r' \<Longrightarrow>
   br_bytes r = br_bytes r'"
  by (simp add: br_bytes_def)

lemma length_br_bytes: "length (br_bytes r) = ring_used (br_ring_size r) (br_head r) (br_tail r)"
  by (simp add: br_bytes_def)

lemma br_bytes_bounded: "br_inv r \<Longrightarrow> length (br_bytes r) \<le> br_capacity r"
  using ring_used_less [of "br_head r" "br_ring_size r" "br_tail r"] by (simp add: br_inv_def length_br_bytes)

lemma br_bytes_append:
  assumes "br_inv r" "length (br_bytes r) + length data \<le> br_capacity r"
  shows "br_bytes (r\<lparr>br_buf := ring_copy_in (br_buf r) (br_head r) data,
      br_head := (br_head r + length data) mod br_ring_size r\<rparr>) = br_bytes r @ data"
proof -
  let ?u = "ring_used (br_ring_size r) (br_head r) (br_tail r)"
  have r: "br_head r < length (br_buf r)" "br_tail r < length (br_buf r)" "br_ring_size r = length (br_buf r)"
    using assms(1) by (simp_all add: br_inv_def)
  have u: "?u + length data < length (br_buf r)"
    using assms r by (simp add: br_inv_def length_br_bytes)
  have "ring_seq (ring_copy_in (br_buf r) (br_head r) data) (br_tail r) (?u + length data) =
      ring_seq (br_buf r) (br_tail r) ?u @ data"
    using ring_seq_copy_in [of "br_tail r" "br_buf r" ?u data] ring_head_eq [of "br_head r" "length (br_buf r)" "br_tail r"] r u
    by simp
  then show ?thesis using r u by (simp add: br_bytes_def ring_used_head_advance)
qed

lemma br_bytes_drop:
  assumes "br_inv r" "n \<le> length (br_bytes r)"
  shows "br_bytes (r\<lparr>br_tail := (br_tail r + n) mod br_ring_size r\<rparr>) = drop n (br_bytes r)"
  using assms by (simp add: br_bytes_def br_inv_def ring_used_tail_advance drop_ring_seq)

lemma br_inv_head:
  assumes "br_inv r" "length data \<le> br_capacity r"
  shows "br_inv (r\<lparr>br_buf := ring_copy_in (br_buf r) (br_head r) data, br_head := (br_head r + k) mod br_ring_size r\<rparr>)"
  using assms by (auto simp: br_inv_def)

lemma br_inv_tail: "br_inv r \<Longrightarrow> br_inv (r\<lparr>br_tail := (br_tail r + n) mod br_ring_size r\<rparr>)"
  by (auto simp: br_inv_def)

section \<open>The contract\<close>

text \<open>A client's requests: write some bytes, or read up to \<open>n\<close> bytes.\<close>

datatype stream_op = Write "byte list" | Read nat

fun stream_step :: "('s \<Rightarrow> nat) \<Rightarrow> ('s \<Rightarrow> nat) \<Rightarrow> (byte list \<Rightarrow> 's \<Rightarrow> 's) \<Rightarrow> (nat \<Rightarrow> 's \<Rightarrow> byte list \<times> 's)
    \<Rightarrow> stream_op \<Rightarrow> byte list \<times> byte list \<times> 's \<Rightarrow> byte list \<times> byte list \<times> 's" where
  "stream_step avail free put get (Write xs) (ins, outs, s) =
     (if length xs \<le> free s then (ins @ xs, outs, put xs s) else (ins, outs, s))"
| "stream_step avail free put get (Read n) (ins, outs, s) =
     (case get (min n (avail s)) s of (ys, s') \<Rightarrow> (ins, outs @ ys, s'))"

locale byte_stream =
  fixes inv :: "'s \<Rightarrow> bool"
    and cap :: "'s \<Rightarrow> nat"
    and bytes :: "'s \<Rightarrow> byte list"
    and avail :: "'s \<Rightarrow> nat"
    and free :: "'s \<Rightarrow> nat"
    and put :: "byte list \<Rightarrow> 's \<Rightarrow> 's"
    and get :: "nat \<Rightarrow> 's \<Rightarrow> byte list \<times> 's"
  assumes avail_law: "inv s \<Longrightarrow> avail s = length (bytes s)"
    and free_law: "inv s \<Longrightarrow> avail s + free s = cap s"
    and put_law: "inv s \<Longrightarrow> length xs \<le> free s \<Longrightarrow>
      bytes (put xs s) = bytes s @ xs \<and> inv (put xs s) \<and> cap (put xs s) = cap s"
    and get_law: "inv s \<Longrightarrow> n \<le> avail s \<Longrightarrow> get n s = (ys, s') \<Longrightarrow>
      ys = take n (bytes s) \<and> bytes s' = drop n (bytes s) \<and> inv s' \<and> cap s' = cap s"
begin

lemma step_conserves:
  assumes "inv s" "stream_step avail free put get c (ins, outs, s) = (ins', outs', s')"
    and "b @ ins = outs @ bytes s"
  shows "b @ ins' = outs' @ bytes s' \<and> inv s' \<and> cap s' = cap s"
proof (cases c)
  case (Write xs)
  with assms put_law [OF assms(1)] show ?thesis by (auto split: if_splits)
next
  case (Read n)
  obtain ys t where g: "get (min n (avail s)) s = (ys, t)" by fastforce
  with get_law [OF assms(1) _ g] have "ys @ bytes t = bytes s" "inv t" "cap t = cap s" by auto
  with assms Read g show ?thesis by auto
qed

text \<open>What was in the stream and what was written is what was read and what is left, in order.\<close>

theorem run_conserves:
  assumes "inv s" "fold (stream_step avail free put get) cs ([], [], s) = (ins, outs, s')"
  shows "bytes s @ ins = outs @ bytes s' \<and> inv s' \<and> length (bytes s') \<le> cap s"
proof -
  have "\<lbrakk>inv t; fold (stream_step avail free put get) cs (i, out, t) = (ins, outs, s'); bytes s @ i = out @ bytes t; cap t = cap s\<rbrakk>
      \<Longrightarrow> bytes s @ ins = outs @ bytes s' \<and> inv s' \<and> cap s' = cap s" for i out t
  proof (induction cs arbitrary: i out t)
    case (Cons c cs)
    obtain i1 o1 t1 where st: "stream_step avail free put get c (i, out, t) = (i1, o1, t1)" by (metis prod_cases3)
    from step_conserves [OF Cons.prems(1) st Cons.prems(3)]
    show ?case using Cons.IH [of t1 i1 o1] Cons.prems(2,4) st by simp
  qed simp
  from this [of s "[]" "[]"] assms have r: "bytes s @ ins = outs @ bytes s' \<and> inv s' \<and> cap s' = cap s" by simp
  then have "length (bytes s') \<le> cap s" using avail_law [of s'] free_law [of s'] by linarith
  with r show ?thesis by blast
qed

end

end
