(* ===== verification/Osal_Stream.thy ===== *)
theory Osal_Stream
  imports Bm_Sync Byte_Ring "HOL-Library.Monad_Syntax"
begin

text \<open>
  The emulated stream buffer, \<^verbatim>\<open>src/common/emulated_stream_buffer.inl\<close>: a byte ring for one
  producer and one consumer with two binary semaphores that wake the other side, on the bare-metal
  semaphores. Data arguments are byte lists; \<open>None\<close> is a null data
  pointer to send from. A null pointer to receive into is a maximal length of zero: both get the same answer.
\<close>

record emu_sb_obj = byte_ring +
  sb_trigger :: nat
  sb_data_sem :: handle
  sb_space_sem :: handle

record stream_state = bm_state +
  emu_sb_pool :: "emu_sb_obj list"
  emu_sb_used :: "bool list"

type_synonym stream_env = "stream_state env"

definition emu_sb_acquire :: "stream_state \<Rightarrow> nat option \<times> stream_state" where
  "emu_sb_acquire s =
     (case first_unused (emu_sb_used s) 0 of
        Some i \<Rightarrow> (Some i, s\<lparr>emu_sb_used := (emu_sb_used s)[i := True]\<rparr>)
      | None \<Rightarrow> (None, s))"

definition emu_sb_release :: "nat \<Rightarrow> stream_state \<Rightarrow> stream_state" where
  "emu_sb_release p s =
     (if p < length (emu_sb_pool s) then s\<lparr>emu_sb_used := (emu_sb_used s)[p := False]\<rparr> else s)"

section \<open>Ring helpers\<close>

definition sb_available :: "'z byte_ring_scheme \<Rightarrow> nat" where
  "sb_available r =
     (let h = br_head r; t = br_tail r
      in if h \<ge> t then h - t else br_ring_size r - t + h)"

definition sb_free :: "'z byte_ring_scheme \<Rightarrow> nat" where
  "sb_free r = br_capacity r - sb_available r"

definition sb_write :: "byte list \<Rightarrow> 'z byte_ring_scheme \<Rightarrow> 'z byte_ring_scheme" where
  "sb_write data r =
     (let h = br_head r;
          len = length data;
          first = min len (br_ring_size r - h);
          b1 = memcpy_at (br_buf r) h (take first data);
          b2 = (if first < len then memcpy_at b1 0 (drop first data) else b1);
          h' = (if h + len < br_ring_size r then h + len else h + len - br_ring_size r)
      in r\<lparr>br_buf := b2, br_head := h'\<rparr>)"

definition sb_peek :: "nat \<Rightarrow> 'z byte_ring_scheme \<Rightarrow> byte list" where
  "sb_peek len r =
     (let t = br_tail r;
          first = min len (br_ring_size r - t);
          o1 = mem_read (br_buf r) t first
      in if first < len then o1 @ mem_read (br_buf r) 0 (len - first) else o1)"

definition sb_skip :: "nat \<Rightarrow> 'z byte_ring_scheme \<Rightarrow> 'z byte_ring_scheme" where
  "sb_skip len r =
     (let t = br_tail r
      in r\<lparr>br_tail := (if t + len < br_ring_size r then t + len else t + len - br_ring_size r)\<rparr>)"

text \<open>\<open>sb_read\<close> copies like \<open>sb_peek\<close> and moves the tail like \<open>sb_skip\<close>.\<close>

definition sb_read :: "nat \<Rightarrow> 'z byte_ring_scheme \<Rightarrow> byte list \<times> 'z byte_ring_scheme" where
  "sb_read len r =
     (let t = br_tail r;
          first = min len (br_ring_size r - t);
          o1 = mem_read (br_buf r) t first;
          o2 = (if first < len then o1 @ mem_read (br_buf r) 0 (len - first) else o1);
          t' = (if t + len < br_ring_size r then t + len else t + len - br_ring_size r)
      in (o2, r\<lparr>br_tail := t'\<rparr>))"

lemma sb_available_eq: "sb_available r = length (br_bytes r)"
  by (simp add: sb_available_def length_br_bytes ring_used_def Let_def)

lemma sb_write_eq:
  assumes "br_inv r" "length data \<le> br_capacity r"
  shows "sb_write data r = r\<lparr>br_buf := ring_copy_in (br_buf r) (br_head r) data,
      br_head := (br_head r + length data) mod br_ring_size r\<rparr>"
proof -
  have "(if br_head r + length data < br_ring_size r then br_head r + length data
      else br_head r + length data - br_ring_size r) = (br_head r + length data) mod br_ring_size r"
    using assms by (auto simp: br_inv_def mod_if)
  moreover have "br_ring_size r = length (br_buf r)" using assms(1) by (simp add: br_inv_def)
  ultimately show ?thesis by (simp add: sb_write_def ring_copy_in_def Let_def)
qed

lemma sb_read_eq:
  assumes "br_inv r" "n \<le> sb_available r"
  shows "sb_read n r = (take n (br_bytes r), r\<lparr>br_tail := (br_tail r + n) mod br_ring_size r\<rparr>)"
proof -
  have n: "n \<le> br_capacity r" "n \<le> ring_used (br_ring_size r) (br_head r) (br_tail r)"
    using assms br_bytes_bounded [OF assms(1)] by (simp_all add: sb_available_eq length_br_bytes)
  have "(if br_tail r + n < br_ring_size r then br_tail r + n else br_tail r + n - br_ring_size r) =
      (br_tail r + n) mod br_ring_size r"
    using assms(1) n by (auto simp: br_inv_def mod_if)
  moreover have "take n (br_bytes r) = ring_copy_out (br_buf r) (br_tail r) n"
    using assms(1) n by (simp add: br_bytes_def br_inv_def ring_copy_out_eq take_ring_seq)
  moreover have "br_ring_size r = length (br_buf r)" using assms(1) by (simp add: br_inv_def)
  ultimately show ?thesis by (simp add: sb_read_def ring_copy_out_def Let_def)
qed

lemma sb_peek_eq: "br_inv r \<Longrightarrow> n \<le> sb_available r \<Longrightarrow> sb_peek n r = take n (br_bytes r)"
  using sb_read_eq [of r n] by (simp add: sb_read_def sb_peek_def Let_def)

lemma sb_skip_eq: "br_inv r \<Longrightarrow> n \<le> sb_available r \<Longrightarrow> sb_skip n r = snd (sb_read n r)"
  by (simp add: sb_read_def sb_skip_def Let_def)

interpretation sb: byte_stream br_inv br_capacity br_bytes sb_available sb_free sb_write sb_read
proof unfold_locales
  fix r r' :: "'z byte_ring_scheme" and xs ys n
  show "br_inv r \<Longrightarrow> sb_available r = length (br_bytes r)" by (rule sb_available_eq)
  show "br_inv r \<Longrightarrow> sb_available r + sb_free r = br_capacity r"
    using br_bytes_bounded [of r] by (simp add: sb_free_def sb_available_eq)
  show "br_inv r \<Longrightarrow> length xs \<le> sb_free r \<Longrightarrow>
      br_bytes (sb_write xs r) = br_bytes r @ xs \<and> br_inv (sb_write xs r) \<and> br_capacity (sb_write xs r) = br_capacity r"
    using br_bytes_append [of r xs] br_inv_head [of r xs "length xs"] br_bytes_bounded [of r]
    by (simp add: sb_free_def sb_available_eq sb_write_eq)
  show "br_inv r \<Longrightarrow> n \<le> sb_available r \<Longrightarrow> sb_read n r = (ys, r') \<Longrightarrow>
      ys = take n (br_bytes r) \<and> br_bytes r' = drop n (br_bytes r) \<and> br_inv r' \<and> br_capacity r' = br_capacity r"
    using br_bytes_drop [of r n] br_inv_tail [of r n] by (auto simp: sb_read_eq sb_available_eq)
qed

section \<open>Operations\<close>

definition sb_obj :: "stream_state \<Rightarrow> nat \<Rightarrow> emu_sb_obj" where
  "sb_obj s p = emu_sb_pool s ! p"

definition sb_put :: "nat \<Rightarrow> emu_sb_obj \<Rightarrow> stream_state \<Rightarrow> stream_state" where
  "sb_put p obj s = s\<lparr>emu_sb_pool := (emu_sb_pool s)[p := obj]\<rparr>"

text \<open>
  The buffer is given with its contents: \<open>capacity + 1\<close> bytes, as documented. When the second
  semaphore is created but the first was not, the second is not destroyed again.
\<close>

definition osal_stream_buffer_create ::
  "handle option \<Rightarrow> byte list option \<Rightarrow> nat \<Rightarrow> nat \<Rightarrow> stream_state \<Rightarrow> error_code \<times> handle option \<times> stream_state" where
  "osal_stream_buffer_create hnd buffer capacity trigger_level s =
     (if hnd = None \<or> buffer = None \<or> capacity = 0 then (Invalid_argument, hnd, s)
      else case emu_sb_acquire s of
        (None, s1) \<Rightarrow> (Out_of_resources, hnd, s1)
      | (Some p, s1) \<Rightarrow>
          let obj = (sb_obj s1 p)\<lparr>br_buf := the buffer, br_ring_size := capacity + 1, br_capacity := capacity,
                br_head := 0, br_tail := 0, sb_trigger := (if trigger_level = 0 then 1 else trigger_level)\<rparr>
          in case osal_semaphore_create (Some (sb_data_sem obj)) 0 1 (sb_put p obj s1) of (rd, ds, s2) \<Rightarrow>
             case osal_semaphore_create (Some (sb_space_sem obj)) 0 1 s2 of (rp, ps, s3) \<Rightarrow>
               let obj3 = obj\<lparr>sb_data_sem := the ds, sb_space_sem := the ps\<rparr> in
               if rd \<noteq> Ok \<or> rp \<noteq> Ok then
                 if rd = Ok then
                   case osal_semaphore_destroy (Some (sb_data_sem obj3)) s3 of (_, ds4, s4) \<Rightarrow>
                     (Out_of_resources, hnd, emu_sb_release p (sb_put p (obj3\<lparr>sb_data_sem := ds4\<rparr>) s4))
                 else (Out_of_resources, hnd, emu_sb_release p (sb_put p obj3 s3))
               else (Ok, Some (Some p), sb_put p obj3 s3))"

definition osal_stream_buffer_destroy :: "handle option \<Rightarrow> stream_state \<Rightarrow> error_code \<times> handle option \<times> stream_state" where
  "osal_stream_buffer_destroy hnd s =
     (case native_of hnd of
        None \<Rightarrow> (Not_initialized, hnd, s)
      | Some p \<Rightarrow>
          case osal_semaphore_destroy (Some (sb_data_sem (sb_obj s p))) s of (_, ds, s1) \<Rightarrow>
          case osal_semaphore_destroy (Some (sb_space_sem (sb_obj s1 p))) s1 of (_, ps, s2) \<Rightarrow>
            (Ok, Some None,
             emu_sb_release p (sb_put p ((sb_obj s2 p)\<lparr>sb_data_sem := ds, sb_space_sem := ps\<rparr>) s2)))"

partial_function (option) stream_send_loop ::
  "nat \<Rightarrow> byte list \<Rightarrow> tick_t \<Rightarrow> tick_t \<Rightarrow> stream_env \<Rightarrow> stream_state \<Rightarrow> (error_code \<times> stream_state \<times> stream_env) option" where
  "stream_send_loop p data timeout start env s =
     (if sb_free (sb_obj s p) \<ge> length data then do {
        (_, s2, env2) \<leftarrow> osal_semaphore_give (Some (sb_data_sem (sb_obj s p))) env (sb_put p (sb_write data (sb_obj s p)) s);
        Some (Ok, s2, env2) }
      else if timeout = NO_WAIT then Some (Timeout, s, env)
      else if timeout \<noteq> WAIT_FOREVER \<and> osal_clock_ticks s - start \<ge> timeout then Some (Timeout, s, env)
      else do {
        (_, s1, env1) \<leftarrow> osal_semaphore_take (Some (sb_space_sem (sb_obj s p)))
          (if timeout = WAIT_FOREVER then WAIT_FOREVER else timeout - (osal_clock_ticks s - start)) env s;
        stream_send_loop p data timeout start env1 s1 })"

definition osal_stream_buffer_send ::
  "handle option \<Rightarrow> byte list option \<Rightarrow> tick_t \<Rightarrow> stream_env \<Rightarrow> stream_state \<Rightarrow> (error_code \<times> stream_state \<times> stream_env) option" where
  "osal_stream_buffer_send hnd data timeout env s =
     (case native_of hnd of
        None \<Rightarrow> Some (Not_initialized, s, env)
      | Some p \<Rightarrow>
          (case data of
             None \<Rightarrow> Some (Invalid_argument, s, env)
           | Some d \<Rightarrow>
               if length d = 0 then Some (Invalid_argument, s, env)
               else if length d > br_capacity (sb_obj s p) then Some (Invalid_argument, s, env)
               else stream_send_loop p d timeout (osal_clock_ticks s) env s))"

definition osal_stream_buffer_send_isr ::
  "handle option \<Rightarrow> byte list option \<Rightarrow> stream_env \<Rightarrow> stream_state \<Rightarrow> (error_code \<times> stream_state \<times> stream_env) option" where
  "osal_stream_buffer_send_isr hnd data env s =
     (case native_of hnd of
        None \<Rightarrow> Some (Not_initialized, s, env)
      | Some p \<Rightarrow>
          (case data of
             None \<Rightarrow> Some (Invalid_argument, s, env)
           | Some d \<Rightarrow>
               if length d = 0 then Some (Invalid_argument, s, env)
               else if sb_free (sb_obj s p) < length d then Some (Timeout, s, env)
               else do {
                 (_, s2, env2) \<leftarrow> osal_semaphore_give_isr (Some (sb_data_sem (sb_obj s p))) env
                   (sb_put p (sb_write d (sb_obj s p)) s);
                 Some (Ok, s2, env2) }))"

text \<open>The bytes copied to the caller's buffer; their number is the value returned.\<close>

definition stream_take ::
  "(handle option \<Rightarrow> stream_env \<Rightarrow> stream_state \<Rightarrow> (error_code \<times> stream_state \<times> stream_env) option) \<Rightarrow> nat \<Rightarrow> nat \<Rightarrow> stream_env \<Rightarrow> stream_state \<Rightarrow> (byte list \<times> stream_state \<times> stream_env) option" where
  "stream_take give p max_len env s =
     (case sb_read (min (sb_available (sb_obj s p)) max_len) (sb_obj s p) of (ys, obj) \<Rightarrow> do {
        (_, s2, env2) \<leftarrow> give (Some (sb_space_sem obj)) env (sb_put p obj s);
        Some (ys, s2, env2) })"

partial_function (option) stream_receive_loop ::
  "nat \<Rightarrow> nat \<Rightarrow> tick_t \<Rightarrow> tick_t \<Rightarrow> stream_env \<Rightarrow> stream_state \<Rightarrow> (byte list \<times> stream_state \<times> stream_env) option" where
  "stream_receive_loop p max_len timeout start env s =
     (if sb_available (sb_obj s p) \<ge> sb_trigger (sb_obj s p) then stream_take osal_semaphore_give p max_len env s
      else if timeout = NO_WAIT then Some ([], s, env)
      else if timeout \<noteq> WAIT_FOREVER \<and> osal_clock_ticks s - start \<ge> timeout then Some ([], s, env)
      else do {
        (_, s1, env1) \<leftarrow> osal_semaphore_take (Some (sb_data_sem (sb_obj s p)))
          (if timeout = WAIT_FOREVER then WAIT_FOREVER else timeout - (osal_clock_ticks s - start)) env s;
        stream_receive_loop p max_len timeout start env1 s1 })"

definition osal_stream_buffer_receive ::
  "handle option \<Rightarrow> nat \<Rightarrow> tick_t \<Rightarrow> stream_env \<Rightarrow> stream_state \<Rightarrow> (byte list \<times> stream_state \<times> stream_env) option" where
  "osal_stream_buffer_receive hnd max_len timeout env s =
     (case native_of hnd of
        None \<Rightarrow> Some ([], s, env)
      | Some p \<Rightarrow>
          if max_len = 0 then Some ([], s, env)
          else stream_receive_loop p max_len timeout (osal_clock_ticks s) env s)"

definition osal_stream_buffer_receive_isr ::
  "handle option \<Rightarrow> nat \<Rightarrow> stream_env \<Rightarrow> stream_state \<Rightarrow> (byte list \<times> stream_state \<times> stream_env) option" where
  "osal_stream_buffer_receive_isr hnd max_len env s =
     (case native_of hnd of
        None \<Rightarrow> Some ([], s, env)
      | Some p \<Rightarrow>
          if max_len = 0 then Some ([], s, env)
          else if sb_available (sb_obj s p) < sb_trigger (sb_obj s p) then Some ([], s, env)
          else stream_take osal_semaphore_give_isr p max_len env s)"

definition osal_stream_buffer_available :: "handle option \<Rightarrow> stream_state \<Rightarrow> nat" where
  "osal_stream_buffer_available hnd s = (case native_of hnd of None \<Rightarrow> 0 | Some p \<Rightarrow> sb_available (sb_obj s p))"

definition osal_stream_buffer_free_space :: "handle option \<Rightarrow> stream_state \<Rightarrow> nat" where
  "osal_stream_buffer_free_space hnd s = (case native_of hnd of None \<Rightarrow> 0 | Some p \<Rightarrow> sb_free (sb_obj s p))"

definition osal_stream_buffer_reset :: "handle option \<Rightarrow> stream_state \<Rightarrow> error_code \<times> stream_state" where
  "osal_stream_buffer_reset hnd s =
     (case native_of hnd of
        None \<Rightarrow> (Not_initialized, s)
      | Some p \<Rightarrow> (Ok, sb_put p ((sb_obj s p)\<lparr>br_tail := br_head (sb_obj s p)\<rparr>) s))"

section \<open>Facts\<close>

definition stream_inv :: "nat \<Rightarrow> stream_state \<Rightarrow> bool" where
  "stream_inv p s \<longleftrightarrow> p < length (emu_sb_pool s) \<and> br_inv (sb_obj s p) \<and> 0 < sb_trigger (sb_obj s p) \<and>
     sb_data_sem (sb_obj s p) \<noteq> None \<and> sb_space_sem (sb_obj s p) \<noteq> None"

definition stream_bytes :: "nat \<Rightarrow> stream_state \<Rightarrow> byte list" where
  "stream_bytes p s = br_bytes (sb_obj s p)"

lemma sb_obj_simps [simp]:
  "p < length (emu_sb_pool s) \<Longrightarrow> sb_obj (sb_put p obj s) q = (if q = p then obj else sb_obj s q)"
  "sb_obj (sem_set i c s) q = sb_obj s q"
  "length (emu_sb_pool (sb_put p obj s)) = length (emu_sb_pool s)"
  "length (emu_sb_pool (sem_set i c s)) = length (emu_sb_pool s)"
  by (simp_all add: sb_obj_def sb_put_def sem_set_def nth_list_update)

lemma sb_write_frame [simp]:
  "sb_trigger (sb_write xs (obj :: emu_sb_obj)) = sb_trigger obj" "sb_data_sem (sb_write xs obj) = sb_data_sem obj"
  "sb_space_sem (sb_write xs obj) = sb_space_sem obj"
  by (simp_all add: sb_write_def Let_def)

lemma sb_read_frame:
  "sb_read n obj = (ys, obj') \<Longrightarrow> sb_trigger obj' = sb_trigger (obj :: emu_sb_obj) \<and>
     sb_data_sem obj' = sb_data_sem obj \<and> sb_space_sem obj' = sb_space_sem obj"
  by (auto simp: sb_read_def Let_def)

text \<open>A write that fits, and the wake-up of the consumer after it.\<close>

lemma stream_send_step:
  assumes "stream_inv p s" "length d \<le> sb_free (sb_obj s p)"
  obtains r s' env' where
    "osal_semaphore_give (Some (sb_data_sem (sb_obj s p))) ((id, False) # env) (sb_put p (sb_write d (sb_obj s p)) s) = Some (r, s', env')"
    "stream_inv p s'" "stream_bytes p s' = stream_bytes p s @ d" "\<forall>q. q \<noteq> p \<longrightarrow> sb_obj s' q = sb_obj s q"
proof -
  obtain i where i: "sb_data_sem (sb_obj s p) = Some i" using assms(1) by (auto simp: stream_inv_def)
  have inv: "br_inv (sb_obj s p)" "p < length (emu_sb_pool s)" using assms(1) by (simp_all add: stream_inv_def)
  note put = sb.put_law [OF inv(1) assms(2)]
  let ?s1 = "sb_put p (sb_write d (sb_obj s p)) s"
  obtain r c env' where "osal_semaphore_give (Some (Some i)) ((id, False) # env) ?s1 = Some (r, sem_set i c ?s1, env')"
    by (rule sem_give_calm)
  with that [of r "sem_set i c ?s1" env'] i put inv(2) assms(1) show ?thesis
    by (simp add: stream_inv_def stream_bytes_def)
qed

lemma stream_take_step:
  assumes "stream_inv p s" "give = osal_semaphore_give \<or> give = osal_semaphore_give_isr"
  obtains s' env' where
    "stream_take give p n ((id, False) # env) s = Some (take n (stream_bytes p s), s', env')"
    "stream_inv p s'" "stream_bytes p s' = drop n (stream_bytes p s)" "\<forall>q. q \<noteq> p \<longrightarrow> sb_obj s' q = sb_obj s q"
proof -
  have give: "give = osal_semaphore_give" using assms(2) by (auto simp: osal_semaphore_give_isr_def fun_eq_iff)
  obtain i where i: "sb_space_sem (sb_obj s p) = Some i" using assms(1) by (auto simp: stream_inv_def)
  have inv: "br_inv (sb_obj s p)" "p < length (emu_sb_pool s)" using assms(1) by (simp_all add: stream_inv_def)
  let ?m = "min (sb_available (sb_obj s p)) n"
  obtain ys obj where rd: "sb_read ?m (sb_obj s p) = (ys, obj)" by fastforce
  have get: "ys = take n (stream_bytes p s)" "br_bytes obj = drop n (stream_bytes p s)" "br_inv obj"
    using sb.get_law [OF inv(1) _ rd] by (simp_all add: stream_bytes_def sb_available_eq min_def)
  note frame = sb_read_frame [OF rd]
  let ?s1 = "sb_put p obj s"
  obtain r c env' where "osal_semaphore_give (Some (Some i)) ((id, False) # env) ?s1 = Some (r, sem_set i c ?s1, env')"
    by (rule sem_give_calm)
  with that [of "sem_set i c ?s1" env'] i get frame inv(2) assms(1) rd give show ?thesis
    by (simp add: stream_inv_def stream_bytes_def stream_take_def)
qed

section \<open>Properties\<close>

text \<open>
  Sending. On a well-formed stream a send of \<open>d\<close> bytes that fit into the free space, from a
  task with any timeout or from an interrupt handler, returns \<open>Ok\<close> without waiting and appends
  exactly \<open>d\<close>; a send that does not fit is all or nothing: the interrupt variant and the one with
  \<open>NO_WAIT\<close> answer \<open>Timeout\<close>, a send of more than the capacity \<open>Invalid_argument\<close>, and nothing
  changes.
\<close>

theorem stream_send_exact:
  assumes "stream_inv p s" "d \<noteq> []"
  shows "(length d \<le> sb_free (sb_obj s p) \<longrightarrow>
      (\<exists>s' env'. osal_stream_buffer_send (Some (Some p)) (Some d) timeout ((id, False) # env) s = Some (Ok, s', env') \<and>
         osal_stream_buffer_send_isr (Some (Some p)) (Some d) ((id, False) # env) s = Some (Ok, s', env') \<and>
         stream_inv p s' \<and> stream_bytes p s' = stream_bytes p s @ d \<and> (\<forall>q. q \<noteq> p \<longrightarrow> sb_obj s' q = sb_obj s q))) \<and>
    (sb_free (sb_obj s p) < length d \<longrightarrow>
      osal_stream_buffer_send_isr (Some (Some p)) (Some d) env s = Some (Timeout, s, env) \<and>
      osal_stream_buffer_send (Some (Some p)) (Some d) NO_WAIT env s =
        Some (if length d > br_capacity (sb_obj s p) then Invalid_argument else Timeout, s, env))"
proof (intro conjI impI)
  assume fits: "length d \<le> sb_free (sb_obj s p)"
  from stream_send_step [OF assms(1) fits, of env] obtain r s' env' where
    g: "osal_semaphore_give (Some (sb_data_sem (sb_obj s p))) ((id, False) # env) (sb_put p (sb_write d (sb_obj s p)) s) = Some (r, s', env')"
    "stream_inv p s'" "stream_bytes p s' = stream_bytes p s @ d" "\<forall>q. q \<noteq> p \<longrightarrow> sb_obj s' q = sb_obj s q" .
  have "stream_send_loop p d timeout st ((id, False) # env) s = Some (Ok, s', env')" for st
    using fits g(1) by (simp add: stream_send_loop.simps [of p d timeout])
  moreover have "length d \<le> br_capacity (sb_obj s p)" using fits by (simp add: sb_free_def)
  ultimately show "\<exists>s' env'. osal_stream_buffer_send (Some (Some p)) (Some d) timeout ((id, False) # env) s = Some (Ok, s', env') \<and>
         osal_stream_buffer_send_isr (Some (Some p)) (Some d) ((id, False) # env) s = Some (Ok, s', env') \<and>
         stream_inv p s' \<and> stream_bytes p s' = stream_bytes p s @ d \<and> (\<forall>q. q \<noteq> p \<longrightarrow> sb_obj s' q = sb_obj s q)"
    using g fits assms(2)
    by (intro exI [of _ s'] exI [of _ env']) (simp add: osal_stream_buffer_send_def osal_stream_buffer_send_isr_def osal_semaphore_give_isr_def)
qed (use assms(2) in \<open>simp_all add: osal_stream_buffer_send_def osal_stream_buffer_send_isr_def stream_send_loop.simps [of p d NO_WAIT]\<close>)

definition stream_demo :: stream_state where
  "stream_demo = \<lparr>g_ticks = 0, bm_tasks = [], bm_current = -1, bm_last_scheduled = -1,
     bm_mutex_pool = [], bm_mutex_used_bits = [],
     bm_sem_pool = [\<lparr>sem_count = 0, sem_max = 1\<rparr>, \<lparr>sem_count = 0, sem_max = 1\<rparr>], bm_sem_used_bits = [3],
     bm_queue_pool = [], bm_queue_used_bits = [], bm_timer_pool = [],
     emu_sb_pool = [\<lparr>br_buf = [1, 2, 3, 4, 5], br_ring_size = 5, br_capacity = 4, br_head = 1, br_tail = 4,
       sb_trigger = 1, sb_data_sem = Some 0, sb_space_sem = Some 1\<rparr>],
     emu_sb_used = [True]\<rparr>"

lemma stream_demo_ok:
  "stream_inv 0 stream_demo" "stream_bytes 0 stream_demo = [5, 1]" "sb_free (sb_obj stream_demo 0) = 2"
  "sb_trigger (sb_obj stream_demo 0) = 1"
  by (simp_all add: stream_demo_def stream_inv_def sb_obj_def br_inv_def stream_bytes_def br_bytes_def ring_seq_def
      ring_used_def sb_free_def sb_available_def upt_rec)

theorem stream_send_exact_witness:
  "\<exists>s' env'. osal_stream_buffer_send_isr (Some (Some 0)) (Some [8, 9]) [(id, False)] stream_demo = Some (Ok, s', env') \<and>
     stream_bytes 0 s' = [5, 1, 8, 9]"
proof -
  have "length [8, 9 :: byte] \<le> sb_free (sb_obj stream_demo 0)" by (simp add: stream_demo_ok)
  with stream_send_exact [OF stream_demo_ok(1), of "[8, 9]" NO_WAIT "[]"] stream_demo_ok(2) show ?thesis by auto
qed

text \<open>
  C15: receiving. With at least the trigger level of bytes available, a receive of up to \<open>n\<close> bytes,
  from a task or from an interrupt handler, returns the oldest \<open>n\<close> bytes (or all there are) at once and
  removes exactly those; below the trigger level the non-blocking calls return nothing and change
  nothing. \<open>available\<close> and \<open>free_space\<close> count the bytes held and the rest, and \<open>reset\<close> empties the
  stream.
\<close>

theorem stream_receive_exact:
  assumes "stream_inv p s" "0 < n"
  shows "(sb_trigger (sb_obj s p) \<le> length (stream_bytes p s) \<longrightarrow>
      (\<exists>s' env'. osal_stream_buffer_receive (Some (Some p)) n timeout ((id, False) # env) s = Some (take n (stream_bytes p s), s', env') \<and>
         osal_stream_buffer_receive_isr (Some (Some p)) n ((id, False) # env) s = Some (take n (stream_bytes p s), s', env') \<and>
         stream_inv p s' \<and> stream_bytes p s' = drop n (stream_bytes p s) \<and> (\<forall>q. q \<noteq> p \<longrightarrow> sb_obj s' q = sb_obj s q))) \<and>
    (length (stream_bytes p s) < sb_trigger (sb_obj s p) \<longrightarrow>
      osal_stream_buffer_receive_isr (Some (Some p)) n env s = Some ([], s, env) \<and>
      osal_stream_buffer_receive (Some (Some p)) n NO_WAIT env s = Some ([], s, env)) \<and>
    osal_stream_buffer_available (Some (Some p)) s = length (stream_bytes p s) \<and>
    osal_stream_buffer_available (Some (Some p)) s + osal_stream_buffer_free_space (Some (Some p)) s = br_capacity (sb_obj s p) \<and>
    stream_bytes p (snd (osal_stream_buffer_reset (Some (Some p)) s)) = [] \<and>
    stream_inv p (snd (osal_stream_buffer_reset (Some (Some p)) s))"
proof (intro conjI impI)
  have av: "sb_available (sb_obj s p) = length (stream_bytes p s)" by (simp add: stream_bytes_def sb_available_eq)
  assume tr: "sb_trigger (sb_obj s p) \<le> length (stream_bytes p s)"
  from stream_take_step [OF assms(1), of osal_semaphore_give n env] obtain s' env' where
    t: "stream_take osal_semaphore_give p n ((id, False) # env) s = Some (take n (stream_bytes p s), s', env')"
    "stream_inv p s'" "stream_bytes p s' = drop n (stream_bytes p s)" "\<forall>q. q \<noteq> p \<longrightarrow> sb_obj s' q = sb_obj s q" by blast
  have isr: "osal_semaphore_give_isr = osal_semaphore_give" by (simp add: osal_semaphore_give_isr_def fun_eq_iff)
  show "\<exists>s' env'. osal_stream_buffer_receive (Some (Some p)) n timeout ((id, False) # env) s = Some (take n (stream_bytes p s), s', env') \<and>
         osal_stream_buffer_receive_isr (Some (Some p)) n ((id, False) # env) s = Some (take n (stream_bytes p s), s', env') \<and>
         stream_inv p s' \<and> stream_bytes p s' = drop n (stream_bytes p s) \<and> (\<forall>q. q \<noteq> p \<longrightarrow> sb_obj s' q = sb_obj s q)"
    using t tr av assms(2)
    by (intro exI [of _ s'] exI [of _ env'])
      (simp add: osal_stream_buffer_receive_def osal_stream_buffer_receive_isr_def stream_receive_loop.simps [of p n timeout] isr)
qed (use assms sb.free_law [of "sb_obj s p"] in
  \<open>auto simp: osal_stream_buffer_receive_def osal_stream_buffer_receive_isr_def stream_receive_loop.simps [of p n NO_WAIT]
    stream_bytes_def sb_available_eq osal_stream_buffer_available_def osal_stream_buffer_free_space_def osal_stream_buffer_reset_def
    stream_inv_def br_inv_def br_bytes_def ring_used_def\<close>)

theorem stream_receive_exact_witness:
  "\<exists>s' env'. osal_stream_buffer_receive (Some (Some 0)) 1 NO_WAIT [(id, False)] stream_demo = Some ([5], s', env') \<and>
     stream_bytes 0 s' = [1]"
  using stream_receive_exact [OF stream_demo_ok(1), of 1 NO_WAIT "[]"] stream_demo_ok by auto

text \<open>
  The ring of the stream buffer neither loses, duplicates nor reorders bytes: for any sequence
  of writes that fit and reads of up to a number of bytes, what it held and what was written is
  what was read and what it holds, in order, and it never holds more than its capacity.
\<close>

theorem stream_conserves:
  assumes "br_inv r" "fold (stream_step sb_available sb_free sb_write sb_read) cs ([], [], r) = (ins, outs, r')"
  shows "br_bytes r @ ins = outs @ br_bytes r' \<and> br_inv r' \<and> length (br_bytes r') \<le> br_capacity r"
  by (rule sb.run_conserves [OF assms])

theorem stream_conserves_witness:
  "let r = \<lparr>br_buf = [1, 2, 3, 4, 5], br_ring_size = 5, br_capacity = 4, br_head = 1, br_tail = 4\<rparr>;
       res = fold (stream_step sb_available sb_free sb_write sb_read) [Write [8, 9], Read 3, Write [7]] ([], [], r)
   in br_bytes r @ fst res = fst (snd res) @ br_bytes (snd (snd res)) \<and> fst (snd res) = [5, 1, 8]"
proof -
  let ?r = "\<lparr>br_buf = [1, 2, 3, 4, 5], br_ring_size = 5, br_capacity = 4, br_head = 1, br_tail = 4\<rparr>"
  obtain ins outs r' where run:
    "fold (stream_step sb_available sb_free sb_write sb_read) [Write [8, 9], Read 3, Write [7]] ([], [], ?r) = (ins, outs, r')"
    by (metis prod_cases3)
  have "br_inv ?r" by (simp add: br_inv_def)
  note c = stream_conserves [OF this run]
  have "outs = [5, 1, 8]"
    using run by (simp add: sb_available_def sb_free_def sb_write_def sb_read_def memcpy_at_def mem_read_def Let_def)
  with c run show ?thesis by (simp add: Let_def)
qed

end
