(* ===== verification/Osal_Message.thy ===== *)
theory Osal_Message
  imports Bm_Sync Byte_Ring "HOL-Library.Monad_Syntax"
begin

text \<open>
  The emulated message buffer, \<^verbatim>\<open>src/common/emulated_message_buffer.inl\<close>: a byte ring in which
  every message is a 16-bit length followed by its payload. The length is stored in the byte order
  of the host, little-endian here. A null pointer to receive into is a maximal length of zero: both get
  the same answer.
\<close>

record emu_mb_obj = byte_ring +
  mb_data_sem :: handle
  mb_space_sem :: handle

record message_state = bm_state +
  emu_mb_pool :: "emu_mb_obj list"
  emu_mb_used :: "bool list"

type_synonym message_env = "message_state env"

definition kMsgHeaderBytes :: nat where
  "kMsgHeaderBytes = 2"

text \<open>
  \<^verbatim>\<open>static_cast<std::size_t>(~osal_mb_length_t(0))\<close>: the operand of \<^verbatim>\<open>~\<close> is promoted to a 32-bit
  \<^verbatim>\<open>int\<close> first, so the complement is taken at that width and then sign-extended to
  \<^verbatim>\<open>std::size_t\<close>.
\<close>

definition mb_length_limit :: nat where
  "mb_length_limit = unat (scast (NOT (ucast (0 :: u16) :: 32 word)) :: u64)"

definition hdr_bytes :: "u16 \<Rightarrow> byte list" where
  "hdr_bytes h = [ucast h, ucast (drop_bit 8 h)]"

fun hdr_value :: "byte list \<Rightarrow> u16" where
  "hdr_value [a, b] = ucast a OR push_bit 8 (ucast b)"
| "hdr_value _ = 0"

definition emu_mb_acquire :: "message_state \<Rightarrow> nat option \<times> message_state" where
  "emu_mb_acquire s =
     (case first_unused (emu_mb_used s) 0 of
        Some i \<Rightarrow> (Some i, s\<lparr>emu_mb_used := (emu_mb_used s)[i := True]\<rparr>)
      | None \<Rightarrow> (None, s))"

definition emu_mb_release_slot :: "nat \<Rightarrow> message_state \<Rightarrow> message_state" where
  "emu_mb_release_slot p s =
     (if p < length (emu_mb_pool s) then s\<lparr>emu_mb_used := (emu_mb_used s)[p := False]\<rparr> else s)"

section \<open>Ring helpers\<close>

definition emu_mb_available :: "'z byte_ring_scheme \<Rightarrow> nat" where
  "emu_mb_available r =
     (let h = br_head r; t = br_tail r
      in if h \<ge> t then h - t else br_ring_size r - t + h)"

definition emu_mb_free :: "'z byte_ring_scheme \<Rightarrow> nat" where
  "emu_mb_free r = br_capacity r - emu_mb_available r"

definition emu_mb_advance_index :: "nat \<Rightarrow> nat \<Rightarrow> nat \<Rightarrow> nat" where
  "emu_mb_advance_index index len ring_size =
     (let advanced = index + len in if advanced < ring_size then advanced else advanced - ring_size)"

definition emu_mb_copy_in :: "nat \<Rightarrow> byte list \<Rightarrow> 'z byte_ring_scheme \<Rightarrow> 'z byte_ring_scheme" where
  "emu_mb_copy_in index data r =
     (let len = length data;
          first = min len (br_ring_size r - index);
          b1 = memcpy_at (br_buf r) index (take first data)
      in r\<lparr>br_buf := (if first < len then memcpy_at b1 0 (drop first data) else b1)\<rparr>)"

definition emu_mb_copy_out :: "nat \<Rightarrow> nat \<Rightarrow> 'z byte_ring_scheme \<Rightarrow> byte list" where
  "emu_mb_copy_out index len r =
     (let first = min len (br_ring_size r - index);
          o1 = mem_read (br_buf r) index first
      in if first < len then o1 @ mem_read (br_buf r) 0 (len - first) else o1)"

definition emu_mb_write_frame :: "byte list \<Rightarrow> byte list \<Rightarrow> 'z byte_ring_scheme \<Rightarrow> 'z byte_ring_scheme" where
  "emu_mb_write_frame header payload r =
     (let hd_ix = br_head r;
          r1 = emu_mb_copy_in hd_ix header r;
          r2 = emu_mb_copy_in (emu_mb_advance_index hd_ix (length header) (br_ring_size r)) payload r1
      in r2\<lparr>br_head := emu_mb_advance_index hd_ix (length header + length payload) (br_ring_size r)\<rparr>)"

definition emu_mb_read :: "nat \<Rightarrow> 'z byte_ring_scheme \<Rightarrow> byte list \<times> 'z byte_ring_scheme" where
  "emu_mb_read len r =
     (emu_mb_copy_out (br_tail r) len r, r\<lparr>br_tail := emu_mb_advance_index (br_tail r) len (br_ring_size r)\<rparr>)"

definition emu_mb_skip :: "nat \<Rightarrow> 'z byte_ring_scheme \<Rightarrow> 'z byte_ring_scheme" where
  "emu_mb_skip len r = r\<lparr>br_tail := emu_mb_advance_index (br_tail r) len (br_ring_size r)\<rparr>"

definition emu_mb_peek :: "nat \<Rightarrow> 'z byte_ring_scheme \<Rightarrow> byte list" where
  "emu_mb_peek len r = emu_mb_copy_out (br_tail r) len r"

lemma emu_mb_available_eq: "emu_mb_available r = length (br_bytes r)"
  by (simp add: emu_mb_available_def length_br_bytes ring_used_def Let_def)

lemma advance_index_mod: "i < sz \<Longrightarrow> n \<le> sz \<Longrightarrow> emu_mb_advance_index i n sz = (i + n) mod sz"
  by (auto simp: emu_mb_advance_index_def Let_def mod_if)

lemma copy_in_eq: "length (br_buf r) = br_ring_size r \<Longrightarrow> emu_mb_copy_in i data r = r\<lparr>br_buf := ring_copy_in (br_buf r) i data\<rparr>"
  by (simp add: emu_mb_copy_in_def ring_copy_in_def Let_def)

lemma write_frame_eq:
  assumes "br_inv r" "length h + length d \<le> br_capacity r"
  shows "emu_mb_write_frame h d r = r\<lparr>br_buf := ring_copy_in (br_buf r) (br_head r) (h @ d),
      br_head := (br_head r + length (h @ d)) mod br_ring_size r\<rparr>"
proof -
  have r: "length (br_buf r) = br_ring_size r" "br_head r < br_ring_size r" "length h + length d \<le> br_ring_size r"
    using assms by (simp_all add: br_inv_def)
  then have "ring_copy_in (ring_copy_in (br_buf r) (br_head r) h) ((br_head r + length h) mod br_ring_size r) d =
      ring_copy_in (br_buf r) (br_head r) (h @ d)"
    using ring_copy_in_append [of "br_head r" "br_buf r" h d] by simp
  with r show ?thesis by (simp add: emu_mb_write_frame_def Let_def copy_in_eq advance_index_mod)
qed

lemma mb_read_eq:
  assumes "br_inv r" "n \<le> emu_mb_available r"
  shows "emu_mb_read n r = (take n (br_bytes r), r\<lparr>br_tail := (br_tail r + n) mod br_ring_size r\<rparr>)"
proof -
  have n: "n \<le> br_capacity r" "n \<le> ring_used (br_ring_size r) (br_head r) (br_tail r)"
    using assms br_bytes_bounded [OF assms(1)] by (simp_all add: emu_mb_available_eq length_br_bytes)
  have "take n (br_bytes r) = ring_copy_out (br_buf r) (br_tail r) n"
    using assms(1) n by (simp add: br_bytes_def br_inv_def ring_copy_out_eq take_ring_seq)
  moreover have "br_ring_size r = length (br_buf r)" "br_tail r < br_ring_size r" "n \<le> br_ring_size r"
    using assms(1) n by (simp_all add: br_inv_def)
  ultimately show ?thesis by (simp add: emu_mb_read_def emu_mb_copy_out_def ring_copy_out_def Let_def advance_index_mod)
qed

text \<open>The contract of a byte stream, with the two-part write as its write.\<close>

interpretation mb: byte_stream br_inv br_capacity br_bytes emu_mb_available emu_mb_free
  "\<lambda>xs. emu_mb_write_frame (take kMsgHeaderBytes xs) (drop kMsgHeaderBytes xs)" emu_mb_read
proof unfold_locales
  fix r r' :: "'z byte_ring_scheme" and xs ys n
  show "br_inv r \<Longrightarrow> emu_mb_available r = length (br_bytes r)" by (rule emu_mb_available_eq)
  show "br_inv r \<Longrightarrow> emu_mb_available r + emu_mb_free r = br_capacity r"
    using br_bytes_bounded [of r] by (simp add: emu_mb_free_def emu_mb_available_eq)
  let ?w = "emu_mb_write_frame (take kMsgHeaderBytes xs) (drop kMsgHeaderBytes xs) r"
  show "br_inv r \<Longrightarrow> length xs \<le> emu_mb_free r \<Longrightarrow>
      br_bytes ?w = br_bytes r @ xs \<and> br_inv ?w \<and> br_capacity ?w = br_capacity r"
    using br_bytes_append [of r xs] br_inv_head [of r xs "length xs"] br_bytes_bounded [of r]
      write_frame_eq [of r "take kMsgHeaderBytes xs" "drop kMsgHeaderBytes xs"]
    by (simp add: emu_mb_free_def emu_mb_available_eq)
  show "br_inv r \<Longrightarrow> n \<le> emu_mb_available r \<Longrightarrow> emu_mb_read n r = (ys, r') \<Longrightarrow>
      ys = take n (br_bytes r) \<and> br_bytes r' = drop n (br_bytes r) \<and> br_inv r' \<and> br_capacity r' = br_capacity r"
    using br_bytes_drop [of r n] br_inv_tail [of r n] by (auto simp: mb_read_eq emu_mb_available_eq)
qed

lemma mb_skip_eq: "emu_mb_skip n r = snd (emu_mb_read n r)"
  by (simp add: emu_mb_skip_def emu_mb_read_def)

lemma mb_peek_eq: "br_inv r \<Longrightarrow> n \<le> emu_mb_available r \<Longrightarrow> emu_mb_peek n r = take n (br_bytes r)"
  using mb_read_eq [of r n] by (simp add: emu_mb_read_def emu_mb_peek_def)

section \<open>The length header\<close>

lemma hdr_roundtrip: "hdr_value (hdr_bytes h) = h"
proof (rule bit_eqI)
  fix n assume "possible_bit TYPE(u16) n"
  then have n: "n < 16" by simp
  show "bit (hdr_value (hdr_bytes h)) n \<longleftrightarrow> bit h n"
    using n by (cases "n < 8") (auto simp: hdr_bytes_def bit_or_iff bit_push_bit_iff bit_ucast_iff bit_drop_bit_eq)
qed

lemma length_hdr_bytes [simp]: "length (hdr_bytes h) = kMsgHeaderBytes"
  by (simp add: hdr_bytes_def kMsgHeaderBytes_def)

lemma mb_length_limit_eq: "mb_length_limit = 2 ^ 64 - 1"
  by (simp add: mb_length_limit_def unat_minus_1)

section \<open>Operations\<close>

definition mb_obj :: "message_state \<Rightarrow> nat \<Rightarrow> emu_mb_obj" where
  "mb_obj s p = emu_mb_pool s ! p"

definition mb_put :: "nat \<Rightarrow> emu_mb_obj \<Rightarrow> message_state \<Rightarrow> message_state" where
  "mb_put p obj s = s\<lparr>emu_mb_pool := (emu_mb_pool s)[p := obj]\<rparr>"

definition osal_message_buffer_create ::
  "handle option \<Rightarrow> byte list option \<Rightarrow> nat \<Rightarrow> message_state \<Rightarrow> error_code \<times> handle option \<times> message_state" where
  "osal_message_buffer_create hnd buffer capacity s =
     (if hnd = None \<or> buffer = None \<or> capacity \<le> kMsgHeaderBytes then (Invalid_argument, hnd, s)
      else case emu_mb_acquire s of
        (None, s1) \<Rightarrow> (Out_of_resources, hnd, s1)
      | (Some p, s1) \<Rightarrow>
          let obj = (mb_obj s1 p)\<lparr>br_buf := the buffer, br_ring_size := capacity + 1, br_capacity := capacity,
                br_head := 0, br_tail := 0\<rparr>
          in case osal_semaphore_create (Some (mb_data_sem obj)) 0 1 (mb_put p obj s1) of (rd, ds, s2) \<Rightarrow>
             case osal_semaphore_create (Some (mb_space_sem obj)) 0 1 s2 of (rp, ps, s3) \<Rightarrow>
               let obj3 = obj\<lparr>mb_data_sem := the ds, mb_space_sem := the ps\<rparr> in
               if rd \<noteq> Ok \<or> rp \<noteq> Ok then
                 if rd = Ok then
                   case osal_semaphore_destroy (Some (mb_data_sem obj3)) s3 of (_, ds4, s4) \<Rightarrow>
                     (Out_of_resources, hnd, emu_mb_release_slot p (mb_put p (obj3\<lparr>mb_data_sem := ds4\<rparr>) s4))
                 else (Out_of_resources, hnd, emu_mb_release_slot p (mb_put p obj3 s3))
               else (Ok, Some (Some p), mb_put p obj3 s3))"

definition osal_message_buffer_destroy :: "handle option \<Rightarrow> message_state \<Rightarrow> error_code \<times> handle option \<times> message_state" where
  "osal_message_buffer_destroy hnd s =
     (case native_of hnd of
        None \<Rightarrow> (Not_initialized, hnd, s)
      | Some p \<Rightarrow>
          case osal_semaphore_destroy (Some (mb_data_sem (mb_obj s p))) s of (_, ds, s1) \<Rightarrow>
          case osal_semaphore_destroy (Some (mb_space_sem (mb_obj s1 p))) s1 of (_, ps, s2) \<Rightarrow>
            (Ok, Some None,
             emu_mb_release_slot p (mb_put p ((mb_obj s2 p)\<lparr>mb_data_sem := ds, mb_space_sem := ps\<rparr>) s2)))"

text \<open>Writing the frame and waking the consumer; \<^verbatim>\<open>static_cast<osal_mb_length_t>(len)\<close> keeps 16 bits.\<close>

definition mb_emit ::
  "(handle option \<Rightarrow> message_env \<Rightarrow> message_state \<Rightarrow> (error_code \<times> message_state \<times> message_env) option)
   \<Rightarrow> nat \<Rightarrow> byte list \<Rightarrow> message_env \<Rightarrow> message_state \<Rightarrow> (error_code \<times> message_state \<times> message_env) option" where
  "mb_emit give p msg env s = do {
     (_, s2, env2) \<leftarrow> give (Some (mb_data_sem (mb_obj s p))) env
       (mb_put p (emu_mb_write_frame (hdr_bytes (of_nat (length msg))) msg (mb_obj s p)) s);
     Some (Ok, s2, env2) }"

partial_function (option) message_send_loop ::
  "nat \<Rightarrow> byte list \<Rightarrow> tick_t \<Rightarrow> tick_t \<Rightarrow> message_env \<Rightarrow> message_state \<Rightarrow> (error_code \<times> message_state \<times> message_env) option" where
  "message_send_loop p msg timeout start env s =
     (if emu_mb_free (mb_obj s p) \<ge> kMsgHeaderBytes + length msg then mb_emit osal_semaphore_give p msg env s
      else if timeout = NO_WAIT then Some (Timeout, s, env)
      else if timeout \<noteq> WAIT_FOREVER \<and> osal_clock_ticks s - start \<ge> timeout then Some (Timeout, s, env)
      else do {
        (_, s1, env1) \<leftarrow> osal_semaphore_take (Some (mb_space_sem (mb_obj s p)))
          (if timeout = WAIT_FOREVER then WAIT_FOREVER else timeout - (osal_clock_ticks s - start)) env s;
        message_send_loop p msg timeout start env1 s1 })"

definition osal_message_buffer_send ::
  "handle option \<Rightarrow> byte list option \<Rightarrow> tick_t \<Rightarrow> message_env \<Rightarrow> message_state \<Rightarrow> (error_code \<times> message_state \<times> message_env) option" where
  "osal_message_buffer_send hnd msg timeout env s =
     (case native_of hnd of
        None \<Rightarrow> Some (Not_initialized, s, env)
      | Some p \<Rightarrow>
          (case msg of
             None \<Rightarrow> Some (Invalid_argument, s, env)
           | Some m \<Rightarrow>
               if length m = 0 then Some (Invalid_argument, s, env)
               else if length m > mb_length_limit then Some (Invalid_argument, s, env)
               else if kMsgHeaderBytes + length m > br_capacity (mb_obj s p) then Some (Invalid_argument, s, env)
               else message_send_loop p m timeout (osal_clock_ticks s) env s))"

definition osal_message_buffer_send_isr ::
  "handle option \<Rightarrow> byte list option \<Rightarrow> message_env \<Rightarrow> message_state \<Rightarrow> (error_code \<times> message_state \<times> message_env) option" where
  "osal_message_buffer_send_isr hnd msg env s =
     (case native_of hnd of
        None \<Rightarrow> Some (Not_initialized, s, env)
      | Some p \<Rightarrow>
          (case msg of
             None \<Rightarrow> Some (Invalid_argument, s, env)
           | Some m \<Rightarrow>
               if length m = 0 then Some (Invalid_argument, s, env)
               else if emu_mb_free (mb_obj s p) < kMsgHeaderBytes + length m then Some (Timeout, s, env)
               else mb_emit osal_semaphore_give_isr p m env s))"

text \<open>The length of the complete message at the front of the ring, if there is one.\<close>

definition mb_front :: "emu_mb_obj \<Rightarrow> nat option" where
  "mb_front obj =
     (let avail = emu_mb_available obj in
      if avail < kMsgHeaderBytes then None
      else let msg_len = unat (hdr_value (emu_mb_peek kMsgHeaderBytes obj))
           in if avail \<ge> kMsgHeaderBytes + msg_len then Some msg_len else None)"

text \<open>Consuming that message: the header is skipped, at most \<open>max_len\<close> bytes are copied, the rest is discarded.\<close>

definition mb_consume :: "nat \<Rightarrow> nat \<Rightarrow> emu_mb_obj \<Rightarrow> byte list \<times> emu_mb_obj" where
  "mb_consume msg_len max_len obj =
     (let o1 = emu_mb_skip kMsgHeaderBytes obj
      in if msg_len \<le> max_len then emu_mb_read msg_len o1
         else case emu_mb_read max_len o1 of (ys, o2) \<Rightarrow> (ys, emu_mb_skip (msg_len - max_len) o2))"

partial_function (option) message_receive_loop ::
  "nat \<Rightarrow> nat \<Rightarrow> tick_t \<Rightarrow> tick_t \<Rightarrow> message_env \<Rightarrow> message_state \<Rightarrow> (byte list \<times> message_state \<times> message_env) option" where
  "message_receive_loop p max_len timeout start env s =
     (case mb_front (mb_obj s p) of
        Some msg_len \<Rightarrow>
          (case mb_consume msg_len max_len (mb_obj s p) of (ys, obj) \<Rightarrow> do {
             (_, s2, env2) \<leftarrow> osal_semaphore_give (Some (mb_space_sem obj)) env (mb_put p obj s);
             if emu_mb_available (mb_obj s2 p) \<ge> kMsgHeaderBytes then do {
               (_, s3, env3) \<leftarrow> osal_semaphore_give (Some (mb_data_sem (mb_obj s2 p))) env2 s2;
               Some (ys, s3, env3) }
             else Some (ys, s2, env2) })
      | None \<Rightarrow>
          if timeout = NO_WAIT then Some ([], s, env)
          else if timeout \<noteq> WAIT_FOREVER \<and> osal_clock_ticks s - start \<ge> timeout then Some ([], s, env)
          else do {
            (_, s1, env1) \<leftarrow> osal_semaphore_take (Some (mb_data_sem (mb_obj s p)))
              (if timeout = WAIT_FOREVER then WAIT_FOREVER else timeout - (osal_clock_ticks s - start)) env s;
            message_receive_loop p max_len timeout start env1 s1 })"

definition osal_message_buffer_receive ::
  "handle option \<Rightarrow> nat \<Rightarrow> tick_t \<Rightarrow> message_env \<Rightarrow> message_state \<Rightarrow> (byte list \<times> message_state \<times> message_env) option" where
  "osal_message_buffer_receive hnd max_len timeout env s =
     (case native_of hnd of
        None \<Rightarrow> Some ([], s, env)
      | Some p \<Rightarrow>
          if max_len = 0 then Some ([], s, env)
          else message_receive_loop p max_len timeout (osal_clock_ticks s) env s)"

definition osal_message_buffer_receive_isr ::
  "handle option \<Rightarrow> nat \<Rightarrow> message_env \<Rightarrow> message_state \<Rightarrow> (byte list \<times> message_state \<times> message_env) option" where
  "osal_message_buffer_receive_isr hnd max_len env s =
     (case native_of hnd of
        None \<Rightarrow> Some ([], s, env)
      | Some p \<Rightarrow>
          if max_len = 0 then Some ([], s, env)
          else case mb_front (mb_obj s p) of
            None \<Rightarrow> Some ([], s, env)
          | Some msg_len \<Rightarrow>
              (case mb_consume msg_len max_len (mb_obj s p) of (ys, obj) \<Rightarrow> do {
                 (_, s2, env2) \<leftarrow> osal_semaphore_give_isr (Some (mb_space_sem obj)) env (mb_put p obj s);
                 Some (ys, s2, env2) }))"

definition osal_message_buffer_available :: "handle option \<Rightarrow> message_state \<Rightarrow> nat" where
  "osal_message_buffer_available hnd s =
     (case native_of hnd of
        None \<Rightarrow> 0
      | Some p \<Rightarrow> (case mb_front (mb_obj s p) of None \<Rightarrow> 0 | Some msg_len \<Rightarrow> msg_len))"

definition osal_message_buffer_free_space :: "handle option \<Rightarrow> message_state \<Rightarrow> nat" where
  "osal_message_buffer_free_space hnd s =
     (case native_of hnd of
        None \<Rightarrow> 0
      | Some p \<Rightarrow>
          (let f = emu_mb_free (mb_obj s p) in if f > kMsgHeaderBytes then f - kMsgHeaderBytes else 0))"

definition osal_message_buffer_reset :: "handle option \<Rightarrow> message_state \<Rightarrow> error_code \<times> message_state" where
  "osal_message_buffer_reset hnd s =
     (case native_of hnd of
        None \<Rightarrow> (Not_initialized, s)
      | Some p \<Rightarrow> (Ok, mb_put p ((mb_obj s p)\<lparr>br_tail := br_head (mb_obj s p)\<rparr>) s))"

section \<open>Frames\<close>

definition mb_frame :: "byte list \<Rightarrow> byte list" where
  "mb_frame m = hdr_bytes (of_nat (length m)) @ m"

definition mb_holds :: "emu_mb_obj \<Rightarrow> byte list list \<Rightarrow> bool" where
  "mb_holds obj ms \<longleftrightarrow> br_inv obj \<and> br_bytes obj = concat (map mb_frame ms) \<and> (\<forall>m \<in> set ms. length m < 2 ^ 16)"

definition message_inv :: "nat \<Rightarrow> message_state \<Rightarrow> bool" where
  "message_inv p s \<longleftrightarrow> p < length (emu_mb_pool s) \<and> mb_data_sem (mb_obj s p) \<noteq> None \<and> mb_space_sem (mb_obj s p) \<noteq> None"

lemma unat_of_nat16: "n < 2 ^ 16 \<Longrightarrow> unat (of_nat n :: u16) = n"
  by (simp add: unat_of_nat take_bit_nat_eq_self)

lemma length_mb_frame [simp]: "length (mb_frame m) = kMsgHeaderBytes + length m"
  by (simp add: mb_frame_def)

lemma hdr_peek:
  assumes "br_inv obj" "br_bytes obj = mb_frame m @ rest"
  shows "hdr_value (emu_mb_peek kMsgHeaderBytes obj) = of_nat (length m)"
proof -
  have "kMsgHeaderBytes \<le> emu_mb_available obj" using assms(2) by (simp add: emu_mb_available_eq)
  then have "emu_mb_peek kMsgHeaderBytes obj = hdr_bytes (of_nat (length m))"
    using mb_peek_eq [OF assms(1)] assms(2) by (simp add: mb_frame_def)
  then show ?thesis by (simp add: hdr_roundtrip)
qed

lemma mb_front_holds:
  assumes "mb_holds obj ms"
  shows "mb_front obj = (case ms of [] \<Rightarrow> None | m # _ \<Rightarrow> Some (length m))"
proof (cases ms)
  case Nil
  then show ?thesis using assms by (simp add: mb_front_def mb_holds_def emu_mb_available_eq kMsgHeaderBytes_def)
next
  case (Cons m ms')
  with assms hdr_peek [of obj m "concat (map mb_frame ms')"] show ?thesis
    by (simp add: mb_front_def mb_holds_def emu_mb_available_eq unat_of_nat16 Let_def)
qed

text \<open>Consuming removes exactly the frame at the front, also when the caller's buffer is too small.\<close>

lemma mb_consume_eq:
  assumes "br_inv obj" "kMsgHeaderBytes + n \<le> length (br_bytes obj)"
  obtains obj' where "mb_consume n k obj = (take (min n k) (drop kMsgHeaderBytes (br_bytes obj)), obj')" "br_inv obj'"
    "br_bytes obj' = drop (kMsgHeaderBytes + n) (br_bytes obj)" "br_capacity obj' = br_capacity obj"
    "mb_data_sem obj' = mb_data_sem obj" "mb_space_sem obj' = mb_space_sem obj"
proof -
  let ?o1 = "emu_mb_skip kMsgHeaderBytes obj"
  obtain y1 where r1: "emu_mb_read kMsgHeaderBytes obj = (y1, ?o1)" by (metis mb_skip_eq prod.collapse)
  have o1: "br_inv ?o1" "br_bytes ?o1 = drop kMsgHeaderBytes (br_bytes obj)" "br_capacity ?o1 = br_capacity obj"
    using mb.get_law [OF assms(1) _ r1] assms(2) by (simp_all add: emu_mb_available_eq)
  let ?m = "min n k"
  obtain ys o2 where r2: "emu_mb_read ?m ?o1 = (ys, o2)" by fastforce
  have o2: "ys = take ?m (br_bytes ?o1)" "br_bytes o2 = drop ?m (br_bytes ?o1)" "br_inv o2" "br_capacity o2 = br_capacity ?o1"
    using mb.get_law [OF o1(1) _ r2] assms(2) o1(2) by (simp_all add: emu_mb_available_eq)
  let ?o3 = "if n \<le> k then o2 else emu_mb_skip (n - k) o2"
  have con: "mb_consume n k obj = (ys, ?o3)" using r2 by (simp add: mb_consume_def Let_def min_def split: if_splits)
  obtain y3 where r3: "emu_mb_read (n - k) o2 = (y3, emu_mb_skip (n - k) o2)" by (metis mb_skip_eq prod.collapse)
  have o3: "br_inv ?o3 \<and> br_bytes ?o3 = drop (kMsgHeaderBytes + n) (br_bytes obj) \<and> br_capacity ?o3 = br_capacity obj"
  proof (cases "n \<le> k")
    case True
    then show ?thesis using o1 o2 by (simp add: add.commute)
  next
    case False
    moreover have "n - k \<le> emu_mb_available o2" using False assms(2) o1(2) o2(2) by (simp add: emu_mb_available_eq)
    ultimately show ?thesis using mb.get_law [OF o2(3) _ r3] o1 o2 by (simp add: add.commute)
  qed
  have "mb_data_sem o2 = mb_data_sem obj" "mb_space_sem o2 = mb_space_sem obj"
    using r2 by (auto simp: emu_mb_read_def emu_mb_skip_def)
  then have "mb_data_sem ?o3 = mb_data_sem obj" "mb_space_sem ?o3 = mb_space_sem obj" by (simp_all add: emu_mb_skip_def)
  moreover have "ys = take ?m (drop kMsgHeaderBytes (br_bytes obj))" using o2(1) o1(2) by simp
  ultimately show ?thesis using that [of ?o3] con o3 by simp
qed


lemma mb_obj_simps [simp]:
  "p < length (emu_mb_pool s) \<Longrightarrow> mb_obj (mb_put p obj s) q = (if q = p then obj else mb_obj s q)"
  "mb_obj (sem_set i c s) q = mb_obj s q"
  "length (emu_mb_pool (mb_put p obj s)) = length (emu_mb_pool s)"
  "length (emu_mb_pool (sem_set i c s)) = length (emu_mb_pool s)"
  by (simp_all add: mb_obj_def mb_put_def sem_set_def nth_list_update)

lemma write_frame_sems [simp]:
  "mb_data_sem (emu_mb_write_frame h d (obj :: emu_mb_obj)) = mb_data_sem obj"
  "mb_space_sem (emu_mb_write_frame h d obj) = mb_space_sem obj"
  by (simp_all add: emu_mb_write_frame_def emu_mb_copy_in_def Let_def)

lemma mb_write_frame_bytes:
  assumes "br_inv obj" "kMsgHeaderBytes + length m \<le> emu_mb_free obj"
  shows "br_inv (emu_mb_write_frame (hdr_bytes (of_nat (length m))) m obj)"
    and "br_bytes (emu_mb_write_frame (hdr_bytes (of_nat (length m))) m obj) = br_bytes obj @ mb_frame m"
  using mb.put_law [OF assms(1), of "mb_frame m"] assms(2) by (simp_all add: mb_frame_def)

lemma mb_holds_snoc:
  assumes "mb_holds obj ms" "length m < 2 ^ 16" "kMsgHeaderBytes + length m \<le> emu_mb_free obj"
  shows "mb_holds (emu_mb_write_frame (hdr_bytes (of_nat (length m))) m obj) (ms @ [m])"
  using assms mb_write_frame_bytes [OF _ assms(3)] by (auto simp: mb_holds_def)

text \<open>Emitting a frame when nothing interferes with the wake-up.\<close>

lemma mb_emit_calm:
  assumes "message_inv p s" "give = osal_semaphore_give \<or> give = osal_semaphore_give_isr"
  obtains s' env' where "mb_emit give p m ((id, False) # env) s = Some (Ok, s', env')"
    "message_inv p s'" "mb_obj s' p = emu_mb_write_frame (hdr_bytes (of_nat (length m))) m (mb_obj s p)"
    "\<forall>q. q \<noteq> p \<longrightarrow> mb_obj s' q = mb_obj s q"
proof -
  have give: "give = osal_semaphore_give" using assms(2) by (auto simp: osal_semaphore_give_isr_def fun_eq_iff)
  obtain i where i: "mb_data_sem (mb_obj s p) = Some i" using assms(1) by (auto simp: message_inv_def)
  let ?s1 = "mb_put p (emu_mb_write_frame (hdr_bytes (of_nat (length m))) m (mb_obj s p)) s"
  obtain r c env' where "osal_semaphore_give (Some (Some i)) ((id, False) # env) ?s1 = Some (r, sem_set i c ?s1, env')"
    by (rule sem_give_calm)
  with that [of "sem_set i c ?s1" env'] i give assms(1) show ?thesis
    by (simp add: mb_emit_def message_inv_def)
qed

text \<open>The two wake-ups of a receiver.\<close>

lemma mb_wake_calm:
  assumes "message_inv p s"
  obtains r c env' where
    "osal_semaphore_give (Some (mb_space_sem (mb_obj s p))) ((id, False) # (id, False) # env) s = Some (r, c, env')"
    "message_inv p c" "\<forall>q. mb_obj c q = mb_obj s q"
    "\<exists>r2 s2 env2. osal_semaphore_give (Some (mb_data_sem (mb_obj c p))) env' c = Some (r2, s2, env2) \<and>
       message_inv p s2 \<and> (\<forall>q. mb_obj s2 q = mb_obj s q)"
proof -
  obtain i j where ij: "mb_space_sem (mb_obj s p) = Some i" "mb_data_sem (mb_obj s p) = Some j"
    using assms by (auto simp: message_inv_def)
  obtain r c env' where g: "osal_semaphore_give (Some (Some i)) ((id, False) # (id, False) # env) s = Some (r, sem_set i c s, env')"
    "env' = (id, False) # env \<or> env' = (id, False) # (id, False) # env"
    by (rule sem_give_calm_env)
  then obtain rest where e: "env' = (id, False) # rest" by blast
  obtain r2 c2 env2 where "osal_semaphore_give (Some (Some j)) ((id, False) # rest) (sem_set i c s) =
      Some (r2, sem_set j c2 (sem_set i c s), env2)"
    by (rule sem_give_calm)
  with that [of r "sem_set i c s" env'] g(1) e ij assms show ?thesis by (simp add: message_inv_def)
qed

lemma message_send_calm:
  assumes "message_inv p s" "m \<noteq> []" "length m \<le> mb_length_limit" "kMsgHeaderBytes + length m \<le> emu_mb_free (mb_obj s p)"
  obtains s' env' where
    "osal_message_buffer_send (Some (Some p)) (Some m) timeout ((id, False) # env) s = Some (Ok, s', env')"
    "osal_message_buffer_send_isr (Some (Some p)) (Some m) ((id, False) # env) s = Some (Ok, s', env')"
    "message_inv p s'" "mb_obj s' p = emu_mb_write_frame (hdr_bytes (of_nat (length m))) m (mb_obj s p)"
    "\<forall>q. q \<noteq> p \<longrightarrow> mb_obj s' q = mb_obj s q"
proof -
  obtain s' env' where e: "mb_emit osal_semaphore_give p m ((id, False) # env) s = Some (Ok, s', env')"
    and s': "message_inv p s'" "mb_obj s' p = emu_mb_write_frame (hdr_bytes (of_nat (length m))) m (mb_obj s p)"
    "\<forall>q. q \<noteq> p \<longrightarrow> mb_obj s' q = mb_obj s q"
    by (rule mb_emit_calm [OF assms(1), of osal_semaphore_give]) simp_all
  have isr: "osal_semaphore_give_isr = osal_semaphore_give" by (simp add: osal_semaphore_give_isr_def fun_eq_iff)
  have "message_send_loop p m timeout st ((id, False) # env) s = Some (Ok, s', env')" for st
    using assms(4) e by (simp add: message_send_loop.simps [of p m timeout])
  moreover have "kMsgHeaderBytes + length m \<le> br_capacity (mb_obj s p)" using assms(4) by (simp add: emu_mb_free_def)
  ultimately show ?thesis using that [OF _ _ s'] e assms
    by (simp add: osal_message_buffer_send_def osal_message_buffer_send_isr_def isr)
qed

lemma message_receive_calm:
  assumes "message_inv p s" "0 < n" "mb_front (mb_obj s p) = Some k" "mb_consume k n (mb_obj s p) = (ys, obj)"
    and "mb_data_sem obj = mb_data_sem (mb_obj s p)" "mb_space_sem obj = mb_space_sem (mb_obj s p)"
  obtains s1 env1 s2 env2 where
    "osal_message_buffer_receive (Some (Some p)) n timeout ((id, False) # (id, False) # env) s = Some (ys, s1, env1)"
    "osal_message_buffer_receive_isr (Some (Some p)) n ((id, False) # (id, False) # env) s = Some (ys, s2, env2)"
    "message_inv p s1" "message_inv p s2" "mb_obj s1 p = obj" "mb_obj s2 p = obj"
    "\<forall>q. q \<noteq> p \<longrightarrow> mb_obj s1 q = mb_obj s q \<and> mb_obj s2 q = mb_obj s q"
proof -
  have inv1: "message_inv p (mb_put p obj s)" and p: "p < length (emu_mb_pool s)"
    using assms(1,5,6) by (simp_all add: message_inv_def)
  have mp: "mb_obj (mb_put p obj s) p = obj" using p by simp
  have isr: "osal_semaphore_give_isr = osal_semaphore_give" by (simp add: osal_semaphore_give_isr_def fun_eq_iff)
  obtain r c env' where g: "osal_semaphore_give (Some (mb_space_sem obj)) ((id, False) # (id, False) # env) (mb_put p obj s) = Some (r, c, env')"
    and c: "message_inv p c" "\<forall>q. mb_obj c q = mb_obj (mb_put p obj s) q"
    and ex: "\<exists>r2 s2 env2. osal_semaphore_give (Some (mb_data_sem (mb_obj c p))) env' c = Some (r2, s2, env2) \<and>
       message_inv p s2 \<and> (\<forall>q. mb_obj s2 q = mb_obj (mb_put p obj s) q)"
    by (rule mb_wake_calm [OF inv1, of env, unfolded mp])
  then obtain r2 s2 env2 where g2: "osal_semaphore_give (Some (mb_data_sem (mb_obj c p))) env' c = Some (r2, s2, env2)"
    and s2: "message_inv p s2" "\<forall>q. mb_obj s2 q = mb_obj (mb_put p obj s) q" by blast
  let ?a = "emu_mb_available obj \<ge> kMsgHeaderBytes"
  have obj: "mb_obj c p = obj" "mb_obj s2 p = obj" using c(2) s2(2) p by simp_all
  have "message_receive_loop p n timeout st ((id, False) # (id, False) # env) s =
      Some (ys, if ?a then s2 else c, if ?a then env2 else env')" for st
    using assms(3,4) g g2 obj by (simp add: message_receive_loop.simps [of p n timeout])
  then show ?thesis
    using that [of "if ?a then s2 else c" "if ?a then env2 else env'" c env'] assms(2-4) g c s2 p
    by (simp add: osal_message_buffer_receive_def osal_message_buffer_receive_isr_def isr)
qed

lemma mb_consume_holds:
  assumes "mb_holds obj (m # ms)"
  obtains obj' where "mb_consume (length m) n obj = (take n m, obj')" "mb_holds obj' ms"
    "mb_data_sem obj' = mb_data_sem obj" "mb_space_sem obj' = mb_space_sem obj"
proof -
  have b: "br_inv obj" "br_bytes obj = mb_frame m @ concat (map mb_frame ms)" using assms by (simp_all add: mb_holds_def)
  then have len: "kMsgHeaderBytes + length m \<le> length (br_bytes obj)" by simp
  have d: "drop kMsgHeaderBytes (mb_frame m) = m" "drop (kMsgHeaderBytes + length m) (mb_frame m) = []"
    by (simp_all add: mb_frame_def)
  obtain obj' where o': "mb_consume (length m) n obj = (take (min (length m) n) (drop kMsgHeaderBytes (br_bytes obj)), obj')"
    "br_inv obj'" "br_bytes obj' = drop (kMsgHeaderBytes + length m) (br_bytes obj)"
    "mb_data_sem obj' = mb_data_sem obj" "mb_space_sem obj' = mb_space_sem obj"
    by (rule mb_consume_eq [OF b(1) len, of n])
  have "mb_holds obj' ms" using o' b assms d by (simp add: mb_holds_def)
  with that [of obj'] o' b(2) d show ?thesis by (simp add: min_def)
qed

section \<open>Properties\<close>

text \<open>
  Sending a message. On a well-formed buffer holding the messages \<open>ms\<close>, a send of a message of
  1 to 65535 bytes whose frame fits returns \<open>Ok\<close> without waiting, from a task with any timeout or
  from an interrupt handler, and the buffer then holds \<open>ms\<close> followed by exactly that message; a
  frame that does not fit is refused and nothing changes.
\<close>

theorem message_send_exact:
  assumes "message_inv p s" "mb_holds (mb_obj s p) ms" "m \<noteq> []" "length m < 2 ^ 16"
  shows "(kMsgHeaderBytes + length m \<le> emu_mb_free (mb_obj s p) \<longrightarrow>
      (\<exists>s' env'. osal_message_buffer_send (Some (Some p)) (Some m) timeout ((id, False) # env) s = Some (Ok, s', env') \<and>
         osal_message_buffer_send_isr (Some (Some p)) (Some m) ((id, False) # env) s = Some (Ok, s', env') \<and>
         message_inv p s' \<and> mb_holds (mb_obj s' p) (ms @ [m]) \<and> (\<forall>q. q \<noteq> p \<longrightarrow> mb_obj s' q = mb_obj s q))) \<and>
    (emu_mb_free (mb_obj s p) < kMsgHeaderBytes + length m \<longrightarrow>
      osal_message_buffer_send_isr (Some (Some p)) (Some m) env s = Some (Timeout, s, env) \<and>
      osal_message_buffer_send (Some (Some p)) (Some m) NO_WAIT env s =
        Some (if kMsgHeaderBytes + length m > br_capacity (mb_obj s p) then Invalid_argument else Timeout, s, env))"
proof (intro conjI impI)
  have lim: "length m \<le> mb_length_limit" using assms(4) by (simp add: mb_length_limit_eq)
  { assume fits: "kMsgHeaderBytes + length m \<le> emu_mb_free (mb_obj s p)"
    obtain s' env' where "osal_message_buffer_send (Some (Some p)) (Some m) timeout ((id, False) # env) s = Some (Ok, s', env')"
      "osal_message_buffer_send_isr (Some (Some p)) (Some m) ((id, False) # env) s = Some (Ok, s', env')"
      "message_inv p s'" "mb_obj s' p = emu_mb_write_frame (hdr_bytes (of_nat (length m))) m (mb_obj s p)"
      "\<forall>q. q \<noteq> p \<longrightarrow> mb_obj s' q = mb_obj s q"
      by (rule message_send_calm [OF assms(1,3) lim fits])
    then show "\<exists>s' env'. osal_message_buffer_send (Some (Some p)) (Some m) timeout ((id, False) # env) s = Some (Ok, s', env') \<and>
         osal_message_buffer_send_isr (Some (Some p)) (Some m) ((id, False) # env) s = Some (Ok, s', env') \<and>
         message_inv p s' \<and> mb_holds (mb_obj s' p) (ms @ [m]) \<and> (\<forall>q. q \<noteq> p \<longrightarrow> mb_obj s' q = mb_obj s q)"
      using mb_holds_snoc [OF assms(2,4) fits] by (intro exI [of _ s'] exI [of _ env']) simp }
  { assume full: "emu_mb_free (mb_obj s p) < kMsgHeaderBytes + length m"
    then show "osal_message_buffer_send_isr (Some (Some p)) (Some m) env s = Some (Timeout, s, env)"
      using assms(3) by (simp add: osal_message_buffer_send_isr_def)
    show "osal_message_buffer_send (Some (Some p)) (Some m) NO_WAIT env s =
        Some (if kMsgHeaderBytes + length m > br_capacity (mb_obj s p) then Invalid_argument else Timeout, s, env)"
      using full assms(3) lim by (simp add: osal_message_buffer_send_def message_send_loop.simps [of p m NO_WAIT]) }
qed

definition message_demo :: "byte list \<Rightarrow> nat \<Rightarrow> nat \<Rightarrow> nat \<Rightarrow> nat \<Rightarrow> message_state" where
  "message_demo buf cap h t slot = \<lparr>g_ticks = 0, bm_tasks = [], bm_current = -1, bm_last_scheduled = -1,
     bm_mutex_pool = [], bm_mutex_used_bits = [],
     bm_sem_pool = [\<lparr>sem_count = 0, sem_max = 1\<rparr>, \<lparr>sem_count = 0, sem_max = 1\<rparr>], bm_sem_used_bits = [3],
     bm_queue_pool = [], bm_queue_used_bits = [], bm_timer_pool = [],
     emu_mb_pool = [\<lparr>br_buf = buf, br_ring_size = cap + 1, br_capacity = cap, br_head = h, br_tail = t,
       mb_data_sem = Some 0, mb_space_sem = Some slot\<rparr>],
     emu_mb_used = [True]\<rparr>"

lemma message_demo_inv: "message_inv 0 (message_demo buf cap h t j)"
  by (simp add: message_demo_def message_inv_def mb_obj_def)

lemma message_demo_ok:
  "mb_holds (mb_obj (message_demo [7, 0, 1, 0, 0, 3, 0, 8] 7 2 5 1) 0) [[8, 7, 0]]"
  "mb_holds (mb_obj (message_demo [9, 0, 0, 0, 0, 0, 1, 0] 7 1 6 1) 0) [[9]]"
  "emu_mb_free (mb_obj (message_demo [9, 0, 0, 0, 0, 0, 1, 0] 7 1 6 1) 0) = 4"
  by (simp_all add: message_demo_def mb_holds_def mb_obj_def br_inv_def br_bytes_def ring_seq_def ring_used_def
      mb_frame_def hdr_bytes_def emu_mb_free_def emu_mb_available_def upt_rec)

theorem message_send_exact_witness:
  "\<exists>s' env'. osal_message_buffer_send_isr (Some (Some 0)) (Some [4, 5]) [(id, False)]
      (message_demo [9, 0, 0, 0, 0, 0, 1, 0] 7 1 6 1) = Some (Ok, s', env') \<and> mb_holds (mb_obj s' 0) [[9], [4, 5]]"
  using message_send_exact [OF message_demo_inv message_demo_ok(2), of "[4, 5]" NO_WAIT "[]"] message_demo_ok(3)
  by (auto simp: kMsgHeaderBytes_def)

text \<open>
  C14: receiving a message. A receive returns the oldest message, cut to the caller's buffer, and
  removes the whole message, never a part of the next one; on an empty buffer the non-blocking calls
  return nothing and change nothing. \<open>available\<close> is the length of the oldest message, and \<open>reset\<close>
  leaves no message.
\<close>

theorem message_receive_exact:
  assumes "message_inv p s" "mb_holds (mb_obj s p) ms" "0 < n"
  shows "(ms \<noteq> [] \<longrightarrow>
      (\<exists>s1 env1 s2 env2.
         osal_message_buffer_receive (Some (Some p)) n timeout ((id, False) # (id, False) # env) s = Some (take n (hd ms), s1, env1) \<and>
         osal_message_buffer_receive_isr (Some (Some p)) n ((id, False) # (id, False) # env) s = Some (take n (hd ms), s2, env2) \<and>
         message_inv p s1 \<and> message_inv p s2 \<and> mb_holds (mb_obj s1 p) (tl ms) \<and> mb_holds (mb_obj s2 p) (tl ms) \<and>
         (\<forall>q. q \<noteq> p \<longrightarrow> mb_obj s1 q = mb_obj s q \<and> mb_obj s2 q = mb_obj s q))) \<and>
    (ms = [] \<longrightarrow>
      osal_message_buffer_receive_isr (Some (Some p)) n env s = Some ([], s, env) \<and>
      osal_message_buffer_receive (Some (Some p)) n NO_WAIT env s = Some ([], s, env)) \<and>
    osal_message_buffer_available (Some (Some p)) s = (if ms = [] then 0 else length (hd ms)) \<and>
    mb_holds (mb_obj (snd (osal_message_buffer_reset (Some (Some p)) s)) p) []"
proof (intro conjI impI)
  note front = mb_front_holds [OF assms(2)]
  { assume "ms \<noteq> []"
    then obtain m ms' where ms: "ms = m # ms'" by (cases ms) auto
    have f: "mb_front (mb_obj s p) = Some (length m)" using front ms by simp
    obtain obj' where c: "mb_consume (length m) n (mb_obj s p) = (take n m, obj')" "mb_holds obj' ms'"
      "mb_data_sem obj' = mb_data_sem (mb_obj s p)" "mb_space_sem obj' = mb_space_sem (mb_obj s p)"
      by (rule mb_consume_holds [OF assms(2) [unfolded ms], of n])
    obtain s1 env1 s2 env2 where
      "osal_message_buffer_receive (Some (Some p)) n timeout ((id, False) # (id, False) # env) s = Some (take n m, s1, env1)"
      "osal_message_buffer_receive_isr (Some (Some p)) n ((id, False) # (id, False) # env) s = Some (take n m, s2, env2)"
      "message_inv p s1" "message_inv p s2" "mb_obj s1 p = obj'" "mb_obj s2 p = obj'"
      "\<forall>q. q \<noteq> p \<longrightarrow> mb_obj s1 q = mb_obj s q \<and> mb_obj s2 q = mb_obj s q"
      by (rule message_receive_calm [OF assms(1,3) f c(1,3,4)])
    then show "\<exists>s1 env1 s2 env2.
         osal_message_buffer_receive (Some (Some p)) n timeout ((id, False) # (id, False) # env) s = Some (take n (hd ms), s1, env1) \<and>
         osal_message_buffer_receive_isr (Some (Some p)) n ((id, False) # (id, False) # env) s = Some (take n (hd ms), s2, env2) \<and>
         message_inv p s1 \<and> message_inv p s2 \<and> mb_holds (mb_obj s1 p) (tl ms) \<and> mb_holds (mb_obj s2 p) (tl ms) \<and>
         (\<forall>q. q \<noteq> p \<longrightarrow> mb_obj s1 q = mb_obj s q \<and> mb_obj s2 q = mb_obj s q)"
      using c(2) ms by (intro exI [of _ s1] exI [of _ env1] exI [of _ s2] exI [of _ env2]) simp }
  { assume "ms = []"
    with front have f: "mb_front (mb_obj s p) = None" by simp
    with assms(3) show "osal_message_buffer_receive_isr (Some (Some p)) n env s = Some ([], s, env)"
      by (simp add: osal_message_buffer_receive_isr_def)
    from f assms(3) show "osal_message_buffer_receive (Some (Some p)) n NO_WAIT env s = Some ([], s, env)"
      by (simp add: osal_message_buffer_receive_def message_receive_loop.simps [of p n NO_WAIT]) }
  show "osal_message_buffer_available (Some (Some p)) s = (if ms = [] then 0 else length (hd ms))"
    using front by (cases ms) (simp_all add: osal_message_buffer_available_def)
  show "mb_holds (mb_obj (snd (osal_message_buffer_reset (Some (Some p)) s)) p) []"
    using assms(1,2) by (simp add: osal_message_buffer_reset_def message_inv_def mb_holds_def br_inv_def br_bytes_def ring_used_def ring_seq_def)
qed

theorem message_receive_exact_witness:
  "\<exists>s1 env1. osal_message_buffer_receive (Some (Some 0)) 2 NO_WAIT [(id, False), (id, False)]
      (message_demo [7, 0, 1, 0, 0, 3, 0, 8] 7 2 5 1) = Some ([8, 7], s1, env1) \<and> mb_holds (mb_obj s1 0) []"
  using message_receive_exact [OF message_demo_inv message_demo_ok(1), of 2 NO_WAIT "[]"] by auto

text \<open>
  C16: a message of 65536 bytes or more is accepted when the buffer is large enough for its frame:
  the length guard of \<open>osal_message_buffer_send\<close> never refuses it, and the 16-bit header keeps the
  length modulo 65536 only. The message the consumer is then offered is the corresponding prefix, so
  the framing is lost, although the call is documented to refuse such a message.
\<close>

theorem message_oversize_accepted:
  assumes "message_inv p s" "mb_holds (mb_obj s p) []" "2 ^ 16 \<le> length m" "length m \<le> mb_length_limit"
    and "kMsgHeaderBytes + length m \<le> emu_mb_free (mb_obj s p)"
  shows "\<exists>s' env'. osal_message_buffer_send (Some (Some p)) (Some m) timeout ((id, False) # env) s = Some (Ok, s', env') \<and>
    osal_message_buffer_available (Some (Some p)) s' = length m mod 2 ^ 16 \<and>
    length (br_bytes (mb_obj s' p)) = kMsgHeaderBytes + length m"
proof -
  have "m \<noteq> []" using assms(3) by auto
  then obtain s' env' where s: "osal_message_buffer_send (Some (Some p)) (Some m) timeout ((id, False) # env) s = Some (Ok, s', env')"
    and o': "mb_obj s' p = emu_mb_write_frame (hdr_bytes (of_nat (length m))) m (mb_obj s p)"
    using message_send_calm [OF assms(1) _ assms(4,5), of timeout env] by blast
  have inv: "br_inv (mb_obj s p)" "br_bytes (mb_obj s p) = []" using assms(2) by (simp_all add: mb_holds_def)
  have b: "br_inv (mb_obj s' p)" "br_bytes (mb_obj s' p) = mb_frame m @ []"
    using mb_write_frame_bytes [OF inv(1) assms(5)] inv(2) by (simp_all add: o')
  have "unat (of_nat (length m) :: u16) = length m mod 2 ^ 16" by (simp add: unat_of_nat take_bit_nat_def)
  moreover have "length m mod 2 ^ 16 \<le> length m" by simp
  ultimately have "mb_front (mb_obj s' p) = Some (length m mod 2 ^ 16)"
    using hdr_peek [OF b] b(2) unfolding mb_front_def by (simp add: emu_mb_available_eq Let_def)
  with s b(2) show ?thesis
    by (intro exI [of _ s'] exI [of _ env']) (simp add: osal_message_buffer_available_def)
qed

theorem message_oversize_accepted_witness:
  "\<exists>s' env'. osal_message_buffer_send (Some (Some 0)) (Some (replicate 65537 1)) NO_WAIT [(id, False)]
      (message_demo (replicate 70001 0) 70000 0 0 1) = Some (Ok, s', env') \<and>
    osal_message_buffer_available (Some (Some 0)) s' = 1"
proof -
  let ?s = "message_demo (replicate 70001 0) 70000 0 0 1"
  have "mb_holds (mb_obj ?s 0) []"
    by (simp add: message_demo_def mb_obj_def mb_holds_def br_inv_def br_bytes_def ring_used_def ring_seq_def)
  moreover have "kMsgHeaderBytes + length (replicate 65537 (1 :: byte)) \<le> emu_mb_free (mb_obj ?s 0)"
    by (simp add: message_demo_def mb_obj_def emu_mb_free_def emu_mb_available_def kMsgHeaderBytes_def)
  ultimately have "\<exists>s' env'. osal_message_buffer_send (Some (Some 0)) (Some (replicate 65537 1)) NO_WAIT [(id, False)] ?s = Some (Ok, s', env') \<and>
      osal_message_buffer_available (Some (Some 0)) s' = length (replicate 65537 (1 :: byte)) mod 2 ^ 16 \<and>
      length (br_bytes (mb_obj s' 0)) = kMsgHeaderBytes + length (replicate 65537 (1 :: byte))"
    by (intro message_oversize_accepted message_demo_inv) (simp_all add: mb_length_limit_eq)
  then show ?thesis by (simp only: length_replicate) auto
qed

end
