(* ===== verification/Osal_Event_Flags.thy ===== *)
theory Osal_Event_Flags
  imports Bm_Sync Bit_Scan "HOL-Library.Monad_Syntax"
begin

text \<open>
  The emulated event flags, \<^verbatim>\<open>src/common/emulated_event_flags.inl\<close>: a guard mutex, the flag bits
  and one slot with a binary semaphore per waiting task, on the bare-metal mutexes and semaphores.
  The number of slots, \<^verbatim>\<open>OSAL_EVENT_FLAGS_MAX_WAITERS\<close>, is the length of the slot list;
  \<^verbatim>\<open>std::size_t\<close> has 64 bits. A wait returns the bits it stores in \<^verbatim>\<open>*actual\<close>, or \<open>None\<close>
  when it stores none; with a null pointer the caller does not see them.
\<close>

type_synonym event_bits = u32

record emu_ef_waiter =
  wt_sem :: handle
  wt_in_use :: bool
  wt_wake_pending :: bool
  wt_wait_bits :: event_bits
  wt_wait_all :: bool

record emu_ef_obj =
  ef_guard :: handle
  ef_waiters :: "emu_ef_waiter list"
  ef_active_words :: "u64 list"
  ef_bits :: event_bits
  ef_waiter_count :: u64

record ef_state = bm_state +
  emu_ef_pool :: "emu_ef_obj list"
  emu_ef_used :: "bool list"

type_synonym ef_env = "ef_state env"

definition ef_obj :: "ef_state \<Rightarrow> nat \<Rightarrow> emu_ef_obj" where
  "ef_obj s p = emu_ef_pool s ! p"

definition ef_put :: "nat \<Rightarrow> emu_ef_obj \<Rightarrow> ef_state \<Rightarrow> ef_state" where
  "ef_put p obj s = s\<lparr>emu_ef_pool := (emu_ef_pool s)[p := obj]\<rparr>"

section \<open>Slots\<close>

definition emu_ef_active_word_count :: "nat \<Rightarrow> nat" where
  "emu_ef_active_word_count n = (n + 64 - 1) div 64"

definition emu_ef_active_word_mask :: "nat \<Rightarrow> nat \<Rightarrow> u64" where
  "emu_ef_active_word_mask n word_index =
     (let first_slot = word_index * 64 in
      if first_slot + 64 \<le> n then NOT 0
      else let remaining = n - first_slot in push_bit remaining 1 - 1)"

definition emu_ef_first_set_bit :: "u64 \<Rightarrow> nat" where
  "emu_ef_first_set_bit w = first_set_bit w"

definition emu_ef_slot_word_index :: "nat \<Rightarrow> nat" where
  "emu_ef_slot_word_index slot_index = slot_index div 64"

definition emu_ef_slot_word_mask :: "nat \<Rightarrow> u64" where
  "emu_ef_slot_word_mask slot_index = push_bit (slot_index mod 64) 1"

definition emu_ef_acquire :: "ef_state \<Rightarrow> nat option \<times> ef_state" where
  "emu_ef_acquire s =
     (case first_unused (emu_ef_used s) 0 of
        Some i \<Rightarrow> (Some i, s\<lparr>emu_ef_used := (emu_ef_used s)[i := True]\<rparr>)
      | None \<Rightarrow> (None, s))"

definition emu_ef_release :: "nat \<Rightarrow> ef_state \<Rightarrow> ef_state" where
  "emu_ef_release p s =
     (if p < length (emu_ef_pool s) then s\<lparr>emu_ef_used := (emu_ef_used s)[p := False]\<rparr> else s)"

definition emu_ef_waiter_matches :: "emu_ef_waiter \<Rightarrow> event_bits \<Rightarrow> bool" where
  "emu_ef_waiter_matches waiter bits =
     (let relevant = bits AND wt_wait_bits waiter
      in if wt_wait_all waiter then relevant = wt_wait_bits waiter else relevant \<noteq> 0)"

definition emu_ef_mark_waiter_active :: "nat \<Rightarrow> emu_ef_obj \<Rightarrow> emu_ef_obj" where
  "emu_ef_mark_waiter_active slot_index ef =
     (let w = emu_ef_slot_word_index slot_index
      in ef\<lparr>ef_active_words := (ef_active_words ef)[w := ef_active_words ef ! w OR emu_ef_slot_word_mask slot_index]\<rparr>)"

definition emu_ef_mark_waiter_inactive :: "nat \<Rightarrow> emu_ef_obj \<Rightarrow> emu_ef_obj" where
  "emu_ef_mark_waiter_inactive slot_index ef =
     (let w = emu_ef_slot_word_index slot_index
      in ef\<lparr>ef_active_words := (ef_active_words ef)[w := ef_active_words ef ! w AND NOT (emu_ef_slot_word_mask slot_index)]\<rparr>)"

section \<open>Waking\<close>

text \<open>One slot of \<open>emu_ef_wake_matching_common\<close>.\<close>

definition ef_wake_slot :: "nat \<Rightarrow> event_bits \<Rightarrow> bool \<Rightarrow> nat \<Rightarrow> ef_env \<Rightarrow> ef_state \<Rightarrow> (ef_state \<times> ef_env) option" where
  "ef_wake_slot p bits isr slot_index env s =
     (let ef = ef_obj s p; waiter = ef_waiters ef ! slot_index in
      if wt_in_use waiter \<and> emu_ef_waiter_matches waiter bits \<and> \<not> wt_wake_pending waiter then do {
        let s1 = ef_put p (ef\<lparr>ef_waiters := (ef_waiters ef)[slot_index := waiter\<lparr>wt_wake_pending := True\<rparr>]\<rparr>) s;
        (_, s2, env2) \<leftarrow> (if isr then osal_semaphore_give_isr (Some (wt_sem waiter)) env s1
                            else osal_semaphore_give (Some (wt_sem waiter)) env s1);
        Some (s2, env2) }
      else Some (s, env))"

text \<open>The inner loop, over the set bits of one word.\<close>

function ef_wake_word ::
  "nat \<Rightarrow> event_bits \<Rightarrow> bool \<Rightarrow> nat \<Rightarrow> u64 \<Rightarrow> ef_env \<Rightarrow> ef_state \<Rightarrow> (ef_state \<times> ef_env) option" where
  "ef_wake_word p bits isr word_index active_slots env s =
     (if active_slots = 0 then Some (s, env)
      else case ef_wake_slot p bits isr (word_index * 64 + emu_ef_first_set_bit active_slots) env s of
             None \<Rightarrow> None
           | Some (s1, env1) \<Rightarrow>
               ef_wake_word p bits isr word_index (active_slots AND (active_slots - 1)) env1 s1)"
  by pat_completeness auto

termination
  by (relation "measure (\<lambda>(p, bits, isr, word_index, active_slots, env, s). unat active_slots)")
    (simp_all add: clear_lowest_less)

declare ef_wake_word.simps [simp del]

text \<open>The outer loop, from word \<open>w\<close>, with \<open>k\<close> words to go.\<close>

fun ef_wake_words ::
  "nat \<Rightarrow> event_bits \<Rightarrow> bool \<Rightarrow> nat \<Rightarrow> nat \<Rightarrow> ef_env \<Rightarrow> ef_state \<Rightarrow> (ef_state \<times> ef_env) option" where
  "ef_wake_words p bits isr w 0 env s = Some (s, env)"
| "ef_wake_words p bits isr w (Suc k) env s =
     (let ef = ef_obj s p in
      case ef_wake_word p bits isr w
             (ef_active_words ef ! w AND emu_ef_active_word_mask (length (ef_waiters ef)) w) env s of
        None \<Rightarrow> None
      | Some (s1, env1) \<Rightarrow> ef_wake_words p bits isr (Suc w) k env1 s1)"

definition emu_ef_wake_matching_common ::
  "nat \<Rightarrow> event_bits \<Rightarrow> bool \<Rightarrow> ef_env \<Rightarrow> ef_state \<Rightarrow> (ef_state \<times> ef_env) option" where
  "emu_ef_wake_matching_common p bits isr env s =
     ef_wake_words p bits isr 0 (emu_ef_active_word_count (length (ef_waiters (ef_obj s p)))) env s"

fun ef_claim_from :: "emu_ef_obj \<Rightarrow> nat \<Rightarrow> nat \<Rightarrow> nat option" where
  "ef_claim_from ef w 0 = None"
| "ef_claim_from ef w (Suc k) =
     (let valid_mask = emu_ef_active_word_mask (length (ef_waiters ef)) w;
          active = ef_active_words ef ! w AND valid_mask;
          free_slots = NOT active AND valid_mask
      in if free_slots = 0 then ef_claim_from ef (Suc w) k
         else Some (w * 64 + emu_ef_first_set_bit free_slots))"

definition emu_ef_claim_waiter_slot :: "emu_ef_obj \<Rightarrow> nat option" where
  "emu_ef_claim_waiter_slot ef = ef_claim_from ef 0 (emu_ef_active_word_count (length (ef_waiters ef)))"

definition emu_ef_wake_matching :: "nat \<Rightarrow> event_bits \<Rightarrow> ef_env \<Rightarrow> ef_state \<Rightarrow> (ef_state \<times> ef_env) option" where
  "emu_ef_wake_matching p bits env s =
     (if ef_waiter_count (ef_obj s p) = 0 then Some (s, env)
      else emu_ef_wake_matching_common p bits False env s)"

definition emu_ef_wake_matching_isr :: "nat \<Rightarrow> event_bits \<Rightarrow> ef_env \<Rightarrow> ef_state \<Rightarrow> (ef_state \<times> ef_env) option" where
  "emu_ef_wake_matching_isr p bits env s =
     (if ef_waiter_count (ef_obj s p) = 0 then Some (s, env)
      else emu_ef_wake_matching_common p bits True env s)"

section \<open>Waiting\<close>

definition ef_matched :: "bool \<Rightarrow> event_bits \<Rightarrow> event_bits \<Rightarrow> bool" where
  "ef_matched all wait_bits bits =
     (if all then bits AND wait_bits = wait_bits else bits AND wait_bits \<noteq> 0)"

definition ef_unlock :: "nat \<Rightarrow> ef_state \<Rightarrow> ef_state" where
  "ef_unlock p s = snd (osal_mutex_unlock (Some (ef_guard (ef_obj s p))) s)"

text \<open>The exit of a matched wait: the bits are reported and, on request, the awaited ones cleared.\<close>

definition ef_exit_bits :: "nat \<Rightarrow> event_bits \<Rightarrow> bool \<Rightarrow> ef_state \<Rightarrow> ef_state" where
  "ef_exit_bits p wait_bits clear_on_exit s =
     (if clear_on_exit then ef_put p ((ef_obj s p)\<lparr>ef_bits := ef_bits (ef_obj s p) AND NOT wait_bits\<rparr>) s else s)"

definition ef_register :: "nat \<Rightarrow> nat \<Rightarrow> event_bits \<Rightarrow> bool \<Rightarrow> ef_state \<Rightarrow> ef_state" where
  "ef_register p slot wait_bits all s =
     (let ef = ef_obj s p;
          waiter = (ef_waiters ef ! slot)\<lparr>wt_wait_bits := wait_bits, wt_wait_all := all, wt_wake_pending := False, wt_in_use := True\<rparr>;
          ef1 = emu_ef_mark_waiter_active slot (ef\<lparr>ef_waiters := (ef_waiters ef)[slot := waiter]\<rparr>)
      in ef_put p (ef1\<lparr>ef_waiter_count := ef_waiter_count ef1 + 1\<rparr>) s)"

definition release_waiter :: "nat \<Rightarrow> nat \<Rightarrow> ef_state \<Rightarrow> ef_state" where
  "release_waiter p slot s =
     (let ef = ef_obj s p;
          waiter = (ef_waiters ef ! slot)\<lparr>wt_wake_pending := False, wt_in_use := False\<rparr>;
          ef1 = emu_ef_mark_waiter_inactive slot (ef\<lparr>ef_waiters := (ef_waiters ef)[slot := waiter]\<rparr>)
      in ef_put p (ef1\<lparr>ef_waiter_count := ef_waiter_count ef1 - 1\<rparr>) s)"

definition ef_reopen :: "nat \<Rightarrow> nat \<Rightarrow> ef_state \<Rightarrow> ef_state" where
  "ef_reopen p slot s =
     (let ef = ef_obj s p
      in ef_put p (ef\<lparr>ef_waiters := (ef_waiters ef)[slot := (ef_waiters ef ! slot)\<lparr>wt_wake_pending := False\<rparr>]\<rparr>) s)"

type_synonym ef_wait_result = "(error_code \<times> event_bits option \<times> ef_state \<times> ef_env) option"

definition ef_finish :: "nat \<Rightarrow> nat \<Rightarrow> event_bits \<Rightarrow> bool \<Rightarrow> ef_env \<Rightarrow> ef_state \<Rightarrow> ef_wait_result" where
  "ef_finish p slot wait_bits clear_on_exit env s =
     Some (Ok, Some (ef_bits (ef_obj s p)), ef_unlock p (release_waiter p slot (ef_exit_bits p wait_bits clear_on_exit s)), env)"

text \<open>The second test of \<open>matched\<close> sees the same bits as the first unless an interrupt comes between.\<close>

partial_function (option) ef_wait_loop ::
  "nat \<Rightarrow> nat \<Rightarrow> event_bits \<Rightarrow> bool \<Rightarrow> bool \<Rightarrow> tick_t \<Rightarrow> tick_t \<Rightarrow> ef_env \<Rightarrow> ef_state \<Rightarrow> ef_wait_result" where
  "ef_wait_loop p slot wait_bits clear_on_exit all timeout start env s =
     (if timeout \<noteq> WAIT_FOREVER \<and> osal_clock_ticks s - start \<ge> timeout then do {
        (_, s1, env1) \<leftarrow> osal_mutex_lock (Some (ef_guard (ef_obj s p))) WAIT_FOREVER env s;
        Some (Timeout, Some (ef_bits (ef_obj s1 p)), ef_unlock p (release_waiter p slot s1), env1) }
      else do {
        (_, s1, env1) \<leftarrow> osal_semaphore_take (Some (wt_sem (ef_waiters (ef_obj s p) ! slot)))
          (if timeout \<noteq> WAIT_FOREVER then timeout - (osal_clock_ticks s - start) else WAIT_FOREVER) env s;
        (_, s2, env2) \<leftarrow> osal_mutex_lock (Some (ef_guard (ef_obj s1 p))) WAIT_FOREVER env1 s1;
        if ef_matched all wait_bits (ef_bits (ef_obj s2 p)) then ef_finish p slot wait_bits clear_on_exit env2 s2
        else let s3 = ef_reopen p slot s2 in
          if ef_matched all wait_bits (ef_bits (ef_obj s3 p)) then ef_finish p slot wait_bits clear_on_exit env2 s3
          else ef_wait_loop p slot wait_bits clear_on_exit all timeout start env2 (ef_unlock p s3) })"

definition emu_ef_wait ::
  "nat \<Rightarrow> event_bits \<Rightarrow> bool \<Rightarrow> bool \<Rightarrow> tick_t \<Rightarrow> ef_env \<Rightarrow> ef_state \<Rightarrow> ef_wait_result" where
  "emu_ef_wait p wait_bits clear_on_exit all timeout env s = do {
     (_, s1, env1) \<leftarrow> osal_mutex_lock (Some (ef_guard (ef_obj s p))) WAIT_FOREVER env s;
     if ef_matched all wait_bits (ef_bits (ef_obj s1 p)) then
       Some (Ok, Some (ef_bits (ef_obj s1 p)), ef_unlock p (ef_exit_bits p wait_bits clear_on_exit s1), env1)
     else if timeout = NO_WAIT then Some (Would_block, Some (ef_bits (ef_obj s1 p)), ef_unlock p s1, env1)
     else case emu_ef_claim_waiter_slot (ef_obj s1 p) of
       None \<Rightarrow> Some (Out_of_resources, None, ef_unlock p s1, env1)
     | Some slot \<Rightarrow> do {
         (_, s2, env2) \<leftarrow> osal_semaphore_try_take (Some (wt_sem (ef_waiters (ef_obj s1 p) ! slot))) env1 s1;
         let s3 = ef_register p slot wait_bits all s2;
         if ef_matched all wait_bits (ef_bits (ef_obj s3 p)) then ef_finish p slot wait_bits clear_on_exit env2 s3
         else let s4 = ef_unlock p s3
           in ef_wait_loop p slot wait_bits clear_on_exit all timeout (osal_clock_ticks s4) env2 s4 } }"

section \<open>Operations\<close>

text \<open>Creating the semaphores of the slots in order; the first component is how many there are.\<close>

fun ef_create_sems :: "emu_ef_waiter list \<Rightarrow> ef_state \<Rightarrow> nat \<times> emu_ef_waiter list \<times> ef_state" where
  "ef_create_sems [] s = (0, [], s)"
| "ef_create_sems (w # ws) s =
     (case osal_semaphore_create (Some (wt_sem w)) 0 1 s of (r, h, s1) \<Rightarrow>
        if r \<noteq> Ok then (0, w\<lparr>wt_sem := the h\<rparr> # ws, s1)
        else case ef_create_sems ws s1 of (n, ws', s2) \<Rightarrow> (Suc n, w\<lparr>wt_sem := the h\<rparr> # ws', s2))"

fun ef_destroy_sems :: "emu_ef_waiter list \<Rightarrow> ef_state \<Rightarrow> emu_ef_waiter list \<times> ef_state" where
  "ef_destroy_sems [] s = ([], s)"
| "ef_destroy_sems (w # ws) s =
     (case osal_semaphore_destroy (Some (wt_sem w)) s of (_, h, s1) \<Rightarrow>
      case ef_destroy_sems ws s1 of (ws', s2) \<Rightarrow> (w\<lparr>wt_sem := h\<rparr> # ws', s2))"

definition osal_event_flags_create :: "handle option \<Rightarrow> ef_state \<Rightarrow> error_code \<times> handle option \<times> ef_state" where
  "osal_event_flags_create hnd s =
     (if hnd = None then (Invalid_argument, hnd, s)
      else case emu_ef_acquire s of
        (None, s1) \<Rightarrow> (Out_of_resources, hnd, s1)
      | (Some p, s1) \<Rightarrow>
          let ef = ef_obj s1 p;
              ef1 = ef\<lparr>ef_bits := 0, ef_waiter_count := 0, ef_active_words := map (\<lambda>_. 0) (ef_active_words ef),
                ef_waiters := map (\<lambda>w. w\<lparr>wt_in_use := False, wt_wake_pending := False, wt_wait_bits := 0, wt_wait_all := False\<rparr>)
                  (ef_waiters ef)\<rparr>
          in case osal_mutex_create (ef_guard ef1) (ef_put p ef1 s1) of (r2, g, s2) \<Rightarrow>
            let ef2 = ef1\<lparr>ef_guard := g\<rparr> in
            if r2 \<noteq> Ok then (Out_of_resources, hnd, emu_ef_release p (ef_put p ef2 s2))
            else case ef_create_sems (ef_waiters ef2) (ef_put p ef2 s2) of (n, ws, s3) \<Rightarrow>
              if n < length (ef_waiters ef2) then
                case ef_destroy_sems (take n ws) s3 of (ws', s4) \<Rightarrow>
                case osal_mutex_destroy (Some g) s4 of (_, g', s5) \<Rightarrow>
                  (Out_of_resources, hnd,
                   emu_ef_release p (ef_put p (ef2\<lparr>ef_waiters := ws' @ drop n ws, ef_guard := g'\<rparr>) s5))
              else (Ok, Some (Some p), ef_put p (ef2\<lparr>ef_waiters := ws\<rparr>) s3))"

definition osal_event_flags_destroy :: "handle option \<Rightarrow> ef_state \<Rightarrow> error_code \<times> handle option \<times> ef_state" where
  "osal_event_flags_destroy hnd s =
     (case native_of hnd of
        None \<Rightarrow> (Ok, hnd, s)
      | Some p \<Rightarrow>
          case ef_destroy_sems (ef_waiters (ef_obj s p)) s of (ws, s1) \<Rightarrow>
          case osal_mutex_destroy (Some (ef_guard (ef_obj s p))) s1 of (_, g, s2) \<Rightarrow>
            (Ok, Some None, emu_ef_release p (ef_put p ((ef_obj s p)\<lparr>ef_waiters := ws, ef_guard := g\<rparr>) s2)))"

definition ef_or_bits :: "nat \<Rightarrow> event_bits \<Rightarrow> ef_state \<Rightarrow> ef_state" where
  "ef_or_bits p bits s = ef_put p ((ef_obj s p)\<lparr>ef_bits := ef_bits (ef_obj s p) OR bits\<rparr>) s"

definition osal_event_flags_set ::
  "handle option \<Rightarrow> event_bits \<Rightarrow> ef_env \<Rightarrow> ef_state \<Rightarrow> (error_code \<times> ef_state \<times> ef_env) option" where
  "osal_event_flags_set hnd bits env s =
     (case native_of hnd of
        None \<Rightarrow> Some (Not_initialized, s, env)
      | Some p \<Rightarrow> do {
          (_, s1, env1) \<leftarrow> osal_mutex_lock (Some (ef_guard (ef_obj s p))) WAIT_FOREVER env s;
          let updated_bits = ef_bits (ef_obj s1 p) OR bits;
          (s2, env2) \<leftarrow> emu_ef_wake_matching p updated_bits env1 (ef_or_bits p bits s1);
          Some (Ok, ef_unlock p s2, env2) })"

definition osal_event_flags_clear ::
  "handle option \<Rightarrow> event_bits \<Rightarrow> ef_env \<Rightarrow> ef_state \<Rightarrow> (error_code \<times> ef_state \<times> ef_env) option" where
  "osal_event_flags_clear hnd bits env s =
     (case native_of hnd of
        None \<Rightarrow> Some (Not_initialized, s, env)
      | Some p \<Rightarrow> do {
          (_, s1, env1) \<leftarrow> osal_mutex_lock (Some (ef_guard (ef_obj s p))) WAIT_FOREVER env s;
          Some (Ok, ef_unlock p (ef_put p ((ef_obj s1 p)\<lparr>ef_bits := ef_bits (ef_obj s1 p) AND NOT bits\<rparr>) s1), env1) })"

definition osal_event_flags_get :: "handle option \<Rightarrow> ef_state \<Rightarrow> event_bits" where
  "osal_event_flags_get hnd s = (case native_of hnd of None \<Rightarrow> 0 | Some p \<Rightarrow> ef_bits (ef_obj s p))"

definition osal_event_flags_wait_any ::
  "handle option \<Rightarrow> event_bits \<Rightarrow> bool \<Rightarrow> tick_t \<Rightarrow> ef_env \<Rightarrow> ef_state \<Rightarrow> ef_wait_result" where
  "osal_event_flags_wait_any hnd wait_bits clear_on_exit timeout env s =
     (case native_of hnd of
        None \<Rightarrow> Some (Not_initialized, None, s, env)
      | Some p \<Rightarrow> emu_ef_wait p wait_bits clear_on_exit False timeout env s)"

definition osal_event_flags_wait_all ::
  "handle option \<Rightarrow> event_bits \<Rightarrow> bool \<Rightarrow> tick_t \<Rightarrow> ef_env \<Rightarrow> ef_state \<Rightarrow> ef_wait_result" where
  "osal_event_flags_wait_all hnd wait_bits clear_on_exit timeout env s =
     (case native_of hnd of
        None \<Rightarrow> Some (Not_initialized, None, s, env)
      | Some p \<Rightarrow> emu_ef_wait p wait_bits clear_on_exit True timeout env s)"

text \<open>\<open>has_isr\<close> is \<^verbatim>\<open>capabilities<active_backend>::has_isr_event_flags\<close>.\<close>

definition osal_event_flags_set_isr ::
  "bool \<Rightarrow> handle option \<Rightarrow> event_bits \<Rightarrow> ef_env \<Rightarrow> ef_state \<Rightarrow> (error_code \<times> ef_state \<times> ef_env) option" where
  "osal_event_flags_set_isr has_isr hnd bits env s =
     (case native_of hnd of
        None \<Rightarrow> Some (Not_initialized, s, env)
      | Some p \<Rightarrow>
          if \<not> has_isr then Some (Not_supported, s, env)
          else do {
            let updated_bits = ef_bits (ef_obj s p) OR bits;
            (s2, env2) \<leftarrow> emu_ef_wake_matching_isr p updated_bits env (ef_or_bits p bits s);
            Some (Ok, s2, env2) })"

section \<open>Well-formed groups\<close>

abbreviation ef_slots :: "nat \<Rightarrow> ef_state \<Rightarrow> nat" where
  "ef_slots p s \<equiv> length (ef_waiters (ef_obj s p))"

abbreviation ef_waiter :: "nat \<Rightarrow> ef_state \<Rightarrow> nat \<Rightarrow> emu_ef_waiter" where
  "ef_waiter p s k \<equiv> ef_waiters (ef_obj s p) ! k"

definition ef_active :: "emu_ef_obj \<Rightarrow> nat \<Rightarrow> bool" where
  "ef_active ef k \<longleftrightarrow> bit (ef_active_words ef ! (k div 64)) (k mod 64)"

definition ef_slot_ok :: "ef_state \<Rightarrow> emu_ef_waiter \<Rightarrow> bool" where
  "ef_slot_ok s w \<longleftrightarrow> (\<exists>i. wt_sem w = Some i \<and> i < length (bm_sem_pool s) \<and> sem_max (bm_sem_pool s ! i) = 1 \<and>
     sem_get i s \<le> 1 \<and> (wt_in_use w \<and> \<not> wt_wake_pending w \<longrightarrow> sem_get i s = 0))"

text \<open>
  The slots of a group have different semaphores; the bit map marks the slots in use and the counter
  counts them; a registered waiter that no token was given to has an empty semaphore.
\<close>

definition ef_core :: "nat \<Rightarrow> ef_state \<Rightarrow> bool" where
  "ef_core p s \<longleftrightarrow> p < length (emu_ef_pool s) \<and>
     length (ef_active_words (ef_obj s p)) = emu_ef_active_word_count (ef_slots p s) \<and>
     (\<forall>k < ef_slots p s. ef_active (ef_obj s p) k \<longleftrightarrow> wt_in_use (ef_waiter p s k)) \<and>
     (\<forall>k < ef_slots p s. ef_slot_ok s (ef_waiter p s k)) \<and>
     (\<forall>j < ef_slots p s. \<forall>k < ef_slots p s. wt_sem (ef_waiter p s j) = wt_sem (ef_waiter p s k) \<longrightarrow> j = k) \<and>
     unat (ef_waiter_count (ef_obj s p)) = card {k. k < ef_slots p s \<and> wt_in_use (ef_waiter p s k)} \<and>
     ef_slots p s < 2 ^ 64"

definition ef_guard_free :: "nat \<Rightarrow> ef_state \<Rightarrow> bool" where
  "ef_guard_free p s \<longleftrightarrow> (\<exists>g. ef_guard (ef_obj s p) = Some g \<and> g < length (bm_mutex_pool s) \<and> \<not> mtx_flag (bm_mutex_pool s ! g))"

definition ef_inv :: "nat \<Rightarrow> ef_state \<Rightarrow> bool" where
  "ef_inv p s \<longleftrightarrow> ef_core p s \<and> ef_guard_free p s"

lemma ef_coreD:
  assumes "ef_core p s"
  shows "p < length (emu_ef_pool s)"
    and "j < ef_slots p s \<Longrightarrow> k < ef_slots p s \<Longrightarrow> wt_sem (ef_waiter p s j) = wt_sem (ef_waiter p s k) \<Longrightarrow> j = k"
    and "k < ef_slots p s \<Longrightarrow> ef_slot_ok s (ef_waiter p s k)"
    and "k < ef_slots p s \<Longrightarrow> ef_active (ef_obj s p) k \<longleftrightarrow> wt_in_use (ef_waiter p s k)"
    and "unat (ef_waiter_count (ef_obj s p)) = card {k. k < ef_slots p s \<and> wt_in_use (ef_waiter p s k)}"
  using assms by (simp_all add: ef_core_def)

lemma ef_obj_simps [simp]:
  "p < length (emu_ef_pool s) \<Longrightarrow> ef_obj (ef_put p obj s) q = (if q = p then obj else ef_obj s q)"
  "ef_obj (sem_set i c s) q = ef_obj s q"
  "ef_obj (s\<lparr>bm_mutex_pool := b\<rparr>) q = ef_obj s q"
  "ef_obj (s\<lparr>bm_sem_pool := sp\<rparr>) q = ef_obj s q"
  "length (emu_ef_pool (ef_put p obj s)) = length (emu_ef_pool s)"
  "bm_mutex_pool (ef_put p obj s) = bm_mutex_pool s"
  "bm_sem_pool (ef_put p obj s) = bm_sem_pool s"
  "sem_get i (ef_put p obj s) = sem_get i s"
  "sem_get i (s\<lparr>bm_mutex_pool := b\<rparr>) = sem_get i s"
  "g_ticks (ef_put p obj s) = g_ticks s"
  by (simp_all add: ef_obj_def ef_put_def sem_set_def sem_get_def nth_list_update)

lemma bit_active_word_mask:
  assumes "b < 64"
  shows "bit (emu_ef_active_word_mask n w) b \<longleftrightarrow> w * 64 + b < n"
proof (cases "w * 64 + 64 \<le> n")
  case True
  with assms show ?thesis by (simp add: emu_ef_active_word_mask_def Let_def)
next
  case False
  then have "emu_ef_active_word_mask n w = mask (n - w * 64)"
    by (simp add: emu_ef_active_word_mask_def Let_def mask_eq_exp_minus_1)
  then show ?thesis using assms by (auto simp: bit_mask_iff)
qed

lemma word_count_covers: "n \<le> emu_ef_active_word_count n * 64"
  unfolding emu_ef_active_word_count_def by linarith

lemma slot_word_index: "(w * 64 + b) div 64 = w" "(w * 64 + b) mod 64 = b" if "b < (64 :: nat)"
  using that by simp_all

lemma bit_masked_active:
  "bit (ef_active_words ef ! w AND emu_ef_active_word_mask n w) b \<longleftrightarrow> b < 64 \<and> w * 64 + b < n \<and> ef_active ef (w * 64 + b)"
proof (cases "b < 64")
  case True
  then show ?thesis by (auto simp: bit_and_iff bit_active_word_mask ef_active_def slot_word_index)
next
  case False
  then show ?thesis using bit_imp_le_length [of "ef_active_words ef ! w AND emu_ef_active_word_mask n w" b] by auto
qed

section \<open>What a wake-up does\<close>

definition ef_woken :: "event_bits \<Rightarrow> emu_ef_waiter \<Rightarrow> bool" where
  "ef_woken bits w \<longleftrightarrow> wt_in_use w \<and> emu_ef_waiter_matches w bits"

definition woken_waiters :: "event_bits \<Rightarrow> nat set \<Rightarrow> emu_ef_waiter list \<Rightarrow> emu_ef_waiter list" where
  "woken_waiters bits A ws =
     map (\<lambda>k. if k \<in> A \<and> ef_woken bits (ws ! k) then (ws ! k)\<lparr>wt_wake_pending := True\<rparr> else ws ! k) [0..<length ws]"

text \<open>The waiters that are woken and not already on their way are given a token.\<close>

definition gives_to :: "event_bits \<Rightarrow> nat set \<Rightarrow> emu_ef_waiter list \<Rightarrow> nat \<Rightarrow> bool" where
  "gives_to bits A ws i \<longleftrightarrow>
     (\<exists>k < length ws. k \<in> A \<and> ef_woken bits (ws ! k) \<and> \<not> wt_wake_pending (ws ! k) \<and> wt_sem (ws ! k) = Some i)"

definition woken_sems :: "event_bits \<Rightarrow> nat set \<Rightarrow> emu_ef_waiter list \<Rightarrow> bm_semaphore list \<Rightarrow> bm_semaphore list" where
  "woken_sems bits A ws sp =
     map (\<lambda>i. if gives_to bits A ws i then (sp ! i)\<lparr>sem_count := 1\<rparr> else sp ! i) [0..<length sp]"

definition ef_wake_eff :: "nat \<Rightarrow> event_bits \<Rightarrow> nat set \<Rightarrow> ef_state \<Rightarrow> ef_state" where
  "ef_wake_eff p bits A s =
     (ef_put p ((ef_obj s p)\<lparr>ef_waiters := woken_waiters bits A (ef_waiters (ef_obj s p))\<rparr>) s)
       \<lparr>bm_sem_pool := woken_sems bits A (ef_waiters (ef_obj s p)) (bm_sem_pool s)\<rparr>"

lemma woken_simps [simp]:
  "length (woken_waiters bits A ws) = length ws"
  "k < length ws \<Longrightarrow> woken_waiters bits A ws ! k =
     (if k \<in> A \<and> ef_woken bits (ws ! k) then (ws ! k)\<lparr>wt_wake_pending := True\<rparr> else ws ! k)"
  "length (woken_sems bits A ws sp) = length sp"
  "i < length sp \<Longrightarrow> woken_sems bits A ws sp ! i =
     (if gives_to bits A ws i then (sp ! i)\<lparr>sem_count := 1\<rparr> else sp ! i)"
  by (simp_all add: woken_waiters_def woken_sems_def)

lemma woken_cong:
  assumes "\<And>k. k < length ws \<Longrightarrow> ef_woken bits (ws ! k) \<Longrightarrow> k \<in> A \<longleftrightarrow> k \<in> B"
  shows "woken_waiters bits A ws = woken_waiters bits B ws" "woken_sems bits A ws sp = woken_sems bits B ws sp"
proof -
  show "woken_waiters bits A ws = woken_waiters bits B ws" using assms by (auto intro!: nth_equalityI)
  have "gives_to bits A ws = gives_to bits B ws" using assms by (auto simp: gives_to_def fun_eq_iff)
  then show "woken_sems bits A ws sp = woken_sems bits B ws sp" by (simp add: woken_sems_def)
qed

lemma woken_none:
  assumes "\<And>k. k < length ws \<Longrightarrow> k \<in> A \<Longrightarrow> \<not> ef_woken bits (ws ! k)"
  shows "woken_waiters bits A ws = ws" "woken_sems bits A ws sp = sp"
proof -
  show "woken_waiters bits A ws = ws" using assms by (auto intro!: nth_equalityI)
  have "\<not> gives_to bits A ws i" for i using assms by (auto simp: gives_to_def)
  then show "woken_sems bits A ws sp = sp" by (simp add: woken_sems_def map_nth)
qed

lemma ef_wake_eff_cong:
  "(\<And>k. k < ef_slots p s \<Longrightarrow> ef_woken bits (ef_waiter p s k) \<Longrightarrow> k \<in> A \<longleftrightarrow> k \<in> B) \<Longrightarrow>
   ef_wake_eff p bits A s = ef_wake_eff p bits B s"
  using woken_cong [of "ef_waiters (ef_obj s p)" bits A B] unfolding ef_wake_eff_def by presburger

lemma ef_wake_eff_none:
  assumes "\<And>k. k < ef_slots p s \<Longrightarrow> k \<in> A \<Longrightarrow> \<not> ef_woken bits (ef_waiter p s k)"
  shows "ef_wake_eff p bits A s = s"
  using woken_none [of "ef_waiters (ef_obj s p)" A bits] assms
  by (simp add: ef_wake_eff_def ef_put_def ef_obj_def)

lemma ef_obj_wake_eff [simp]:
  "p < length (emu_ef_pool s) \<Longrightarrow> ef_obj (ef_wake_eff p bits A s) q =
     (if q = p then (ef_obj s p)\<lparr>ef_waiters := woken_waiters bits A (ef_waiters (ef_obj s p))\<rparr> else ef_obj s q)"
  by (simp add: ef_wake_eff_def)

lemma sem_pool_wake_eff [simp]:
  "bm_sem_pool (ef_wake_eff p bits A s) = woken_sems bits A (ef_waiters (ef_obj s p)) (bm_sem_pool s)"
  "length (emu_ef_pool (ef_wake_eff p bits A s)) = length (emu_ef_pool s)"
  "bm_mutex_pool (ef_wake_eff p bits A s) = bm_mutex_pool s"
  "g_ticks (ef_wake_eff p bits A s) = g_ticks s"
  by (simp_all add: ef_wake_eff_def ef_put_def)

text \<open>Waking one more slot.\<close>

lemma ef_wake_eff_insert:
  assumes core: "ef_core p s" and k: "k < ef_slots p s" "k \<notin> A" and i: "wt_sem (ef_waiter p s k) = Some i"
    and w: "ef_woken bits (ef_waiter p s k)" "\<not> wt_wake_pending (ef_waiter p s k)"
  shows "sem_set i 1 (ef_put p ((ef_obj (ef_wake_eff p bits A s) p)
      \<lparr>ef_waiters := (woken_waiters bits A (ef_waiters (ef_obj s p)))[k := (ef_waiter p s k)\<lparr>wt_wake_pending := True\<rparr>]\<rparr>)
      (ef_wake_eff p bits A s)) = ef_wake_eff p bits (insert k A) s"
proof -
  let ?ws = "ef_waiters (ef_obj s p)" and ?sp = "bm_sem_pool s"
  have p: "p < length (emu_ef_pool s)" by (rule ef_coreD(1) [OF core])
  have ws: "(woken_waiters bits A ?ws)[k := (?ws ! k)\<lparr>wt_wake_pending := True\<rparr>] = woken_waiters bits (insert k A) ?ws"
    using w(1) k by (auto intro!: nth_equalityI simp: nth_list_update)
  have sp: "(woken_sems bits A ?ws ?sp)[i := (woken_sems bits A ?ws ?sp ! i)\<lparr>sem_count := 1\<rparr>] = woken_sems bits (insert k A) ?ws ?sp"
    (is "?l = ?r")
  proof (rule nth_equalityI)
    fix j assume "j < length ?l"
    moreover have "gives_to bits (insert k A) ?ws j \<longleftrightarrow> j = i \<or> gives_to bits A ?ws j"
      using w k i by (auto simp: gives_to_def)
    ultimately show "?l ! j = ?r ! j" by (cases "j = i") (simp_all add: nth_list_update)
  qed simp
  have "ef_obj (ef_wake_eff p bits A s) p = (ef_obj s p)\<lparr>ef_waiters := woken_waiters bits A ?ws\<rparr>" using p by simp
  then show ?thesis unfolding sem_set_def ws by (simp add: sp) (simp add: ef_wake_eff_def ef_put_def)
qed

lemma ef_wake_slot_calm:
  assumes core: "ef_core p s" and k: "k < ef_slots p s" "k \<notin> A" and m: "card ({..<ef_slots p s} - A) \<le> m"
  obtains m' where "ef_wake_slot p bits isr k (calm m @ rest) (ef_wake_eff p bits A s) =
      Some (ef_wake_eff p bits (insert k A) s, calm m' @ rest)" "card ({..<ef_slots p s} - insert k A) \<le> m'"
proof -
  let ?w = "ef_waiter p s k"
  have p: "p < length (emu_ef_pool s)" by (rule ef_coreD(1) [OF core])
  have "card ({..<ef_slots p s} - insert k A) = card ({..<ef_slots p s} - A) - 1" "0 < card ({..<ef_slots p s} - A)"
    using k by (auto simp: card_Diff_insert card_gt_0_iff)
  then obtain m1 where m1: "m = Suc m1" "card ({..<ef_slots p s} - insert k A) \<le> m1" using m by (cases m) auto
  have here: "ef_waiter p (ef_wake_eff p bits A s) k = ?w" using p k by simp
  show ?thesis
  proof (cases "ef_woken bits ?w \<and> \<not> wt_wake_pending ?w")
    case True
    obtain i where i: "wt_sem ?w = Some i" "i < length (bm_sem_pool s)" "sem_max (bm_sem_pool s ! i) = 1" "sem_get i s = 0"
      using ef_coreD(3) [OF core k(1)] True unfolding ef_slot_ok_def ef_woken_def by blast
    have uniq: "j = k" if "j < ef_slots p s" "wt_sem (ef_waiter p s j) = Some i" for j
      using ef_coreD(2) [OF core that(1) k(1)] that(2) i(1) by simp
    let ?s1 = "ef_put p ((ef_obj (ef_wake_eff p bits A s) p)
      \<lparr>ef_waiters := (woken_waiters bits A (ef_waiters (ef_obj s p)))[k := ?w\<lparr>wt_wake_pending := True\<rparr>]\<rparr>) (ef_wake_eff p bits A s)"
    have "\<not> gives_to bits A (ef_waiters (ef_obj s p)) i" using uniq k(2) by (auto simp: gives_to_def)
    then have "bm_sem_pool ?s1 ! i = bm_sem_pool s ! i" using i(2) by simp
    then have "sem_get i ?s1 = 0" "sem_max (bm_sem_pool ?s1 ! i) = 1" using i(3,4) by (simp_all add: sem_get_def)
    then have "osal_semaphore_give (Some (Some i)) (calm m @ rest) ?s1 = Some (Ok, sem_set i 1 ?s1, calm m1 @ rest)"
      using sem_give_quiet [of i ?s1 "calm m1 @ rest"] by (simp add: m1(1) calm_Suc)
    moreover have "sem_set i 1 ?s1 = ef_wake_eff p bits (insert k A) s"
      using ef_wake_eff_insert [OF core k i(1)] True by blast
    ultimately show ?thesis
      using that [OF _ m1(2)] True i(1) p k here by (simp add: ef_wake_slot_def ef_woken_def osal_semaphore_give_isr_def Let_def)
  next
    case False
    then have "ef_wake_slot p bits isr k (calm m @ rest) (ef_wake_eff p bits A s) = Some (ef_wake_eff p bits A s, calm m @ rest)"
      using here by (auto simp: ef_wake_slot_def ef_woken_def Let_def)
    moreover have "ef_wake_eff p bits A s = ef_wake_eff p bits (insert k A) s"
    proof (cases "ef_woken bits ?w")
      case True
      then have pend: "wt_wake_pending ?w" using False by simp
      then have same: "?w\<lparr>wt_wake_pending := True\<rparr> = ?w" by simp
      have "woken_waiters bits A (ef_waiters (ef_obj s p)) = woken_waiters bits (insert k A) (ef_waiters (ef_obj s p))"
        using same by (auto intro!: nth_equalityI)
      moreover have "gives_to bits A (ef_waiters (ef_obj s p)) = gives_to bits (insert k A) (ef_waiters (ef_obj s p))"
        using pend by (auto simp: gives_to_def fun_eq_iff)
      then have "woken_sems bits A (ef_waiters (ef_obj s p)) sp = woken_sems bits (insert k A) (ef_waiters (ef_obj s p)) sp" for sp
        by (simp add: woken_sems_def)
      ultimately show ?thesis unfolding ef_wake_eff_def by presburger
    qed (rule ef_wake_eff_cong, auto)
    ultimately show ?thesis using that [of m] m1 by simp
  qed
qed

lemma ef_wake_word_calm:
  assumes core: "ef_core p s"
    and "\<forall>b. bit active b \<longrightarrow> w * 64 + b < ef_slots p s \<and> w * 64 + b \<notin> A"
    and "card ({..<ef_slots p s} - A) \<le> m"
  shows "\<exists>m'. ef_wake_word p bits isr w active (calm m @ rest) (ef_wake_eff p bits A s) =
      Some (ef_wake_eff p bits (A \<union> {w * 64 + b | b. bit active b}) s, calm m' @ rest) \<and>
      card ({..<ef_slots p s} - (A \<union> {w * 64 + b | b. bit active b})) \<le> m'"
  using assms(2,3)
proof (induction "unat active" arbitrary: active A m rule: less_induct)
  case less
  show ?case
  proof (cases "active = 0")
    case True
    then show ?thesis using less.prems(2) by (intro exI [of _ m]) (simp add: ef_wake_word.simps)
  next
    case False
    let ?b = "first_set_bit active" and ?next = "active AND (active - 1)"
    let ?k = "w * 64 + ?b"
    have b: "bit active ?b" using first_set_bit_spec [OF False] by blast
    obtain m1 where m1: "ef_wake_slot p bits isr ?k (calm m @ rest) (ef_wake_eff p bits A s) =
        Some (ef_wake_eff p bits (insert ?k A) s, calm m1 @ rest)" "card ({..<ef_slots p s} - insert ?k A) \<le> m1"
      using ef_wake_slot_calm [OF core _ _ less.prems(2), of ?k bits isr rest] less.prems(1) b by blast
    have set: "A \<union> {w * 64 + b | b. bit active b} = insert ?k A \<union> {w * 64 + b | b. bit ?next b}"
      using b bit_clear_lowest [OF False] by auto
    have "\<forall>c. bit ?next c \<longrightarrow> w * 64 + c < ef_slots p s \<and> w * 64 + c \<notin> insert ?k A"
      using less.prems(1) bit_clear_lowest [OF False] by simp
    from less.hyps [OF clear_lowest_less [OF False] this m1(2)]
    obtain m' where "ef_wake_word p bits isr w ?next (calm m1 @ rest) (ef_wake_eff p bits (insert ?k A) s) =
        Some (ef_wake_eff p bits (A \<union> {w * 64 + b | b. bit active b}) s, calm m' @ rest)"
      "card ({..<ef_slots p s} - (A \<union> {w * 64 + b | b. bit active b})) \<le> m'"
      unfolding set by blast
    with m1(1) False show ?thesis
      by (intro exI [of _ m']) (simp add: ef_wake_word.simps [of p bits isr w active] emu_ef_first_set_bit_def)
  qed
qed

definition ef_active_below :: "nat \<Rightarrow> ef_state \<Rightarrow> nat \<Rightarrow> nat set" where
  "ef_active_below p s w = {k. k < ef_slots p s \<and> ef_active (ef_obj s p) k \<and> k < w * 64}"

lemma ef_active_below_Suc:
  "ef_active_below p s w \<union> {w * 64 + b | b. b < 64 \<and> w * 64 + b < ef_slots p s \<and> ef_active (ef_obj s p) (w * 64 + b)} =
   ef_active_below p s (Suc w)" (is "?l = ?r")
proof (rule set_eqI)
  fix k
  have "k = w * 64 + (k - w * 64)" if "\<not> k < w * 64" using that by simp
  then show "k \<in> ?l \<longleftrightarrow> k \<in> ?r"
    unfolding ef_active_below_def by (cases "k < w * 64") (auto intro!: exI [of _ "k - w * 64"])
qed

lemma ef_wake_words_calm:
  assumes core: "ef_core p s" and "card ({..<ef_slots p s} - ef_active_below p s w) \<le> m"
  shows "\<exists>m'. ef_wake_words p bits isr w j (calm m @ rest) (ef_wake_eff p bits (ef_active_below p s w) s) =
      Some (ef_wake_eff p bits (ef_active_below p s (w + j)) s, calm m' @ rest)"
  using assms(2)
proof (induction j arbitrary: w m)
  case (Suc j)
  let ?A = "ef_active_below p s w" and ?ef = "ef_obj s p"
  let ?act = "ef_active_words ?ef ! w AND emu_ef_active_word_mask (ef_slots p s) w"
  have p: "p < length (emu_ef_pool s)" by (rule ef_coreD(1) [OF core])
  have "\<forall>b. bit ?act b \<longrightarrow> w * 64 + b < ef_slots p s \<and> w * 64 + b \<notin> ?A"
    unfolding bit_masked_active by (simp add: ef_active_below_def)
  from ef_wake_word_calm [OF core this Suc.prems, of bits isr rest]
  obtain m1 where m1: "ef_wake_word p bits isr w ?act (calm m @ rest) (ef_wake_eff p bits ?A s) =
      Some (ef_wake_eff p bits (ef_active_below p s (Suc w)) s, calm m1 @ rest)"
    "card ({..<ef_slots p s} - ef_active_below p s (Suc w)) \<le> m1"
    unfolding bit_masked_active ef_active_below_Suc by blast
  from Suc.IH [OF m1(2)] m1(1) p show ?case by (simp add: Let_def)
qed (auto)

lemma ef_wake_common_calm:
  assumes core: "ef_core p s"
  shows "\<exists>m'. emu_ef_wake_matching_common p bits isr (calm (ef_slots p s) @ rest) s =
      Some (ef_wake_eff p bits UNIV s, calm m' @ rest)"
proof -
  let ?W = "emu_ef_active_word_count (ef_slots p s)"
  have z: "ef_wake_eff p bits (ef_active_below p s 0) s = s" by (rule ef_wake_eff_none) (simp add: ef_active_below_def)
  have u: "ef_wake_eff p bits (ef_active_below p s ?W) s = ef_wake_eff p bits UNIV s"
    using ef_coreD(4) [OF core] word_count_covers [of "ef_slots p s"]
    by (intro ef_wake_eff_cong) (auto simp: ef_active_below_def ef_woken_def)
  have "card ({..<ef_slots p s} - ef_active_below p s 0) \<le> ef_slots p s" by (simp add: ef_active_below_def)
  from ef_wake_words_calm [OF core this, of bits isr ?W rest] show ?thesis
    by (simp add: emu_ef_wake_matching_common_def z u)
qed

text \<open>With no registered waiter the wake-up is skipped, and would have had no effect.\<close>

lemma ef_wake_matching_calm:
  assumes core: "ef_core p s"
  shows "\<exists>m'. emu_ef_wake_matching p bits (calm (ef_slots p s) @ rest) s = Some (ef_wake_eff p bits UNIV s, calm m' @ rest)"
    and "\<exists>m'. emu_ef_wake_matching_isr p bits (calm (ef_slots p s) @ rest) s = Some (ef_wake_eff p bits UNIV s, calm m' @ rest)"
proof -
  have none: "ef_wake_eff p bits UNIV s = s" if "ef_waiter_count (ef_obj s p) = 0"
  proof (rule ef_wake_eff_none)
    fix k assume "k < ef_slots p s"
    moreover have "{k. k < ef_slots p s \<and> wt_in_use (ef_waiter p s k)} = {}"
      using ef_coreD(5) [OF core] that by simp
    ultimately show "\<not> ef_woken bits (ef_waiter p s k)" by (auto simp: ef_woken_def)
  qed
  show "\<exists>m'. emu_ef_wake_matching p bits (calm (ef_slots p s) @ rest) s = Some (ef_wake_eff p bits UNIV s, calm m' @ rest)"
    using ef_wake_common_calm [OF core] none by (auto simp: emu_ef_wake_matching_def)
  show "\<exists>m'. emu_ef_wake_matching_isr p bits (calm (ef_slots p s) @ rest) s = Some (ef_wake_eff p bits UNIV s, calm m' @ rest)"
    using ef_wake_common_calm [OF core] none by (auto simp: emu_ef_wake_matching_isr_def)
qed

section \<open>Setting\<close>

lemma ef_core_frame [simp]:
  "ef_core p (s\<lparr>bm_mutex_pool := b\<rparr>) = ef_core p s"
  "p < length (emu_ef_pool s) \<Longrightarrow> ef_core p (ef_put p ((ef_obj s p)\<lparr>ef_bits := b'\<rparr>) s) = ef_core p s"
  by (simp_all add: ef_core_def ef_slot_ok_def ef_active_def)

lemma ef_guard_free_frame [simp]:
  "p < length (emu_ef_pool s) \<Longrightarrow> ef_guard obj = ef_guard (ef_obj s p) \<Longrightarrow> ef_guard_free p (ef_put p obj s) = ef_guard_free p s"
  "ef_guard_free p (sem_set i c s) = ef_guard_free p s"
  by (simp_all add: ef_guard_free_def sem_set_def ef_obj_def ef_put_def)

lemma gives_to_unique:
  assumes "ef_core p s" "k < ef_slots p s" "wt_sem (ef_waiter p s k) = Some i"
  shows "gives_to bits A (ef_waiters (ef_obj s p)) i \<longleftrightarrow>
    k \<in> A \<and> ef_woken bits (ef_waiter p s k) \<and> \<not> wt_wake_pending (ef_waiter p s k)"
proof -
  have "j = k" if "j < ef_slots p s" "wt_sem (ef_waiter p s j) = Some i" for j
    using ef_coreD(2) [OF assms(1) that(1) assms(2)] that(2) assms(3) by simp
  then show ?thesis using assms(2,3) unfolding gives_to_def by blast
qed

lemma ef_core_wake_eff:
  assumes core: "ef_core p s"
  shows "ef_core p (ef_wake_eff p bits A s)"
proof -
  let ?ws = "ef_waiters (ef_obj s p)" and ?s' = "ef_wake_eff p bits A s"
  have p: "p < length (emu_ef_pool s)" by (rule ef_coreD(1) [OF core])
  have use: "wt_in_use (woken_waiters bits A ?ws ! k) = wt_in_use (?ws ! k)"
    and sem: "wt_sem (woken_waiters bits A ?ws ! k) = wt_sem (?ws ! k)" if "k < length ?ws" for k
    using that by simp_all
  have "ef_slot_ok ?s' (woken_waiters bits A ?ws ! k)" if k: "k < length ?ws" for k
  proof -
    obtain i where i: "wt_sem (?ws ! k) = Some i" "i < length (bm_sem_pool s)" "sem_max (bm_sem_pool s ! i) = 1"
      "wt_in_use (?ws ! k) \<and> \<not> wt_wake_pending (?ws ! k) \<longrightarrow> sem_get i s = 0" "sem_get i s \<le> 1"
      using ef_coreD(3) [OF core k] unfolding ef_slot_ok_def by blast
    have "sem_max (bm_sem_pool ?s' ! i) = 1" "sem_get i ?s' \<le> 1" using i(2,3,5) by (simp_all add: sem_get_def)
    moreover have "sem_get i ?s' = 0" if "wt_in_use (?ws ! k)" "\<not> wt_wake_pending (woken_waiters bits A ?ws ! k)"
    proof -
      have "\<not> gives_to bits A ?ws i" "\<not> wt_wake_pending (?ws ! k)"
        using that k gives_to_unique [OF core k i(1)] by (auto split: if_splits)
      then show ?thesis using i(2,4) that(1) by (simp add: sem_get_def)
    qed
    ultimately show ?thesis using i(1,2) sem [OF k] use [OF k] unfolding ef_slot_ok_def by auto
  qed
  moreover have "{k. k < length ?ws \<and> wt_in_use (woken_waiters bits A ?ws ! k)} = {k. k < length ?ws \<and> wt_in_use (?ws ! k)}"
    using use by auto
  moreover have "ef_active (ef_obj ?s' p) = ef_active (ef_obj s p)" using p by (simp add: ef_active_def fun_eq_iff)
  ultimately show ?thesis using core p use sem unfolding ef_core_def by simp
qed

lemma ef_guard_free_wake_eff [simp]: "p < length (emu_ef_pool s) \<Longrightarrow> ef_guard_free p (ef_wake_eff p bits A s) = ef_guard_free p s"
  by (simp add: ef_guard_free_def)

text \<open>Locking a free guard, changing something else and unlocking it again.\<close>

lemma ef_lock_free:
  assumes "ef_guard_free p s"
  obtains g where "ef_guard (ef_obj s p) = Some g" "g < length (bm_mutex_pool s)" "\<not> mtx_flag (bm_mutex_pool s ! g)"
    "osal_mutex_lock (Some (ef_guard (ef_obj s p))) WAIT_FOREVER env s =
       Some (Ok, s\<lparr>bm_mutex_pool := (bm_mutex_pool s)[g := (bm_mutex_pool s ! g)\<lparr>mtx_flag := True\<rparr>]\<rparr>, env)"
proof -
  obtain g where g: "ef_guard (ef_obj s p) = Some g" "g < length (bm_mutex_pool s)" "\<not> mtx_flag (bm_mutex_pool s ! g)"
    using assms unfolding ef_guard_free_def by blast
  show ?thesis by (rule that [OF g]) (simp add: g(1) mutex_lock_free [OF g(3)])
qed

lemma ef_unlock_relock:
  assumes "g < length (bm_mutex_pool s)" "\<not> mtx_flag (bm_mutex_pool s ! g)" "ef_guard (ef_obj s' p) = Some g"
    and "bm_mutex_pool s' = (bm_mutex_pool s)[g := (bm_mutex_pool s ! g)\<lparr>mtx_flag := True\<rparr>]"
  shows "ef_unlock p s' = s'\<lparr>bm_mutex_pool := bm_mutex_pool s\<rparr>"
  using mutex_unlock_relock [OF assms(1,2,4)] assms(3) by (simp add: ef_unlock_def)

lemma ef_set_calm:
  assumes "ef_inv p s"
  shows "\<exists>m'. osal_event_flags_set (Some (Some p)) b (calm (ef_slots p s) @ rest) s =
      Some (Ok, ef_wake_eff p (ef_bits (ef_obj s p) OR b) UNIV (ef_or_bits p b s), calm m' @ rest)"
proof -
  have core: "ef_core p s" and fr: "ef_guard_free p s" using assms by (simp_all add: ef_inv_def)
  have p: "p < length (emu_ef_pool s)" by (rule ef_coreD(1) [OF core])
  obtain g where g: "ef_guard (ef_obj s p) = Some g" "g < length (bm_mutex_pool s)" "\<not> mtx_flag (bm_mutex_pool s ! g)"
    and lock: "osal_mutex_lock (Some (ef_guard (ef_obj s p))) WAIT_FOREVER (calm (ef_slots p s) @ rest) s =
       Some (Ok, s\<lparr>bm_mutex_pool := (bm_mutex_pool s)[g := (bm_mutex_pool s ! g)\<lparr>mtx_flag := True\<rparr>]\<rparr>, calm (ef_slots p s) @ rest)"
    by (rule ef_lock_free [OF fr])
  let ?s1 = "s\<lparr>bm_mutex_pool := (bm_mutex_pool s)[g := (bm_mutex_pool s ! g)\<lparr>mtx_flag := True\<rparr>]\<rparr>"
  let ?s2 = "ef_or_bits p b ?s1" and ?u = "ef_bits (ef_obj s p) OR b"
  have p1: "p < length (emu_ef_pool ?s1)" using p by simp
  have "ef_core p ?s2" using core ef_core_frame(2) [OF p1] by (simp add: ef_or_bits_def)
  moreover have sl: "ef_slots p ?s2 = ef_slots p s" using p by (simp add: ef_or_bits_def)
  ultimately obtain m' where w: "emu_ef_wake_matching p ?u (calm (ef_slots p s) @ rest) ?s2 = Some (ef_wake_eff p ?u UNIV ?s2, calm m' @ rest)"
    using ef_wake_matching_calm(1) [of p ?s2 ?u rest] by auto
  have "ef_unlock p (ef_wake_eff p ?u UNIV ?s2) = (ef_wake_eff p ?u UNIV ?s2)\<lparr>bm_mutex_pool := bm_mutex_pool s\<rparr>"
    by (rule ef_unlock_relock [OF g(2,3)]) (use p g(1) in \<open>simp_all add: ef_or_bits_def\<close>)
  also have "\<dots> = ef_wake_eff p ?u UNIV (ef_or_bits p b s)"
    by (simp add: ef_wake_eff_def ef_or_bits_def ef_put_def ef_obj_def)
  finally show ?thesis using lock w by (intro exI [of _ m']) (simp add: osal_event_flags_set_def Let_def)
qed

lemma ef_set_isr_calm:
  assumes "ef_core p s"
  shows "\<exists>m'. osal_event_flags_set_isr True (Some (Some p)) b (calm (ef_slots p s) @ rest) s =
      Some (Ok, ef_wake_eff p (ef_bits (ef_obj s p) OR b) UNIV (ef_or_bits p b s), calm m' @ rest)"
proof -
  have p: "p < length (emu_ef_pool s)" by (rule ef_coreD(1) [OF assms])
  have "ef_core p (ef_or_bits p b s)" using assms p by (simp add: ef_or_bits_def)
  moreover have "ef_slots p (ef_or_bits p b s) = ef_slots p s" using p by (simp add: ef_or_bits_def)
  ultimately show ?thesis
    using ef_wake_matching_calm(2) [of p "ef_or_bits p b s" "ef_bits (ef_obj s p) OR b" rest]
    by (auto simp: osal_event_flags_set_isr_def Let_def)
qed

text \<open>
  The state after \<open>b\<close> was set and exactly the waiters that it satisfies were woken: those are marked; the semaphores of those that were not marked already have one
  token; the flags are joined; and all else, the semaphores of waiters that were marked already included, is as before.
\<close>

definition woken_exactly :: "nat \<Rightarrow> event_bits \<Rightarrow> ef_state \<Rightarrow> ef_state \<Rightarrow> bool" where
  "woken_exactly p b s s' \<longleftrightarrow> (\<exists>ws sems. let u = ef_bits (ef_obj s p) OR b; hit = (\<lambda>k. wt_in_use (ef_waiter p s k) \<and> emu_ef_waiter_matches (ef_waiter p s k) u) in
     s' = s\<lparr>emu_ef_pool := (emu_ef_pool s)[p := (ef_obj s p)\<lparr>ef_bits := u, ef_waiters := ws\<rparr>], bm_sem_pool := sems\<rparr> \<and>
     length ws = ef_slots p s \<and> length sems = length (bm_sem_pool s) \<and>
     (\<forall>k < ef_slots p s. ws ! k = (if hit k then (ef_waiter p s k)\<lparr>wt_wake_pending := True\<rparr> else ef_waiter p s k)) \<and>
     (\<forall>i < length sems. sems ! i =
        (if \<exists>k < ef_slots p s. hit k \<and> \<not> wt_wake_pending (ef_waiter p s k) \<and> wt_sem (ef_waiter p s k) = Some i
         then (bm_sem_pool s ! i)\<lparr>sem_count := 1\<rparr> else bm_sem_pool s ! i)))"

lemma wake_eff_exactly:
  assumes "p < length (emu_ef_pool s)"
  shows "woken_exactly p b s (ef_wake_eff p (ef_bits (ef_obj s p) OR b) UNIV (ef_or_bits p b s))"
proof -
  let ?u = "ef_bits (ef_obj s p) OR b" and ?ws = "ef_waiters (ef_obj s p)"
  have obj: "ef_obj (ef_or_bits p b s) p = (ef_obj s p)\<lparr>ef_bits := ?u\<rparr>" using assms by (simp add: ef_or_bits_def)
  have "ef_wake_eff p ?u UNIV (ef_or_bits p b s) =
      s\<lparr>emu_ef_pool := (emu_ef_pool s)[p := (ef_obj s p)\<lparr>ef_bits := ?u, ef_waiters := woken_waiters ?u UNIV ?ws\<rparr>], bm_sem_pool := woken_sems ?u UNIV ?ws (bm_sem_pool s)\<rparr>"
    unfolding ef_wake_eff_def obj by (simp add: ef_or_bits_def ef_put_def)
  then show ?thesis
    unfolding woken_exactly_def Let_def
    by (intro exI [of _ "woken_waiters ?u UNIV ?ws"] exI [of _ "woken_sems ?u UNIV ?ws (bm_sem_pool s)"])
      (simp add: ef_woken_def, simp add: woken_sems_def gives_to_def ef_woken_def conj_assoc, blast)
qed

text \<open>
  C17: no wake-up is lost and none is spurious. Setting \<open>b\<close> on a well-formed group, from a task or from
  an interrupt handler, ors \<open>b\<close> into the flags; every registered waiter whose condition the new flags
  satisfy is marked, and if it was not marked before, its semaphore, which was empty, holds exactly one token. A waiter that was on its way already gets no second
  token. Nothing else in the whole state changes (\<open>woken_exactly\<close>), and the group stays well formed.
\<close>

theorem event_flags_set_wakes:
  assumes "ef_inv p s" "n = ef_slots p s"
  shows "\<exists>s' env1 env2. osal_event_flags_set (Some (Some p)) b (calm n @ env) s = Some (Ok, s', env1) \<and>
    osal_event_flags_set_isr True (Some (Some p)) b (calm n @ env) s = Some (Ok, s', env2) \<and>
    ef_inv p s' \<and> osal_event_flags_get (Some (Some p)) s' = osal_event_flags_get (Some (Some p)) s OR b \<and> woken_exactly p b s s' \<and>
    (\<forall>k < n. wt_in_use (ef_waiter p s k) \<and> \<not> wt_wake_pending (ef_waiter p s k) \<longrightarrow>
       (\<exists>i < length (bm_sem_pool s). wt_sem (ef_waiter p s k) = Some i \<and> sem_get i s = 0))"
proof -
  let ?u = "ef_bits (ef_obj s p) OR b"
  let ?s' = "ef_wake_eff p ?u UNIV (ef_or_bits p b s)"
  have core: "ef_core p s" and fr: "ef_guard_free p s" using assms(1) by (simp_all add: ef_inv_def)
  have p: "p < length (emu_ef_pool s)" by (rule ef_coreD(1) [OF core])
  obtain m1 m2 where runs: "osal_event_flags_set (Some (Some p)) b (calm n @ env) s = Some (Ok, ?s', calm m1 @ env)"
    "osal_event_flags_set_isr True (Some (Some p)) b (calm n @ env) s = Some (Ok, ?s', calm m2 @ env)"
    using ef_set_calm [OF assms(1), of b env] ef_set_isr_calm [OF core, of b env] assms(2) by blast
  have core': "ef_core p (ef_or_bits p b s)" using core p by (simp add: ef_or_bits_def)
  have inv: "ef_inv p ?s'" using ef_core_wake_eff [OF core'] fr p by (simp add: ef_inv_def ef_or_bits_def)
  have "ef_bits (ef_obj ?s' p) = ?u" using p by (simp add: ef_or_bits_def)
  then have get: "osal_event_flags_get (Some (Some p)) ?s' = osal_event_flags_get (Some (Some p)) s OR b" by (simp add: osal_event_flags_get_def)
  have "\<forall>k < n. wt_in_use (ef_waiter p s k) \<and> \<not> wt_wake_pending (ef_waiter p s k) \<longrightarrow>
       (\<exists>i < length (bm_sem_pool s). wt_sem (ef_waiter p s k) = Some i \<and> sem_get i s = 0)"
    using ef_coreD(3) [OF core] assms(2) by (auto simp: ef_slot_ok_def)
  then show ?thesis using runs inv get wake_eff_exactly [OF p] by blast
qed

definition ef_demo :: ef_state where
  "ef_demo = \<lparr>g_ticks = 0, bm_tasks = [], bm_current = -1, bm_last_scheduled = -1,
     bm_mutex_pool = [\<lparr>mtx_flag = False\<rparr>], bm_mutex_used_bits = [1],
     bm_sem_pool = [\<lparr>sem_count = 0, sem_max = 1\<rparr>, \<lparr>sem_count = 0, sem_max = 1\<rparr>], bm_sem_used_bits = [3],
     bm_queue_pool = [], bm_queue_used_bits = [], bm_timer_pool = [],
     emu_ef_pool = [\<lparr>ef_guard = Some 0,
       ef_waiters = [\<lparr>wt_sem = Some 0, wt_in_use = True, wt_wake_pending = False, wt_wait_bits = 3, wt_wait_all = True\<rparr>,
         \<lparr>wt_sem = Some 1, wt_in_use = False, wt_wake_pending = False, wt_wait_bits = 0, wt_wait_all = False\<rparr>],
       ef_active_words = [1], ef_bits = 1, ef_waiter_count = 1\<rparr>],
     emu_ef_used = [True]\<rparr>"

lemma ef_demo_simps:
  "ef_slots 0 ef_demo = 2" "ef_bits (ef_obj ef_demo 0) = 1" "g_ticks ef_demo = 0"
  "ef_waiter 0 ef_demo 0 = \<lparr>wt_sem = Some 0, wt_in_use = True, wt_wake_pending = False, wt_wait_bits = 3, wt_wait_all = True\<rparr>"
  "ef_waiter 0 ef_demo (Suc 0) = \<lparr>wt_sem = Some 1, wt_in_use = False, wt_wake_pending = False, wt_wait_bits = 0, wt_wait_all = False\<rparr>"
  by (simp_all add: ef_demo_def ef_obj_def)

lemma ef_demo_ok: "ef_inv 0 ef_demo"
proof -
  have "{k. k < (2 :: nat) \<and> wt_in_use (ef_waiter 0 ef_demo k)} = {0}" by (auto simp: less_2_cases_iff ef_demo_simps)
  then have "card {k. k < (2 :: nat) \<and> wt_in_use (ef_waiter 0 ef_demo k)} = 1" by simp
  moreover have "ef_active_words (ef_obj ef_demo 0) = [1]" "ef_waiter_count (ef_obj ef_demo 0) = 1" "ef_guard (ef_obj ef_demo 0) = Some 0"
    "length (emu_ef_pool ef_demo) = 1" "bm_mutex_pool ef_demo = [\<lparr>mtx_flag = False\<rparr>]"
    "bm_sem_pool ef_demo = [\<lparr>sem_count = 0, sem_max = 1\<rparr>, \<lparr>sem_count = 0, sem_max = 1\<rparr>]"
    by (simp_all add: ef_demo_def ef_obj_def)
  ultimately show ?thesis
    by (auto simp: ef_inv_def ef_core_def ef_guard_free_def ef_slot_ok_def ef_demo_simps less_2_cases_iff
        emu_ef_active_word_count_def ef_active_def sem_get_def)
qed

lemma ex_less_two: "(\<exists>k < (2 :: nat). P k) \<longleftrightarrow> P 0 \<or> P (Suc 0)"
  by (auto simp: less_2_cases_iff)

theorem event_flags_set_wakes_witness:
  "\<exists>s' env1. osal_event_flags_set (Some (Some 0)) 2 (calm 2 @ []) ef_demo = Some (Ok, s', env1) \<and>
     osal_event_flags_get (Some (Some 0)) s' = 3 \<and> sem_get 0 s' = 1 \<and> sem_get 1 s' = sem_get 1 ef_demo"
proof -
  let ?hit = "\<lambda>k. wt_in_use (ef_waiter 0 ef_demo k) \<and> emu_ef_waiter_matches (ef_waiter 0 ef_demo k) 3"
  obtain s' env1 where r: "osal_event_flags_set (Some (Some 0)) 2 (calm 2 @ []) ef_demo = Some (Ok, s', env1)"
    and g: "osal_event_flags_get (Some (Some 0)) s' = osal_event_flags_get (Some (Some 0)) ef_demo OR 2" and w: "woken_exactly 0 2 ef_demo s'"
    using event_flags_set_wakes [OF ef_demo_ok ef_demo_simps(1) [symmetric], of 2 "[]"] by blast
  have u: "ef_bits (ef_obj ef_demo 0) OR 2 = 3" by (simp add: ef_demo_simps)
  have d: "length (bm_sem_pool ef_demo) = 2" by (simp add: ef_demo_def)
  from w [unfolded woken_exactly_def Let_def u ef_demo_simps(1) d] obtain sems where s: "bm_sem_pool s' = sems" "length sems = 2"
    and c: "\<forall>i < length sems. sems ! i = (if \<exists>k < 2. ?hit k \<and> \<not> wt_wake_pending (ef_waiter 0 ef_demo k) \<and> wt_sem (ef_waiter 0 ef_demo k) = Some i
         then (bm_sem_pool ef_demo ! i)\<lparr>sem_count := 1\<rparr> else bm_sem_pool ef_demo ! i)" by auto
  have h: "\<exists>k < 2. ?hit k \<and> \<not> wt_wake_pending (ef_waiter 0 ef_demo k) \<and> wt_sem (ef_waiter 0 ef_demo k) = Some 0"
    "\<not> (\<exists>k < 2. ?hit k \<and> \<not> wt_wake_pending (ef_waiter 0 ef_demo k) \<and> wt_sem (ef_waiter 0 ef_demo k) = Some 1)"
    by (simp_all only: ex_less_two) (simp_all add: ef_demo_simps emu_ef_waiter_matches_def)
  have "sem_get 0 s' = 1" "sem_get 1 s' = sem_get 1 ef_demo"
    using c [rule_format, of 0, unfolded if_P [OF h(1)]] c [rule_format, of 1, unfolded if_not_P [OF h(2)]] s by (simp_all add: sem_get_def)
  with r g show ?thesis by (simp add: osal_event_flags_get_def ef_demo_simps)
qed

section \<open>Registration\<close>

lemma ef_claim_from_spec:
  "ef_claim_from ef w j = Some k \<Longrightarrow> k < length (ef_waiters ef) \<and> \<not> ef_active ef k"
  "ef_claim_from ef w j = None \<Longrightarrow> w * 64 \<le> k \<Longrightarrow> k < (w + j) * 64 \<Longrightarrow> k < length (ef_waiters ef) \<Longrightarrow> ef_active ef k"
proof -
  let ?free = "\<lambda>w. NOT (ef_active_words ef ! w AND emu_ef_active_word_mask (length (ef_waiters ef)) w)
      AND emu_ef_active_word_mask (length (ef_waiters ef)) w"
  have bit_free: "bit (?free w) b \<longleftrightarrow> w * 64 + b < length (ef_waiters ef) \<and> \<not> ef_active ef (w * 64 + b)" if "b < 64" for w b
    using that bit_masked_active [of ef w "length (ef_waiters ef)" b]
    by (simp only: bit_and_iff bit_not_iff bit_active_word_mask) auto
  show "ef_claim_from ef w j = Some k \<Longrightarrow> k < length (ef_waiters ef) \<and> \<not> ef_active ef k"
  proof (induction j arbitrary: w)
    case (Suc j)
    show ?case
    proof (cases "?free w = 0")
      case False
      have "bit (?free w) (first_set_bit (?free w))" "first_set_bit (?free w) < 64"
        using first_set_bit_spec [OF False] first_set_bit_less [OF False] by simp_all
      with bit_free show ?thesis using Suc.prems False by (auto simp: Let_def emu_ef_first_set_bit_def)
    qed (use Suc in \<open>simp add: Let_def\<close>)
  qed simp
  show "ef_claim_from ef w j = None \<Longrightarrow> w * 64 \<le> k \<Longrightarrow> k < (w + j) * 64 \<Longrightarrow> k < length (ef_waiters ef) \<Longrightarrow> ef_active ef k"
  proof (induction j arbitrary: w)
    case (Suc j)
    have z: "?free w = 0" and rest: "ef_claim_from ef (Suc w) j = None"
      using Suc.prems(1) by (simp_all add: Let_def split: if_splits)
    show ?case
    proof (cases "k < Suc w * 64")
      case True
      then have "k = w * 64 + (k - w * 64)" "k - w * 64 < 64" using Suc.prems(2) by simp_all
      with bit_free [of "k - w * 64" w] z Suc.prems(4) show ?thesis by simp
    qed (use Suc.IH [OF rest] Suc.prems in simp)
  qed simp
qed

lemma ef_claim_spec:
  "emu_ef_claim_waiter_slot ef = Some k \<Longrightarrow> k < length (ef_waiters ef) \<and> \<not> ef_active ef k"
  "emu_ef_claim_waiter_slot ef = None \<Longrightarrow> k < length (ef_waiters ef) \<Longrightarrow> ef_active ef k"
proof -
  show "emu_ef_claim_waiter_slot ef = Some k \<Longrightarrow> k < length (ef_waiters ef) \<and> \<not> ef_active ef k"
    unfolding emu_ef_claim_waiter_slot_def by (rule ef_claim_from_spec(1))
  assume "emu_ef_claim_waiter_slot ef = None" "k < length (ef_waiters ef)"
  moreover note word_count_covers [of "length (ef_waiters ef)"]
  ultimately show "ef_active ef k"
    using ef_claim_from_spec(2) [of ef 0 _ k] unfolding emu_ef_claim_waiter_slot_def by simp
qed

text \<open>A slot enters or leaves the bit map; the other slots are as before.\<close>

lemma ef_active_mark:
  assumes "length (ef_active_words ef) = emu_ef_active_word_count n" "k < n" "j < n"
  shows "ef_active (emu_ef_mark_waiter_active k ef) j \<longleftrightarrow> j = k \<or> ef_active ef j"
    and "ef_active (emu_ef_mark_waiter_inactive k ef) j \<longleftrightarrow> j \<noteq> k \<and> ef_active ef j"
proof -
  have idx: "k div 64 < length (ef_active_words ef)"
    using assms(1,2) unfolding emu_ef_active_word_count_def by linarith
  have eq: "j = k \<longleftrightarrow> j div 64 = k div 64 \<and> j mod 64 = k mod 64" by (metis mod_mult_div_eq)
  have m: "j mod 64 < 64" by simp
  show "ef_active (emu_ef_mark_waiter_active k ef) j \<longleftrightarrow> j = k \<or> ef_active ef j"
    unfolding eq using idx m
    by (auto simp: ef_active_def emu_ef_mark_waiter_active_def emu_ef_slot_word_index_def emu_ef_slot_word_mask_def
        nth_list_update bit_or_iff bit_push_bit_iff bit_exp_iff Let_def)
  show "ef_active (emu_ef_mark_waiter_inactive k ef) j \<longleftrightarrow> j \<noteq> k \<and> ef_active ef j"
    unfolding eq using idx m
    by (auto simp: ef_active_def emu_ef_mark_waiter_inactive_def emu_ef_slot_word_index_def emu_ef_slot_word_mask_def
        nth_list_update bit_and_iff bit_not_iff bit_push_bit_iff bit_exp_iff Let_def)
qed

lemma ef_register_obj:
  assumes "p < length (emu_ef_pool s)"
  shows "ef_obj (ef_register p k wb all s) p =
    (emu_ef_mark_waiter_active k (ef_obj s p))\<lparr>ef_waiters := (ef_waiters (ef_obj s p))[k := (ef_waiter p s k)
      \<lparr>wt_wait_bits := wb, wt_wait_all := all, wt_wake_pending := False, wt_in_use := True\<rparr>],
      ef_waiter_count := ef_waiter_count (ef_obj s p) + 1\<rparr>"
  using assms by (simp add: ef_register_def emu_ef_mark_waiter_active_def Let_def)

lemma release_waiter_obj:
  assumes "p < length (emu_ef_pool s)"
  shows "ef_obj (release_waiter p k s) p =
    (emu_ef_mark_waiter_inactive k (ef_obj s p))\<lparr>ef_waiters := (ef_waiters (ef_obj s p))[k := (ef_waiter p s k)
      \<lparr>wt_wake_pending := False, wt_in_use := False\<rparr>],
      ef_waiter_count := ef_waiter_count (ef_obj s p) - 1\<rparr>"
  using assms by (simp add: release_waiter_def emu_ef_mark_waiter_inactive_def Let_def)

lemma mark_simps [simp]:
  "ef_guard (emu_ef_mark_waiter_active k ef) = ef_guard ef" "ef_bits (emu_ef_mark_waiter_active k ef) = ef_bits ef"
  "length (ef_active_words (emu_ef_mark_waiter_active k ef)) = length (ef_active_words ef)"
  "ef_guard (emu_ef_mark_waiter_inactive k ef) = ef_guard ef" "ef_bits (emu_ef_mark_waiter_inactive k ef) = ef_bits ef"
  "length (ef_active_words (emu_ef_mark_waiter_inactive k ef)) = length (ef_active_words ef)"
  "ef_active (ef\<lparr>ef_waiters := ws, ef_waiter_count := c\<rparr>) = ef_active ef"
  by (simp_all add: emu_ef_mark_waiter_active_def emu_ef_mark_waiter_inactive_def Let_def ef_active_def fun_eq_iff)

lemma register_frame [simp]:
  "bm_sem_pool (ef_register p k wb all s) = bm_sem_pool s" "bm_mutex_pool (ef_register p k wb all s) = bm_mutex_pool s"
  "length (emu_ef_pool (ef_register p k wb all s)) = length (emu_ef_pool s)" "g_ticks (ef_register p k wb all s) = g_ticks s"
  "bm_sem_pool (release_waiter p k s) = bm_sem_pool s" "bm_mutex_pool (release_waiter p k s) = bm_mutex_pool s"
  "length (emu_ef_pool (release_waiter p k s)) = length (emu_ef_pool s)" "g_ticks (release_waiter p k s) = g_ticks s"
  by (simp_all add: ef_register_def release_waiter_def Let_def)

text \<open>Replacing one waiter and its mark keeps a group well formed.\<close>

lemma ef_core_replace:
  assumes core: "ef_core p s" and k: "k < ef_slots p s" and p': "length (emu_ef_pool s') = length (emu_ef_pool s)"
    and ws: "ef_waiters (ef_obj s' p) = (ef_waiters (ef_obj s p))[k := w]" and sem: "wt_sem w = wt_sem (ef_waiter p s k)"
    and sp: "bm_sem_pool s' = bm_sem_pool s" and ok: "ef_slot_ok s w"
    and words: "length (ef_active_words (ef_obj s' p)) = length (ef_active_words (ef_obj s p))"
    and act: "\<And>j. j < ef_slots p s \<Longrightarrow> ef_active (ef_obj s' p) j \<longleftrightarrow> (if j = k then wt_in_use w else ef_active (ef_obj s p) j)"
    and cnt: "unat (ef_waiter_count (ef_obj s' p)) = card {j. j < ef_slots p s \<and> wt_in_use ((ef_waiters (ef_obj s p))[k := w] ! j)}"
  shows "ef_core p s'"
proof -
  let ?ws = "ef_waiters (ef_obj s p)"
  have ok': "ef_slot_ok s' x = ef_slot_ok s x" for x using sp by (simp add: ef_slot_ok_def sem_get_def)
  have s1: "wt_sem (?ws[k := w] ! j) = wt_sem (?ws ! j)" for j
    using sem k by (cases "j = k") simp_all
  have s2: "ef_slot_ok s' (?ws[k := w] ! j)" if "j < length ?ws" for j
    unfolding ok' using ok ef_coreD(3) [OF core that] k by (cases "j = k") simp_all
  have s3: "ef_active (ef_obj s' p) j \<longleftrightarrow> wt_in_use (?ws[k := w] ! j)" if "j < length ?ws" for j
    using act [OF that] ef_coreD(4) [OF core that] k by (cases "j = k") simp_all
  have "ef_slots p s' = ef_slots p s" using ws by simp
  moreover note ws words cnt p' core
  ultimately show ?thesis unfolding ef_core_def using s1 s2 s3 by simp
qed

lemma ef_core_register:
  assumes core: "ef_core p s" and k: "k < ef_slots p s" "\<not> wt_in_use (ef_waiter p s k)"
    and i: "wt_sem (ef_waiter p s k) = Some i" "sem_get i s = 0"
  shows "ef_core p (ef_register p k wb all s)"
proof -
  let ?s' = "ef_register p k wb all s" and ?ws = "ef_waiters (ef_obj s p)"
  let ?w = "(?ws ! k)\<lparr>wt_wait_bits := wb, wt_wait_all := all, wt_wake_pending := False, wt_in_use := True\<rparr>"
  note obj = ef_register_obj [OF ef_coreD(1) [OF core], of k wb all]
  have words: "length (ef_active_words (ef_obj s p)) = emu_ef_active_word_count (ef_slots p s)" and n: "ef_slots p s < 2 ^ 64"
    using core by (simp_all add: ef_core_def)
  have card: "card {j. j < length ?ws \<and> wt_in_use (?ws[k := ?w] ! j)} = Suc (card {j. j < length ?ws \<and> wt_in_use (?ws ! j)})"
    by (rule card_update_gain) (use k in simp_all)
  have "card {j. j < length ?ws \<and> wt_in_use (?ws[k := ?w] ! j)} \<le> card {..<length ?ws}" by (rule card_mono) auto
  then have "unat (ef_waiter_count (ef_obj s p)) + 1 < 2 ^ 64" using card ef_coreD(5) [OF core] n by simp
  then have "unat (ef_waiter_count (ef_obj s p) + 1) = Suc (unat (ef_waiter_count (ef_obj s p)))"
    using unat_add_fits [of "ef_waiter_count (ef_obj s p)" 1] by simp
  then have cnt: "unat (ef_waiter_count (ef_obj ?s' p)) = card {j. j < length ?ws \<and> wt_in_use (?ws[k := ?w] ! j)}"
    using card ef_coreD(5) [OF core] obj by simp
  have ok: "ef_slot_ok s ?w" using ef_coreD(3) [OF core k(1)] i by (auto simp: ef_slot_ok_def)
  have act: "ef_active (ef_obj ?s' p) j \<longleftrightarrow> (if j = k then wt_in_use ?w else ef_active (ef_obj s p) j)"
    if "j < ef_slots p s" for j
    unfolding obj mark_simps(7) using ef_active_mark(1) [OF words k(1) that] by simp
  show ?thesis by (rule ef_core_replace [OF core k(1) _ _ _ _ ok _ act cnt]) (simp_all add: obj)
qed

lemma ef_core_release:
  assumes core: "ef_core p s" and k: "k < ef_slots p s" "wt_in_use (ef_waiter p s k)"
  shows "ef_core p (release_waiter p k s)"
proof -
  let ?s' = "release_waiter p k s" and ?ws = "ef_waiters (ef_obj s p)"
  let ?w = "(?ws ! k)\<lparr>wt_wake_pending := False, wt_in_use := False\<rparr>"
  note obj = release_waiter_obj [OF ef_coreD(1) [OF core], of k]
  have words: "length (ef_active_words (ef_obj s p)) = emu_ef_active_word_count (ef_slots p s)"
    using core by (simp add: ef_core_def)
  have card: "Suc (card {j. j < length ?ws \<and> wt_in_use (?ws[k := ?w] ! j)}) = card {j. j < length ?ws \<and> wt_in_use (?ws ! j)}"
    by (rule card_update_loss) (use k in simp_all)
  then have "0 < ef_waiter_count (ef_obj s p)" using ef_coreD(5) [OF core] by (simp add: word_gt_0_no unat_gt_0 word_gt_0) (metis Zero_not_Suc unat_0)
  from unat_word_pred [OF this] have cnt: "unat (ef_waiter_count (ef_obj ?s' p)) = card {j. j < length ?ws \<and> wt_in_use (?ws[k := ?w] ! j)}"
    using card ef_coreD(5) [OF core] obj by simp
  have ok: "ef_slot_ok s ?w" using ef_coreD(3) [OF core k(1)] by (auto simp: ef_slot_ok_def)
  have act: "ef_active (ef_obj ?s' p) j \<longleftrightarrow> (if j = k then wt_in_use ?w else ef_active (ef_obj s p) j)"
    if "j < ef_slots p s" for j
    unfolding obj mark_simps(7) using ef_active_mark(2) [OF words k(1) that] by simp
  show ?thesis by (rule ef_core_replace [OF core k(1) _ _ _ _ ok _ act cnt]) (simp_all add: obj)
qed

section \<open>Waiting\<close>

lemma ef_core_sem_set:
  assumes core: "ef_core p s" and k: "k < ef_slots p s" "wt_sem (ef_waiter p s k) = Some i"
    and c: "c \<le> 1" "wt_in_use (ef_waiter p s k) \<Longrightarrow> \<not> wt_wake_pending (ef_waiter p s k) \<Longrightarrow> c = 0"
  shows "ef_core p (sem_set i c s)"
proof -
  have "ef_slot_ok (sem_set i c s) (ef_waiter p s j)" if j: "j < ef_slots p s" for j
  proof -
    obtain l where l: "wt_sem (ef_waiter p s j) = Some l" "l < length (bm_sem_pool s)" "sem_max (bm_sem_pool s ! l) = 1" "sem_get l s \<le> 1"
      "wt_in_use (ef_waiter p s j) \<and> \<not> wt_wake_pending (ef_waiter p s j) \<longrightarrow> sem_get l s = 0"
      using ef_coreD(3) [OF core j] unfolding ef_slot_ok_def by blast
    show ?thesis
    proof (cases "l = i")
      case True
      then have "j = k" using ef_coreD(2) [OF core j k(1)] l(1) k(2) by simp
      with True l c k show ?thesis unfolding ef_slot_ok_def by (auto simp: sem_set_def sem_get_def)
    next
      case False
      then have "sem_get l (sem_set i c s) = sem_get l s" "bm_sem_pool (sem_set i c s) ! l = bm_sem_pool s ! l"
        by (simp, simp add: sem_set_def)
      with l show ?thesis unfolding ef_slot_ok_def by (simp add: sem_set_def)
    qed
  qed
  moreover have "emu_ef_pool (sem_set i c s) = emu_ef_pool s" by (simp add: sem_set_def)
  ultimately show ?thesis using core by (simp add: ef_core_def)
qed

text \<open>Another task that calls \<open>osal_event_flags_set\<close> undisturbed.\<close>

definition ef_setter :: "nat \<Rightarrow> event_bits \<Rightarrow> ef_state \<Rightarrow> ef_state" where
  "ef_setter p b s =
     (case osal_event_flags_set (Some (Some p)) b (calm (ef_slots p s)) s of Some (_, s', _) \<Rightarrow> s' | None \<Rightarrow> s)"

lemma ef_setter_eq: "ef_inv p s \<Longrightarrow> ef_setter p b s = ef_wake_eff p (ef_bits (ef_obj s p) OR b) UNIV (ef_or_bits p b s)"
  using ef_set_calm [of p s b "[]"] by (auto simp: ef_setter_def)

lemma ef_setter_wakes:
  assumes inv: "ef_inv p s" and k: "k < ef_slots p s" "wt_in_use (ef_waiter p s k)" "wt_sem (ef_waiter p s k) = Some i"
    and m: "emu_ef_waiter_matches (ef_waiter p s k) (ef_bits (ef_obj s p) OR b)" "\<not> wt_wake_pending (ef_waiter p s k)"
  shows "ef_inv p (ef_setter p b s)" "sem_get i (ef_setter p b s) = 1"
    "ef_waiter p (ef_setter p b s) k = (ef_waiter p s k)\<lparr>wt_wake_pending := True\<rparr>" "ef_slots p (ef_setter p b s) = ef_slots p s"
    "ef_bits (ef_obj (ef_setter p b s) p) = ef_bits (ef_obj s p) OR b" "length (emu_ef_pool (ef_setter p b s)) = length (emu_ef_pool s)"
    "ef_guard (ef_obj (ef_setter p b s) p) = ef_guard (ef_obj s p)" "bm_mutex_pool (ef_setter p b s) = bm_mutex_pool s"
proof -
  have core: "ef_core p s" and fr: "ef_guard_free p s" using inv by (simp_all add: ef_inv_def)
  have p: "p < length (emu_ef_pool s)" by (rule ef_coreD(1) [OF core])
  have p': "p < length (emu_ef_pool (ef_or_bits p b s))" "ef_core p (ef_or_bits p b s)" using p core by (simp_all add: ef_or_bits_def)
  have obj: "ef_obj (ef_or_bits p b s) p = (ef_obj s p)\<lparr>ef_bits := ef_bits (ef_obj s p) OR b\<rparr>" using p by (simp add: ef_or_bits_def)
  have sp: "bm_sem_pool (ef_or_bits p b s) = bm_sem_pool s" "bm_mutex_pool (ef_or_bits p b s) = bm_mutex_pool s"
    "length (emu_ef_pool (ef_or_bits p b s)) = length (emu_ef_pool s)" by (simp_all add: ef_or_bits_def)
  have w: "ef_woken (ef_bits (ef_obj s p) OR b) (ef_waiter p s k)" using k m by (simp add: ef_woken_def)
  show "ef_inv p (ef_setter p b s)"
    using ef_core_wake_eff [OF p'(2)] fr p by (simp add: ef_setter_eq [OF inv] ef_inv_def ef_or_bits_def)
  have "i < length (bm_sem_pool s)" using ef_coreD(3) [OF core k(1)] k(3) by (auto simp: ef_slot_ok_def)
  then show "sem_get i (ef_setter p b s) = 1"
    using gives_to_unique [OF core k(1,3)] w m(2) obj sp by (simp add: ef_setter_eq [OF inv] sem_get_def)
  show "ef_waiter p (ef_setter p b s) k = (ef_waiter p s k)\<lparr>wt_wake_pending := True\<rparr>" "ef_slots p (ef_setter p b s) = ef_slots p s"
    "ef_bits (ef_obj (ef_setter p b s) p) = ef_bits (ef_obj s p) OR b" "length (emu_ef_pool (ef_setter p b s)) = length (emu_ef_pool s)"
    "ef_guard (ef_obj (ef_setter p b s) p) = ef_guard (ef_obj s p)" "bm_mutex_pool (ef_setter p b s) = bm_mutex_pool s"
    using k(1) obj p' sp w by (simp_all add: ef_setter_eq [OF inv])
qed

text \<open>Leaving a matched wait: the guard is taken, the bits are cleared on request, the slot is released.\<close>

lemma ef_finish_inv:
  assumes core: "ef_core p s" and g: "g < length (bm_mutex_pool s0)" "\<not> mtx_flag (bm_mutex_pool s0 ! g)" "ef_guard (ef_obj s p) = Some g"
    and mp: "bm_mutex_pool s = (bm_mutex_pool s0)[g := (bm_mutex_pool s0 ! g)\<lparr>mtx_flag := True\<rparr>]"
    and k: "k < ef_slots p s" "wt_in_use (ef_waiter p s k)"
  obtains s' where "ef_finish p k wb clear env s = Some (Ok, Some (ef_bits (ef_obj s p)), s', env)" "ef_inv p s'"
    "ef_bits (ef_obj s' p) = (if clear then ef_bits (ef_obj s p) AND NOT wb else ef_bits (ef_obj s p))"
    "\<not> wt_in_use (ef_waiter p s' k)"
proof -
  have p: "p < length (emu_ef_pool s)" by (rule ef_coreD(1) [OF core])
  let ?s1 = "ef_exit_bits p wb clear s" and ?s2 = "release_waiter p k (ef_exit_bits p wb clear s)"
  have core1: "ef_core p ?s1" and obj1: "ef_obj ?s1 p = (ef_obj s p)\<lparr>ef_bits := (if clear then ef_bits (ef_obj s p) AND NOT wb else ef_bits (ef_obj s p))\<rparr>"
    and fr1: "length (emu_ef_pool ?s1) = length (emu_ef_pool s)" "bm_mutex_pool ?s1 = bm_mutex_pool s"
    using core p by (simp_all add: ef_exit_bits_def)
  have core2: "ef_core p ?s2" using ef_core_release [OF core1, of k] k obj1 by simp
  have p1: "p < length (emu_ef_pool ?s1)" using p fr1 by simp
  note obj2 = release_waiter_obj [OF p1, of k]
  have u: "ef_unlock p ?s2 = ?s2\<lparr>bm_mutex_pool := bm_mutex_pool s0\<rparr>"
    by (rule ef_unlock_relock [OF g(1,2)]) (use g(3) mp obj1 obj2 fr1 in simp_all)
  have "ef_guard_free p (?s2\<lparr>bm_mutex_pool := bm_mutex_pool s0\<rparr>)"
    using g obj1 obj2 by (simp add: ef_guard_free_def)
  then have "ef_inv p (ef_unlock p ?s2)" using core2 u by (simp add: ef_inv_def)
  moreover have "ef_obj (ef_unlock p ?s2) p = ef_obj ?s2 p" using u by simp
  ultimately show ?thesis using that [of "ef_unlock p ?s2"] obj1 obj2 k by (simp add: ef_finish_def)
qed

lemma ef_matched_iff: "emu_ef_waiter_matches (w\<lparr>wt_wait_bits := wb, wt_wait_all := all, wt_wake_pending := x, wt_in_use := y\<rparr>) bits = ef_matched all wb bits"
  by (simp add: emu_ef_waiter_matches_def ef_matched_def Let_def)

text \<open>A registered waiter whose bits are set while it sleeps.\<close>

lemma ef_wait_loop_woken:
  assumes inv: "ef_inv p s" and k: "k < ef_slots p s" "wt_in_use (ef_waiter p s k)" "wt_sem (ef_waiter p s k) = Some i"
    and w: "\<not> wt_wake_pending (ef_waiter p s k)" "emu_ef_waiter_matches (ef_waiter p s k) (ef_bits (ef_obj s p) OR b)"
    and m: "ef_matched all wb (ef_bits (ef_obj s p) OR b)"
    and t: "timeout \<noteq> NO_WAIT" "bm_ticks_now s < bm_deadline timeout s"
  obtains s' where "ef_wait_loop p k wb clear all timeout (osal_clock_ticks s) ((ef_setter p b, False) # (id, False) # env) s =
      Some (Ok, Some (ef_bits (ef_obj s p) OR b), s', env)" "ef_inv p s'"
    "ef_bits (ef_obj s' p) = (if clear then (ef_bits (ef_obj s p) OR b) AND NOT wb else ef_bits (ef_obj s p) OR b)"
    "\<not> wt_in_use (ef_waiter p s' k)"
proof -
  have core: "ef_core p s" and fr: "ef_guard_free p s" using inv by (simp_all add: ef_inv_def)
  note S = ef_setter_wakes [OF inv k(1,2,3) w(2,1)]
  let ?s5 = "ef_setter p b s"
  have z: "sem_get i s = 0" using ef_coreD(3) [OF core k(1)] k w(1) by (auto simp: ef_slot_ok_def)
  have to: "\<not> (timeout \<noteq> WAIT_FOREVER \<and> osal_clock_ticks s - osal_clock_ticks s \<ge> timeout)"
    using t(1) by (simp add: NO_WAIT_def)
  have rem: "(if timeout \<noteq> WAIT_FOREVER then timeout - (osal_clock_ticks s - osal_clock_ticks s) else WAIT_FOREVER) = timeout" by simp
  have take: "osal_semaphore_take (Some (Some i)) timeout ((ef_setter p b, False) # (id, False) # env) s = Some (Ok, sem_set i 0 ?s5, env)"
    using z t S(2) by (simp add: osal_semaphore_take_def Let_def)
  let ?s6 = "sem_set i 0 ?s5"
  have core5: "ef_core p ?s5" and fr5: "ef_guard_free p ?s5" using S(1) by (simp_all add: ef_inv_def)
  have core6: "ef_core p ?s6"
    by (rule ef_core_sem_set [OF core5, of k]) (use k S in simp_all)
  have fr6: "ef_guard_free p ?s6" using fr5 by simp
  obtain g where g: "ef_guard (ef_obj ?s6 p) = Some g" "g < length (bm_mutex_pool ?s6)" "\<not> mtx_flag (bm_mutex_pool ?s6 ! g)"
    and lock: "osal_mutex_lock (Some (ef_guard (ef_obj ?s6 p))) WAIT_FOREVER env ?s6 =
       Some (Ok, ?s6\<lparr>bm_mutex_pool := (bm_mutex_pool ?s6)[g := (bm_mutex_pool ?s6 ! g)\<lparr>mtx_flag := True\<rparr>]\<rparr>, env)"
    by (rule ef_lock_free [OF fr6])
  define s7 where "s7 = ?s6\<lparr>bm_mutex_pool := (bm_mutex_pool ?s6)[g := (bm_mutex_pool ?s6 ! g)\<lparr>mtx_flag := True\<rparr>]\<rparr>"
  have obj7: "ef_obj s7 p = ef_obj ?s5 p" and mp7: "bm_mutex_pool s7 = (bm_mutex_pool ?s6)[g := (bm_mutex_pool ?s6 ! g)\<lparr>mtx_flag := True\<rparr>]"
    and core7: "ef_core p s7" using core6 by (simp_all add: s7_def)
  obtain s' where fin: "ef_finish p k wb clear env s7 = Some (Ok, Some (ef_bits (ef_obj s7 p)), s', env)" "ef_inv p s'"
    "ef_bits (ef_obj s' p) = (if clear then ef_bits (ef_obj s7 p) AND NOT wb else ef_bits (ef_obj s7 p))"
    "\<not> wt_in_use (ef_waiter p s' k)"
    by (rule ef_finish_inv [OF core7 g(2,3) _ mp7, of k wb clear env]) (use g(1) k S obj7 in simp_all)
  have "ef_wait_loop p k wb clear all timeout (osal_clock_ticks s) ((ef_setter p b, False) # (id, False) # env) s =
      ef_finish p k wb clear env s7"
    by (subst ef_wait_loop.simps, unfold rem if_not_P [OF to] k(3)) (use take lock m S(5) obj7 in \<open>simp add: s7_def [symmetric]\<close>)
  with that [of s'] fin S(5) obj7 show ?thesis by simp
qed

text \<open>A wait that has to sleep registers in a free slot first, dropping a stale token from it.\<close>

lemma ef_wait_registers:
  assumes inv: "ef_inv p s" and free: "j < ef_slots p s" "\<not> wt_in_use (ef_waiter p s j)"
    and m: "\<not> ef_matched all wb (ef_bits (ef_obj s p))" and t: "timeout \<noteq> NO_WAIT"
  obtains pre k i s4 where "set pre \<subseteq> {(id, False)}" "k < ef_slots p s" "wt_sem (ef_waiter p s k) = Some i"
    "emu_ef_wait p wb clear all timeout (pre @ rest) s = ef_wait_loop p k wb clear all timeout (osal_clock_ticks s4) rest s4"
    "ef_inv p s4" "g_ticks s4 = g_ticks s" "ef_slots p s4 = ef_slots p s" "ef_bits (ef_obj s4 p) = ef_bits (ef_obj s p)"
    "ef_waiter p s4 k = (ef_waiter p s k)\<lparr>wt_wait_bits := wb, wt_wait_all := all, wt_wake_pending := False, wt_in_use := True\<rparr>"
proof -
  have core: "ef_core p s" and fr: "ef_guard_free p s" using inv by (simp_all add: ef_inv_def)
  have p: "p < length (emu_ef_pool s)" by (rule ef_coreD(1) [OF core])
  obtain k where k: "emu_ef_claim_waiter_slot (ef_obj s p) = Some k"
    using ef_claim_spec(2) [of "ef_obj s p" j] free ef_coreD(4) [OF core free(1)] by (cases "emu_ef_claim_waiter_slot (ef_obj s p)") auto
  then have kn: "k < ef_slots p s" "\<not> wt_in_use (ef_waiter p s k)"
    using ef_claim_spec(1) [OF k] ef_coreD(4) [OF core] by auto
  obtain i where i: "wt_sem (ef_waiter p s k) = Some i" "i < length (bm_sem_pool s)" "sem_get i s \<le> 1"
    using ef_coreD(3) [OF core kn(1)] by (auto simp: ef_slot_ok_def)
  define pre where "pre = (if sem_get i s = 0 then [] else [(id :: ef_state \<Rightarrow> ef_state, False)])"
  obtain g where g: "ef_guard (ef_obj s p) = Some g" "g < length (bm_mutex_pool s)" "\<not> mtx_flag (bm_mutex_pool s ! g)"
    and lock: "osal_mutex_lock (Some (ef_guard (ef_obj s p))) WAIT_FOREVER (pre @ rest) s =
       Some (Ok, s\<lparr>bm_mutex_pool := (bm_mutex_pool s)[g := (bm_mutex_pool s ! g)\<lparr>mtx_flag := True\<rparr>]\<rparr>, pre @ rest)"
    by (rule ef_lock_free [OF fr])
  define s1 where "s1 = s\<lparr>bm_mutex_pool := (bm_mutex_pool s)[g := (bm_mutex_pool s ! g)\<lparr>mtx_flag := True\<rparr>]\<rparr>"
  have s1: "ef_core p s1" "ef_obj s1 p = ef_obj s p" "sem_get i s1 = sem_get i s" using core by (simp_all add: s1_def)
  define s2 where "s2 = sem_set i 0 s1"
  have s2: "ef_core p s2" "ef_obj s2 p = ef_obj s p" "sem_get i s2 = 0" "p < length (emu_ef_pool s2)" "bm_mutex_pool s2 = bm_mutex_pool s1"
    using ef_core_sem_set [OF s1(1), of k i 0] s1 kn i p by (simp_all add: s2_def s1_def sem_get_def sem_set_def)
  have "osal_semaphore_try_take (Some (Some i)) (pre @ rest) s1 = Some (if sem_get i s = 0 then Would_block else Ok, s2, rest)"
  proof (cases "sem_get i s = 0")
    case True
    then have "sem_set i 0 s1 = s1" using s1(3) sem_set_same [of i s1] by simp
    with True s1(3) sem_try_take_empty [of i s1] show ?thesis by (simp add: pre_def s2_def)
  next
    case False
    then have "sem_get i s = 1" "sem_get i s > 0" using word_le_one i(3) by (auto simp: word_gt_0)
    with False s1(3) sem_take_quiet [of i s1 NO_WAIT] show ?thesis by (simp add: pre_def s2_def osal_semaphore_try_take_def)
  qed
  then have try': "osal_semaphore_try_take (Some (wt_sem (ef_waiter p s1 k))) (pre @ rest) s1 = Some (if sem_get i s = 0 then Would_block else Ok, s2, rest)"
    using i(1) s1(2) by simp
  define s3 where "s3 = ef_register p k wb all s2"
  note obj3 = ef_register_obj [OF s2(4), of k wb all, folded s3_def]
  have core3: "ef_core p s3" unfolding s3_def
    by (rule ef_core_register [OF s2(1), of k i]) (use kn i s2 in simp_all)
  define s4 where "s4 = s3\<lparr>bm_mutex_pool := bm_mutex_pool s\<rparr>"
  have unl: "ef_unlock p s3 = s4" unfolding s4_def
    by (rule ef_unlock_relock [OF g(2,3)]) (use obj3 g(1) s2 in \<open>simp_all add: s3_def s1_def\<close>)
  have obj4: "ef_obj s4 p = ef_obj s3 p" and tk: "g_ticks s4 = g_ticks s" by (simp_all add: s4_def s3_def s2_def s1_def sem_set_def)
  have "ef_guard_free p s4" using g obj3 s2(2) by (simp add: ef_guard_free_def s4_def)
  then have inv4: "ef_inv p s4" using core3 by (simp add: ef_inv_def s4_def)
  have w4: "ef_waiter p s4 k = (ef_waiter p s k)\<lparr>wt_wait_bits := wb, wt_wait_all := all, wt_wake_pending := False, wt_in_use := True\<rparr>"
    and sl4: "ef_slots p s4 = ef_slots p s" and b4: "ef_bits (ef_obj s4 p) = ef_bits (ef_obj s p)"
    using obj4 obj3 s2(2) kn(1) by simp_all
  have "emu_ef_wait p wb clear all timeout (pre @ rest) s = ef_wait_loop p k wb clear all timeout (osal_clock_ticks s4) rest s4"
    unfolding emu_ef_wait_def lock
    using m t k try' b4 obj4 unl by (simp add: s1_def [symmetric] s1(2) s3_def [symmetric] Let_def)
  with that [OF _ kn(1) i(1) _ inv4 tk sl4 b4 w4, of pre] show ?thesis by (simp add: pre_def)
qed

text \<open>
  A blocked waiter is released. A task that waits for bits that are not set yet, with any timeout
  that has not already expired and a free slot, and another task that sets the missing bits while it
  sleeps: the wait returns \<open>Ok\<close> with the new flags, the awaited bits are cleared exactly if it asked
  for that, and the group is well formed again (before the setter runs the waiter takes at most one
  undisturbed step, to drop a stale token from its slot).
\<close>

theorem event_flags_wait_released:
  assumes inv: "ef_inv p s" and free: "j < ef_slots p s" "\<not> wt_in_use (ef_waiter p s j)"
    and m: "\<not> ef_matched all wb (ef_bits (ef_obj s p))" "ef_matched all wb (ef_bits (ef_obj s p) OR b)"
    and t: "timeout \<noteq> NO_WAIT" "bm_ticks_now s < bm_deadline timeout s"
  shows "\<exists>pre s'. set pre \<subseteq> {(id, False)} \<and>
    emu_ef_wait p wb clear all timeout (pre @ (ef_setter p b, False) # (id, False) # env) s =
      Some (Ok, Some (ef_bits (ef_obj s p) OR b), s', env) \<and> ef_inv p s' \<and>
    ef_bits (ef_obj s' p) = (if clear then (ef_bits (ef_obj s p) OR b) AND NOT wb else ef_bits (ef_obj s p) OR b)"
proof -
  let ?rest = "(ef_setter p b, False) # (id, False) # env"
  obtain pre k i s4 where r: "set pre \<subseteq> {(id, False)}" "k < ef_slots p s" "wt_sem (ef_waiter p s k) = Some i"
    "emu_ef_wait p wb clear all timeout (pre @ ?rest) s = ef_wait_loop p k wb clear all timeout (osal_clock_ticks s4) ?rest s4"
    "ef_inv p s4" "g_ticks s4 = g_ticks s" "ef_slots p s4 = ef_slots p s" "ef_bits (ef_obj s4 p) = ef_bits (ef_obj s p)"
    "ef_waiter p s4 k = (ef_waiter p s k)\<lparr>wt_wait_bits := wb, wt_wait_all := all, wt_wake_pending := False, wt_in_use := True\<rparr>"
    by (rule ef_wait_registers [OF inv free m(1) t(1)])
  have t': "bm_ticks_now s4 < bm_deadline timeout s4" using t(2) unfolding bm_deadline_def bm_ticks_now_def r(6) .
  obtain s' where loop: "ef_wait_loop p k wb clear all timeout (osal_clock_ticks s4) ?rest s4 =
      Some (Ok, Some (ef_bits (ef_obj s4 p) OR b), s', env)" "ef_inv p s'"
    "ef_bits (ef_obj s' p) = (if clear then (ef_bits (ef_obj s4 p) OR b) AND NOT wb else ef_bits (ef_obj s4 p) OR b)"
    by (rule ef_wait_loop_woken [OF r(5) _ _ _ _ _ _ t(1) t', of k i b all wb clear env]) (use r m in \<open>simp_all add: ef_matched_iff\<close>)
  show ?thesis using loop r by (intro exI [of _ pre] exI [of _ s']) simp
qed

theorem event_flags_wait_released_witness:
  "\<exists>pre s'. emu_ef_wait 0 4 True False 10 (pre @ [(ef_setter 0 6, False), (id, False)]) ef_demo = Some (Ok, Some 7, s', []) \<and>
     ef_bits (ef_obj s' 0) = 3"
proof -
  have "bm_ticks_now ef_demo < bm_deadline 10 ef_demo"
    by (simp add: bm_ticks_now_def bm_deadline_def ef_demo_simps WAIT_FOREVER_def)
  moreover have "\<not> ef_matched False 4 (ef_bits (ef_obj ef_demo 0))" "ef_matched False 4 (ef_bits (ef_obj ef_demo 0) OR 6)"
    by (simp_all add: ef_matched_def ef_demo_simps)
  ultimately show ?thesis
    using event_flags_wait_released [OF ef_demo_ok, of "Suc 0" False 4 6 10 True "[]"]
    by (auto simp: ef_demo_simps NO_WAIT_def)
qed

text \<open>
  The result of a wait, whatever runs in between: interference may do anything to the groups but change
  the pool and its slots.
\<close>

definition ef_env_ok :: "ef_env \<Rightarrow> bool" where
  "ef_env_ok env \<longleftrightarrow> (\<forall>e \<in> set env. \<forall>s. length (emu_ef_pool (fst e s)) = length (emu_ef_pool s))"

definition ef_wait_post :: "nat \<Rightarrow> event_bits \<Rightarrow> bool \<Rightarrow> bool \<Rightarrow> tick_t \<Rightarrow> error_code \<times> event_bits option \<times> ef_state \<times> ef_env \<Rightarrow> bool" where
  "ef_wait_post p wb clear all timeout res \<longleftrightarrow>
     (case res of (r, actual, s', env') \<Rightarrow>
        (r = Ok \<longrightarrow> (\<exists>b. actual = Some b \<and> ef_matched all wb b \<and>
           ef_bits (ef_obj s' p) = (if clear then b AND NOT wb else b))) \<and>
        (r \<noteq> Ok \<longrightarrow> (\<forall>b. actual = Some b \<longrightarrow> ef_bits (ef_obj s' p) = b)) \<and>
        (r = Would_block \<longleftrightarrow> timeout = NO_WAIT \<and> r \<noteq> Ok) \<and>
        r \<in> {Ok, Would_block, Out_of_resources, Timeout})"

lemma ef_unlock_frame [simp]:
  "ef_obj (ef_unlock p s) q = ef_obj s q" "emu_ef_pool (ef_unlock p s) = emu_ef_pool s"
  by (simp_all add: ef_unlock_def osal_mutex_unlock_def split: option.splits)

lemma ef_exit_post:
  assumes "p < length (emu_ef_pool s)"
  shows "ef_bits (ef_obj (release_waiter p k s) p) = ef_bits (ef_obj s p)"
    and "ef_bits (ef_obj (ef_exit_bits p wb clear s) p) = (if clear then ef_bits (ef_obj s p) AND NOT wb else ef_bits (ef_obj s p))"
    and "length (emu_ef_pool (ef_exit_bits p wb clear s)) = length (emu_ef_pool s)"
  using assms by (simp_all add: release_waiter_obj ef_exit_bits_def)

lemma ef_finish_post:
  assumes "p < length (emu_ef_pool s)" "ef_matched all wb (ef_bits (ef_obj s p))" "timeout \<noteq> NO_WAIT"
    and "ef_finish p k wb clear env s = Some res"
  shows "ef_wait_post p wb clear all timeout res"
  using assms by (auto simp: ef_finish_def ef_wait_post_def ef_exit_post)

lemma ef_lock_pool:
  assumes "osal_mutex_lock h t env s = Some (r, s', env')" "ef_env_ok env" "p < length (emu_ef_pool s)"
  shows "p < length (emu_ef_pool s')" "ef_env_ok env'"
  using mutex_lock_inv [OF assms(1), of "\<lambda>s. p < length (emu_ef_pool s)"] assms(2,3)
  by (auto simp: ef_env_ok_def)

lemma ef_take_pool:
  assumes "osal_semaphore_take h t env s = Some (r, s', env')" "ef_env_ok env" "p < length (emu_ef_pool s)"
  shows "p < length (emu_ef_pool s')" "ef_env_ok env'"
  using sem_take_inv [OF assms(1), of "\<lambda>s. p < length (emu_ef_pool s)"] assms(2,3)
  by (auto simp: ef_env_ok_def sem_set_def)

lemma ef_wait_loop_post:
  assumes "ef_wait_loop p k wb clear all timeout start env s = Some res" "p < length (emu_ef_pool s)" "ef_env_ok env" "timeout \<noteq> NO_WAIT"
  shows "ef_wait_post p wb clear all timeout res"
  using assms
proof (induction rule: ef_wait_loop.raw_induct [rotated 1, consumes 1])
  case (1 loop p k wb clear all timeout start env s res)
  show ?case
  proof (cases "timeout \<noteq> WAIT_FOREVER \<and> osal_clock_ticks s - start \<ge> timeout")
    case True
    then obtain r s1 env1 where "osal_mutex_lock (Some (ef_guard (ef_obj s p))) WAIT_FOREVER env s = Some (r, s1, env1)"
      and res: "res = (Timeout, Some (ef_bits (ef_obj s1 p)), ef_unlock p (release_waiter p k s1), env1)"
      using 1(2) by (auto split: bind_splits)
    with ef_lock_pool [OF this(1) 1(4,3)] show ?thesis using 1(5) by (simp add: ef_wait_post_def ef_exit_post)
  next
    case False
    then obtain r s1 env1 r2 s2 env2 where
      tk: "osal_semaphore_take (Some (wt_sem (ef_waiters (ef_obj s p) ! k)))
          (if timeout \<noteq> WAIT_FOREVER then timeout - (osal_clock_ticks s - start) else WAIT_FOREVER) env s = Some (r, s1, env1)" and
      lk: "osal_mutex_lock (Some (ef_guard (ef_obj s1 p))) WAIT_FOREVER env1 s1 = Some (r2, s2, env2)" and
      rest: "(if ef_matched all wb (ef_bits (ef_obj s2 p)) then ef_finish p k wb clear env2 s2
        else let s3 = ef_reopen p k s2 in
          if ef_matched all wb (ef_bits (ef_obj s3 p)) then ef_finish p k wb clear env2 s3
          else loop p k wb clear all timeout start env2 (ef_unlock p s3)) = Some res"
      using 1(2) by (auto split: bind_splits)
    note a = ef_take_pool [OF tk 1(4,3)]
    note b = ef_lock_pool [OF lk a(2,1)]
    have c: "p < length (emu_ef_pool (ef_reopen p k s2))" "p < length (emu_ef_pool (ef_unlock p (ef_reopen p k s2)))"
      using b(1) by (simp_all add: ef_reopen_def Let_def)
    show ?thesis
      using rest ef_finish_post [OF b(1) _ 1(5)] ef_finish_post [OF c(1) _ 1(5)]
        1(1) [OF _ c(2) b(2) 1(5)]
      by (auto simp: Let_def split: if_splits)
  qed
qed

text \<open>
  What a wait reports is true, under every interference. When it returns \<open>Ok\<close>, the flags it
  reports satisfied the condition, and the flags are those, without the awaited bits if it was asked
  to clear them; in every other case the flags it reports are the flags it leaves; \<open>Would_block\<close> is
  the answer exactly of an unsuccessful \<open>NO_WAIT\<close>.
\<close>

theorem event_flags_wait_result:
  assumes "emu_ef_wait p wb clear all timeout env s = Some (r, actual, s', env')" "p < length (emu_ef_pool s)" "ef_env_ok env"
  shows "(r = Ok \<longrightarrow> (\<exists>b. actual = Some b \<and> ef_matched all wb b \<and>
       osal_event_flags_get (Some (Some p)) s' = (if clear then b AND NOT wb else b))) \<and>
    (r \<noteq> Ok \<longrightarrow> (\<forall>b. actual = Some b \<longrightarrow> osal_event_flags_get (Some (Some p)) s' = b)) \<and>
    (r = Would_block \<longleftrightarrow> timeout = NO_WAIT \<and> r \<noteq> Ok) \<and> r \<in> {Ok, Would_block, Out_of_resources, Timeout}"
proof -
  obtain r1 s1 env1 where lk: "osal_mutex_lock (Some (ef_guard (ef_obj s p))) WAIT_FOREVER env s = Some (r1, s1, env1)"
    using assms(1) unfolding emu_ef_wait_def by (auto split: bind_splits)
  note l = ef_lock_pool [OF lk assms(3,2)]
  have "ef_wait_post p wb clear all timeout (r, actual, s', env')"
  proof (cases "ef_matched all wb (ef_bits (ef_obj s1 p)) \<or> timeout = NO_WAIT \<or> emu_ef_claim_waiter_slot (ef_obj s1 p) = None")
    case True
    then show ?thesis using assms(1) lk l
      by (auto simp: emu_ef_wait_def ef_wait_post_def ef_exit_post split: if_splits)
  next
    case False
    then obtain k where k: "emu_ef_claim_waiter_slot (ef_obj s1 p) = Some k" by blast
    with False assms(1) lk obtain r2 s2 env2 where
      tk: "osal_semaphore_try_take (Some (wt_sem (ef_waiters (ef_obj s1 p) ! k))) env1 s1 = Some (r2, s2, env2)" and
      rest: "(let s3 = ef_register p k wb all s2 in
         if ef_matched all wb (ef_bits (ef_obj s3 p)) then ef_finish p k wb clear env2 s3
         else let s4 = ef_unlock p s3
           in ef_wait_loop p k wb clear all timeout (osal_clock_ticks s4) env2 s4) = Some (r, actual, s', env')"
      by (auto simp: emu_ef_wait_def split: bind_splits)
    note t = ef_take_pool [OF tk [unfolded osal_semaphore_try_take_def] l(2,1)]
    have p3: "p < length (emu_ef_pool (ef_register p k wb all s2))" using t(1) by simp
    then have p4: "p < length (emu_ef_pool (ef_unlock p (ef_register p k wb all s2)))" by simp
    have nw: "timeout \<noteq> NO_WAIT" using False by blast
    show ?thesis using rest ef_finish_post [OF p3 _ nw] ef_wait_loop_post [OF _ p4 t(2) nw] by (auto simp: Let_def split: if_splits)
  qed
  then show ?thesis unfolding ef_wait_post_def osal_event_flags_get_def prod.case native_of_simps option.case .
qed

theorem event_flags_wait_result_witness:
  "\<exists>s'. emu_ef_wait 0 1 True True NO_WAIT [] ef_demo = Some (Ok, Some 1, s', []) \<and> osal_event_flags_get (Some (Some 0)) s' = 0"
proof -
  have run: "\<exists>s'. emu_ef_wait 0 1 True True NO_WAIT [] ef_demo = Some (Ok, Some 1, s', [])"
    by (simp add: emu_ef_wait_def ef_demo_def ef_obj_def osal_mutex_lock_def mutex_lock_body_def mutex_test_and_set_def ef_matched_def)
  then obtain s' where s': "emu_ef_wait 0 1 True True NO_WAIT [] ef_demo = Some (Ok, Some 1, s', [])" by blast
  have "ef_env_ok []" "(0 :: nat) < length (emu_ef_pool ef_demo)" by (simp_all add: ef_env_ok_def ef_demo_def)
  with event_flags_wait_result [OF s'] s' show ?thesis by auto
qed

end
