(* ===== verification/Osal_Condvar.thy ===== *)
theory Osal_Condvar
  imports Bm_Sync "HOL-Library.Monad_Syntax"
begin

text \<open>
  The emulated condition variable, \<^verbatim>\<open>src/common/emulated_condvar.inl\<close>: a guard mutex and one slot
  with a binary semaphore per waiting task. The emulated read-write lock, barrier and work queue are
  built on it, so its operations are typed over the record scheme.
\<close>

record emulated_condvar_waiter =
  cw_sem :: handle
  cw_in_use :: bool
  cw_signalled :: bool

record emulated_condvar_obj =
  cv_waiters :: "emulated_condvar_waiter list"
  cv_guard :: handle
  cv_n_waiters :: u64
  cv_pool_allocated :: bool

record cv_state = bm_state +
  emu_cv_pool :: "emulated_condvar_obj list"
  emu_cv_used :: "bool list"

definition cv_obj :: "'z cv_state_scheme \<Rightarrow> nat \<Rightarrow> emulated_condvar_obj" where
  "cv_obj s p = emu_cv_pool s ! p"

definition cv_put :: "nat \<Rightarrow> emulated_condvar_obj \<Rightarrow> 'z cv_state_scheme \<Rightarrow> 'z cv_state_scheme" where
  "cv_put p obj s = s\<lparr>emu_cv_pool := (emu_cv_pool s)[p := obj]\<rparr>"

definition emu_cv_acquire :: "'z cv_state_scheme \<Rightarrow> nat option \<times> 'z cv_state_scheme" where
  "emu_cv_acquire s =
     (case first_unused (emu_cv_used s) 0 of
        Some i \<Rightarrow> (Some i, s\<lparr>emu_cv_used := (emu_cv_used s)[i := True]\<rparr>)
      | None \<Rightarrow> (None, s))"

definition emu_cv_release :: "nat \<Rightarrow> 'z cv_state_scheme \<Rightarrow> 'z cv_state_scheme" where
  "emu_cv_release p s =
     (if p < length (emu_cv_pool s) then s\<lparr>emu_cv_used := (emu_cv_used s)[p := False]\<rparr> else s)"

section \<open>Creation and destruction\<close>

text \<open>Creating the semaphores of the slots in order; the first component is \<^verbatim>\<open>created_count\<close>.\<close>

fun cv_create_sems ::
  "emulated_condvar_waiter list \<Rightarrow> 'z cv_state_scheme \<Rightarrow> nat \<times> emulated_condvar_waiter list \<times> 'z cv_state_scheme" where
  "cv_create_sems [] s = (0, [], s)"
| "cv_create_sems (w # ws) s =
     (case osal_semaphore_create (Some (cw_sem w)) 0 1 s of (r, h, s1) \<Rightarrow>
        if r \<noteq> Ok then (0, w\<lparr>cw_sem := the h\<rparr> # ws, s1)
        else case cv_create_sems ws s1 of (n, ws', s2) \<Rightarrow> (Suc n, w\<lparr>cw_sem := the h\<rparr> # ws', s2))"

fun cv_destroy_sems ::
  "emulated_condvar_waiter list \<Rightarrow> 'z cv_state_scheme \<Rightarrow> emulated_condvar_waiter list \<times> 'z cv_state_scheme" where
  "cv_destroy_sems [] s = ([], s)"
| "cv_destroy_sems (w # ws) s =
     (case osal_semaphore_destroy (Some (cw_sem w)) s of (_, h, s1) \<Rightarrow>
      case cv_destroy_sems ws s1 of (ws', s2) \<Rightarrow> (w\<lparr>cw_sem := h\<rparr> # ws', s2))"

definition osal_condvar_create ::
  "handle option \<Rightarrow> 'z cv_state_scheme \<Rightarrow> error_code \<times> handle option \<times> 'z cv_state_scheme" where
  "osal_condvar_create hnd s =
     (if hnd = None then (Invalid_argument, hnd, s)
      else case emu_cv_acquire s of
        (None, s1) \<Rightarrow> (Out_of_resources, hnd, s1)
      | (Some p, s1) \<Rightarrow>
          let cv1 = (cv_obj s1 p)\<lparr>cv_n_waiters := 0, cv_pool_allocated := True,
                cv_waiters := map (\<lambda>w. w\<lparr>cw_in_use := False, cw_signalled := False\<rparr>) (cv_waiters (cv_obj s1 p))\<rparr>
          in case osal_mutex_create (cv_guard cv1) (cv_put p cv1 s1) of (r2, g, s2) \<Rightarrow>
            let cv2 = cv1\<lparr>cv_guard := g\<rparr> in
            if r2 \<noteq> Ok then (Out_of_resources, hnd, emu_cv_release p (cv_put p cv2 s2))
            else case cv_create_sems (cv_waiters cv2) (cv_put p cv2 s2) of (n, ws, s3) \<Rightarrow>
              if n < length (cv_waiters cv2) then
                case cv_destroy_sems (take n ws) s3 of (ws', s4) \<Rightarrow>
                case osal_mutex_destroy (Some g) s4 of (_, g', s5) \<Rightarrow>
                  (Out_of_resources, hnd,
                   emu_cv_release p (cv_put p (cv2\<lparr>cv_waiters := ws' @ drop n ws, cv_guard := g'\<rparr>) s5))
              else (Ok, Some (Some p), cv_put p (cv2\<lparr>cv_waiters := ws\<rparr>) s3))"

definition osal_condvar_destroy ::
  "handle option \<Rightarrow> 'z cv_state_scheme \<Rightarrow> error_code \<times> handle option \<times> 'z cv_state_scheme" where
  "osal_condvar_destroy hnd s =
     (case native_of hnd of
        None \<Rightarrow> (Ok, hnd, s)
      | Some p \<Rightarrow>
          case cv_destroy_sems (cv_waiters (cv_obj s p)) s of (ws, s1) \<Rightarrow>
          case osal_mutex_destroy (Some (cv_guard (cv_obj s p))) s1 of (_, g, s2) \<Rightarrow>
            (Ok, Some None, emu_cv_release p (cv_put p ((cv_obj s p)\<lparr>cv_waiters := ws, cv_guard := g\<rparr>) s2)))"

section \<open>Waiting\<close>

fun cv_free_slot :: "emulated_condvar_waiter list \<Rightarrow> nat \<Rightarrow> nat option" where
  "cv_free_slot [] k = None"
| "cv_free_slot (w # ws) k = (if \<not> cw_in_use w then Some k else cv_free_slot ws (Suc k))"

definition cv_unlock :: "nat \<Rightarrow> 'z cv_state_scheme \<Rightarrow> 'z cv_state_scheme" where
  "cv_unlock p s = snd (osal_mutex_unlock (Some (cv_guard (cv_obj s p))) s)"

definition cv_register :: "nat \<Rightarrow> nat \<Rightarrow> 'z cv_state_scheme \<Rightarrow> 'z cv_state_scheme" where
  "cv_register p k s =
     (let cv = cv_obj s p
      in cv_put p (cv\<lparr>cv_waiters := (cv_waiters cv)[k := (cv_waiters cv ! k)\<lparr>cw_in_use := True, cw_signalled := False\<rparr>],
           cv_n_waiters := cv_n_waiters cv + 1\<rparr>) s)"

definition cv_unregister :: "nat \<Rightarrow> nat \<Rightarrow> 'z cv_state_scheme \<Rightarrow> 'z cv_state_scheme" where
  "cv_unregister p k s =
     (let cv = cv_obj s p
      in cv_put p (cv\<lparr>cv_waiters := (cv_waiters cv)[k := (cv_waiters cv ! k)\<lparr>cw_in_use := False\<rparr>],
           cv_n_waiters := cv_n_waiters cv - 1\<rparr>) s)"

text \<open>
  Blocking in slot \<open>k\<close>, re-acquiring the caller's mutex, and releasing the slot. The caller's mutex is
  given by its pointer, \<open>None\<close> if null.
\<close>

definition cv_sleep ::
  "nat \<Rightarrow> nat \<Rightarrow> handle option \<Rightarrow> tick_t \<Rightarrow> 'z cv_state_scheme env \<Rightarrow> 'z cv_state_scheme
   \<Rightarrow> (error_code \<times> 'z cv_state_scheme \<times> 'z cv_state_scheme env) option" where
  "cv_sleep p k mutex timeout env s = do {
     (r, s1, env1) \<leftarrow> osal_semaphore_take (Some (cw_sem (cv_waiters (cv_obj s p) ! k))) timeout env s;
     (_, s2, env2) \<leftarrow> osal_mutex_lock mutex WAIT_FOREVER env1 s1;
     (_, s3, env3) \<leftarrow> osal_mutex_lock (Some (cv_guard (cv_obj s2 p))) WAIT_FOREVER env2 s2;
     Some (r, cv_unlock p (cv_unregister p k s3), env3) }"

text \<open>Letting go of the caller's mutex: from here on the others may run, also before the caller sleeps.\<close>

definition cv_release_mutex :: "handle option \<Rightarrow> 'z cv_state_scheme env \<Rightarrow> 'z cv_state_scheme \<Rightarrow> ('z cv_state_scheme \<times> 'z cv_state_scheme env) option" where
  "cv_release_mutex mutex env s = sched env (snd (osal_mutex_unlock mutex s))"

definition osal_condvar_wait ::
  "handle option \<Rightarrow> handle option \<Rightarrow> tick_t \<Rightarrow> 'z cv_state_scheme env \<Rightarrow> 'z cv_state_scheme
   \<Rightarrow> (error_code \<times> 'z cv_state_scheme \<times> 'z cv_state_scheme env) option" where
  "osal_condvar_wait hnd mutex timeout env s =
     (if mutex = None then Some (Not_initialized, s, env)
      else case native_of hnd of
        None \<Rightarrow> Some (Not_initialized, s, env)
      | Some p \<Rightarrow> do {
          (_, s1, env1) \<leftarrow> osal_mutex_lock (Some (cv_guard (cv_obj s p))) WAIT_FOREVER env s;
          case cv_free_slot (cv_waiters (cv_obj s1 p)) 0 of
            None \<Rightarrow> Some (Out_of_resources, cv_unlock p s1, env1)
          | Some k \<Rightarrow> do {
              (_, s2, env2) \<leftarrow> osal_semaphore_try_take (Some (cw_sem (cv_waiters (cv_obj s1 p) ! k))) env1 s1;
              let s3 = cv_unlock p (cv_register p k s2);
              (s4, env4) \<leftarrow> cv_release_mutex mutex env2 s3;
              cv_sleep p k mutex timeout env4 s4 } })"

section \<open>Notifying\<close>

definition cv_signal :: "nat \<Rightarrow> nat \<Rightarrow> 'z cv_state_scheme env \<Rightarrow> 'z cv_state_scheme
   \<Rightarrow> ('z cv_state_scheme \<times> 'z cv_state_scheme env) option" where
  "cv_signal p k env s =
     (let cv = cv_obj s p; w = cv_waiters cv ! k in do {
        (_, s1, env1) \<leftarrow> osal_semaphore_give (Some (cw_sem w)) env
          (cv_put p (cv\<lparr>cv_waiters := (cv_waiters cv)[k := w\<lparr>cw_signalled := True\<rparr>]\<rparr>) s);
        Some (s1, env1) })"

text \<open>
  The loops over the waiters, from slot \<open>k\<close>, with \<open>j\<close> slots to go; \<open>one\<close> for the loop of
  \<open>notify_one\<close>, which stops at the first waiter it signals.
\<close>

fun cv_notify_from :: "bool \<Rightarrow> nat \<Rightarrow> nat \<Rightarrow> nat \<Rightarrow> 'z cv_state_scheme env \<Rightarrow> 'z cv_state_scheme
   \<Rightarrow> ('z cv_state_scheme \<times> 'z cv_state_scheme env) option" where
  "cv_notify_from one p k 0 env s = Some (s, env)"
| "cv_notify_from one p k (Suc j) env s =
     (let w = cv_waiters (cv_obj s p) ! k in
      if cw_in_use w \<and> \<not> cw_signalled w then
        case cv_signal p k env s of
          None \<Rightarrow> None
        | Some (s1, env1) \<Rightarrow> if one then Some (s1, env1) else cv_notify_from one p (Suc k) j env1 s1
      else cv_notify_from one p (Suc k) j env s)"

definition cv_notify :: "bool \<Rightarrow> handle option \<Rightarrow> 'z cv_state_scheme env \<Rightarrow> 'z cv_state_scheme
   \<Rightarrow> (error_code \<times> 'z cv_state_scheme \<times> 'z cv_state_scheme env) option" where
  "cv_notify one hnd env s =
     (case native_of hnd of
        None \<Rightarrow> Some (Not_initialized, s, env)
      | Some p \<Rightarrow> do {
          (_, s1, env1) \<leftarrow> osal_mutex_lock (Some (cv_guard (cv_obj s p))) WAIT_FOREVER env s;
          if cv_n_waiters (cv_obj s1 p) = 0 then Some (Ok, cv_unlock p s1, env1)
          else do {
            (s2, env2) \<leftarrow> cv_notify_from one p 0 (length (cv_waiters (cv_obj s1 p))) env1 s1;
            Some (Ok, cv_unlock p s2, env2) } })"

definition osal_condvar_notify_one :: "handle option \<Rightarrow> 'z cv_state_scheme env \<Rightarrow> 'z cv_state_scheme
   \<Rightarrow> (error_code \<times> 'z cv_state_scheme \<times> 'z cv_state_scheme env) option" where
  "osal_condvar_notify_one hnd env s = cv_notify True hnd env s"

definition osal_condvar_notify_all :: "handle option \<Rightarrow> 'z cv_state_scheme env \<Rightarrow> 'z cv_state_scheme
   \<Rightarrow> (error_code \<times> 'z cv_state_scheme \<times> 'z cv_state_scheme env) option" where
  "osal_condvar_notify_all hnd env s = cv_notify False hnd env s"

section \<open>Well-formed condition variables\<close>

abbreviation cv_slots :: "nat \<Rightarrow> 'z cv_state_scheme \<Rightarrow> nat" where
  "cv_slots p s \<equiv> length (cv_waiters (cv_obj s p))"

abbreviation cv_waiter :: "nat \<Rightarrow> 'z cv_state_scheme \<Rightarrow> nat \<Rightarrow> emulated_condvar_waiter" where
  "cv_waiter p s k \<equiv> cv_waiters (cv_obj s p) ! k"

text \<open>A waiter that \<open>notify\<close> still has to reach.\<close>

definition cv_open :: "emulated_condvar_waiter \<Rightarrow> bool" where
  "cv_open w \<longleftrightarrow> cw_in_use w \<and> \<not> cw_signalled w"

definition cv_slot_ok :: "'z cv_state_scheme \<Rightarrow> emulated_condvar_waiter \<Rightarrow> bool" where
  "cv_slot_ok s w \<longleftrightarrow> (\<exists>i. cw_sem w = Some i \<and> i < length (bm_sem_pool s) \<and> sem_max (bm_sem_pool s ! i) = 1 \<and>
     sem_get i s \<le> 1 \<and> (cv_open w \<longrightarrow> sem_get i s = 0))"

definition cv_core :: "nat \<Rightarrow> 'z cv_state_scheme \<Rightarrow> bool" where
  "cv_core p s \<longleftrightarrow> p < length (emu_cv_pool s) \<and>
     (\<forall>k < cv_slots p s. cv_slot_ok s (cv_waiter p s k)) \<and>
     (\<forall>j < cv_slots p s. \<forall>k < cv_slots p s. cw_sem (cv_waiter p s j) = cw_sem (cv_waiter p s k) \<longrightarrow> j = k) \<and>
     unat (cv_n_waiters (cv_obj s p)) = card {k. k < cv_slots p s \<and> cw_in_use (cv_waiter p s k)} \<and>
     cv_slots p s < 2 ^ 64"

definition cv_inv :: "nat \<Rightarrow> 'z cv_state_scheme \<Rightarrow> bool" where
  "cv_inv p s \<longleftrightarrow> cv_core p s \<and> mutex_free (cv_guard (cv_obj s p)) s"

lemma cv_coreD:
  assumes "cv_core p s"
  shows "p < length (emu_cv_pool s)"
    and "j < cv_slots p s \<Longrightarrow> k < cv_slots p s \<Longrightarrow> cw_sem (cv_waiter p s j) = cw_sem (cv_waiter p s k) \<Longrightarrow> j = k"
    and "k < cv_slots p s \<Longrightarrow> cv_slot_ok s (cv_waiter p s k)"
    and "unat (cv_n_waiters (cv_obj s p)) = card {k. k < cv_slots p s \<and> cw_in_use (cv_waiter p s k)}"
  using assms by (simp_all add: cv_core_def)

lemma cv_obj_simps [simp]:
  "p < length (emu_cv_pool s) \<Longrightarrow> cv_obj (cv_put p obj s) q = (if q = p then obj else cv_obj s q)"
  "cv_obj (sem_set i c s) q = cv_obj s q"
  "cv_obj (s\<lparr>bm_mutex_pool := b\<rparr>) q = cv_obj s q"
  "cv_obj (s\<lparr>bm_sem_pool := sp\<rparr>) q = cv_obj s q"
  "length (emu_cv_pool (cv_put p obj s)) = length (emu_cv_pool s)"
  "bm_mutex_pool (cv_put p obj s) = bm_mutex_pool s"
  "bm_sem_pool (cv_put p obj s) = bm_sem_pool s"
  "sem_get i (cv_put p obj s) = sem_get i s"
  "sem_get i (s\<lparr>bm_mutex_pool := b\<rparr>) = sem_get i s"
  "g_ticks (cv_put p obj s) = g_ticks s"
  by (simp_all add: cv_obj_def cv_put_def sem_set_def sem_get_def nth_list_update)

section \<open>What a notification does\<close>

definition signalled_waiters :: "nat set \<Rightarrow> emulated_condvar_waiter list \<Rightarrow> emulated_condvar_waiter list" where
  "signalled_waiters A ws = map (\<lambda>k. if k \<in> A then (ws ! k)\<lparr>cw_signalled := True\<rparr> else ws ! k) [0..<length ws]"

definition sems_of :: "nat set \<Rightarrow> emulated_condvar_waiter list \<Rightarrow> nat set" where
  "sems_of A ws = {i. \<exists>k < length ws. k \<in> A \<and> cw_sem (ws ! k) = Some i}"

definition cv_signal_eff :: "nat \<Rightarrow> nat set \<Rightarrow> 'z cv_state_scheme \<Rightarrow> 'z cv_state_scheme" where
  "cv_signal_eff p A s =
     give_tokens (sems_of A (cv_waiters (cv_obj s p)))
       (cv_put p ((cv_obj s p)\<lparr>cv_waiters := signalled_waiters A (cv_waiters (cv_obj s p))\<rparr>) s)"

lemma signalled_simps [simp]:
  "length (signalled_waiters A ws) = length ws"
  "k < length ws \<Longrightarrow> signalled_waiters A ws ! k = (if k \<in> A then (ws ! k)\<lparr>cw_signalled := True\<rparr> else ws ! k)"
  by (simp_all add: signalled_waiters_def)

lemma cv_obj_tokens [simp]: "cv_obj (give_tokens T s) q = cv_obj s q" "emu_cv_pool (give_tokens T s) = emu_cv_pool s"
  by (simp_all add: give_tokens_def cv_obj_def)

lemma cv_signal_eff_frame [simp]:
  "p < length (emu_cv_pool s) \<Longrightarrow> cv_obj (cv_signal_eff p A s) q =
     (if q = p then (cv_obj s p)\<lparr>cv_waiters := signalled_waiters A (cv_waiters (cv_obj s p))\<rparr> else cv_obj s q)"
  "length (emu_cv_pool (cv_signal_eff p A s)) = length (emu_cv_pool s)"
  "bm_mutex_pool (cv_signal_eff p A s) = bm_mutex_pool s"
  "g_ticks (cv_signal_eff p A s) = g_ticks s"
  "length (bm_sem_pool (cv_signal_eff p A s)) = length (bm_sem_pool s)"
  "i < length (bm_sem_pool s) \<Longrightarrow> sem_max (bm_sem_pool (cv_signal_eff p A s) ! i) = sem_max (bm_sem_pool s ! i)"
  by (simp_all add: cv_signal_eff_def)

lemma sems_of_unique:
  assumes "cv_core p s" "k < cv_slots p s" "cw_sem (cv_waiter p s k) = Some i"
  shows "i \<in> sems_of A (cv_waiters (cv_obj s p)) \<longleftrightarrow> k \<in> A"
proof -
  have "j = k" if "j < cv_slots p s" "cw_sem (cv_waiter p s j) = Some i" for j
    using cv_coreD(2) [OF assms(1) that(1) assms(2)] that(2) assms(3) by simp
  then show ?thesis using assms(2,3) unfolding sems_of_def by blast
qed

lemma sem_get_signal_eff:
  assumes "cv_core p s" "k < cv_slots p s" "cw_sem (cv_waiter p s k) = Some i"
  shows "sem_get i (cv_signal_eff p A s) = (if k \<in> A then 1 else sem_get i s)"
proof -
  have "i < length (bm_sem_pool s)" using cv_coreD(3) [OF assms(1,2)] assms(3) by (auto simp: cv_slot_ok_def)
  then show ?thesis using sems_of_unique [OF assms] by (simp add: cv_signal_eff_def sem_get_tokens)
qed

lemma cv_signal_eff_empty: "cv_signal_eff p {} s = s"
proof -
  have "signalled_waiters {} ws = ws" for ws by (simp add: signalled_waiters_def map_nth)
  then show ?thesis by (simp add: cv_signal_eff_def sems_of_def give_tokens_empty cv_put_def cv_obj_def)
qed

text \<open>Signalling one more open waiter.\<close>

lemma cv_signal_calm:
  assumes core: "cv_core p s" and k: "k < cv_slots p s" "k \<notin> A" "cv_open (cv_waiter p s k)"
  shows "cv_signal p k ((id, False) # env) (cv_signal_eff p A s) = Some (cv_signal_eff p (insert k A) s, env)"
proof -
  let ?ws = "cv_waiters (cv_obj s p)" and ?s0 = "cv_signal_eff p A s"
  have p: "p < length (emu_cv_pool s)" by (rule cv_coreD(1) [OF core])
  obtain i where i: "cw_sem (?ws ! k) = Some i" "i < length (bm_sem_pool s)" "sem_max (bm_sem_pool s ! i) = 1" "sem_get i s = 0"
    using cv_coreD(3) [OF core k(1)] k(3) unfolding cv_slot_ok_def by blast
  have w: "cv_waiter p ?s0 k = ?ws ! k" using p k by simp
  let ?s1 = "cv_put p ((cv_obj ?s0 p)\<lparr>cv_waiters := (cv_waiters (cv_obj ?s0 p))[k := (?ws ! k)\<lparr>cw_signalled := True\<rparr>]\<rparr>) ?s0"
  have "sem_get i ?s1 = 0" using sem_get_signal_eff [OF core k(1) i(1)] k(2) i(4) by simp
  then have "osal_semaphore_give (Some (Some i)) ((id, False) # env) ?s1 = Some (Ok, sem_set i 1 ?s1, env)"
    using sem_give_quiet [of i ?s1 env] i(2,3) by simp
  moreover have "sem_set i 1 ?s1 = cv_signal_eff p (insert k A) s"
  proof -
    have ws: "(signalled_waiters A ?ws)[k := (?ws ! k)\<lparr>cw_signalled := True\<rparr>] = signalled_waiters (insert k A) ?ws" (is "?l = ?r")
    proof (rule nth_equalityI)
      fix j assume "j < length ?l"
      then show "?l ! j = ?r ! j" by (cases "j = k") simp_all
    qed simp
    have ins: "insert i (sems_of A ?ws) = sems_of (insert k A) ?ws" using k(1) i(1) by (auto simp: sems_of_def)
    have "?s1 = give_tokens (sems_of A ?ws) (cv_put p ((cv_obj s p)\<lparr>cv_waiters := signalled_waiters (insert k A) ?ws\<rparr>) s)"
      using p ws by (simp add: cv_signal_eff_def cv_put_def give_tokens_def cv_obj_def)
    then show ?thesis by (simp add: cv_signal_eff_def sem_set_tokens ins)
  qed
  ultimately show ?thesis using w i(1) by (simp add: cv_signal_def Let_def)
qed

lemma cv_obj_mutex_set [simp]: "cv_obj (mutex_set g b s) q = cv_obj s q" "emu_cv_pool (mutex_set g b s) = emu_cv_pool s"
  by (simp_all add: mutex_set_def cv_obj_def)

lemma cv_core_mutex_set [simp]: "cv_core p (mutex_set g b s) = cv_core p s"
  by (simp add: cv_core_def cv_slot_ok_def)

lemma cv_signal_eff_mutex_set: "cv_signal_eff p A (mutex_set g b s) = mutex_set g b (cv_signal_eff p A s)"
  by (simp add: cv_signal_eff_def cv_put_def give_tokens_def mutex_set_def cv_obj_def)

lemma cv_core_signal_eff:
  assumes core: "cv_core p s"
  shows "cv_core p (cv_signal_eff p A s)"
proof -
  let ?ws = "cv_waiters (cv_obj s p)" and ?s' = "cv_signal_eff p A s"
  have p: "p < length (emu_cv_pool s)" by (rule cv_coreD(1) [OF core])
  have use: "cw_in_use (signalled_waiters A ?ws ! k) = cw_in_use (?ws ! k)"
    and sem: "cw_sem (signalled_waiters A ?ws ! k) = cw_sem (?ws ! k)" if "k < length ?ws" for k
    using that by simp_all
  have "cv_slot_ok ?s' (signalled_waiters A ?ws ! k)" if k: "k < length ?ws" for k
  proof -
    obtain i where i: "cw_sem (?ws ! k) = Some i" "i < length (bm_sem_pool s)" "sem_max (bm_sem_pool s ! i) = 1"
      "cv_open (?ws ! k) \<longrightarrow> sem_get i s = 0" "sem_get i s \<le> 1"
      using cv_coreD(3) [OF core k] unfolding cv_slot_ok_def by blast
    with k sem_get_signal_eff [OF core k i(1), of A] show ?thesis
      unfolding cv_slot_ok_def by (auto simp: cv_open_def)
  qed
  moreover have "{k. k < length ?ws \<and> cw_in_use (signalled_waiters A ?ws ! k)} = {k. k < length ?ws \<and> cw_in_use (?ws ! k)}"
    using use by auto
  ultimately show ?thesis using core p use sem unfolding cv_core_def by simp
qed

definition cv_targets :: "nat \<Rightarrow> 'z cv_state_scheme \<Rightarrow> nat set" where
  "cv_targets p s = {k. k < cv_slots p s \<and> cv_open (cv_waiter p s k)}"

definition cv_chosen :: "bool \<Rightarrow> nat set \<Rightarrow> nat set" where
  "cv_chosen one T = (if one \<and> T \<noteq> {} then {Min T} else T)"

lemma finite_cv_targets [simp]: "finite (cv_targets p s)"
  by (simp add: cv_targets_def)

lemma cv_notify_all_calm:
  assumes core: "cv_core p s"
  shows "k + j \<le> cv_slots p s \<Longrightarrow> j \<le> m \<Longrightarrow>
    \<exists>m'. cv_notify_from False p k j (calm m @ rest) (cv_signal_eff p (cv_targets p s \<inter> {..<k}) s) =
      Some (cv_signal_eff p (cv_targets p s \<inter> {..<k + j}) s, calm m' @ rest)"
proof (induction j arbitrary: k m)
  case (Suc j)
  let ?A = "cv_targets p s \<inter> {..<k}"
  have k: "k < cv_slots p s" "k \<notin> ?A" using Suc.prems by simp_all
  have w: "cv_waiter p (cv_signal_eff p ?A s) k = cv_waiter p s k" using cv_coreD(1) [OF core] k by simp
  obtain m1 where m1: "m = Suc m1" "j \<le> m1" using Suc.prems(2) by (cases m) auto
  show ?case
  proof (cases "cv_open (cv_waiter p s k)")
    case True
    then have "insert k ?A = cv_targets p s \<inter> {..<Suc k}" using k by (auto simp: cv_targets_def)
    then have "cv_signal p k (calm m @ rest) (cv_signal_eff p ?A s) = Some (cv_signal_eff p (cv_targets p s \<inter> {..<Suc k}) s, calm m1 @ rest)"
      using cv_signal_calm [OF core k True] by (simp add: m1(1) calm_Suc)
    with True w Suc.IH [of "Suc k" m1] Suc.prems m1 show ?thesis by (simp add: cv_open_def Let_def)
  next
    case False
    then have "?A = cv_targets p s \<inter> {..<Suc k}" by (auto simp: cv_targets_def less_Suc_eq)
    with False w Suc.IH [of "Suc k" m] Suc.prems show ?thesis by (auto simp: cv_open_def Let_def)
  qed
qed auto

lemma cv_notify_one_calm:
  assumes core: "cv_core p s"
  shows "k + j = cv_slots p s \<Longrightarrow> j \<le> m \<Longrightarrow> cv_targets p s \<inter> {..<k} = {} \<Longrightarrow>
    \<exists>m'. cv_notify_from True p k j (calm m @ rest) s = Some (cv_signal_eff p (cv_chosen True (cv_targets p s)) s, calm m' @ rest)"
proof (induction j arbitrary: k)
  case 0
  then have "cv_targets p s = {}" by (auto simp: cv_targets_def)
  then show ?case by (auto simp: cv_chosen_def cv_signal_eff_empty)
next
  case (Suc j)
  have k: "k < cv_slots p s" using Suc.prems by simp
  show ?case
  proof (cases "cv_open (cv_waiter p s k)")
    case True
    then have "k \<in> cv_targets p s" using k by (simp add: cv_targets_def)
    moreover have "k \<le> t" if "t \<in> cv_targets p s" for t using that Suc.prems(3) by force
    ultimately have "cv_chosen True (cv_targets p s) = {k}" by (auto simp: cv_chosen_def intro!: Min_eqI)
    moreover obtain m1 where "m = Suc m1" using Suc.prems(2) by (cases m) auto
    ultimately show ?thesis
      using True cv_signal_calm [OF core k, of "{}"] by (auto simp: cv_open_def calm_Suc cv_signal_eff_empty Let_def)
  next
    case False
    then have "cv_targets p s \<inter> {..<Suc k} = {}" using Suc.prems(3) by (auto simp: cv_targets_def less_Suc_eq)
    with False Suc.IH [of "Suc k"] Suc.prems show ?thesis by (auto simp: cv_open_def Let_def)
  qed
qed

lemma cv_notify_calm:
  assumes inv: "cv_inv p s"
  shows "\<exists>m'. cv_notify one (Some (Some p)) (calm (cv_slots p s) @ rest) s =
    Some (Ok, cv_signal_eff p (cv_chosen one (cv_targets p s)) s, calm m' @ rest)"
proof -
  have core: "cv_core p s" using inv by (simp add: cv_inv_def)
  obtain g where g: "cv_guard (cv_obj s p) = Some g" "g < length (bm_mutex_pool s)" "\<not> mtx_flag (bm_mutex_pool s ! g)"
    using inv by (auto simp: cv_inv_def mutex_free_def)
  let ?s1 = "mutex_set g True s"
  have tg: "cv_targets p ?s1 = cv_targets p s" by (simp add: cv_targets_def)
  have unl: "cv_unlock p (cv_signal_eff p A ?s1) = cv_signal_eff p A s" for A
    using g cv_coreD(1) [OF core] by (simp add: cv_unlock_def mutex_unlock_set cv_signal_eff_mutex_set mutex_set_undo)
  show ?thesis
  proof (cases "cv_n_waiters (cv_obj s p) = 0")
    case True
    then have "{k. k < cv_slots p s \<and> cw_in_use (cv_waiter p s k)} = {}" using cv_coreD(4) [OF core] by simp
    then have "cv_targets p s = {}" by (auto simp: cv_targets_def cv_open_def)
    then have "cv_signal_eff p (cv_chosen one (cv_targets p s)) s = s" by (simp add: cv_chosen_def cv_signal_eff_empty)
    moreover have "cv_unlock p ?s1 = s" using g by (simp add: cv_unlock_def mutex_unlock_set mutex_set_undo)
    ultimately show ?thesis using True g mutex_lock_set [OF g(3)] by (auto simp: cv_notify_def)
  next
    case False
    have core1: "cv_core p ?s1" using core by simp
    have "cv_targets p s \<inter> {..<cv_slots p s} = cv_targets p s" by (auto simp: cv_targets_def)
    then have "\<exists>m'. cv_notify_from one p 0 (cv_slots p s) (calm (cv_slots p s) @ rest) ?s1 =
        Some (cv_signal_eff p (cv_chosen one (cv_targets p s)) ?s1, calm m' @ rest)"
      using cv_notify_all_calm [OF core1, of 0 "cv_slots p s" "cv_slots p s" rest] cv_notify_one_calm [OF core1, of 0 "cv_slots p s" "cv_slots p s" rest]
      by (cases one) (simp_all add: tg cv_signal_eff_empty cv_chosen_def)
    then show ?thesis using False g mutex_lock_set [OF g(3)] unl by (auto simp: cv_notify_def)
  qed
qed

text \<open>The state after exactly the waiters \<open>A\<close> were signalled: they are marked, their semaphores have one token, and all else is as before.\<close>

definition signalled_exactly :: "nat \<Rightarrow> (nat \<Rightarrow> bool) \<Rightarrow> 'z cv_state_scheme \<Rightarrow> 'z cv_state_scheme \<Rightarrow> bool" where
  "signalled_exactly p A s s' \<longleftrightarrow> (\<exists>ws sems.
     s' = s\<lparr>emu_cv_pool := (emu_cv_pool s)[p := (cv_obj s p)\<lparr>cv_waiters := ws\<rparr>], bm_sem_pool := sems\<rparr> \<and>
     length ws = cv_slots p s \<and> length sems = length (bm_sem_pool s) \<and>
     (\<forall>k < cv_slots p s. ws ! k = (if A k then (cv_waiter p s k)\<lparr>cw_signalled := True\<rparr> else cv_waiter p s k)) \<and>
     (\<forall>i < length sems. sems ! i =
        (if \<exists>k < cv_slots p s. A k \<and> cw_sem (cv_waiter p s k) = Some i then (bm_sem_pool s ! i)\<lparr>sem_count := 1\<rparr> else bm_sem_pool s ! i)))"

lemma signal_eff_exactly:
  assumes "\<forall>k < cv_slots p s. k \<in> T \<longleftrightarrow> A k"
  shows "signalled_exactly p A s (cv_signal_eff p T s)"
proof -
  have "i \<in> sems_of T (cv_waiters (cv_obj s p)) \<longleftrightarrow> (\<exists>k < cv_slots p s. A k \<and> cw_sem (cv_waiter p s k) = Some i)" for i
    using assms by (auto simp: sems_of_def)
  then show ?thesis
    unfolding signalled_exactly_def
    by (intro exI [of _ "signalled_waiters T (cv_waiters (cv_obj s p))"] exI [of _ "bm_sem_pool (cv_signal_eff p T s)"])
      (simp add: cv_signal_eff_def give_tokens_def cv_put_def assms, blast)
qed

text \<open>
  C19: a notification reaches exactly the waiters it should. On a well-formed condition variable
  \<open>notify_all\<close> marks every registered waiter that was not signalled yet and puts one token into its
  semaphore, which had none; \<open>notify_one\<close> does so for the one in the lowest slot, if there is any (not for the one that
  has waited longest). Nothing else in the whole state changes: no other waiter, no other semaphore, no other object, and of the waiters that are signalled
  nothing but the mark. The variable stays well formed.
\<close>

theorem condvar_notify_exact:
  assumes "cv_inv p s" "n = cv_slots p s"
  shows "\<exists>s1 s2 env1 env2. osal_condvar_notify_one (Some (Some p)) (calm n @ env) s = Some (Ok, s1, env1) \<and>
    osal_condvar_notify_all (Some (Some p)) (calm n @ env) s = Some (Ok, s2, env2) \<and> cv_inv p s1 \<and> cv_inv p s2 \<and>
    signalled_exactly p (\<lambda>k. cv_open (cv_waiter p s k) \<and> (\<forall>j < k. \<not> cv_open (cv_waiter p s j))) s s1 \<and>
    signalled_exactly p (\<lambda>k. cv_open (cv_waiter p s k)) s s2 \<and>
    (\<forall>k < n. cv_open (cv_waiter p s k) \<longrightarrow> (\<exists>i < length (bm_sem_pool s). cw_sem (cv_waiter p s k) = Some i \<and> sem_get i s = 0))"
proof -
  have core: "cv_core p s" using assms(1) by (simp add: cv_inv_def)
  have p: "p < length (emu_cv_pool s)" by (rule cv_coreD(1) [OF core])
  let ?T = "cv_targets p s" and ?e = "\<lambda>one. cv_signal_eff p (cv_chosen one (cv_targets p s)) s"
  obtain m1 m2 where r: "osal_condvar_notify_one (Some (Some p)) (calm n @ env) s = Some (Ok, ?e True, calm m1 @ env)"
    "osal_condvar_notify_all (Some (Some p)) (calm n @ env) s = Some (Ok, ?e False, calm m2 @ env)"
    using cv_notify_calm [OF assms(1), of True env] cv_notify_calm [OF assms(1), of False env] assms(2)
    by (auto simp: osal_condvar_notify_one_def osal_condvar_notify_all_def)
  have inv: "cv_inv p (?e one)" for one
    using assms(1) cv_core_signal_eff [OF core] p by (simp add: cv_inv_def mutex_free_def)
  have one: "k \<in> cv_chosen True ?T \<longleftrightarrow> cv_open (cv_waiter p s k) \<and> (\<forall>j < k. \<not> cv_open (cv_waiter p s j))" if "k < n" for k
  proof
    assume "k \<in> cv_chosen True ?T"
    then have k: "?T \<noteq> {}" "k = Min ?T" by (auto simp: cv_chosen_def split: if_splits)
    then have "k \<in> ?T" using Min_in [OF finite_cv_targets k(1)] by simp
    moreover have "j \<notin> ?T" if "j < k" for j using that k(2) by (metis Min_le finite_cv_targets leD)
    ultimately show "cv_open (cv_waiter p s k) \<and> (\<forall>j < k. \<not> cv_open (cv_waiter p s j))"
      using that assms(2) by (auto simp: cv_targets_def)
  next
    assume a: "cv_open (cv_waiter p s k) \<and> (\<forall>j < k. \<not> cv_open (cv_waiter p s j))"
    then have "k \<in> ?T" using that assms(2) by (simp add: cv_targets_def)
    moreover have "k \<le> j" if "j \<in> ?T" for j using a that by (auto simp: cv_targets_def intro: leI)
    ultimately have "Min ?T = k" by (intro Min_eqI) simp_all
    with \<open>k \<in> ?T\<close> show "k \<in> cv_chosen True ?T" by (auto simp: cv_chosen_def)
  qed
  have "signalled_exactly p (\<lambda>k. cv_open (cv_waiter p s k) \<and> (\<forall>j < k. \<not> cv_open (cv_waiter p s j))) s (?e True)"
    by (rule signal_eff_exactly) (use one assms(2) in blast)
  moreover have "signalled_exactly p (\<lambda>k. cv_open (cv_waiter p s k)) s (?e False)"
    by (rule signal_eff_exactly) (simp add: cv_chosen_def cv_targets_def)
  moreover have "\<forall>k < n. cv_open (cv_waiter p s k) \<longrightarrow> (\<exists>i < length (bm_sem_pool s). cw_sem (cv_waiter p s k) = Some i \<and> sem_get i s = 0)"
    using cv_coreD(3) [OF core] assms(2) by (auto simp: cv_slot_ok_def)
  ultimately show ?thesis using r inv by blast
qed

definition cv_demo :: cv_state where
  "cv_demo = \<lparr>g_ticks = 0, bm_tasks = [], bm_current = -1, bm_last_scheduled = -1,
     bm_mutex_pool = [\<lparr>mtx_flag = False\<rparr>, \<lparr>mtx_flag = True\<rparr>], bm_mutex_used_bits = [3],
     bm_sem_pool = [\<lparr>sem_count = 1, sem_max = 1\<rparr>, \<lparr>sem_count = 0, sem_max = 1\<rparr>, \<lparr>sem_count = 0, sem_max = 1\<rparr>], bm_sem_used_bits = [7],
     bm_queue_pool = [], bm_queue_used_bits = [], bm_timer_pool = [],
     emu_cv_pool = [\<lparr>cv_waiters = [\<lparr>cw_sem = Some 0, cw_in_use = True, cw_signalled = True\<rparr>,
         \<lparr>cw_sem = Some 1, cw_in_use = True, cw_signalled = False\<rparr>, \<lparr>cw_sem = Some 2, cw_in_use = False, cw_signalled = False\<rparr>],
       cv_guard = Some 0, cv_n_waiters = 2, cv_pool_allocated = True\<rparr>],
     emu_cv_used = [True]\<rparr>"

lemma cv_demo_simps:
  "cv_slots 0 cv_demo = 3" "cv_guard (cv_obj cv_demo 0) = Some 0" "g_ticks cv_demo = 0"
  "cv_waiter 0 cv_demo 0 = \<lparr>cw_sem = Some 0, cw_in_use = True, cw_signalled = True\<rparr>"
  "cv_waiter 0 cv_demo (Suc 0) = \<lparr>cw_sem = Some 1, cw_in_use = True, cw_signalled = False\<rparr>"
  "cv_waiter 0 cv_demo 2 = \<lparr>cw_sem = Some 2, cw_in_use = False, cw_signalled = False\<rparr>"
  "bm_mutex_pool cv_demo = [\<lparr>mtx_flag = False\<rparr>, \<lparr>mtx_flag = True\<rparr>]"
  by (simp_all add: cv_demo_def cv_obj_def)

lemma less_3_iff: "k < (3 :: nat) \<longleftrightarrow> k = 0 \<or> k = Suc 0 \<or> k = 2"
  by auto

lemma cv_demo_ok: "cv_inv 0 cv_demo"
proof -
  have "{k. k < (3 :: nat) \<and> cw_in_use (cv_waiter 0 cv_demo k)} = {0, 1}" by (auto simp: less_3_iff cv_demo_simps)
  then have "card {k. k < (3 :: nat) \<and> cw_in_use (cv_waiter 0 cv_demo k)} = 2" by simp
  moreover have "cv_n_waiters (cv_obj cv_demo 0) = 2" "length (emu_cv_pool cv_demo) = 1"
    "bm_sem_pool cv_demo = [\<lparr>sem_count = 1, sem_max = 1\<rparr>, \<lparr>sem_count = 0, sem_max = 1\<rparr>, \<lparr>sem_count = 0, sem_max = 1\<rparr>]"
    by (simp_all add: cv_demo_def cv_obj_def)
  ultimately show ?thesis
    by (auto simp: cv_inv_def cv_core_def mutex_free_def cv_slot_ok_def cv_open_def cv_demo_simps less_3_iff sem_get_def)
qed

theorem condvar_notify_exact_witness:
  "\<exists>s1 env1. osal_condvar_notify_one (Some (Some 0)) (calm 3 @ []) cv_demo = Some (Ok, s1, env1) \<and>
     cw_signalled (cv_waiter 0 s1 1) \<and> sem_get 1 s1 = 1 \<and> sem_get 2 s1 = sem_get 2 cv_demo"
proof -
  let ?A = "\<lambda>k. cv_open (cv_waiter 0 cv_demo k) \<and> (\<forall>j < k. \<not> cv_open (cv_waiter 0 cv_demo j))"
  have d: "length (bm_sem_pool cv_demo) = 3" "length (emu_cv_pool cv_demo) = 1" by (simp_all add: cv_demo_def)
  have A: "?A (Suc 0)" "\<not> (\<exists>k < 3. ?A k \<and> cw_sem (cv_waiter 0 cv_demo k) = Some 2)" "\<exists>k < 3. ?A k \<and> cw_sem (cv_waiter 0 cv_demo k) = Some (Suc 0)"
    by (auto simp: cv_demo_simps cv_open_def less_3_iff)
  obtain s1 env1 where r: "osal_condvar_notify_one (Some (Some 0)) (calm 3 @ []) cv_demo = Some (Ok, s1, env1)" and e: "signalled_exactly 0 ?A cv_demo s1"
    using condvar_notify_exact [OF cv_demo_ok cv_demo_simps(1) [symmetric], of "[]"] by blast
  from e [unfolded signalled_exactly_def cv_demo_simps(1)] obtain ws sems where
    s1: "s1 = cv_demo\<lparr>emu_cv_pool := (emu_cv_pool cv_demo)[0 := (cv_obj cv_demo 0)\<lparr>cv_waiters := ws\<rparr>], bm_sem_pool := sems\<rparr>" "length sems = 3"
    and ws: "\<forall>k < 3. ws ! k = (if ?A k then (cv_waiter 0 cv_demo k)\<lparr>cw_signalled := True\<rparr> else cv_waiter 0 cv_demo k)"
    and sems: "\<forall>i < length sems. sems ! i = (if \<exists>k < 3. ?A k \<and> cw_sem (cv_waiter 0 cv_demo k) = Some i
      then (bm_sem_pool cv_demo ! i)\<lparr>sem_count := 1\<rparr> else bm_sem_pool cv_demo ! i)"
    unfolding d by blast
  have "cw_signalled (ws ! Suc 0)" using ws [rule_format, of "Suc 0"] A(1) by simp
  moreover have "sems ! Suc 0 = (bm_sem_pool cv_demo ! Suc 0)\<lparr>sem_count := 1\<rparr>" "sems ! 2 = bm_sem_pool cv_demo ! 2"
    using sems [rule_format, of "Suc 0", unfolded if_P [OF A(3)]] sems [rule_format, of 2, unfolded if_not_P [OF A(2)]] s1(2) by simp_all
  ultimately have "cw_signalled (cv_waiter 0 s1 1)" "sem_get 1 s1 = 1" "sem_get 2 s1 = sem_get 2 cv_demo"
    using d(2) by (simp_all add: s1 cv_obj_def sem_get_def)
  with r show ?thesis by blast
qed

section \<open>Waiting until notified\<close>

lemma cv_free_slot_spec:
  "cv_free_slot ws k = Some j \<Longrightarrow> k \<le> j \<and> j - k < length ws \<and> \<not> cw_in_use (ws ! (j - k)) \<and> (\<forall>l < j - k. cw_in_use (ws ! l))"
  "cv_free_slot ws k = None \<Longrightarrow> \<forall>w \<in> set ws. cw_in_use w"
proof (induction ws arbitrary: k)
  case (Cons w ws)
  { case 1
    show ?case
    proof (cases "cw_in_use w")
      case True
      with 1 Cons.IH(1) [of "Suc k"] have h: "Suc k \<le> j" "j - Suc k < length ws" "\<not> cw_in_use (ws ! (j - Suc k))" "\<forall>l < j - Suc k. cw_in_use (ws ! l)"
        by simp_all
      moreover have "j - k = Suc (j - Suc k)" using h(1) by simp
      ultimately show ?thesis using True by (auto simp: less_Suc_eq_0_disj)
    qed (use 1 in simp)
  next
    case 2
    with Cons.IH(2) [of "Suc k"] show ?case by (auto split: if_splits)
  }
qed simp_all

text \<open>Replacing one waiter keeps the variable well formed.\<close>

lemma cv_core_replace:
  assumes core: "cv_core p s" and k: "k < cv_slots p s" and ok: "cv_slot_ok s w" and sem: "cw_sem w = cw_sem (cv_waiter p s k)"
    and cnt: "unat c = card {j. j < cv_slots p s \<and> cw_in_use ((cv_waiters (cv_obj s p))[k := w] ! j)}"
  shows "cv_core p (cv_put p ((cv_obj s p)\<lparr>cv_waiters := (cv_waiters (cv_obj s p))[k := w], cv_n_waiters := c\<rparr>) s)"
proof -
  let ?ws = "cv_waiters (cv_obj s p)"
  let ?s' = "cv_put p ((cv_obj s p)\<lparr>cv_waiters := ?ws[k := w], cv_n_waiters := c\<rparr>) s"
  have s1: "cw_sem (?ws[k := w] ! j) = cw_sem (?ws ! j)" for j using sem k by (cases "j = k") simp_all
  have "cv_slot_ok ?s' x = cv_slot_ok s x" for x by (simp add: cv_slot_ok_def)
  then have s2: "cv_slot_ok ?s' (?ws[k := w] ! j)" if "j < length ?ws" for j
    using ok cv_coreD(3) [OF core that] k by (cases "j = k") simp_all
  show ?thesis using core cnt s1 s2 by (simp add: cv_core_def)
qed

lemma cv_core_register:
  assumes core: "cv_core p s" and k: "k < cv_slots p s" "\<not> cw_in_use (cv_waiter p s k)"
    and i: "cw_sem (cv_waiter p s k) = Some i" "sem_get i s = 0"
  shows "cv_core p (cv_register p k s)"
proof -
  let ?ws = "cv_waiters (cv_obj s p)" and ?w = "(cv_waiter p s k)\<lparr>cw_in_use := True, cw_signalled := False\<rparr>"
  have card: "card {j. j < length ?ws \<and> cw_in_use (?ws[k := ?w] ! j)} = Suc (card {j. j < length ?ws \<and> cw_in_use (?ws ! j)})"
    by (rule card_update_gain) (use k in simp_all)
  have "card {j. j < length ?ws \<and> cw_in_use (?ws[k := ?w] ! j)} \<le> card {..<length ?ws}" by (rule card_mono) auto
  then have "unat (cv_n_waiters (cv_obj s p)) + 1 < 2 ^ 64" using card cv_coreD(4) [OF core] core by (simp add: cv_core_def)
  then have "unat (cv_n_waiters (cv_obj s p) + 1) = card {j. j < length ?ws \<and> cw_in_use (?ws[k := ?w] ! j)}"
    using unat_add_fits [of "cv_n_waiters (cv_obj s p)" 1] card cv_coreD(4) [OF core] by simp
  moreover have "cv_slot_ok s ?w" using cv_coreD(3) [OF core k(1)] i by (auto simp: cv_slot_ok_def)
  ultimately show ?thesis using cv_core_replace [OF core k(1), of ?w] by (simp add: cv_register_def Let_def)
qed

lemma cv_core_unregister:
  assumes core: "cv_core p s" and k: "k < cv_slots p s" "cw_in_use (cv_waiter p s k)"
  shows "cv_core p (cv_unregister p k s)"
proof -
  let ?ws = "cv_waiters (cv_obj s p)" and ?w = "(cv_waiter p s k)\<lparr>cw_in_use := False\<rparr>"
  have card: "Suc (card {j. j < length ?ws \<and> cw_in_use (?ws[k := ?w] ! j)}) = card {j. j < length ?ws \<and> cw_in_use (?ws ! j)}"
    by (rule card_update_loss) (use k in simp_all)
  then have "unat (cv_n_waiters (cv_obj s p)) \<noteq> 0" using cv_coreD(4) [OF core] by linarith
  then have "0 < cv_n_waiters (cv_obj s p)" by (auto simp: word_gt_0)
  from unat_word_pred [OF this] have "unat (cv_n_waiters (cv_obj s p) - 1) = card {j. j < length ?ws \<and> cw_in_use (?ws[k := ?w] ! j)}"
    using card cv_coreD(4) [OF core] by simp
  moreover have "cv_slot_ok s ?w" using cv_coreD(3) [OF core k(1)] by (auto simp: cv_slot_ok_def cv_open_def)
  ultimately show ?thesis using cv_core_replace [OF core k(1), of ?w] by (simp add: cv_unregister_def Let_def)
qed

lemma cv_core_sem_set:
  assumes core: "cv_core p s" and k: "k < cv_slots p s" "cw_sem (cv_waiter p s k) = Some i"
    and c: "c \<le> 1" "cv_open (cv_waiter p s k) \<Longrightarrow> c = 0"
  shows "cv_core p (sem_set i c s)"
proof -
  have "cv_slot_ok (sem_set i c s) (cv_waiter p s j)" if j: "j < cv_slots p s" for j
  proof -
    obtain l where l: "cw_sem (cv_waiter p s j) = Some l" "l < length (bm_sem_pool s)" "sem_max (bm_sem_pool s ! l) = 1" "sem_get l s \<le> 1"
      "cv_open (cv_waiter p s j) \<longrightarrow> sem_get l s = 0"
      using cv_coreD(3) [OF core j] unfolding cv_slot_ok_def by blast
    show ?thesis
    proof (cases "l = i")
      case True
      then have "j = k" using cv_coreD(2) [OF core j k(1)] l(1) k(2) by simp
      with True l c k show ?thesis unfolding cv_slot_ok_def by (auto simp: sem_set_def sem_get_def)
    next
      case False
      then have "sem_get l (sem_set i c s) = sem_get l s" "bm_sem_pool (sem_set i c s) ! l = bm_sem_pool s ! l"
        by (simp, simp add: sem_set_def)
      with l show ?thesis unfolding cv_slot_ok_def by (simp add: sem_set_def)
    qed
  qed
  moreover have "emu_cv_pool (sem_set i c s) = emu_cv_pool s" by (simp add: sem_set_def)
  ultimately show ?thesis using core by (simp add: cv_core_def)
qed

lemma cv_register_frame [simp]:
  "bm_sem_pool (cv_register p k s) = bm_sem_pool s" "bm_mutex_pool (cv_register p k s) = bm_mutex_pool s"
  "length (emu_cv_pool (cv_register p k s)) = length (emu_cv_pool s)" "g_ticks (cv_register p k s) = g_ticks s"
  "bm_sem_pool (cv_unregister p k s) = bm_sem_pool s" "bm_mutex_pool (cv_unregister p k s) = bm_mutex_pool s"
  "length (emu_cv_pool (cv_unregister p k s)) = length (emu_cv_pool s)" "g_ticks (cv_unregister p k s) = g_ticks s"
  by (simp_all add: cv_register_def cv_unregister_def Let_def)

lemma register_obj:
  assumes "p < length (emu_cv_pool s)"
  shows "cv_obj (cv_register p k s) p = (cv_obj s p)\<lparr>cv_waiters := (cv_waiters (cv_obj s p))[k := (cv_waiter p s k)\<lparr>cw_in_use := True, cw_signalled := False\<rparr>],
      cv_n_waiters := cv_n_waiters (cv_obj s p) + 1\<rparr>"
    and "cv_obj (cv_unregister p k s) p = (cv_obj s p)\<lparr>cv_waiters := (cv_waiters (cv_obj s p))[k := (cv_waiter p s k)\<lparr>cw_in_use := False\<rparr>],
      cv_n_waiters := cv_n_waiters (cv_obj s p) - 1\<rparr>"
  using assms by (simp_all add: cv_register_def cv_unregister_def Let_def)

lemma mutex_set_commute:
  "cv_register p k (mutex_set g b s) = mutex_set g b (cv_register p k s)"
  "cv_unregister p k (mutex_set g b s) = mutex_set g b (cv_unregister p k s)"
  "sem_set i c (mutex_set g b s) = mutex_set g b (sem_set i c s)"
  by (simp_all add: cv_register_def cv_unregister_def cv_put_def cv_obj_def mutex_set_def sem_set_def Let_def)

text \<open>Another task that notifies undisturbed.\<close>

definition cv_notifier :: "bool \<Rightarrow> nat \<Rightarrow> 'z cv_state_scheme \<Rightarrow> 'z cv_state_scheme" where
  "cv_notifier one p s =
     (case (if one then osal_condvar_notify_one else osal_condvar_notify_all) (Some (Some p)) (calm (cv_slots p s)) s of
        Some (_, s', _) \<Rightarrow> s' | None \<Rightarrow> s)"

lemma cv_notifier_eq: "cv_inv p s \<Longrightarrow> cv_notifier one p s = cv_signal_eff p (cv_chosen one (cv_targets p s)) s"
  using cv_notify_calm [of p s True "[]"] cv_notify_calm [of p s False "[]"]
  by (auto simp: cv_notifier_def osal_condvar_notify_one_def osal_condvar_notify_all_def)

lemma cv_inv_mutex_set:
  assumes "cv_inv c s" "cv_guard (cv_obj s c) \<noteq> Some g"
  shows "cv_inv c (mutex_set g b s)"
proof (cases "g < length (bm_mutex_pool s)")
  case True
  with assms show ?thesis by (auto simp: cv_inv_def mutex_free_def)
qed (use assms in \<open>auto simp: cv_inv_def mutex_free_def mutex_set_def list_update_beyond cv_core_def cv_slot_ok_def sem_get_def cv_obj_def\<close>)

text \<open>
  A task asleep in slot \<open>k\<close> for whom something, the entry \<open>e\<close>, leaves a token: it takes it, gets its mutex back
  and gives up the slot.
\<close>

definition cv_awake :: "nat \<Rightarrow> nat \<Rightarrow> nat \<Rightarrow> nat \<Rightarrow> 'z cv_state_scheme \<Rightarrow> 'z cv_state_scheme" where
  "cv_awake p k i j s = cv_unregister p k (mutex_set j True (sem_set i 0 s))"

lemma cv_sleep_takes:
  assumes take: "osal_semaphore_take (Some (cw_sem (cv_waiter p s0 k))) timeout env0 s0 = Some (Ok, sem_set i 0 s, env)"
    and inv: "cv_inv p s" and k: "k < cv_slots p s" "cw_in_use (cv_waiter p s k)" "cw_sem (cv_waiter p s k) = Some i"
    and j: "j < length (bm_mutex_pool s)" "\<not> mtx_flag (bm_mutex_pool s ! j)" "cv_guard (cv_obj s p) \<noteq> Some j"
  shows "cv_sleep p k (Some (Some j)) timeout env0 s0 = Some (Ok, cv_awake p k i j s, env)"
    "cv_inv p (cv_awake p k i j s)" "mtx_flag (bm_mutex_pool (cv_awake p k i j s) ! j)"
    "\<forall>l < cv_slots p s. cw_in_use (cv_waiter p (cv_awake p k i j s) l) = (l \<noteq> k \<and> cw_in_use (cv_waiter p s l))"
    "cv_slots p (cv_awake p k i j s) = cv_slots p s"
proof -
  let ?s2 = "sem_set i 0 s" and ?s' = "cv_awake p k i j s"
  have core: "cv_core p s" using inv by (simp add: cv_inv_def)
  have p: "p < length (emu_cv_pool s)" by (rule cv_coreD(1) [OF core])
  obtain g where g: "cv_guard (cv_obj s p) = Some g" "g < length (bm_mutex_pool s)" "\<not> mtx_flag (bm_mutex_pool s ! g)"
    using inv by (auto simp: cv_inv_def mutex_free_def)
  have jg: "j \<noteq> g" using j(3) g(1) by simp
  have core2: "cv_core p ?s2" by (rule cv_core_sem_set [OF core k(1,3)]) simp_all
  let ?s3 = "mutex_set j True ?s2"
  have lockj: "osal_mutex_lock (Some (Some j)) WAIT_FOREVER env ?s2 = Some (Ok, ?s3, env)"
    using j(2) by (intro mutex_lock_set) (simp add: mutex_pool_sem_set)
  have "\<not> mtx_flag (bm_mutex_pool ?s3 ! g)" using g(3) jg j(1) by (simp add: mutex_pool_sem_set)
  then have lockg: "osal_mutex_lock (Some (cv_guard (cv_obj ?s3 p))) WAIT_FOREVER env ?s3 = Some (Ok, mutex_set g True ?s3, env)"
    using g(1) p by (simp add: mutex_lock_set)
  have p3: "p < length (emu_cv_pool ?s3)" using p by (simp add: sem_set_def)
  note obj = register_obj(2) [OF p3, of k, folded cv_awake_def]
  have nf: "\<not> mtx_flag (bm_mutex_pool ?s' ! g)" using g(3) jg j(1) by (simp add: cv_awake_def mutex_pool_sem_set)
  have "cv_unlock p (cv_unregister p k (mutex_set g True ?s3)) = ?s'"
    using g(1) p obj nf by (simp add: cv_unlock_def cv_awake_def mutex_set_commute(2) mutex_unlock_set mutex_set_undo)
  then show "cv_sleep p k (Some (Some j)) timeout env0 s0 = Some (Ok, ?s', env)"
    using take lockj lockg by (simp add: cv_sleep_def)
  have core': "cv_core p ?s'" unfolding cv_awake_def by (rule cv_core_unregister) (use core2 k p in simp_all)
  show "cv_inv p ?s'" unfolding cv_inv_def mutex_free_def
    using core' obj nf g(1,2) p by (simp add: cv_awake_def mutex_pool_sem_set)
  show "mtx_flag (bm_mutex_pool ?s' ! j)" using j(1) by (simp add: cv_awake_def mutex_pool_sem_set)
  show "\<forall>l < cv_slots p s. cw_in_use (cv_waiter p ?s' l) = (l \<noteq> k \<and> cw_in_use (cv_waiter p s l))"
    using obj p k(1) by (auto simp: nth_list_update)
  show "cv_slots p ?s' = cv_slots p s" using obj p by simp
qed

lemma cv_sleep_granted:
  assumes i: "cw_sem (cv_waiter p s k) = Some i" "sem_get i s = 0"
    and inv: "cv_inv p (e s)" and k: "k < cv_slots p (e s)" "cw_in_use (cv_waiter p (e s) k)" "cw_sem (cv_waiter p (e s) k) = Some i"
    and one: "sem_get i (e s) = 1"
    and j: "j < length (bm_mutex_pool (e s))" "\<not> mtx_flag (bm_mutex_pool (e s) ! j)" "cv_guard (cv_obj (e s) p) \<noteq> Some j"
    and t: "timeout \<noteq> NO_WAIT" "bm_ticks_now s < bm_deadline timeout s"
  shows "cv_sleep p k (Some (Some j)) timeout ((e, False) # (id, False) # env) s = Some (Ok, cv_awake p k i j (e s), env)"
    "cv_inv p (cv_awake p k i j (e s))" "mtx_flag (bm_mutex_pool (cv_awake p k i j (e s)) ! j)"
    "\<forall>l < cv_slots p (e s). cw_in_use (cv_waiter p (cv_awake p k i j (e s)) l) = (l \<noteq> k \<and> cw_in_use (cv_waiter p (e s) l))"
    "cv_slots p (cv_awake p k i j (e s)) = cv_slots p (e s)"
proof -
  have "osal_semaphore_take (Some (cw_sem (cv_waiter p s k))) timeout ((e, False) # (id, False) # env) s = Some (Ok, sem_set i 0 (e s), env)"
    using i t one by (simp add: osal_semaphore_take_def Let_def)
  note w = cv_sleep_takes [OF this inv k j]
  show "cv_sleep p k (Some (Some j)) timeout ((e, False) # (id, False) # env) s = Some (Ok, cv_awake p k i j (e s), env)"
    "cv_inv p (cv_awake p k i j (e s))" "mtx_flag (bm_mutex_pool (cv_awake p k i j (e s)) ! j)"
    "\<forall>l < cv_slots p (e s). cw_in_use (cv_waiter p (cv_awake p k i j (e s)) l) = (l \<noteq> k \<and> cw_in_use (cv_waiter p (e s) l))"
    "cv_slots p (cv_awake p k i j (e s)) = cv_slots p (e s)" by (fact w)+
qed

text \<open>The same wherever the token comes from: it is there already, or it comes after \<open>m\<close> idle points.\<close>

lemma sem_take_idle:
  assumes "sem_get i s = 0" "timeout \<noteq> NO_WAIT" "bm_ticks_now s < bm_deadline timeout s"
  shows "osal_semaphore_take (Some (Some i)) timeout (replicate m (id, False) @ env) s = osal_semaphore_take (Some (Some i)) timeout env s"
  using assms(1,2) assms(3) [unfolded not_le [symmetric]] by (induction m) (simp_all add: osal_semaphore_take_def Let_def)

lemma cv_sleep_token:
  assumes "cv_inv p s" "k < cv_slots p s" "cw_in_use (cv_waiter p s k)" and i: "cw_sem (cv_waiter p s k) = Some i" "sem_get i s = 1"
    and "j < length (bm_mutex_pool s)" "\<not> mtx_flag (bm_mutex_pool s ! j)" "cv_guard (cv_obj s p) \<noteq> Some j"
  shows "cv_sleep p k (Some (Some j)) timeout ((id, False) # env) s = Some (Ok, cv_awake p k i j s, env)"
proof -
  have "osal_semaphore_take (Some (cw_sem (cv_waiter p s k))) timeout ((id, False) # env) s = Some (Ok, sem_set i 0 s, env)"
    using i by (simp add: osal_semaphore_take_def Let_def)
  from cv_sleep_takes(1) [OF this assms(1-3) i(1) assms(6-8)] show ?thesis .
qed

text \<open>The way to sleep: the caller's slot is registered and its mutex is free.\<close>

definition cv_asleep :: "nat \<Rightarrow> nat \<Rightarrow> nat \<Rightarrow> nat \<Rightarrow> 'z cv_state_scheme \<Rightarrow> 'z cv_state_scheme" where
  "cv_asleep p k i j s = mutex_set j False (cv_register p k (sem_set i 0 s))"

text \<open>What a task does that has to take mutex \<open>j\<close> first: nothing while another one has it.\<close>

definition needs_mutex :: "nat \<Rightarrow> ('z bm_state_scheme \<Rightarrow> 'z bm_state_scheme) \<Rightarrow> 'z bm_state_scheme \<Rightarrow> 'z bm_state_scheme" where
  "needs_mutex j f s = (if mtx_flag (bm_mutex_pool s ! j) then s else f s)"

lemma condvar_wait_releases:
  assumes inv: "cv_inv p s" and k: "cv_free_slot (cv_waiters (cv_obj s p)) 0 = Some k" and i: "cw_sem (cv_waiter p s k) = Some i"
    and j: "j < length (bm_mutex_pool s)" "cv_guard (cv_obj s p) \<noteq> Some j"
  shows "length fs = unat (sem_get i s) \<Longrightarrow> \<forall>f \<in> set fs. \<forall>t. mtx_flag (bm_mutex_pool t ! j) = mtx_flag (bm_mutex_pool s ! j) \<longrightarrow> f t = t \<Longrightarrow>
      osal_condvar_wait (Some (Some p)) (Some (Some j)) timeout (map (\<lambda>f. (f, False)) fs @ (e, b) # rest) s =
      cv_sleep p k (Some (Some j)) timeout rest (e (cv_asleep p k i j s))"
    "cv_inv p (cv_asleep p k i j s)"
    "cv_obj (cv_asleep p k i j s) p = (cv_obj s p)\<lparr>cv_waiters := (cv_waiters (cv_obj s p))[k := (cv_waiter p s k)\<lparr>cw_in_use := True, cw_signalled := False\<rparr>],
       cv_n_waiters := cv_n_waiters (cv_obj s p) + 1\<rparr>"
    "sem_get i (cv_asleep p k i j s) = 0"
proof -
  have core: "cv_core p s" using inv by (simp add: cv_inv_def)
  have p: "p < length (emu_cv_pool s)" by (rule cv_coreD(1) [OF core])
  obtain g where g: "cv_guard (cv_obj s p) = Some g" "g < length (bm_mutex_pool s)" "\<not> mtx_flag (bm_mutex_pool s ! g)"
    using inv by (auto simp: cv_inv_def mutex_free_def)
  have jg: "j \<noteq> g" using j(2) g(1) by simp
  have kn: "k < cv_slots p s" "\<not> cw_in_use (cv_waiter p s k)" using cv_free_slot_spec(1) [OF k] by simp_all
  have i': "i < length (bm_sem_pool s)" "sem_get i s \<le> 1" using cv_coreD(3) [OF core kn(1)] i by (auto simp: cv_slot_ok_def)
  let ?s2 = "sem_set i 0 s" and ?s3 = "cv_register p k (sem_set i 0 s)"
  have p2: "p < length (emu_cv_pool ?s2)" using p by (simp add: sem_set_def)
  note obj = register_obj(1) [OF p2, of k]
  have core2: "cv_core p ?s2" by (rule cv_core_sem_set [OF core kn(1) i]) simp_all
  have core3: "cv_core p ?s3" by (rule cv_core_register [OF core2, of k i]) (use kn i i' in simp_all)
  have gf: "\<not> mtx_flag (bm_mutex_pool ?s3 ! g)" using g(3) by (simp add: mutex_pool_sem_set)
  have unl: "cv_unlock p (cv_register p k (sem_set i 0 (mutex_set g True s))) = ?s3"
    using g(1) obj p gf by (simp add: cv_unlock_def mutex_set_commute mutex_unlock_set mutex_set_undo)
  show "cv_inv p (cv_asleep p k i j s)" unfolding cv_inv_def mutex_free_def
    using core3 g jg j(1) obj by (simp add: cv_asleep_def mutex_pool_sem_set)
  show "osal_condvar_wait (Some (Some p)) (Some (Some j)) timeout (map (\<lambda>f. (f, False)) fs @ (e, b) # rest) s =
      cv_sleep p k (Some (Some j)) timeout rest (e (cv_asleep p k i j s))"
    if len: "length fs = unat (sem_get i s)" and fs: "\<forall>f \<in> set fs. \<forall>t. mtx_flag (bm_mutex_pool t ! j) = mtx_flag (bm_mutex_pool s ! j) \<longrightarrow> f t = t"
  proof -
    have "\<forall>f \<in> set fs. f (mutex_set g True s) = mutex_set g True s" using fs jg by (simp add: mutex_set_def)
    then have drain: "\<exists>r. osal_semaphore_try_take (Some (Some i)) (map (\<lambda>f. (f, False)) fs @ (e, b) # rest) (mutex_set g True s) =
      Some (r, sem_set i 0 (mutex_set g True s), (e, b) # rest)"
      using sem_drain [of i "mutex_set g True s" fs "(e, b) # rest"] i'(2) len by (simp add: sem_get_def)
    show ?thesis
      using k i drain unl g(1) mutex_lock_set [OF g(3)] by (auto simp: osal_condvar_wait_def cv_release_mutex_def cv_asleep_def mutex_unlock_set)
  qed
  show "sem_get i (cv_asleep p k i j s) = 0" using i'(1) by (simp add: cv_asleep_def cv_register_def Let_def)
  show "cv_obj (cv_asleep p k i j s) p = (cv_obj s p)\<lparr>cv_waiters := (cv_waiters (cv_obj s p))[k := (cv_waiter p s k)\<lparr>cw_in_use := True, cw_signalled := False\<rparr>],
       cv_n_waiters := cv_n_waiters (cv_obj s p) + 1\<rparr>" using obj by (simp add: cv_asleep_def)
qed

lemma cv_free_slot_ex:
  assumes "l < length ws" "\<not> cw_in_use (ws ! l)"
  obtains k where "cv_free_slot ws 0 = Some k" "k < length ws" "\<not> cw_in_use (ws ! k)"
  using assms cv_free_slot_spec(1) [of ws 0] cv_free_slot_spec(2) [of ws 0] nth_mem by (cases "cv_free_slot ws 0") auto

lemma condvar_wait_sleeps:
  assumes inv: "cv_inv p s" and free: "l < cv_slots p s" "\<not> cw_in_use (cv_waiter p s l)"
    and j: "j < length (bm_mutex_pool s)" "cv_guard (cv_obj s p) \<noteq> Some j"
  obtains k i pre where "k < cv_slots p s" "\<not> cw_in_use (cv_waiter p s k)" "cw_sem (cv_waiter p s k) = Some i"
    "set pre \<subseteq> {(id, False)}"
    "osal_condvar_wait (Some (Some p)) (Some (Some j)) timeout (pre @ rest) s = cv_sleep p k (Some (Some j)) timeout rest (cv_asleep p k i j s)"
    "cv_inv p (cv_asleep p k i j s)"
    "cv_obj (cv_asleep p k i j s) p = (cv_obj s p)\<lparr>cv_waiters := (cv_waiters (cv_obj s p))[k := (cv_waiter p s k)\<lparr>cw_in_use := True, cw_signalled := False\<rparr>],
       cv_n_waiters := cv_n_waiters (cv_obj s p) + 1\<rparr>"
    "sem_get i (cv_asleep p k i j s) = 0"
proof -
  obtain k where k: "cv_free_slot (cv_waiters (cv_obj s p)) 0 = Some k" "k < cv_slots p s" "\<not> cw_in_use (cv_waiter p s k)"
    by (rule cv_free_slot_ex [OF free])
  obtain i where i: "cw_sem (cv_waiter p s k) = Some i" using cv_coreD(3) [OF _ k(2)] inv by (auto simp: cv_inv_def cv_slot_ok_def)
  note w = condvar_wait_releases [OF inv k(1) i j]
  show ?thesis
    by (rule that [OF k(2,3) i, of "replicate (unat (sem_get i s)) (id, False) @ [(id, False)]"]) (use w(1) [where e = id and b = False and fs = "replicate (unat (sem_get i s)) id"] w(2-4) in auto)
qed

text \<open>
  C20: no wake-up is lost between the release of the mutex and the sleep. A task holds its mutex and waits on a
  well-formed condition variable with a free slot and a timeout that has not expired. The first points of the environment are spent before the release: as many
  as there are stale tokens in the semaphore of its slot. Whatever tasks do there that need the mutex first (\<open>needs_mutex\<close>), they do not get it. From the release on another task
  can have the mutex, and it calls \<open>notify_all\<close>, or \<open>notify_one\<close> when nobody else is
  waiting to be notified, at any point: at the release itself, before the task looks at its semaphore (\<open>m = 0\<close>), or while it sleeps (\<open>m > 0\<close>). Then the wait
  returns \<open>Ok\<close>, the mutex is locked again, the slot it used is free again, and the other waiters keep theirs.
\<close>

theorem condvar_wait_notified:
  assumes inv: "cv_inv p s" and free: "cv_free_slot (cv_waiters (cv_obj s p)) 0 = Some k" "cw_sem (cv_waiter p s k) = Some i"
    and one: "one \<Longrightarrow> cv_targets p s = {}"
    and j: "j < length (bm_mutex_pool s)" "cv_guard (cv_obj s p) \<noteq> Some j" and held: "mtx_flag (bm_mutex_pool s ! j)"
    and fs: "length fs = unat (sem_get i s)"
    and t: "timeout \<noteq> NO_WAIT" "bm_ticks_now s < bm_deadline timeout s"
  shows "\<exists>s'. osal_condvar_wait (Some (Some p)) (Some (Some j)) timeout
      (map (\<lambda>f. (needs_mutex j f, False)) fs @ replicate m (id, False) @ (cv_notifier one p, False) # (id, False) # env) s = Some (Ok, s', env) \<and>
    cv_inv p s' \<and> mtx_flag (bm_mutex_pool s' ! j) \<and>
    (\<forall>l < cv_slots p s. cw_in_use (cv_waiter p s' l) = cw_in_use (cv_waiter p s l))"
proof -
  let ?e = "cv_notifier one p" and ?s4 = "cv_asleep p k i j s"
  have k: "k < cv_slots p s" "\<not> cw_in_use (cv_waiter p s k)" using cv_free_slot_spec(1) [OF free(1)] by simp_all
  have m0: "\<forall>f \<in> set (map (needs_mutex j) fs). \<forall>t. mtx_flag (bm_mutex_pool t ! j) = mtx_flag (bm_mutex_pool s ! j) \<longrightarrow> f t = t"
    using held by (auto simp: needs_mutex_def)
  note w0 = condvar_wait_releases(1) [OF inv free j _ m0, where timeout = timeout and b = False, simplified, unfolded comp_def, OF fs] and inv4 = condvar_wait_releases(2) [OF inv free j]
    and obj = condvar_wait_releases(3) [OF inv free j] and zero = condvar_wait_releases(4) [OF inv free j]
  have core4: "cv_core p ?s4" using inv4 by (simp add: cv_inv_def)
  have p4: "p < length (emu_cv_pool ?s4)" by (rule cv_coreD(1) [OF core4])
  let ?A = "cv_chosen one (cv_targets p ?s4)"
  have e: "?e ?s4 = cv_signal_eff p ?A ?s4" by (rule cv_notifier_eq [OF inv4])
  have "cv_targets p ?s4 = insert k (cv_targets p s)" using obj k by (auto simp: cv_targets_def cv_open_def nth_list_update)
  then have ch: "k \<in> ?A" using one by (auto simp: cv_chosen_def)
  have inv5: "cv_inv p (?e ?s4)" unfolding e cv_inv_def using cv_core_signal_eff [OF core4] inv4 p4
    by (simp add: cv_inv_def mutex_free_def)
  have one5: "sem_get i (?e ?s4) = 1" unfolding e using sem_get_signal_eff [OF core4, of k i] ch k free(2) obj by simp
  have t4: "bm_ticks_now ?s4 < bm_deadline timeout ?s4"
    using t(2) by (simp add: cv_asleep_def bm_ticks_now_def bm_deadline_def sem_set_def split: if_splits)
  have facts: "cw_sem (cv_waiter p ?s4 k) = Some i" "k < cv_slots p (?e ?s4)" "cw_in_use (cv_waiter p (?e ?s4) k)" "cw_sem (cv_waiter p (?e ?s4) k) = Some i"
    "j < length (bm_mutex_pool (?e ?s4))" "\<not> mtx_flag (bm_mutex_pool (?e ?s4) ! j)" "cv_guard (cv_obj (?e ?s4) p) \<noteq> Some j"
    using obj k free(2) j p4 unfolding e by (simp_all add: cv_asleep_def mutex_pool_sem_set)
  note w = cv_sleep_granted [where p = p and k = k and i = i and s = ?s4 and e = ?e and j = j and timeout = timeout,
      OF facts(1) zero inv5 facts(2-4) one5 facts(5-7) t(1) t4]
  have "osal_condvar_wait (Some (Some p)) (Some (Some j)) timeout
      (map (\<lambda>f. (needs_mutex j f, False)) fs @ replicate m (id, False) @ (?e, False) # (id, False) # env) s = Some (Ok, cv_awake p k i j (?e ?s4), env)"
  proof (cases m)
    case 0
    then show ?thesis using w0 [where e = ?e] cv_sleep_token [OF inv5 facts(2-4) one5 facts(5-7)] by simp
  next
    case (Suc m')
    then show ?thesis
      using w0 [where e = id] w(1) sem_take_idle [OF zero t(1) t4, of m' "(?e, False) # (id, False) # env"] facts(1) by (simp add: cv_sleep_def)
  qed
  moreover have "\<forall>l < cv_slots p s. cw_in_use (cv_waiter p (cv_awake p k i j (?e ?s4)) l) = cw_in_use (cv_waiter p s l)"
    using w(4) obj k p4 unfolding e by (auto simp: nth_list_update)
  ultimately show ?thesis using w(2,3) by blast
qed

theorem condvar_wait_notified_witness:
  "\<exists>s' s''. osal_condvar_wait (Some (Some 0)) (Some (Some 1)) 5 [(cv_notifier False 0, False), (id, False)] cv_demo = Some (Ok, s', []) \<and>
     mtx_flag (bm_mutex_pool s' ! 1) \<and>
     osal_condvar_wait (Some (Some 0)) (Some (Some 1)) 5 [(id, False), (id, False), (cv_notifier False 0, False), (id, False)] cv_demo = Some (Ok, s'', [])"
proof -
  have "bm_ticks_now cv_demo < bm_deadline 5 cv_demo" "sem_get 2 cv_demo = 0"
    by (simp_all add: bm_ticks_now_def bm_deadline_def cv_demo_simps WAIT_FOREVER_def) (simp add: cv_demo_def sem_get_def)
  moreover have "cv_free_slot (cv_waiters (cv_obj cv_demo 0)) 0 = Some 2" by (simp add: cv_demo_def cv_obj_def)
  ultimately show ?thesis
    using condvar_wait_notified [OF cv_demo_ok, of 2 2 False 1 "[]" 5 0 "[]"] condvar_wait_notified [OF cv_demo_ok, of 2 2 False 1 "[]" 5 2 "[]"]
    by (auto simp: cv_demo_simps NO_WAIT_def replicate_numeral_4)
qed

section \<open>What the operations keep\<close>

text \<open>
  Whatever the interference keeps, and what depends neither on the mutexes, the semaphore counters
  nor the condition variables themselves, is kept by every operation.
\<close>

definition cv_stable :: "('z cv_state_scheme \<Rightarrow> bool) \<Rightarrow> bool" where
  "cv_stable I \<longleftrightarrow> (\<forall>s b. I s \<longrightarrow> I (s\<lparr>bm_mutex_pool := b\<rparr>)) \<and> (\<forall>s i c. I s \<longrightarrow> I (sem_set i c s)) \<and> (\<forall>s b. I s \<longrightarrow> I (s\<lparr>emu_cv_pool := b\<rparr>))"

definition env_keeps :: "('s \<Rightarrow> bool) \<Rightarrow> 's env \<Rightarrow> bool" where
  "env_keeps I env \<longleftrightarrow> (\<forall>e \<in> set env. \<forall>s. I s \<longrightarrow> I (fst e s))"

lemma cv_stableD:
  assumes "cv_stable I" "I s"
  shows "I (s\<lparr>bm_mutex_pool := b\<rparr>)" "I (sem_set i c s)" "I (cv_put p obj s)" "I (cv_register p k s)" "I (cv_unregister p k s)"
    "I (cv_unlock p s)" "I (snd (osal_mutex_unlock h s))"
  using assms unfolding cv_stable_def
  by (simp_all add: cv_put_def cv_register_def cv_unregister_def cv_unlock_def osal_mutex_unlock_def Let_def split: option.split)

lemma stable_mutex_lock:
  assumes "cv_stable I" "env_keeps I env" "I s" "osal_mutex_lock h t env s = Some (r, s', env')"
  shows "I s'" "env_keeps I env'"
  using mutex_lock_inv [OF assms(4), of I] assms(2,3) cv_stableD(1) [OF assms(1)] unfolding env_keeps_def by blast+

lemma stable_sem_take:
  assumes "cv_stable I" "env_keeps I env" "I s" "osal_semaphore_take h t env s = Some (r, s', env')"
  shows "I s'" "env_keeps I env'"
  using sem_take_inv [OF assms(4), of I] assms(2,3) cv_stableD(2) [OF assms(1)] unfolding env_keeps_def by blast+

lemma stable_sem_give:
  assumes "cv_stable I" "env_keeps I env" "I s" "osal_semaphore_give h env s = Some (r, s', env')"
  shows "I s'" "env_keeps I env'"
  using sem_give_inv [OF assms(4), of I] assms(2,3) cv_stableD(2) [OF assms(1)] unfolding env_keeps_def by blast+

lemma stable_cv_sleep:
  assumes st: "cv_stable I" "env_keeps I env" "I s" and run: "cv_sleep p k mutex timeout env s = Some (r, s', env')"
  shows "I s'" "env_keeps I env'"
proof -
  obtain s1 env1 r2 s2 env2 r3 s3 where
    a: "osal_semaphore_take (Some (cw_sem (cv_waiters (cv_obj s p) ! k))) timeout env s = Some (r, s1, env1)" and
    b: "osal_mutex_lock mutex WAIT_FOREVER env1 s1 = Some (r2, s2, env2)" and
    c: "osal_mutex_lock (Some (cv_guard (cv_obj s2 p))) WAIT_FOREVER env2 s2 = Some (r3, s3, env')" and
    s': "s' = cv_unlock p (cv_unregister p k s3)"
    using run unfolding cv_sleep_def by (auto split: bind_splits)
  note a' = stable_sem_take [OF st a]
  note b' = stable_mutex_lock [OF st(1) a'(2,1) b]
  note c' = stable_mutex_lock [OF st(1) b'(2,1) c]
  show "I s'" "env_keeps I env'" using c' cv_stableD [OF st(1)] by (simp_all add: s')
qed

lemma stable_condvar_wait:
  assumes st: "cv_stable I" "env_keeps I env" "I s" and run: "osal_condvar_wait h mutex timeout env s = Some (r, s', env')"
  shows "I s'" "env_keeps I env'"
proof -
  have "I s' \<and> env_keeps I env'"
  proof (cases "mutex = None \<or> native_of h = None")
    case True
    then show ?thesis using run st by (auto simp: osal_condvar_wait_def split: if_splits option.splits)
  next
    case False
    then obtain p where p: "mutex \<noteq> None" "native_of h = Some p" by blast
    then obtain r1 s1 env1 where a: "osal_mutex_lock (Some (cv_guard (cv_obj s p))) WAIT_FOREVER env s = Some (r1, s1, env1)"
      using run by (auto simp: osal_condvar_wait_def split: bind_splits)
    note a' = stable_mutex_lock [OF st a]
    show ?thesis
    proof (cases "cv_free_slot (cv_waiters (cv_obj s1 p)) 0")
      case None
      then show ?thesis using run p a a' cv_stableD(6) [OF st(1)] by (auto simp: osal_condvar_wait_def)
    next
      case (Some k)
      then obtain r2 s2 env2 s4 env4 where b: "osal_semaphore_try_take (Some (cw_sem (cv_waiters (cv_obj s1 p) ! k))) env1 s1 = Some (r2, s2, env2)"
        and e: "cv_release_mutex mutex env2 (cv_unlock p (cv_register p k s2)) = Some (s4, env4)"
        and c: "cv_sleep p k mutex timeout env4 s4 = Some (r, s', env')"
        using run p a by (auto simp: osal_condvar_wait_def Let_def split: bind_splits)
      note b' = stable_sem_take [OF st(1) a'(2,1) b [unfolded osal_semaphore_try_take_def]]
      have "I (snd (osal_mutex_unlock mutex (cv_unlock p (cv_register p k s2))))"
        by (intro cv_stableD(4,6,7) [OF st(1)] b'(1))
      then have "I s4" "env_keeps I env4" using e b'(2) by (auto simp: cv_release_mutex_def sched_def env_keeps_def split: list.splits)
      with stable_cv_sleep [OF st(1) _ _ c] show ?thesis by blast
    qed
  qed
  then show "I s'" "env_keeps I env'" by blast+
qed

lemma stable_notify_from:
  assumes "cv_stable I"
  shows "env_keeps I env \<Longrightarrow> I s \<Longrightarrow> cv_notify_from one p k j env s = Some (s', env') \<Longrightarrow> I s' \<and> env_keeps I env'"
proof (induction one p k j env s rule: cv_notify_from.induct)
  case (2 one p k j env s)
  show ?case
  proof (cases "cw_in_use (cv_waiter p s k) \<and> \<not> cw_signalled (cv_waiter p s k)")
    case True
    then obtain s1 env1 where sg: "cv_signal p k env s = Some (s1, env1)"
      and rest: "(if one then Some (s1, env1) else cv_notify_from one p (Suc k) j env1 s1) = Some (s', env')"
      using "2.prems"(3) by (auto simp: Let_def split: option.splits)
    obtain r where gv: "osal_semaphore_give (Some (cw_sem (cv_waiter p s k))) env
        (cv_put p ((cv_obj s p)\<lparr>cv_waiters := (cv_waiters (cv_obj s p))[k := (cv_waiter p s k)\<lparr>cw_signalled := True\<rparr>]\<rparr>) s) = Some (r, s1, env1)"
      using sg by (auto simp: cv_signal_def Let_def split: bind_splits)
    note g = stable_sem_give [OF assms "2.prems"(1) cv_stableD(3) [OF assms "2.prems"(2)] gv]
    show ?thesis
    proof (cases one)
      case True
      then show ?thesis using rest g by simp
    next
      case False
      then show ?thesis using "2.IH"(1) [OF refl _ sg refl False g(2,1)] rest True by auto
    qed
  qed (use 2 in \<open>auto simp: Let_def\<close>)
qed auto

lemma stable_cv_notify:
  assumes st: "cv_stable I" "env_keeps I env" "I s" and run: "cv_notify one h env s = Some (r, s', env')"
  shows "I s'" "env_keeps I env'"
proof -
  have "I s' \<and> env_keeps I env'"
  proof (cases "native_of h")
    case (Some p)
    then obtain r1 s1 env1 where a: "osal_mutex_lock (Some (cv_guard (cv_obj s p))) WAIT_FOREVER env s = Some (r1, s1, env1)"
      using run by (auto simp: cv_notify_def split: bind_splits)
    note a' = stable_mutex_lock [OF st a]
    show ?thesis
      using run Some a a' stable_notify_from [OF st(1) a'(2,1)] cv_stableD(6) [OF st(1)]
      by (auto simp: cv_notify_def split: bind_splits if_splits)
  qed (use run st in \<open>auto simp: cv_notify_def\<close>)
  then show "I s'" "env_keeps I env'" by blast+
qed

end
