(* ===== verification/Osal_Condvar_Lifecycle.thy ===== *)
theory Osal_Condvar_Lifecycle
  imports Osal_Condvar
begin

text \<open>
  Creation and destruction of the emulated condition variable: creation takes one free mutex and one
  free semaphore per waiter slot and ends with a well-formed object, or takes nothing at all.
\<close>

section \<open>One semaphore\<close>

definition sem_taken :: "nat \<Rightarrow> 'z bm_state_scheme \<Rightarrow> 'z bm_state_scheme" where
  "sem_taken i s = s\<lparr>bm_sem_used_bits := bit_mark (bm_sem_used_bits s) i, bm_sem_pool := (bm_sem_pool s)[i := \<lparr>sem_count = 0, sem_max = 1\<rparr>]\<rparr>"

definition sem_freed :: "nat \<Rightarrow> 'z bm_state_scheme \<Rightarrow> 'z bm_state_scheme" where
  "sem_freed i s = s\<lparr>bm_sem_used_bits := bit_unmark (bm_sem_used_bits s) i\<rparr>"

lemma sem_overwrite: "(x :: bm_semaphore)\<lparr>sem_count := c, sem_max := m\<rparr> = \<lparr>sem_count = c, sem_max = m\<rparr>"
  by (cases x) simp

lemma sem_create_cases:
  assumes "sem_pool_ok s"
  obtains i where "osal_semaphore_create (Some h) 0 1 s = (Ok, Some (Some i), sem_taken i s)" "i < length (bm_sem_pool s)" "i \<notin> sem_used s"
    "sem_used (sem_taken i s) = insert i (sem_used s)" "sem_pool_ok (sem_taken i s)"
  | "osal_semaphore_create (Some h) 0 1 s = (Out_of_resources, Some h, s)"
proof (cases "first_free (bm_sem_used_bits s) 0 (length (bm_sem_pool s))")
  case (Some i)
  have i: "i < length (bm_sem_pool s) \<and> i \<notin> sem_used s" using first_free_pool(1) [OF Some] by (simp add: sem_used_def)
  have "osal_semaphore_create (Some h) 0 1 s = (Ok, Some (Some i), sem_taken i s)"
    unfolding osal_semaphore_create_def sem_taken_def Some sem_overwrite by simp
  with i that(1) [of i] assms show ?thesis by (simp add: sem_taken_def sem_used_def sem_pool_ok_def pool_simps)
qed (use that(2) in \<open>simp add: osal_semaphore_create_def\<close>)

lemma sem_destroy_used:
  assumes "sem_pool_ok s" "i \<in> sem_used s"
  shows "osal_semaphore_destroy (Some (Some i)) s = (Ok, None, sem_freed i s) \<and> sem_used (sem_freed i s) = sem_used s - {i} \<and> sem_pool_ok (sem_freed i s)"
  using assms by (simp add: osal_semaphore_destroy_def sem_freed_def sem_used_def sem_pool_ok_def pool_simps)

section \<open>The semaphores of the waiter slots\<close>

lemma cv_create_sems_spec:
  assumes "sem_pool_ok s" "cv_create_sems ws s = (n, ws', s1)"
  obtains il u b where "n \<le> length ws" "length il = n" "distinct il" "set il \<inter> sem_used s = {}" "sem_used s1 = sem_used s \<union> set il" "sem_pool_ok s1"
    "s1 = s\<lparr>bm_sem_used_bits := u, bm_sem_pool := b\<rparr>" "length b = length (bm_sem_pool s)"
    "\<forall>i \<in> set il. i < length b \<and> b ! i = \<lparr>sem_count = 0, sem_max = 1\<rparr>" "\<forall>j. j \<notin> set il \<longrightarrow> b ! j = bm_sem_pool s ! j"
    "length ws' = length ws" "\<forall>k < n. ws' ! k = (ws ! k)\<lparr>cw_sem := Some (il ! k)\<rparr>"
  using assms
proof (induction ws arbitrary: s n ws' s1 thesis)
  case Nil
  from Nil.prems(1) [of "[]" "bm_sem_pool s" "bm_sem_used_bits s"] Nil.prems(2,3) show ?case by simp
next
  case (Cons w ws)
  from \<open>sem_pool_ok s\<close> show ?case
  proof (cases rule: sem_create_cases [where h = "cw_sem w"])
    case (1 i)
    obtain m vs s2 where c: "cv_create_sems ws (sem_taken i s) = (m, vs, s2)" by (cases "cv_create_sems ws (sem_taken i s)")
    then have r: "n = Suc m" "ws' = w\<lparr>cw_sem := Some i\<rparr> # vs" "s1 = s2" using Cons.prems(3) 1(1) by simp_all
    obtain il u b where il: "m \<le> length ws" "length il = m" "distinct il" "set il \<inter> sem_used (sem_taken i s) = {}"
      "sem_used s2 = sem_used (sem_taken i s) \<union> set il" "sem_pool_ok s2"
      "s2 = (sem_taken i s)\<lparr>bm_sem_used_bits := u, bm_sem_pool := b\<rparr>" "length b = length (bm_sem_pool (sem_taken i s))"
      "\<forall>i \<in> set il. i < length b \<and> b ! i = \<lparr>sem_count = 0, sem_max = 1\<rparr>" "\<forall>j. j \<notin> set il \<longrightarrow> b ! j = bm_sem_pool (sem_taken i s) ! j"
      "length vs = length ws" "\<forall>k < m. vs ! k = (ws ! k)\<lparr>cw_sem := Some (il ! k)\<rparr>"
      using Cons.IH [OF _ 1(5) c] by blast
    show ?thesis
    proof (rule Cons.prems(1) [of "i # il" b u])
      show "s1 = s\<lparr>bm_sem_used_bits := u, bm_sem_pool := b\<rparr>" using il(7) r(3) by (simp add: sem_taken_def)
      show "length b = length (bm_sem_pool s)" using il(8) by (simp add: sem_taken_def)
      show "\<forall>j \<in> set (i # il). j < length b \<and> b ! j = \<lparr>sem_count = 0, sem_max = 1\<rparr>"
        using il(4,8,9,10) 1(2,4) by (auto simp: sem_taken_def)
      show "\<forall>j. j \<notin> set (i # il) \<longrightarrow> b ! j = bm_sem_pool s ! j" using il(10) by (simp add: sem_taken_def)
      show "\<forall>k < n. ws' ! k = ((w # ws) ! k)\<lparr>cw_sem := Some ((i # il) ! k)\<rparr>" using il(12) r by (auto simp: less_Suc_eq_0_disj)
    qed (use il 1 r in auto)
  next
    case 2
    then have r: "n = 0" "ws' = w # ws" "s1 = s" using Cons.prems(3) by simp_all
    show ?thesis by (rule Cons.prems(1) [of "[]" "bm_sem_pool s" "bm_sem_used_bits s"]) (use r \<open>sem_pool_ok s\<close> in simp_all)
  qed
qed

lemma cv_destroy_sems_spec:
  "sem_pool_ok s \<Longrightarrow> map cw_sem ws = map Some il \<Longrightarrow> distinct il \<Longrightarrow> set il \<subseteq> sem_used s \<Longrightarrow>
   \<exists>ws' s1 u. cv_destroy_sems ws s = (ws', s1) \<and> s1 = s\<lparr>bm_sem_used_bits := u\<rparr> \<and> sem_pool_ok s1 \<and> sem_used s1 = sem_used s - set il"
proof (induction ws arbitrary: s il)
  case Nil
  then show ?case by (intro exI [of _ "[]"] exI [of _ s] exI [of _ "bm_sem_used_bits s"]) simp
next
  case (Cons w ws)
  then obtain i is' where il: "il = i # is'" "cw_sem w = Some i" "map cw_sem ws = map Some is'" by (cases il) auto
  note d = sem_destroy_used [OF Cons.prems(1), of i]
  have d: "osal_semaphore_destroy (Some (Some i)) s = (Ok, None, sem_freed i s)" "sem_used (sem_freed i s) = sem_used s - {i}" "sem_pool_ok (sem_freed i s)"
    using d Cons.prems(4) il(1) by simp_all
  have "distinct is'" "set is' \<subseteq> sem_used (sem_freed i s)" using Cons.prems(3,4) il(1) d(2) by auto
  from Cons.IH [OF d(3) il(3) this] obtain vs s1 u where
    "cv_destroy_sems ws (sem_freed i s) = (vs, s1)" "s1 = (sem_freed i s)\<lparr>bm_sem_used_bits := u\<rparr>" "sem_pool_ok s1" "sem_used s1 = sem_used s - {i} - set is'"
    using d(2) by auto
  then show ?case using il d(1) by (auto simp: sem_freed_def)
qed

section \<open>The guard\<close>

definition mutex_taken :: "nat \<Rightarrow> 'z bm_state_scheme \<Rightarrow> 'z bm_state_scheme" where
  "mutex_taken g s = s\<lparr>bm_mutex_used_bits := bit_mark (bm_mutex_used_bits s) g, bm_mutex_pool := (bm_mutex_pool s)[g := (bm_mutex_pool s ! g)\<lparr>mtx_flag := False\<rparr>]\<rparr>"

lemma mutex_create_cases:
  assumes "mutex_pool_ok s"
  obtains g where "osal_mutex_create h s = (Ok, Some g, mutex_taken g s)" "g < length (bm_mutex_pool s)" "g \<notin> mutex_used s"
    "mutex_used (mutex_taken g s) = insert g (mutex_used s)" "mutex_pool_ok (mutex_taken g s)"
  | "osal_mutex_create h s = (Out_of_resources, h, s)"
proof (cases "first_free (bm_mutex_used_bits s) 0 (length (bm_mutex_pool s))")
  case (Some g)
  have g: "g < length (bm_mutex_pool s) \<and> g \<notin> mutex_used s" using first_free_pool(1) [OF Some] by (simp add: mutex_used_def)
  have "osal_mutex_create h s = (Ok, Some g, mutex_taken g s)" using Some by (simp add: osal_mutex_create_def mutex_taken_def)
  with g that(1) [of g] assms show ?thesis by (simp add: mutex_taken_def mutex_used_def mutex_pool_ok_def pool_simps)
qed (use that(2) in \<open>simp add: osal_mutex_create_def\<close>)

lemma mutex_destroy_used:
  assumes "mutex_pool_ok s" "g \<in> mutex_used s"
  shows "\<exists>u. osal_mutex_destroy (Some (Some g)) s = (Ok, None, s\<lparr>bm_mutex_used_bits := u\<rparr>) \<and> mutex_used (s\<lparr>bm_mutex_used_bits := u\<rparr>) = mutex_used s - {g}"
  using assms by (intro exI [of _ "bit_unmark (bm_mutex_used_bits s) g"]) (simp add: osal_mutex_destroy_def mutex_used_def mutex_pool_ok_def pool_simps)

lemma used_frame [simp]:
  "mutex_used (cv_put p obj s) = mutex_used s" "sem_used (cv_put p obj s) = sem_used s"
  "mutex_used (s\<lparr>emu_cv_used := us\<rparr>) = mutex_used s" "sem_used (s\<lparr>emu_cv_used := us\<rparr>) = sem_used s"
  "mutex_used (emu_cv_release p s) = mutex_used s" "sem_used (emu_cv_release p s) = sem_used s"
  "sem_used (mutex_taken g s) = sem_used s" "sem_pool_ok (mutex_taken g s) = sem_pool_ok s"
  "mutex_used (s\<lparr>bm_sem_used_bits := u\<rparr>) = mutex_used s" "mutex_used (s\<lparr>bm_sem_pool := b\<rparr>) = mutex_used s"
  "sem_used (s\<lparr>bm_mutex_used_bits := u\<rparr>) = sem_used s" "sem_used (s\<lparr>bm_mutex_pool := c\<rparr>) = sem_used s"
  "mutex_pool_ok (cv_put p obj s) = mutex_pool_ok s" "sem_pool_ok (cv_put p obj s) = sem_pool_ok s"
  "mutex_pool_ok (s\<lparr>emu_cv_used := us\<rparr>) = mutex_pool_ok s" "sem_pool_ok (s\<lparr>emu_cv_used := us\<rparr>) = sem_pool_ok s"
  "mutex_pool_ok (s\<lparr>bm_sem_used_bits := u\<rparr>) = mutex_pool_ok s" "mutex_pool_ok (s\<lparr>bm_sem_pool := b\<rparr>) = mutex_pool_ok s"
  "sem_pool_ok (s\<lparr>bm_mutex_used_bits := u\<rparr>) = sem_pool_ok s"
  "emu_cv_used (cv_put p obj s) = emu_cv_used s" "emu_cv_used (mutex_taken g s) = emu_cv_used s" "emu_cv_pool (mutex_taken g s) = emu_cv_pool s"
  "cv_obj (s\<lparr>bm_sem_used_bits := u\<rparr>) q = cv_obj s q" "cv_obj (s\<lparr>bm_mutex_used_bits := u\<rparr>) q = cv_obj s q"
  "cv_obj (s\<lparr>emu_cv_used := us\<rparr>) q = cv_obj s q" "cv_obj (mutex_taken g s) q = cv_obj s q"
  by (simp_all add: cv_obj_def mutex_used_def sem_used_def mutex_pool_ok_def sem_pool_ok_def cv_put_def emu_cv_release_def mutex_taken_def)

section \<open>Creation\<close>

text \<open>The object it works on has no waiters.\<close>

definition cv_blank :: "emulated_condvar_obj \<Rightarrow> emulated_condvar_obj" where
  "cv_blank cv = cv\<lparr>cv_n_waiters := 0, cv_pool_allocated := True,
     cv_waiters := map (\<lambda>w. w\<lparr>cw_in_use := False, cw_signalled := False\<rparr>) (cv_waiters cv)\<rparr>"

abbreviation cv_claim :: "nat \<Rightarrow> 'z cv_state_scheme \<Rightarrow> 'z cv_state_scheme" where
  "cv_claim p s \<equiv> cv_put p (cv_blank (cv_obj s p)) (s\<lparr>emu_cv_used := (emu_cv_used s)[p := True]\<rparr>)"

lemma cv_create_unfold:
  assumes "first_unused (emu_cv_used s) 0 = Some p"
  shows "osal_condvar_create (Some h) s =
    (case osal_mutex_create (cv_guard (cv_obj s p)) (cv_claim p s) of (r2, g, s2) \<Rightarrow>
       let cv2 = (cv_blank (cv_obj s p))\<lparr>cv_guard := g\<rparr> in
       if r2 \<noteq> Ok then (Out_of_resources, Some h, emu_cv_release p (cv_put p cv2 s2))
       else case cv_create_sems (cv_waiters cv2) (cv_put p cv2 s2) of (n, ws, s3) \<Rightarrow>
         if n < length (cv_waiters cv2) then
           case cv_destroy_sems (take n ws) s3 of (ws', s4) \<Rightarrow>
           case osal_mutex_destroy (Some g) s4 of (_, g', s5) \<Rightarrow>
             (Out_of_resources, Some h, emu_cv_release p (cv_put p (cv2\<lparr>cv_waiters := ws' @ drop n ws, cv_guard := g'\<rparr>) s5))
         else (Ok, Some (Some p), cv_put p (cv2\<lparr>cv_waiters := ws\<rparr>) s3))"
proof -
  have "cv_obj (s\<lparr>emu_cv_used := us\<rparr>) q = cv_obj s q" for us q by (simp add: cv_obj_def)
  note o = this
  show ?thesis unfolding osal_condvar_create_def emu_cv_acquire_def assms option.case prod.case o cv_blank_def Let_def by simp
qed

lemma cv_used_back: "p < length us \<Longrightarrow> \<not> us ! p \<Longrightarrow> us[p := False] = us"
  by (metis list_update_id)

lemma cv_release_used:
  fixes s t :: "'z cv_state_scheme"
  shows
  "p < length (emu_cv_used s) \<Longrightarrow> \<not> emu_cv_used s ! p \<Longrightarrow> p < length (emu_cv_pool s) \<Longrightarrow> emu_cv_used t = (emu_cv_used s)[p := True] \<Longrightarrow>
   length (emu_cv_pool t) = length (emu_cv_pool s) \<Longrightarrow> emu_cv_used (emu_cv_release p t) = emu_cv_used s"
  by (simp add: emu_cv_release_def cv_used_back)

definition cv_pools_same :: "'z cv_state_scheme \<Rightarrow> 'z cv_state_scheme \<Rightarrow> bool" where
  "cv_pools_same s s' \<longleftrightarrow> emu_cv_used s' = emu_cv_used s \<and> mutex_used s' = mutex_used s \<and> sem_used s' = sem_used s"

lemma cv_give_back:
  assumes "sem_pool_ok s" "map cw_sem ws = map Some il" "distinct il" "set il \<subseteq> sem_used s" "mutex_pool_ok s" "g \<in> mutex_used s"
  obtains ws' s1 u m where "cv_destroy_sems ws s = (ws', s1)" "osal_mutex_destroy (Some (Some g)) s1 = (Ok, None, s\<lparr>bm_sem_used_bits := u, bm_mutex_used_bits := m\<rparr>)"
    "mutex_used (s\<lparr>bm_sem_used_bits := u, bm_mutex_used_bits := m\<rparr>) = mutex_used s - {g}" "sem_used (s\<lparr>bm_sem_used_bits := u\<rparr>) = sem_used s - set il"
proof -
  obtain ws' u where d: "cv_destroy_sems ws s = (ws', s\<lparr>bm_sem_used_bits := u\<rparr>)" "sem_used (s\<lparr>bm_sem_used_bits := u\<rparr>) = sem_used s - set il"
    using cv_destroy_sems_spec [OF assms(1-4)] by blast
  moreover have "mutex_pool_ok (s\<lparr>bm_sem_used_bits := u\<rparr>)" "g \<in> mutex_used (s\<lparr>bm_sem_used_bits := u\<rparr>)" using assms(5,6) by simp_all
  from mutex_destroy_used [OF this] obtain m where
    "osal_mutex_destroy (Some (Some g)) (s\<lparr>bm_sem_used_bits := u\<rparr>) = (Ok, None, s\<lparr>bm_sem_used_bits := u, bm_mutex_used_bits := m\<rparr>)"
    "mutex_used (s\<lparr>bm_sem_used_bits := u, bm_mutex_used_bits := m\<rparr>) = mutex_used s - {g}" by auto
  ultimately show ?thesis using that [of ws' "s\<lparr>bm_sem_used_bits := u\<rparr>"] by blast
qed

lemma cv_core_fresh:
  assumes p: "p < length (emu_cv_pool s)" and n: "cv_n_waiters (cv_obj s p) = 0" "cv_slots p s < 2 ^ 64"
    and sems: "map cw_sem (cv_waiters (cv_obj s p)) = map Some il" "distinct il"
      "\<forall>i \<in> set il. i < length (bm_sem_pool s) \<and> bm_sem_pool s ! i = \<lparr>sem_count = 0, sem_max = 1\<rparr>"
    and idle: "\<forall>k < cv_slots p s. \<not> cw_in_use (cv_waiter p s k)"
  shows "cv_core p s"
proof -
  have len: "cv_slots p s = length il" using sems(1) by (metis length_map)
  have w: "cw_sem (cv_waiter p s k) = Some (il ! k)" if "k < length il" for k using sems(1) that by (metis len nth_map)
  have "cv_slot_ok s (cv_waiter p s k)" if "k < length il" for k
    using w [OF that] sems(3) nth_mem [OF that] idle len that by (simp add: cv_slot_ok_def cv_open_def sem_get_def)
  moreover have "{k. k < length il \<and> cw_in_use (cv_waiter p s k)} = {}" using idle len by auto
  ultimately show ?thesis using p n len w sems(2) by (simp add: cv_core_def nth_eq_iff_index_eq)
qed

text \<open>What a successful creation leaves, and from where.\<close>

definition cv_fresh :: "nat \<Rightarrow> 'z cv_state_scheme \<Rightarrow> 'z cv_state_scheme \<Rightarrow> bool" where
  "cv_fresh p s s' \<longleftrightarrow> p < length (emu_cv_pool s) \<and> \<not> emu_cv_used s ! p \<and> emu_cv_used s' = (emu_cv_used s)[p := True] \<and>
     length (emu_cv_pool s') = length (emu_cv_pool s) \<and> (\<forall>q. q \<noteq> p \<longrightarrow> cv_obj s' q = cv_obj s q) \<and>
     cv_inv p s' \<and> cv_slots p s' = cv_slots p s \<and> (\<forall>k < cv_slots p s'. \<not> cw_in_use (cv_waiter p s' k)) \<and> mutex_pool_ok s' \<and> sem_pool_ok s' \<and>
     (\<exists>g il. cv_guard (cv_obj s' p) = Some g \<and> g \<notin> mutex_used s \<and> mutex_used s' = insert g (mutex_used s) \<and>
        map cw_sem (cv_waiters (cv_obj s' p)) = map Some il \<and> distinct il \<and> set il \<inter> sem_used s = {} \<and> sem_used s' = sem_used s \<union> set il)"

lemma condvar_create_outcome:
  assumes ok: "mutex_pool_ok s" "sem_pool_ok s" and len: "length (emu_cv_used s) = length (emu_cv_pool s)"
    and small: "\<forall>p < length (emu_cv_pool s). cv_slots p s < 2 ^ 64"
    and run: "osal_condvar_create (Some h) s = (r, hnd, s')"
  shows "r = Ok \<and> (\<exists>p. hnd = Some (Some p) \<and> cv_fresh p s s') \<or> r = Out_of_resources \<and> hnd = Some h \<and> cv_pools_same s s'"
proof (cases "first_unused (emu_cv_used s) 0")
  case None
  then show ?thesis using run by (simp add: osal_condvar_create_def emu_cv_acquire_def cv_pools_same_def)
next
  case (Some p)
  have p: "p < length (emu_cv_pool s)" "\<not> emu_cv_used s ! p" "p < length (emu_cv_used s)"
    using first_unused_Some [OF Some] len by simp_all
  note undo = cv_release_used [OF p(3,2) p(1)]
  have mok: "mutex_pool_ok (cv_claim p s)" using ok by simp
  from mok show ?thesis
  proof (cases rule: mutex_create_cases [where h = "cv_guard (cv_obj s p)"])
    case 2
    have "s' = emu_cv_release p (cv_put p ((cv_blank (cv_obj s p))\<lparr>cv_guard := cv_guard (cv_obj s p)\<rparr>) (cv_claim p s))"
      "r = Out_of_resources" "hnd = Some h"
      using run by (simp_all add: cv_create_unfold [OF Some] 2 Let_def)
    then show ?thesis using undo by (simp add: cv_pools_same_def)
  next
    case (1 g)
    let ?cv = "(cv_blank (cv_obj s p))\<lparr>cv_guard := Some g\<rparr>"
    let ?t = "cv_put p ?cv (mutex_taken g (cv_claim p s))"
    obtain n ws s3 where c: "cv_create_sems (cv_waiters ?cv) ?t = (n, ws, s3)" by (cases "cv_create_sems (cv_waiters ?cv) ?t")
    have "sem_pool_ok ?t" using ok by simp
    then obtain il u b where il: "n \<le> length (cv_waiters ?cv)" "length il = n" "distinct il" "set il \<inter> sem_used ?t = {}" "sem_used s3 = sem_used ?t \<union> set il"
      "sem_pool_ok s3" "s3 = ?t\<lparr>bm_sem_used_bits := u, bm_sem_pool := b\<rparr>" "length b = length (bm_sem_pool ?t)"
      "\<forall>i \<in> set il. i < length b \<and> b ! i = \<lparr>sem_count = 0, sem_max = 1\<rparr>" "length ws = length (cv_waiters ?cv)"
      "\<forall>k < n. ws ! k = (cv_waiters ?cv ! k)\<lparr>cw_sem := Some (il ! k)\<rparr>"
      by (rule cv_create_sems_spec [OF _ c]) blast
    have sems: "map cw_sem (take n ws) = map Some il" using il(1,2,10,11) by (intro nth_equalityI) simp_all
    have mu: "mutex_used s3 = insert g (mutex_used s)" "mutex_pool_ok s3" using 1(4,5) il(7) by simp_all
    show ?thesis
    proof (cases "n < length (cv_waiters ?cv)")
      case True
      have in3: "set il \<subseteq> sem_used s3" "g \<in> mutex_used s3" using il(5) mu by auto
      obtain ws' s4 u' m where
        d: "cv_destroy_sems (take n ws) s3 = (ws', s4)" "osal_mutex_destroy (Some (Some g)) s4 = (Ok, None, s3\<lparr>bm_sem_used_bits := u', bm_mutex_used_bits := m\<rparr>)"
        "mutex_used (s3\<lparr>bm_sem_used_bits := u', bm_mutex_used_bits := m\<rparr>) = mutex_used s3 - {g}" "sem_used (s3\<lparr>bm_sem_used_bits := u'\<rparr>) = sem_used s3 - set il"
        by (rule cv_give_back [OF il(6) sems il(3) in3(1) mu(2) in3(2)])
      have "r = Out_of_resources" "hnd = Some h" "s' = emu_cv_release p (cv_put p (?cv\<lparr>cv_waiters := ws' @ drop n ws, cv_guard := None\<rparr>)
          (s3\<lparr>bm_sem_used_bits := u', bm_mutex_used_bits := m\<rparr>))"
        using run True by (simp_all add: cv_create_unfold [OF Some] 1(1) Let_def c [simplified] d(1,2))
      moreover have "sem_used (s3\<lparr>bm_sem_used_bits := u', bm_mutex_used_bits := m\<rparr>) = sem_used s"
        unfolding used_frame d(4) il(5) using il(4) by auto
      moreover have "mutex_used (s3\<lparr>bm_sem_used_bits := u', bm_mutex_used_bits := m\<rparr>) = mutex_used s" unfolding d(3) mu(1) using 1(3) by simp
      moreover have "emu_cv_used s' = emu_cv_used s" unfolding calculation(3) by (rule undo) (simp_all add: il(7))
      ultimately show ?thesis by (simp only: cv_pools_same_def used_frame simp_thms)
    next
      case False
      then have n: "n = length (cv_waiters (cv_obj s p))" using il(1) by (simp add: cv_blank_def)
      have r: "r = Ok" "hnd = Some (Some p)" "s' = cv_put p (?cv\<lparr>cv_waiters := ws\<rparr>) s3"
        using run False by (simp_all add: cv_create_unfold [OF Some] 1(1) Let_def c [simplified])
      have obj: "cv_obj s' p = ?cv\<lparr>cv_waiters := ws\<rparr>" "\<forall>q. q \<noteq> p \<longrightarrow> cv_obj s' q = cv_obj s q" "length (emu_cv_pool s') = length (emu_cv_pool s)"
        using p(1) by (simp_all add: r(3) il(7))
      have w: "ws ! k = (cv_waiters (cv_obj s p) ! k)\<lparr>cw_sem := Some (il ! k), cw_in_use := False, cw_signalled := False\<rparr>" if "k < n" for k
        using il(11) that n by (simp add: cv_blank_def)
      have lw: "length ws = n" using il(10) n by (simp add: cv_blank_def)
      have sm: "map cw_sem (cv_waiters (cv_obj s' p)) = map Some il" "set il \<inter> sem_used s = {}" using sems lw il(4) by (simp_all add: obj)
      have idle: "\<forall>k < cv_slots p s'. \<not> cw_in_use (cv_waiter p s' k)" using w by (simp add: obj lw)
      have "cv_core p s'"
        by (rule cv_core_fresh [OF _ _ _ sm(1) il(3) _ idle]) (use p(1) obj small n lw il(9) in \<open>simp_all add: cv_blank_def r(3) il(7)\<close>)
      moreover have "mutex_free (Some g) s'" using 1(2) by (simp add: mutex_free_def r(3) il(7) mutex_taken_def)
      ultimately have inv: "cv_inv p s'" by (simp add: cv_inv_def obj)
      have used: "emu_cv_used s' = (emu_cv_used s)[p := True]" by (simp add: r(3) il(7) cv_put_def mutex_taken_def)
      have mp: "mutex_used s' = insert g (mutex_used s)" "mutex_pool_ok s'" "sem_used s' = sem_used s \<union> set il" "sem_pool_ok s'"
        using mu il(5,6) by (simp_all add: r(3))
      have "cv_fresh p s s'" unfolding cv_fresh_def using p inv idle used mp sm il(3) obj 1(3) lw n by (simp add: obj(1))
      with r show ?thesis by blast
    qed
  qed
qed

lemma condvar_destroy_fresh:
  assumes "length (emu_cv_used s) = length (emu_cv_pool s)" "cv_fresh p s s'"
  shows "\<exists>s''. osal_condvar_destroy (Some (Some p)) s' = (Ok, Some None, s'') \<and> cv_pools_same s s''"
proof -
  obtain g il where g: "cv_guard (cv_obj s' p) = Some g" "g \<notin> mutex_used s" "mutex_used s' = insert g (mutex_used s)"
    "map cw_sem (cv_waiters (cv_obj s' p)) = map Some il" "distinct il" "set il \<inter> sem_used s = {}" "sem_used s' = sem_used s \<union> set il"
    "sem_pool_ok s'" "mutex_pool_ok s'" using assms(2) unfolding cv_fresh_def by blast
  then have in': "set il \<subseteq> sem_used s'" "g \<in> mutex_used s'" by auto
  obtain ws' s1 u m where
    d: "cv_destroy_sems (cv_waiters (cv_obj s' p)) s' = (ws', s1)" "osal_mutex_destroy (Some (Some g)) s1 = (Ok, None, s'\<lparr>bm_sem_used_bits := u, bm_mutex_used_bits := m\<rparr>)"
    "mutex_used (s'\<lparr>bm_sem_used_bits := u, bm_mutex_used_bits := m\<rparr>) = mutex_used s' - {g}" "sem_used (s'\<lparr>bm_sem_used_bits := u\<rparr>) = sem_used s' - set il"
    by (rule cv_give_back [OF g(8,4,5) in'(1) g(9) in'(2)])
  have p: "p < length (emu_cv_used s)" "\<not> emu_cv_used s ! p" "p < length (emu_cv_pool s)" "emu_cv_used s' = (emu_cv_used s)[p := True]"
    "length (emu_cv_pool s') = length (emu_cv_pool s)" using assms by (simp_all add: cv_fresh_def)
  let ?t = "s'\<lparr>bm_sem_used_bits := u, bm_mutex_used_bits := m\<rparr>"
  have "sem_used ?t = sem_used s" unfolding used_frame d(4) g(7) using g(6) by auto
  moreover have "mutex_used ?t = mutex_used s" unfolding d(3) g(3) using g(2) by simp
  moreover have "emu_cv_used (emu_cv_release p (cv_put p cv ?t)) = emu_cv_used s" for cv by (rule cv_release_used [OF p(1-3)]) (simp_all add: p(4,5))
  ultimately have "cv_pools_same s (emu_cv_release p (cv_put p cv ?t))" for cv by (simp only: cv_pools_same_def used_frame simp_thms)
  moreover have "osal_condvar_destroy (Some (Some p)) s' = (Ok, Some None, emu_cv_release p (cv_put p ((cv_obj s' p)\<lparr>cv_waiters := ws', cv_guard := None\<rparr>) ?t))"
    by (simp add: osal_condvar_destroy_def g(1) d(1,2))
  ultimately show ?thesis by (intro exI conjI) assumption+
qed

text \<open>
  Creation is all or nothing and destruction undoes it. On pools of mutexes and semaphores that are
  well formed, a creation that answers ok has claimed a control object nobody used, a mutex and one
  semaphore per waiter slot that were all free, and leaves a well-formed condition variable without
  waiters, the others untouched; destroying it gives every one of them back. A creation that fails
  answers out of resources, leaves the handle as it was and keeps nothing of what it had claimed.
\<close>

theorem condvar_lifecycle:
  assumes "mutex_pool_ok s" "sem_pool_ok s" "length (emu_cv_used s) = length (emu_cv_pool s)" "\<forall>p < length (emu_cv_pool s). cv_slots p s < 2 ^ 64"
    and run: "osal_condvar_create (Some h) s = (r, hnd, s')"
  shows "r = Ok \<and> (\<exists>p s''. hnd = Some (Some p) \<and> cv_fresh p s s' \<and> osal_condvar_destroy hnd s' = (Ok, Some None, s'') \<and> cv_pools_same s s'') \<or>
    r = Out_of_resources \<and> hnd = Some h \<and> cv_pools_same s s'"
  using condvar_create_outcome [OF assms] condvar_destroy_fresh [OF assms(3)] by blast

text \<open>One condition variable with two slots, a mutex pool of one and a semaphore pool of three, one in use.\<close>

definition cv_blank_demo :: cv_state where
  "cv_blank_demo = \<lparr>g_ticks = 0, bm_tasks = [], bm_current = -1, bm_last_scheduled = -1,
     bm_mutex_pool = [\<lparr>mtx_flag = False\<rparr>], bm_mutex_used_bits = [0],
     bm_sem_pool = replicate 3 \<lparr>sem_count = 5, sem_max = 9\<rparr>, bm_sem_used_bits = [2],
     bm_queue_pool = [], bm_queue_used_bits = [], bm_timer_pool = [],
     emu_cv_pool = [\<lparr>cv_waiters = replicate 2 \<lparr>cw_sem = None, cw_in_use = True, cw_signalled = False\<rparr>,
       cv_guard = None, cv_n_waiters = 7, cv_pool_allocated = False\<rparr>], emu_cv_used = [False]\<rparr>"

theorem condvar_lifecycle_witness:
  "\<exists>p s' s''. osal_condvar_create (Some None) cv_blank_demo = (Ok, Some (Some p), s') \<and> cv_fresh p cv_blank_demo s' \<and>
     osal_condvar_destroy (Some (Some p)) s' = (Ok, Some None, s'') \<and> cv_pools_same cv_blank_demo s''"
proof -
  have "fst (osal_condvar_create (Some None) cv_blank_demo) = Ok"
    by (simp add: osal_condvar_create_def emu_cv_acquire_def cv_blank_demo_def cv_obj_def cv_put_def osal_mutex_create_def osal_semaphore_create_def
      bit_used_def bit_mark_def numeral_3_eq_3 numeral_2_eq_2 Let_def)
  moreover obtain r hnd s' where run: "osal_condvar_create (Some None) cv_blank_demo = (r, hnd, s')" by (cases "osal_condvar_create (Some None) cv_blank_demo")
  moreover have "mutex_pool_ok cv_blank_demo" "sem_pool_ok cv_blank_demo" "length (emu_cv_used cv_blank_demo) = length (emu_cv_pool cv_blank_demo)"
    "\<forall>p < length (emu_cv_pool cv_blank_demo). cv_slots p cv_blank_demo < 2 ^ 64"
    by (simp_all add: cv_blank_demo_def mutex_pool_ok_def sem_pool_ok_def bits_cover_def cv_obj_def)
  ultimately show ?thesis using condvar_lifecycle [of cv_blank_demo None r hnd s'] by auto
qed

end
