(* ===== verification/Osal_Rwlock.thy ===== *)
theory Osal_Rwlock
  imports Osal_Condvar
begin

text \<open>
  The emulated read-write lock, \<^verbatim>\<open>src/common/emulated_rwlock.inl\<close>: a guard mutex, a condition
  variable, a reader count and a writer flag.
\<close>

record emulated_rwlock_obj =
  rw_guard :: handle
  rw_cv :: handle
  rw_reader_count :: u64
  rw_writer_active :: bool

record rw_state = cv_state +
  emu_rw_pool :: "emulated_rwlock_obj list"
  emu_rw_used :: "bool list"

definition rw_obj :: "'z rw_state_scheme \<Rightarrow> nat \<Rightarrow> emulated_rwlock_obj" where
  "rw_obj s p = emu_rw_pool s ! p"

definition rw_put :: "nat \<Rightarrow> emulated_rwlock_obj \<Rightarrow> 'z rw_state_scheme \<Rightarrow> 'z rw_state_scheme" where
  "rw_put p obj s = s\<lparr>emu_rw_pool := (emu_rw_pool s)[p := obj]\<rparr>"

definition emu_rw_acquire :: "'z rw_state_scheme \<Rightarrow> nat option \<times> 'z rw_state_scheme" where
  "emu_rw_acquire s =
     (case first_unused (emu_rw_used s) 0 of
        Some i \<Rightarrow> (Some i, s\<lparr>emu_rw_used := (emu_rw_used s)[i := True]\<rparr>)
      | None \<Rightarrow> (None, s))"

definition emu_rw_release :: "nat \<Rightarrow> 'z rw_state_scheme \<Rightarrow> 'z rw_state_scheme" where
  "emu_rw_release p s =
     (if p < length (emu_rw_pool s) then s\<lparr>emu_rw_used := (emu_rw_used s)[p := False]\<rparr> else s)"

definition osal_rwlock_create :: "handle option \<Rightarrow> 'z rw_state_scheme \<Rightarrow> error_code \<times> handle option \<times> 'z rw_state_scheme" where
  "osal_rwlock_create hnd s =
     (if hnd = None then (Invalid_argument, hnd, s)
      else case emu_rw_acquire s of
        (None, s1) \<Rightarrow> (Out_of_resources, hnd, s1)
      | (Some p, s1) \<Rightarrow>
          let rw1 = (rw_obj s1 p)\<lparr>rw_reader_count := 0, rw_writer_active := False\<rparr>
          in case osal_mutex_create (rw_guard rw1) (rw_put p rw1 s1) of (r2, g, s2) \<Rightarrow>
            let rw2 = rw1\<lparr>rw_guard := g\<rparr> in
            if r2 \<noteq> Ok then (Out_of_resources, hnd, emu_rw_release p (rw_put p rw2 s2))
            else case osal_condvar_create (Some (rw_cv rw2)) (rw_put p rw2 s2) of (r3, c, s3) \<Rightarrow>
              let rw3 = rw2\<lparr>rw_cv := the c\<rparr> in
              if r3 \<noteq> Ok then
                case osal_mutex_destroy (Some (rw_guard rw3)) (rw_put p rw3 s3) of (_, g', s4) \<Rightarrow>
                  (Out_of_resources, hnd, emu_rw_release p (rw_put p (rw3\<lparr>rw_guard := g'\<rparr>) s4))
              else (Ok, Some (Some p), rw_put p rw3 s3))"

definition osal_rwlock_destroy :: "handle option \<Rightarrow> 'z rw_state_scheme \<Rightarrow> error_code \<times> handle option \<times> 'z rw_state_scheme" where
  "osal_rwlock_destroy hnd s =
     (case native_of hnd of
        None \<Rightarrow> (Ok, hnd, s)
      | Some p \<Rightarrow>
          case osal_condvar_destroy (Some (rw_cv (rw_obj s p))) s of (_, c, s1) \<Rightarrow>
          case osal_mutex_destroy (Some (rw_guard (rw_obj s p))) s1 of (_, g, s2) \<Rightarrow>
            (Ok, Some None, emu_rw_release p (rw_put p ((rw_obj s p)\<lparr>rw_cv := the c, rw_guard := g\<rparr>) s2)))"

section \<open>Locking\<close>

definition rw_unlock_guard :: "nat \<Rightarrow> 'z rw_state_scheme \<Rightarrow> 'z rw_state_scheme" where
  "rw_unlock_guard p s = snd (osal_mutex_unlock (Some (rw_guard (rw_obj s p))) s)"

text \<open>
  The two loops that wait while the lock is \<open>blocked\<close>, called with the guard held. They return \<open>Ok\<close>
  with the guard still held, or a failure with the guard released.
\<close>

partial_function (option) rw_wait_forever ::
  "(emulated_rwlock_obj \<Rightarrow> bool) \<Rightarrow> nat \<Rightarrow> 'z rw_state_scheme env \<Rightarrow> 'z rw_state_scheme
   \<Rightarrow> (error_code \<times> 'z rw_state_scheme \<times> 'z rw_state_scheme env) option" where
  "rw_wait_forever blocked p env s =
     (if \<not> blocked (rw_obj s p) then Some (Ok, s, env)
      else do {
        (r, s1, env1) \<leftarrow> osal_condvar_wait (Some (rw_cv (rw_obj s p))) (Some (rw_guard (rw_obj s p))) WAIT_FOREVER env s;
        if r \<noteq> Ok then Some (r, rw_unlock_guard p s1, env1)
        else rw_wait_forever blocked p env1 s1 })"

partial_function (option) rw_wait_timed ::
  "(emulated_rwlock_obj \<Rightarrow> bool) \<Rightarrow> nat \<Rightarrow> tick_t \<Rightarrow> tick_t \<Rightarrow> 'z rw_state_scheme env \<Rightarrow> 'z rw_state_scheme
   \<Rightarrow> (error_code \<times> 'z rw_state_scheme \<times> 'z rw_state_scheme env) option" where
  "rw_wait_timed blocked p timeout_ticks start env s =
     (if \<not> blocked (rw_obj s p) then Some (Ok, s, env)
      else let elapsed = osal_clock_ticks s - start in
        if elapsed \<ge> timeout_ticks then Some (Timeout, rw_unlock_guard p s, env)
        else do {
          (r, s1, env1) \<leftarrow> osal_condvar_wait (Some (rw_cv (rw_obj s p))) (Some (rw_guard (rw_obj s p))) (timeout_ticks - elapsed) env s;
          if r \<noteq> Ok \<and> r \<noteq> Timeout then Some (r, rw_unlock_guard p s1, env1)
          else rw_wait_timed blocked p timeout_ticks start env1 s1 })"

definition rw_lock ::
  "(emulated_rwlock_obj \<Rightarrow> bool) \<Rightarrow> (emulated_rwlock_obj \<Rightarrow> emulated_rwlock_obj) \<Rightarrow> handle option \<Rightarrow> tick_t
   \<Rightarrow> 'z rw_state_scheme env \<Rightarrow> 'z rw_state_scheme \<Rightarrow> (error_code \<times> 'z rw_state_scheme \<times> 'z rw_state_scheme env) option" where
  "rw_lock blocked enter hnd timeout_ticks env s =
     (case native_of hnd of
        None \<Rightarrow> Some (Not_initialized, s, env)
      | Some p \<Rightarrow> do {
          (_, s1, env1) \<leftarrow> osal_mutex_lock (Some (rw_guard (rw_obj s p))) WAIT_FOREVER env s;
          (r, s2, env2) \<leftarrow> (if timeout_ticks = WAIT_FOREVER then rw_wait_forever blocked p env1 s1
            else rw_wait_timed blocked p timeout_ticks (osal_clock_ticks s1) env1 s1);
          if r \<noteq> Ok then Some (r, s2, env2)
          else Some (Ok, rw_unlock_guard p (rw_put p (enter (rw_obj s2 p)) s2), env2) })"

definition osal_rwlock_read_lock ::
  "handle option \<Rightarrow> tick_t \<Rightarrow> 'z rw_state_scheme env \<Rightarrow> 'z rw_state_scheme
   \<Rightarrow> (error_code \<times> 'z rw_state_scheme \<times> 'z rw_state_scheme env) option" where
  "osal_rwlock_read_lock = rw_lock rw_writer_active (\<lambda>rw. rw\<lparr>rw_reader_count := rw_reader_count rw + 1\<rparr>)"

definition osal_rwlock_write_lock ::
  "handle option \<Rightarrow> tick_t \<Rightarrow> 'z rw_state_scheme env \<Rightarrow> 'z rw_state_scheme
   \<Rightarrow> (error_code \<times> 'z rw_state_scheme \<times> 'z rw_state_scheme env) option" where
  "osal_rwlock_write_lock = rw_lock (\<lambda>rw. rw_writer_active rw \<or> rw_reader_count rw > 0) (\<lambda>rw. rw\<lparr>rw_writer_active := True\<rparr>)"

definition osal_rwlock_read_unlock ::
  "handle option \<Rightarrow> 'z rw_state_scheme env \<Rightarrow> 'z rw_state_scheme
   \<Rightarrow> (error_code \<times> 'z rw_state_scheme \<times> 'z rw_state_scheme env) option" where
  "osal_rwlock_read_unlock hnd env s =
     (case native_of hnd of
        None \<Rightarrow> Some (Not_initialized, s, env)
      | Some p \<Rightarrow> do {
          (_, s1, env1) \<leftarrow> osal_mutex_lock (Some (rw_guard (rw_obj s p))) WAIT_FOREVER env s;
          let rw = rw_obj s1 p;
          if rw_reader_count rw = 0 then Some (Invalid_argument, rw_unlock_guard p s1, env1)
          else do {
            let rw' = rw\<lparr>rw_reader_count := rw_reader_count rw - 1\<rparr>;
            let s2 = rw_put p rw' s1;
            (s3, env3) \<leftarrow> (if rw_reader_count rw' = 0 then do {
                (_, s3, env3) \<leftarrow> osal_condvar_notify_all (Some (rw_cv rw')) env1 s2;
                Some (s3, env3) }
              else Some (s2, env1));
            Some (Ok, rw_unlock_guard p s3, env3) } })"

definition osal_rwlock_write_unlock ::
  "handle option \<Rightarrow> 'z rw_state_scheme env \<Rightarrow> 'z rw_state_scheme
   \<Rightarrow> (error_code \<times> 'z rw_state_scheme \<times> 'z rw_state_scheme env) option" where
  "osal_rwlock_write_unlock hnd env s =
     (case native_of hnd of
        None \<Rightarrow> Some (Not_initialized, s, env)
      | Some p \<Rightarrow> do {
          (_, s1, env1) \<leftarrow> osal_mutex_lock (Some (rw_guard (rw_obj s p))) WAIT_FOREVER env s;
          let rw = rw_obj s1 p;
          if \<not> rw_writer_active rw then Some (Invalid_argument, rw_unlock_guard p s1, env1)
          else do {
            (_, s3, env3) \<leftarrow> osal_condvar_notify_all (Some (rw_cv rw)) env1 (rw_put p (rw\<lparr>rw_writer_active := False\<rparr>) s1);
            Some (Ok, rw_unlock_guard p s3, env3) } })"

section \<open>Who holds the lock\<close>

text \<open>
  Two ghost fields name the tasks that hold lock \<open>p\<close>, for reading and for writing. \<open>rw_owned\<close> ties them
  to the lock: the reader count is the number of readers, the writer flag is set exactly while there
  is a writer, there is never more than one, and never one beside a reader. It is what every task
  assumes of the others while it waits, and what it guarantees to them.
\<close>

record rw_ghost = rw_state +
  gh_readers :: "nat set"
  gh_writers :: "nat set"

definition rw_owned :: "nat \<Rightarrow> rw_ghost \<Rightarrow> bool" where
  "rw_owned p s \<longleftrightarrow> p < length (emu_rw_pool s) \<and> finite (gh_readers s) \<and>
     unat (rw_reader_count (rw_obj s p)) = card (gh_readers s) \<and>
     (if rw_writer_active (rw_obj s p) then (\<exists>t. gh_writers s = {t}) \<and> gh_readers s = {} else gh_writers s = {})"

definition leave_reader :: "nat \<Rightarrow> rw_ghost \<Rightarrow> rw_ghost" where
  "leave_reader t s = s\<lparr>gh_readers := gh_readers s - {t}\<rparr>"

definition leave_writer :: "rw_ghost \<Rightarrow> rw_ghost" where
  "leave_writer s = s\<lparr>gh_writers := {}\<rparr>"

lemma rw_frame [simp]:
  "rw_obj (s\<lparr>bm_mutex_pool := b\<rparr>) q = rw_obj s q" "rw_obj (s\<lparr>emu_cv_pool := c\<rparr>) q = rw_obj s q" "rw_obj (sem_set i x s) q = rw_obj s q"
  "p < length (emu_rw_pool s) \<Longrightarrow> rw_obj (rw_put p obj s) q = (if q = p then obj else rw_obj s q)"
  "length (emu_rw_pool (rw_put p obj s)) = length (emu_rw_pool s)"
  by (simp_all add: rw_obj_def sem_set_def rw_put_def nth_list_update)

lemma ghost_frame [simp]:
  "gh_readers (rw_put p obj s) = gh_readers s" "gh_writers (rw_put p obj s) = gh_writers s"
  "gh_readers (sem_set i c s) = gh_readers s" "gh_writers (sem_set i c s) = gh_writers s" "emu_rw_pool (sem_set i c s) = emu_rw_pool s"
  "rw_obj (leave_reader t s) q = rw_obj s q" "rw_obj (leave_writer s) q = rw_obj s q"
  "emu_rw_pool (leave_reader t s) = emu_rw_pool s" "emu_rw_pool (leave_writer s) = emu_rw_pool s"
  "gh_readers (leave_reader t s) = gh_readers s - {t}" "gh_writers (leave_reader t s) = gh_writers s"
  "gh_readers (leave_writer s) = gh_readers s" "gh_writers (leave_writer s) = {}"
  by (simp_all add: rw_put_def sem_set_def rw_obj_def leave_reader_def leave_writer_def)

lemma rw_stable:
  "cv_stable (rw_owned p)"
  "cv_stable (\<lambda>s. rw_owned p s \<and> t \<in> gh_readers s)" "cv_stable (\<lambda>s. rw_owned p (leave_reader t s))"
  "cv_stable (\<lambda>s. rw_owned p s \<and> gh_writers s = {t})" "cv_stable (\<lambda>s. rw_owned p (leave_writer s))"
  unfolding cv_stable_def rw_owned_def by (simp_all split: if_splits)

lemma rw_unlock_guard_keeps: "cv_stable I \<Longrightarrow> I s \<Longrightarrow> I (rw_unlock_guard p s)"
  unfolding rw_unlock_guard_def by (rule cv_stableD(7))

text \<open>The waiting loops keep what the others keep, and end with the lock not blocked.\<close>

lemma rw_wait_forever_post:
  assumes "rw_wait_forever blocked p env s = Some (r, s', env')" "cv_stable I" "env_keeps I env" "I s"
  shows "I s' \<and> (r = Ok \<longrightarrow> \<not> blocked (rw_obj s' p))"
proof -
  have "\<forall>r s' env'. res = (r, s', env') \<longrightarrow> I s' \<and> (r = Ok \<longrightarrow> \<not> blocked (rw_obj s' p))"
    if "rw_wait_forever blocked p env s = Some res" "env_keeps I env" "I s" for res
    using that
  proof (induction rule: rw_wait_forever.raw_induct [rotated 1, consumes 1])
    case (1 loop blocked p env s res)
    show ?case
    proof (cases "blocked (rw_obj s p)")
      case True
      then obtain r1 s1 env1 where w: "osal_condvar_wait (Some (rw_cv (rw_obj s p))) (Some (rw_guard (rw_obj s p))) WAIT_FOREVER env s = Some (r1, s1, env1)"
        and rest: "(if r1 \<noteq> Ok then Some (r1, rw_unlock_guard p s1, env1) else loop blocked p env1 s1) = Some res"
        using 1(2) by (auto split: bind_splits)
      note k = stable_condvar_wait [OF assms(2) 1(3,4) w]
      show ?thesis using rest 1(1) [of blocked p env1 s1 res, OF _ k(2,1)] rw_unlock_guard_keeps [OF assms(2) k(1)] by (auto split: if_splits)
    qed (use 1 in auto)
  qed
  with assms show ?thesis by blast
qed

lemma rw_wait_timed_post:
  assumes "rw_wait_timed blocked p t st env s = Some (r, s', env')" "cv_stable I" "env_keeps I env" "I s"
  shows "I s' \<and> (r = Ok \<longrightarrow> \<not> blocked (rw_obj s' p))"
proof -
  have "\<forall>r s' env'. res = (r, s', env') \<longrightarrow> I s' \<and> (r = Ok \<longrightarrow> \<not> blocked (rw_obj s' p))"
    if "rw_wait_timed blocked p t st env s = Some res" "env_keeps I env" "I s" for res
    using that
  proof (induction rule: rw_wait_timed.raw_induct [rotated 1, consumes 1])
    case (1 loop blocked p t st env s res)
    show ?case
    proof (cases "blocked (rw_obj s p) \<and> \<not> osal_clock_ticks s - st \<ge> t")
      case True
      then obtain r1 s1 env1 where w: "osal_condvar_wait (Some (rw_cv (rw_obj s p))) (Some (rw_guard (rw_obj s p))) (t - (osal_clock_ticks s - st)) env s = Some (r1, s1, env1)"
        and rest: "(if r1 \<noteq> Ok \<and> r1 \<noteq> Timeout then Some (r1, rw_unlock_guard p s1, env1) else loop blocked p t st env1 s1) = Some res"
        using 1(2) by (auto simp: Let_def split: bind_splits)
      note k = stable_condvar_wait [OF assms(2) 1(3,4) w]
      show ?thesis using rest 1(1) [of blocked p t st env1 s1 res, OF _ k(2,1)] rw_unlock_guard_keeps [OF assms(2) k(1)] by (auto split: if_splits)
    qed (use 1 rw_unlock_guard_keeps [OF assms(2)] in \<open>auto simp: Let_def split: if_splits\<close>)
  qed
  with assms show ?thesis by blast
qed

lemma rw_lock_post:
  assumes run: "rw_lock blocked enter (Some (Some p)) t env s = Some (r, s', env')"
    and st: "cv_stable I" "env_keeps I env" "I s"
  obtains s0 where "I s0" "r = Ok \<Longrightarrow> \<not> blocked (rw_obj s0 p) \<and> s' = rw_unlock_guard p (rw_put p (enter (rw_obj s0 p)) s0)" "r \<noteq> Ok \<Longrightarrow> s' = s0"
proof -
  obtain r1 s1 env1 where a: "osal_mutex_lock (Some (rw_guard (rw_obj s p))) WAIT_FOREVER env s = Some (r1, s1, env1)"
    using run by (auto simp: rw_lock_def split: bind_splits)
  note k = stable_mutex_lock [OF st a]
  obtain r2 s2 env2 where b: "(if t = WAIT_FOREVER then rw_wait_forever blocked p env1 s1 else rw_wait_timed blocked p t (osal_clock_ticks s1) env1 s1) = Some (r2, s2, env2)"
    and rest: "(if r2 \<noteq> Ok then Some (r2, s2, env2) else Some (Ok, rw_unlock_guard p (rw_put p (enter (rw_obj s2 p)) s2), env2)) = Some (r, s', env')"
    using run a by (auto simp: rw_lock_def split: bind_splits)
  have "I s2 \<and> (r2 = Ok \<longrightarrow> \<not> blocked (rw_obj s2 p))"
    using b rw_wait_forever_post [of blocked p env1 s1 r2 s2 env2, OF _ st(1) k(2,1)]
      rw_wait_timed_post [of blocked p t "osal_clock_ticks s1" env1 s1 r2 s2 env2, OF _ st(1) k(2,1)] by (simp split: if_splits)
  with rest that [of s2] show ?thesis by (auto split: if_splits)
qed

lemma rw_unlock_guard_frame [simp]:
  "rw_obj (rw_unlock_guard p s) q = rw_obj s q" "emu_rw_pool (rw_unlock_guard p s) = emu_rw_pool s"
  "gh_readers (rw_unlock_guard p s') = gh_readers s'" "gh_writers (rw_unlock_guard p s') = gh_writers s'"
  by (simp_all add: rw_unlock_guard_def osal_mutex_unlock_def split: option.split)

lemma rw_lock_owned:
  assumes "rw_owned p s" "env_keeps (rw_owned p) env"
  shows "osal_rwlock_read_lock (Some (Some p)) timeout env s = Some (r, s', env') \<Longrightarrow>
      (r = Ok \<longrightarrow> gh_writers s' = {} \<and>
        (t \<notin> gh_readers s' \<and> card (gh_readers s') < 2 ^ 64 - 1 \<longrightarrow> rw_owned p (s'\<lparr>gh_readers := insert t (gh_readers s')\<rparr>))) \<and>
      (r \<noteq> Ok \<longrightarrow> rw_owned p s')"
    and "osal_rwlock_write_lock (Some (Some p)) timeout env s = Some (r, s', env') \<Longrightarrow>
      (r = Ok \<longrightarrow> gh_writers s' = {} \<and> gh_readers s' = {} \<and> rw_owned p (s'\<lparr>gh_writers := {t}\<rparr>)) \<and>
      (r \<noteq> Ok \<longrightarrow> rw_owned p s')"
proof -
  assume run: "osal_rwlock_read_lock (Some (Some p)) timeout env s = Some (r, s', env')"
  obtain s0 where s0: "rw_owned p s0" and ok: "r = Ok \<Longrightarrow> \<not> rw_writer_active (rw_obj s0 p) \<and>
      s' = rw_unlock_guard p (rw_put p ((rw_obj s0 p)\<lparr>rw_reader_count := rw_reader_count (rw_obj s0 p) + 1\<rparr>) s0)" and "r \<noteq> Ok \<Longrightarrow> s' = s0"
    by (rule rw_lock_post [OF run [unfolded osal_rwlock_read_lock_def] rw_stable(1) assms(2,1)]) blast
  moreover have "unat (rw_reader_count (rw_obj s0 p) + 1) = Suc (unat (rw_reader_count (rw_obj s0 p)))" if "card (gh_readers s0) < 2 ^ 64 - 1"
    using that s0 unat_add_fits [of "rw_reader_count (rw_obj s0 p)" 1] by (simp add: rw_owned_def)
  ultimately show "(r = Ok \<longrightarrow> gh_writers s' = {} \<and>
        (t \<notin> gh_readers s' \<and> card (gh_readers s') < 2 ^ 64 - 1 \<longrightarrow> rw_owned p (s'\<lparr>gh_readers := insert t (gh_readers s')\<rparr>))) \<and>
      (r \<noteq> Ok \<longrightarrow> rw_owned p s')"
    by (auto simp: rw_owned_def rw_obj_def rw_put_def)
next
  assume run: "osal_rwlock_write_lock (Some (Some p)) timeout env s = Some (r, s', env')"
  obtain s0 where s0: "rw_owned p s0" and ok: "r = Ok \<Longrightarrow> \<not> (rw_writer_active (rw_obj s0 p) \<or> rw_reader_count (rw_obj s0 p) > 0) \<and>
      s' = rw_unlock_guard p (rw_put p ((rw_obj s0 p)\<lparr>rw_writer_active := True\<rparr>) s0)" and "r \<noteq> Ok \<Longrightarrow> s' = s0"
    by (rule rw_lock_post [OF run [unfolded osal_rwlock_write_lock_def] rw_stable(1) assms(2,1)]) blast
  then show "(r = Ok \<longrightarrow> gh_writers s' = {} \<and> gh_readers s' = {} \<and> rw_owned p (s'\<lparr>gh_writers := {t}\<rparr>)) \<and>
      (r \<noteq> Ok \<longrightarrow> rw_owned p s')"
    by (auto simp: rw_owned_def rw_obj_def rw_put_def word_gt_0)
qed

text \<open>
  C18: the lock excludes. Whatever the other tasks do in between, as long as they keep \<open>rw_owned\<close>:
  when \<open>read_lock\<close> returns \<open>Ok\<close> no task holds the lock for writing, when \<open>write_lock\<close> returns \<open>Ok\<close> no
  other task holds it at all; in both cases the caller can be entered as a holder and \<open>rw_owned\<close> holds
  again, and after any other result it holds as it is.
\<close>

theorem rwlock_exclusion:
  assumes "rw_owned p s" "env_keeps (rw_owned p) env"
  shows "(\<forall>r s' env'. osal_rwlock_read_lock (Some (Some p)) timeout env s = Some (r, s', env') \<longrightarrow>
      (if r = Ok then gh_writers s' = {} \<and>
         (t \<notin> gh_readers s' \<and> card (gh_readers s') < 2 ^ 64 - 1 \<longrightarrow> rw_owned p (s'\<lparr>gh_readers := insert t (gh_readers s')\<rparr>))
       else rw_owned p s')) \<and>
    (\<forall>r s' env'. osal_rwlock_write_lock (Some (Some p)) timeout env s = Some (r, s', env') \<longrightarrow>
      (if r = Ok then gh_writers s' = {} \<and> gh_readers s' = {} \<and> rw_owned p (s'\<lparr>gh_writers := {t}\<rparr>) else rw_owned p s'))"
  using rw_lock_owned [OF assms] by auto

text \<open>Releasing: the guard is taken, the object changed, and the waiters are notified.\<close>

lemma rw_read_unlock_post:
  assumes run: "osal_rwlock_read_unlock (Some (Some p)) env s = Some (r, s', env')"
    and st: "env_keeps (\<lambda>s. rw_owned p s \<and> t \<in> gh_readers s) env" "env_keeps (\<lambda>s. rw_owned p (leave_reader t s)) env"
    and s: "rw_owned p s" "t \<in> gh_readers s"
  shows "r = Ok \<and> rw_owned p (leave_reader t s')"
proof -
  obtain r1 s1 env1 where a: "osal_mutex_lock (Some (rw_guard (rw_obj s p))) WAIT_FOREVER env s = Some (r1, s1, env1)"
    using run by (auto simp: osal_rwlock_read_unlock_def split: bind_splits)
  have s1: "rw_owned p s1" "t \<in> gh_readers s1" using stable_mutex_lock(1) [OF rw_stable(2) st(1) _ a] s by blast+
  have e1: "env_keeps (\<lambda>s. rw_owned p (leave_reader t s)) env1"
    using mutex_lock_inv [OF a, of "\<lambda>_. True"] st(2) unfolding env_keeps_def by blast
  let ?rw = "rw_obj s1 p" and ?rw' = "(rw_obj s1 p)\<lparr>rw_reader_count := rw_reader_count (rw_obj s1 p) - 1\<rparr>"
  have "card (gh_readers s1) \<noteq> 0" using s1 by (auto simp: rw_owned_def)
  then have c: "0 < rw_reader_count ?rw" using s1(1) by (auto simp: rw_owned_def word_gt_0)
  have own: "rw_owned p (leave_reader t (rw_put p ?rw' s1))"
    using s1 unat_word_pred [OF c] by (auto simp: rw_owned_def)
  obtain s3 where r: "r = Ok" and s3: "s' = rw_unlock_guard p s3" and
    b: "(if rw_reader_count ?rw' = 0 then do { (_, s3, env3) \<leftarrow> osal_condvar_notify_all (Some (rw_cv ?rw')) env1 (rw_put p ?rw' s1); Some (s3, env3) }
          else Some (rw_put p ?rw' s1, env1)) = Some (s3, env')"
    using run a c by (auto simp: osal_rwlock_read_unlock_def word_gt_0 Let_def split: bind_splits if_splits)
  have "rw_owned p (leave_reader t s3)"
    using b own stable_cv_notify(1) [OF rw_stable(3) e1 own] by (auto simp: osal_condvar_notify_all_def split: if_splits bind_splits)
  with r s3 rw_unlock_guard_keeps [OF rw_stable(3)] show ?thesis by blast
qed

lemma rw_write_unlock_post:
  assumes run: "osal_rwlock_write_unlock (Some (Some p)) env s = Some (r, s', env')"
    and st: "env_keeps (\<lambda>s. rw_owned p s \<and> gh_writers s = {t}) env" "env_keeps (\<lambda>s. rw_owned p (leave_writer s)) env"
    and s: "rw_owned p s" "gh_writers s = {t}"
  shows "r = Ok \<and> rw_owned p (leave_writer s')"
proof -
  obtain r1 s1 env1 where a: "osal_mutex_lock (Some (rw_guard (rw_obj s p))) WAIT_FOREVER env s = Some (r1, s1, env1)"
    using run by (auto simp: osal_rwlock_write_unlock_def split: bind_splits)
  have s1: "rw_owned p s1" "gh_writers s1 = {t}" using stable_mutex_lock(1) [OF rw_stable(4) st(1) _ a] s by blast+
  have e1: "env_keeps (\<lambda>s. rw_owned p (leave_writer s)) env1"
    using mutex_lock_inv [OF a, of "\<lambda>_. True"] st(2) unfolding env_keeps_def by blast
  have wa: "rw_writer_active (rw_obj s1 p)" using s1 by (auto simp: rw_owned_def split: if_splits)
  let ?rw' = "(rw_obj s1 p)\<lparr>rw_writer_active := False\<rparr>"
  have own: "rw_owned p (leave_writer (rw_put p ?rw' s1))" using s1 by (auto simp: rw_owned_def)
  obtain r3 s3 where r: "r = Ok" and s3: "s' = rw_unlock_guard p s3" and
    b: "osal_condvar_notify_all (Some (rw_cv (rw_obj s1 p))) env1 (rw_put p ?rw' s1) = Some (r3, s3, env')"
    using run a wa by (auto simp: osal_rwlock_write_unlock_def Let_def split: bind_splits)
  have "rw_owned p (leave_writer s3)"
    using stable_cv_notify(1) [OF rw_stable(5) e1 own b [unfolded osal_condvar_notify_all_def]] .
  with r s3 rw_unlock_guard_keeps [OF rw_stable(5)] show ?thesis by blast
qed

text \<open>
  A holder that releases is taken off, and only it. \<open>read_unlock\<close> by a task that holds the lock for
  reading, and \<open>write_unlock\<close> by the one that holds it for writing, return \<open>Ok\<close>, and without that task
  \<open>rw_owned\<close> holds, whatever the other tasks do in between.
\<close>

theorem rwlock_release:
  assumes "rw_owned p s"
  shows "(t \<in> gh_readers s \<and> env_keeps (\<lambda>s. rw_owned p s \<and> t \<in> gh_readers s) env \<and> env_keeps (\<lambda>s. rw_owned p (leave_reader t s)) env \<longrightarrow>
      (\<forall>r s' env'. osal_rwlock_read_unlock (Some (Some p)) env s = Some (r, s', env') \<longrightarrow> r = Ok \<and> rw_owned p (leave_reader t s'))) \<and>
    (gh_writers s = {t} \<and> env_keeps (\<lambda>s. rw_owned p s \<and> gh_writers s = {t}) env \<and> env_keeps (\<lambda>s. rw_owned p (leave_writer s)) env \<longrightarrow>
      (\<forall>r s' env'. osal_rwlock_write_unlock (Some (Some p)) env s = Some (r, s', env') \<longrightarrow> r = Ok \<and> rw_owned p (leave_writer s')))"
  using rw_read_unlock_post [OF _ _ _ assms] rw_write_unlock_post [OF _ _ _ assms] by blast

definition rw_demo :: rw_ghost where
  "rw_demo = \<lparr>g_ticks = 0, bm_tasks = [], bm_current = -1, bm_last_scheduled = -1,
     bm_mutex_pool = [\<lparr>mtx_flag = False\<rparr>, \<lparr>mtx_flag = False\<rparr>], bm_mutex_used_bits = [3],
     bm_sem_pool = [\<lparr>sem_count = 0, sem_max = 1\<rparr>], bm_sem_used_bits = [1],
     bm_queue_pool = [], bm_queue_used_bits = [], bm_timer_pool = [],
     emu_cv_pool = [\<lparr>cv_waiters = [\<lparr>cw_sem = Some 0, cw_in_use = False, cw_signalled = False\<rparr>],
       cv_guard = Some 0, cv_n_waiters = 0, cv_pool_allocated = True\<rparr>], emu_cv_used = [True],
     emu_rw_pool = [\<lparr>rw_guard = Some 1, rw_cv = Some 0, rw_reader_count = 1, rw_writer_active = False\<rparr>], emu_rw_used = [True],
     gh_readers = {7}, gh_writers = {}\<rparr>"

lemma rw_demo_ok: "rw_owned 0 rw_demo"
  by (simp add: rw_owned_def rw_demo_def rw_obj_def)

lemma env_keeps_Nil: "env_keeps I []"
  by (simp add: env_keeps_def)

theorem rwlock_exclusion_witness:
  "\<exists>s' env'. osal_rwlock_read_lock (Some (Some 0)) 5 [] rw_demo = Some (Ok, s', env') \<and> gh_readers s' = {7} \<and>
     rw_owned 0 (s'\<lparr>gh_readers := insert 3 (gh_readers s')\<rparr>)"
proof -
  have run: "\<exists>s' env'. osal_rwlock_read_lock (Some (Some 0)) 5 [] rw_demo = Some (Ok, s', env') \<and> gh_readers s' = {7}"
    by (simp add: osal_rwlock_read_lock_def rw_lock_def rw_demo_def rw_obj_def osal_mutex_lock_def mutex_lock_body_def
        mutex_test_and_set_def rw_wait_timed.simps WAIT_FOREVER_def rw_put_def rw_unlock_guard_def osal_mutex_unlock_def)
  then obtain s' env' where s': "osal_rwlock_read_lock (Some (Some 0)) 5 [] rw_demo = Some (Ok, s', env')" "gh_readers s' = {7}" by blast
  from rwlock_exclusion [OF rw_demo_ok env_keeps_Nil, of 5 3] s' show ?thesis by auto
qed

theorem rwlock_release_witness:
  "\<exists>s' env'. osal_rwlock_read_unlock (Some (Some 0)) [] rw_demo = Some (Ok, s', env') \<and> rw_owned 0 (leave_reader 7 s')"
proof -
  have "\<exists>s' env'. osal_rwlock_read_unlock (Some (Some 0)) [] rw_demo = Some (Ok, s', env')"
    by (simp add: osal_rwlock_read_unlock_def rw_demo_def rw_obj_def osal_mutex_lock_def mutex_lock_body_def
        mutex_test_and_set_def rw_put_def osal_condvar_notify_all_def cv_notify_def cv_obj_def)
  then obtain s' env' where s': "osal_rwlock_read_unlock (Some (Some 0)) [] rw_demo = Some (Ok, s', env')" by blast
  moreover have "7 \<in> gh_readers rw_demo" by (simp add: rw_demo_def)
  ultimately show ?thesis using rwlock_release [OF rw_demo_ok, of 7 "[]"] by (auto simp: env_keeps_Nil)
qed

end
