(* ===== verification/Osal_Barrier.thy ===== *)
theory Osal_Barrier
  imports Osal_Condvar
begin

text \<open>
  The emulated barrier, \<^verbatim>\<open>src/common/emulated_barrier.inl\<close>: a guard mutex, a condition variable, the
  number of arrivals of the current round and a round counter. \<^verbatim>\<open>unsigned\<close> has 32 bits.
\<close>

record emulated_barrier_obj =
  bar_guard :: handle
  bar_cv :: handle
  bar_threshold :: u32
  bar_arrived :: u32
  bar_generation :: u32

record barrier_state = cv_state +
  emu_barrier_pool :: "emulated_barrier_obj list"
  emu_barrier_used :: "bool list"

type_synonym barrier_env = "barrier_state env"

definition bar_obj :: "barrier_state \<Rightarrow> nat \<Rightarrow> emulated_barrier_obj" where
  "bar_obj s p = emu_barrier_pool s ! p"

definition bar_put :: "nat \<Rightarrow> emulated_barrier_obj \<Rightarrow> barrier_state \<Rightarrow> barrier_state" where
  "bar_put p obj s = s\<lparr>emu_barrier_pool := (emu_barrier_pool s)[p := obj]\<rparr>"

definition emu_barrier_acquire :: "barrier_state \<Rightarrow> nat option \<times> barrier_state" where
  "emu_barrier_acquire s =
     (case first_unused (emu_barrier_used s) 0 of
        Some i \<Rightarrow> (Some i, s\<lparr>emu_barrier_used := (emu_barrier_used s)[i := True]\<rparr>)
      | None \<Rightarrow> (None, s))"

definition emu_barrier_release :: "nat \<Rightarrow> barrier_state \<Rightarrow> barrier_state" where
  "emu_barrier_release p s =
     (if p < length (emu_barrier_pool s) then s\<lparr>emu_barrier_used := (emu_barrier_used s)[p := False]\<rparr> else s)"

text \<open>A failed creation clears the caller's handle.\<close>

definition osal_barrier_create :: "handle option \<Rightarrow> u32 \<Rightarrow> barrier_state \<Rightarrow> error_code \<times> handle option \<times> barrier_state" where
  "osal_barrier_create hnd count s =
     (if hnd = None \<or> count = 0 then (Invalid_argument, if hnd = None then None else Some None, s)
      else case emu_barrier_acquire s of
        (None, s1) \<Rightarrow> (Out_of_resources, Some None, s1)
      | (Some p, s1) \<Rightarrow>
          let b1 = (bar_obj s1 p)\<lparr>bar_threshold := count, bar_arrived := 0, bar_generation := 0\<rparr>
          in case osal_mutex_create (bar_guard b1) (bar_put p b1 s1) of (r2, g, s2) \<Rightarrow>
            let b2 = b1\<lparr>bar_guard := g\<rparr> in
            if r2 \<noteq> Ok then (Out_of_resources, Some None, emu_barrier_release p (bar_put p b2 s2))
            else case osal_condvar_create (Some (bar_cv b2)) (bar_put p b2 s2) of (r3, c, s3) \<Rightarrow>
              let b3 = b2\<lparr>bar_cv := the c\<rparr> in
              if r3 \<noteq> Ok then
                case osal_mutex_destroy (Some (bar_guard b3)) (bar_put p b3 s3) of (_, g', s4) \<Rightarrow>
                  (Out_of_resources, Some None, emu_barrier_release p (bar_put p (b3\<lparr>bar_guard := g'\<rparr>) s4))
              else (Ok, Some (Some p), bar_put p b3 s3))"

definition osal_barrier_destroy :: "handle option \<Rightarrow> barrier_state \<Rightarrow> error_code \<times> handle option \<times> barrier_state" where
  "osal_barrier_destroy hnd s =
     (case native_of hnd of
        None \<Rightarrow> (Ok, hnd, s)
      | Some p \<Rightarrow>
          case osal_condvar_destroy (Some (bar_cv (bar_obj s p))) s of (_, c, s1) \<Rightarrow>
          case osal_mutex_destroy (Some (bar_guard (bar_obj s p))) s1 of (_, g, s2) \<Rightarrow>
            (Ok, Some None, emu_barrier_release p (bar_put p ((bar_obj s p)\<lparr>bar_cv := the c, bar_guard := g\<rparr>) s2)))"

section \<open>Waiting\<close>

definition bar_unlock :: "nat \<Rightarrow> barrier_state \<Rightarrow> barrier_state" where
  "bar_unlock p s = snd (osal_mutex_unlock (Some (bar_guard (bar_obj s p))) s)"

partial_function (option) bar_wait_loop ::
  "nat \<Rightarrow> u32 \<Rightarrow> barrier_env \<Rightarrow> barrier_state \<Rightarrow> (error_code \<times> barrier_state \<times> barrier_env) option" where
  "bar_wait_loop p generation env s =
     (if generation = bar_generation (bar_obj s p) then do {
        (r, s1, env1) \<leftarrow> osal_condvar_wait (Some (bar_cv (bar_obj s p))) (Some (bar_guard (bar_obj s p))) WAIT_FOREVER env s;
        if r \<noteq> Ok then Some (r, bar_unlock p s1, env1)
        else bar_wait_loop p generation env1 s1 }
      else Some (Ok, bar_unlock p s, env))"

definition osal_barrier_wait ::
  "handle option \<Rightarrow> barrier_env \<Rightarrow> barrier_state \<Rightarrow> (error_code \<times> barrier_state \<times> barrier_env) option" where
  "osal_barrier_wait hnd env s =
     (case native_of hnd of
        None \<Rightarrow> Some (Not_initialized, s, env)
      | Some p \<Rightarrow> do {
          (r, s1, env1) \<leftarrow> osal_mutex_lock (Some (bar_guard (bar_obj s p))) WAIT_FOREVER env s;
          if r \<noteq> Ok then Some (r, s1, env1)
          else
            let generation = bar_generation (bar_obj s1 p);
                b = (bar_obj s1 p)\<lparr>bar_arrived := bar_arrived (bar_obj s1 p) + 1\<rparr>
            in if bar_arrived b = bar_threshold b then do {
                 (_, s3, env3) \<leftarrow> osal_condvar_notify_all (Some (bar_cv b)) env1
                   (bar_put p (b\<lparr>bar_arrived := 0, bar_generation := bar_generation b + 1\<rparr>) s1);
                 Some (Barrier_serial, bar_unlock p s3, env3) }
               else bar_wait_loop p generation env1 (bar_put p b s1) })"

section \<open>Properties\<close>

text \<open>
  A barrier in use: fewer tasks have arrived than it waits for, and its condition variable and guard
  are well formed and free.
\<close>

definition bar_inv :: "nat \<Rightarrow> barrier_state \<Rightarrow> bool" where
  "bar_inv p s \<longleftrightarrow> p < length (emu_barrier_pool s) \<and> bar_arrived (bar_obj s p) < bar_threshold (bar_obj s p) \<and>
     mutex_free (bar_guard (bar_obj s p)) s \<and> bar_guard (bar_obj s p) \<noteq> None \<and>
     (\<exists>c. bar_cv (bar_obj s p) = Some c \<and> cv_inv c s \<and> cv_guard (cv_obj s c) \<noteq> bar_guard (bar_obj s p))"

lemma bar_frame [simp]:
  "bar_obj (mutex_set g b s) q = bar_obj s q" "emu_barrier_pool (mutex_set g b s) = emu_barrier_pool s"
  "bar_obj (cv_signal_eff c A s) q = bar_obj s q" "emu_barrier_pool (cv_signal_eff c A s) = emu_barrier_pool s"
  "p < length (emu_barrier_pool s) \<Longrightarrow> bar_obj (bar_put p obj s) q = (if q = p then obj else bar_obj s q)"
  "length (emu_barrier_pool (bar_put p obj s)) = length (emu_barrier_pool s)"
  "cv_obj (bar_put p obj s) c = cv_obj s c" "emu_cv_pool (bar_put p obj s) = emu_cv_pool s"
  "bm_mutex_pool (bar_put p obj s) = bm_mutex_pool s" "bm_sem_pool (bar_put p obj s) = bm_sem_pool s"
  by (simp_all add: bar_obj_def bar_put_def mutex_set_def cv_signal_eff_def cv_put_def give_tokens_def cv_obj_def nth_list_update)

lemma bar_cv_frame [simp]:
  "cv_core c (bar_put p obj s) = cv_core c s" "cv_targets c (bar_put p obj s) = cv_targets c s"
  "cv_targets c (mutex_set g b s) = cv_targets c s"
  by (simp_all add: cv_core_def cv_slot_ok_def sem_get_def cv_targets_def)

lemma bar_put_mutex_set: "bar_put p obj (mutex_set g b s) = mutex_set g b (bar_put p obj s)"
  by (simp add: bar_put_def mutex_set_def)

lemma bar_invE:
  assumes "bar_inv p s"
  obtains g c where "bar_guard (bar_obj s p) = Some g" "g < length (bm_mutex_pool s)" "\<not> mtx_flag (bm_mutex_pool s ! g)"
    "bar_cv (bar_obj s p) = Some c" "cv_inv c s" "cv_guard (cv_obj s c) \<noteq> Some g" "p < length (emu_barrier_pool s)"
    "bar_arrived (bar_obj s p) < bar_threshold (bar_obj s p)"
  using assms unfolding bar_inv_def mutex_free_def by auto

lemma bar_last_arrival:
  assumes inv: "bar_inv p s" and last: "bar_arrived (bar_obj s p) + 1 = bar_threshold (bar_obj s p)"
    and c: "bar_cv (bar_obj s p) = Some c" and n: "n = cv_slots c s"
  shows "\<exists>s' env'. osal_barrier_wait (Some (Some p)) (calm n @ env) s = Some (Barrier_serial, s', env') \<and> bar_inv p s' \<and>
    bar_arrived (bar_obj s' p) = 0 \<and> bar_generation (bar_obj s' p) = bar_generation (bar_obj s p) + 1 \<and>
    (\<forall>k i. k < n \<and> cw_sem (cv_waiter c s k) = Some i \<and> cv_open (cv_waiter c s k) \<longrightarrow>
       cw_signalled (cv_waiter c s' k) \<and> sem_get i s' = 1)"
proof -
  obtain g where g: "bar_guard (bar_obj s p) = Some g" "g < length (bm_mutex_pool s)" "\<not> mtx_flag (bm_mutex_pool s ! g)"
    and cv: "cv_inv c s" "cv_guard (cv_obj s c) \<noteq> Some g" and p: "p < length (emu_barrier_pool s)"
    and lt: "bar_arrived (bar_obj s p) < bar_threshold (bar_obj s p)"
    using bar_invE [OF inv] c by (metis option.inject)
  let ?b = "(bar_obj s p)\<lparr>bar_arrived := 0, bar_generation := bar_generation (bar_obj s p) + 1\<rparr>"
  let ?s2 = "mutex_set g True (bar_put p ?b s)"
  have cv1: "cv_inv c (bar_put p ?b s)" using cv(1) by (simp add: cv_inv_def mutex_free_def)
  have cv2: "cv_inv c ?s2" using cv_inv_mutex_set [OF cv1] cv(2) by simp
  have core: "cv_core c s" using cv(1) by (simp add: cv_inv_def)
  let ?T = "cv_targets c s" and ?s' = "cv_signal_eff c (cv_targets c s) (bar_put p ?b s)"
  obtain m' where nt: "osal_condvar_notify_all (Some (Some c)) (calm n @ env) ?s2 = Some (Ok, mutex_set g True ?s', calm m' @ env)"
    using cv_notify_calm [OF cv2, of False env] n
    by (auto simp: osal_condvar_notify_all_def cv_chosen_def cv_signal_eff_mutex_set)
  have cp: "c < length (emu_cv_pool s)" by (rule cv_coreD(1) [OF core])
  have "\<not> mtx_flag (bm_mutex_pool ?s' ! g)" using g(3) by simp
  then have unl: "bar_unlock p (mutex_set g True ?s') = ?s'" using g(1) p by (simp add: bar_unlock_def mutex_unlock_set mutex_set_undo)
  have run: "osal_barrier_wait (Some (Some p)) (calm n @ env) s = Some (Barrier_serial, ?s', calm m' @ env)"
    using g(1) mutex_lock_set [OF g(3)] last nt unl c p by (simp add: osal_barrier_wait_def Let_def bar_put_mutex_set)
  have "cv_core c ?s'" by (rule cv_core_signal_eff) (simp add: core)
  then have "cv_inv c ?s'" using cv(1) cp by (simp add: cv_inv_def mutex_free_def)
  moreover have "bar_threshold (bar_obj s p) \<noteq> 0" using lt by auto
  ultimately have inv': "bar_inv p ?s'" using g c p cv(2) cp by (simp add: bar_inv_def mutex_free_def word_gt_0)
  have sig: "\<forall>k i. k < n \<and> cw_sem (cv_waiter c s k) = Some i \<and> cv_open (cv_waiter c s k) \<longrightarrow>
      cw_signalled (cv_waiter c ?s' k) \<and> sem_get i ?s' = 1"
    using n cp sem_get_signal_eff [of c "bar_put p ?b s" _ _ ?T] core by (auto simp: cv_targets_def)
  show ?thesis
    by (rule exI [of _ ?s'], rule exI [of _ "calm m' @ env"], intro conjI run inv' sig) (use p in simp_all)
qed

lemma bar_stable: "cv_stable (\<lambda>s. p < length (emu_barrier_pool s))"
  by (simp add: cv_stable_def sem_set_def)

lemma bar_wait_loop_post:
  assumes "bar_wait_loop p generation env s = Some (r, s', env')" "r = Ok"
  shows "bar_generation (bar_obj s' p) \<noteq> generation"
proof -
  have "\<forall>r s' env'. res = (r, s', env') \<longrightarrow> r = Ok \<longrightarrow> bar_generation (bar_obj s' p) \<noteq> generation"
    if "bar_wait_loop p generation env s = Some res" for res
    using that
  proof (induction rule: bar_wait_loop.raw_induct [rotated 1, consumes 1])
    case (1 loop p generation env s res)
    have u: "bar_obj (bar_unlock p s) p = bar_obj s p" for s
      by (simp add: bar_unlock_def osal_mutex_unlock_def bar_obj_def split: option.split)
    show ?case
    proof (cases "generation = bar_generation (bar_obj s p)")
      case True
      then obtain r1 s1 env1 where "(if r1 \<noteq> Ok then Some (r1, bar_unlock p s1, env1) else loop p generation env1 s1) = Some res"
        using 1(2) by (auto split: bind_splits)
      with 1(1) [of p generation env1 s1 res] show ?thesis by (auto split: if_splits)
    qed (use 1(2) u in auto)
  qed
  with assms show ?thesis by blast
qed

lemma bar_early_arrival:
  assumes inv: "bar_inv p s" and early: "bar_arrived (bar_obj s p) + 1 \<noteq> bar_threshold (bar_obj s p)"
    and run: "osal_barrier_wait (Some (Some p)) env s = Some (Ok, s', env')"
  shows "bar_generation (bar_obj s' p) \<noteq> bar_generation (bar_obj s p)"
proof -
  obtain g where g: "bar_guard (bar_obj s p) = Some g" "\<not> mtx_flag (bm_mutex_pool s ! g)" by (rule bar_invE [OF inv])
  then have "\<exists>s1. bar_wait_loop p (bar_generation (bar_obj s p)) env s1 = Some (Ok, s', env')"
    using run early mutex_lock_set [OF g(2)] by (auto simp: osal_barrier_wait_def Let_def)
  with bar_wait_loop_post show ?thesis by blast
qed

text \<open>
  C23: rounds. The arrival that completes the threshold gets \<open>Barrier_serial\<close>, at once; the count
  starts again at zero, the round number advances, every task blocked on the barrier is signalled and
  has a token, and the barrier is ready for the next round. An earlier arrival that returns \<open>Ok\<close> has
  seen the round number change, whatever runs while it waits.
\<close>

theorem barrier_rounds:
  assumes inv: "bar_inv p s" and c: "bar_cv (bar_obj s p) = Some c" and n: "n = cv_slots c s"
  shows "if bar_arrived (bar_obj s p) + 1 = bar_threshold (bar_obj s p)
    then \<exists>s' env'. osal_barrier_wait (Some (Some p)) (calm n @ env) s = Some (Barrier_serial, s', env') \<and> bar_inv p s' \<and>
      bar_arrived (bar_obj s' p) = 0 \<and> bar_generation (bar_obj s' p) = bar_generation (bar_obj s p) + 1 \<and>
      (\<forall>k i. k < n \<and> cw_sem (cv_waiter c s k) = Some i \<and> cv_open (cv_waiter c s k) \<longrightarrow>
         cw_signalled (cv_waiter c s' k) \<and> sem_get i s' = 1)
    else \<forall>s' env'. osal_barrier_wait (Some (Some p)) env s = Some (Ok, s', env') \<longrightarrow>
      bar_generation (bar_obj s' p) \<noteq> bar_generation (bar_obj s p)"
  using bar_last_arrival [OF inv _ c n] bar_early_arrival [OF inv] by simp

text \<open>
  C24: an arrival that fails stays counted. When every slot of the condition variable is taken, an
  arrival that is not the last one returns \<open>Out_of_resources\<close> at once, yet the count is one higher: the
  round is then released by one task fewer than the threshold.
\<close>

theorem barrier_failed_arrival_counted:
  assumes inv: "bar_inv p s" and early: "bar_arrived (bar_obj s p) + 1 \<noteq> bar_threshold (bar_obj s p)"
    and c: "bar_cv (bar_obj s p) = Some c" and full: "\<forall>k < cv_slots c s. cw_in_use (cv_waiter c s k)"
  shows "\<exists>s'. osal_barrier_wait (Some (Some p)) env s = Some (Out_of_resources, s', env) \<and>
    bar_arrived (bar_obj s' p) = bar_arrived (bar_obj s p) + 1 \<and> bar_generation (bar_obj s' p) = bar_generation (bar_obj s p)"
proof -
  obtain g where g: "bar_guard (bar_obj s p) = Some g" "g < length (bm_mutex_pool s)" "\<not> mtx_flag (bm_mutex_pool s ! g)"
    and cv: "cv_inv c s" "cv_guard (cv_obj s c) \<noteq> Some g" and p: "p < length (emu_barrier_pool s)"
    using bar_invE [OF inv] c by (metis option.inject)
  obtain gc where gc: "cv_guard (cv_obj s c) = Some gc" "\<not> mtx_flag (bm_mutex_pool s ! gc)"
    using cv(1) by (auto simp: cv_inv_def mutex_free_def)
  let ?b = "(bar_obj s p)\<lparr>bar_arrived := bar_arrived (bar_obj s p) + 1\<rparr>"
  let ?s2 = "mutex_set g True (bar_put p ?b s)"
  have none: "cv_free_slot (cv_waiters (cv_obj s c)) 0 = None"
    using cv_free_slot_spec(1) [of "cv_waiters (cv_obj s c)" 0] full by (cases "cv_free_slot (cv_waiters (cv_obj s c)) 0") auto
  have fl: "\<not> mtx_flag (bm_mutex_pool ?s2 ! gc)" using gc g(2) cv(2) by simp
  have "osal_condvar_wait (Some (Some c)) (Some (Some g)) WAIT_FOREVER env ?s2 = Some (Out_of_resources, ?s2, env)"
    using gc(1) none mutex_lock_set [OF fl] mutex_set_undo [OF fl] by (simp add: osal_condvar_wait_def cv_unlock_def mutex_unlock_set)
  moreover have "bar_unlock p ?s2 = bar_put p ?b s"
    using g p mutex_set_undo [of "bar_put p ?b s" g] by (simp add: bar_unlock_def mutex_unlock_set)
  ultimately have "bar_wait_loop p (bar_generation (bar_obj s p)) env ?s2 = Some (Out_of_resources, bar_put p ?b s, env)"
    using p g(1) c by (simp add: bar_wait_loop.simps)
  then have "osal_barrier_wait (Some (Some p)) env s = Some (Out_of_resources, bar_put p ?b s, env)"
    using g(1) mutex_lock_set [OF g(3)] early p by (simp add: osal_barrier_wait_def Let_def bar_put_mutex_set)
  with p show ?thesis by (intro exI [of _ "bar_put p ?b s"]) simp
qed

definition barrier_demo :: "u32 \<Rightarrow> barrier_state" where
  "barrier_demo th = \<lparr>g_ticks = 0, bm_tasks = [], bm_current = -1, bm_last_scheduled = -1,
     bm_mutex_pool = [\<lparr>mtx_flag = False\<rparr>, \<lparr>mtx_flag = False\<rparr>], bm_mutex_used_bits = [3],
     bm_sem_pool = [\<lparr>sem_count = 0, sem_max = 1\<rparr>], bm_sem_used_bits = [1],
     bm_queue_pool = [], bm_queue_used_bits = [], bm_timer_pool = [],
     emu_cv_pool = [\<lparr>cv_waiters = [\<lparr>cw_sem = Some 0, cw_in_use = True, cw_signalled = False\<rparr>],
       cv_guard = Some 0, cv_n_waiters = 1, cv_pool_allocated = True\<rparr>], emu_cv_used = [True],
     emu_barrier_pool = [\<lparr>bar_guard = Some 1, bar_cv = Some 0, bar_threshold = th, bar_arrived = 1, bar_generation = 0\<rparr>],
     emu_barrier_used = [True]\<rparr>"

lemma barrier_demo_simps:
  "bar_cv (bar_obj (barrier_demo th) 0) = Some 0" "bar_arrived (bar_obj (barrier_demo th) 0) = 1"
  "bar_generation (bar_obj (barrier_demo th) 0) = 0" "bar_threshold (bar_obj (barrier_demo th) 0) = th"
  "cv_slots 0 (barrier_demo th) = 1" "cv_waiter 0 (barrier_demo th) 0 = \<lparr>cw_sem = Some 0, cw_in_use = True, cw_signalled = False\<rparr>"
  by (simp_all add: barrier_demo_def bar_obj_def cv_obj_def)

lemma barrier_demo_ok:
  assumes "1 < th"
  shows "bar_inv 0 (barrier_demo th)"
proof -
  have "{k. k < (1 :: nat) \<and> cw_in_use (cv_waiter 0 (barrier_demo th) k)} = {0}" by (auto simp: barrier_demo_simps)
  then have "card {k. k < (1 :: nat) \<and> cw_in_use (cv_waiter 0 (barrier_demo th) k)} = 1" by simp
  then show ?thesis using assms
    by (auto simp: bar_inv_def mutex_free_def cv_inv_def cv_core_def cv_slot_ok_def cv_open_def barrier_demo_def
        bar_obj_def cv_obj_def sem_get_def)
qed

theorem barrier_rounds_witness:
  "\<exists>s' env'. osal_barrier_wait (Some (Some 0)) (calm 1 @ []) (barrier_demo 2) = Some (Barrier_serial, s', env') \<and>
     bar_generation (bar_obj s' 0) = 1 \<and> sem_get 0 s' = 1"
proof -
  have "bar_inv 0 (barrier_demo 2)" by (rule barrier_demo_ok) simp
  from barrier_rounds [OF this barrier_demo_simps(1) barrier_demo_simps(5) [symmetric], of "[]"] show ?thesis
    by (auto simp: barrier_demo_simps cv_open_def)
qed

theorem barrier_failed_arrival_counted_witness:
  "\<exists>s'. osal_barrier_wait (Some (Some 0)) [] (barrier_demo 3) = Some (Out_of_resources, s', []) \<and> bar_arrived (bar_obj s' 0) = 2"
proof -
  have "bar_inv 0 (barrier_demo 3)" by (rule barrier_demo_ok) simp
  from barrier_failed_arrival_counted [OF this _ barrier_demo_simps(1), of "[]"] show ?thesis
    by (auto simp: barrier_demo_simps)
qed

end
