(* ===== verification/Osal_Work_Queue.thy ===== *)
theory Osal_Work_Queue
  imports Osal_Condvar Osal_Diagnostics Bm_Task Fifo_Spec Ring_Algebra
begin

text \<open>
  The emulated work queue, \<^verbatim>\<open>src/common/emulated_work_queue.inl\<close>: a ring of work items guarded by a
  mutex, a counting semaphore with one token per item, a worker task that executes the items, and a
  condition variable on which \<open>flush\<close> waits for the worker to advance. Work functions and their
  arguments are opaque numbers; what a call to one does to the state is a parameter of the worker.
  \<^verbatim>\<open>OSAL_EMULATED_WQ_MAX_DEPTH\<close> is the length of the ring array.
\<close>

record emulated_wq_entry =
  we_func :: nat
  we_arg :: nat
  we_sequence :: u64

record emulated_wq_obj =
  wq_ring :: "emulated_wq_entry list"
  wq_capacity :: nat
  wq_head :: nat
  wq_tail :: nat
  wq_count :: nat
  wq_worker :: handle
  wq_mtx :: handle
  wq_not_empty :: handle
  wq_flush_cv :: handle
  wq_submitted_sequence :: u64
  wq_completed_sequence :: u64
  wq_active_sequence :: u64
  wq_stop :: bool
  wq_worker_active :: bool

record wq_state = cv_state +
  emu_wq_pool :: "emulated_wq_obj list"
  emu_wq_used :: "bool list"
  wq_diag :: diagnostic_counters

type_synonym wq_env = "wq_state env"

definition wq_obj :: "wq_state \<Rightarrow> nat \<Rightarrow> emulated_wq_obj" where
  "wq_obj s p = emu_wq_pool s ! p"

definition wq_put :: "nat \<Rightarrow> emulated_wq_obj \<Rightarrow> wq_state \<Rightarrow> wq_state" where
  "wq_put p obj s = s\<lparr>emu_wq_pool := (emu_wq_pool s)[p := obj]\<rparr>"

definition wq_diag_update1 :: "(diagnostic_counters \<Rightarrow> diagnostic_counters) \<Rightarrow> wq_state \<Rightarrow> wq_state" where
  "wq_diag_update1 f s = s\<lparr>wq_diag := f (wq_diag s)\<rparr>"

definition emu_wq_advance_index :: "nat \<Rightarrow> nat \<Rightarrow> nat" where
  "emu_wq_advance_index index capacity = (let i = index + 1 in if i = capacity then 0 else i)"

definition emu_wq_retreat_index :: "nat \<Rightarrow> nat \<Rightarrow> nat" where
  "emu_wq_retreat_index index capacity = (if index = 0 then capacity - 1 else index - 1)"

definition emu_wq_acquire :: "wq_state \<Rightarrow> nat option \<times> wq_state" where
  "emu_wq_acquire s =
     (let s0 = wq_diag_update1 (diag_set_capacity (of_nat (length (emu_wq_pool s)))) s
      in case first_unused (emu_wq_used s0) 0 of
           Some i \<Rightarrow> (Some i, wq_diag_update1 (diag_acquire \<circ> diag_attempt Ok)
                        (s0\<lparr>emu_wq_used := (emu_wq_used s0)[i := True]\<rparr>))
         | None \<Rightarrow> (None, wq_diag_update1 (diag_attempt Out_of_resources) s0))"

definition emu_wq_release :: "nat \<Rightarrow> wq_state \<Rightarrow> wq_state" where
  "emu_wq_release p s =
     (if p < length (emu_wq_pool s)
      then (wq_diag_update1 diag_release s)\<lparr>emu_wq_used := (emu_wq_used s)[p := False]\<rparr> else s)"

definition wq_unlock :: "nat \<Rightarrow> wq_state \<Rightarrow> wq_state" where
  "wq_unlock p s = snd (osal_mutex_unlock (Some (wq_mtx (wq_obj s p))) s)"

section \<open>The ring\<close>

definition wq_enqueue :: "nat \<Rightarrow> nat \<Rightarrow> emulated_wq_obj \<Rightarrow> bool \<times> emulated_wq_obj" where
  "wq_enqueue func arg wq =
     (if wq_count wq \<ge> wq_capacity wq then (False, wq)
      else let sequence = wq_submitted_sequence wq + 1
        in (True, wq\<lparr>wq_submitted_sequence := sequence,
             wq_ring := (wq_ring wq)[wq_tail wq := \<lparr>we_func = func, we_arg = arg, we_sequence = sequence\<rparr>],
             wq_tail := emu_wq_advance_index (wq_tail wq) (wq_capacity wq),
             wq_count := wq_count wq + 1\<rparr>))"

definition wq_dequeue :: "emulated_wq_obj \<Rightarrow> emulated_wq_entry option \<times> emulated_wq_obj" where
  "wq_dequeue wq =
     (if wq_count wq = 0 then (None, wq)
      else let entry = wq_ring wq ! wq_head wq
        in (Some entry, wq\<lparr>wq_head := emu_wq_advance_index (wq_head wq) (wq_capacity wq),
             wq_count := wq_count wq - 1, wq_worker_active := True, wq_active_sequence := we_sequence entry\<rparr>))"

definition wq_complete :: "u64 \<Rightarrow> emulated_wq_obj \<Rightarrow> emulated_wq_obj" where
  "wq_complete sequence wq = wq\<lparr>wq_worker_active := False, wq_active_sequence := 0, wq_completed_sequence := sequence\<rparr>"

definition wq_clear :: "emulated_wq_obj \<Rightarrow> emulated_wq_obj" where
  "wq_clear wq = wq\<lparr>wq_head := 0, wq_tail := 0, wq_count := 0\<rparr>"

section \<open>The worker\<close>

datatype wq_fetched = Wq_stop | Wq_spurious | Wq_run emulated_wq_entry

definition wq_worker_fetch :: "nat \<Rightarrow> wq_env \<Rightarrow> wq_state \<Rightarrow> (wq_fetched \<times> wq_state \<times> wq_env) option" where
  "wq_worker_fetch p env s = do {
     (_, s1, env1) \<leftarrow> osal_semaphore_take (Some (wq_not_empty (wq_obj s p))) WAIT_FOREVER env s;
     (_, s2, env2) \<leftarrow> osal_mutex_lock (Some (wq_mtx (wq_obj s1 p))) WAIT_FOREVER env1 s1;
     if wq_count (wq_obj s2 p) = 0 \<and> wq_stop (wq_obj s2 p) then Some (Wq_stop, wq_unlock p s2, env2)
     else case wq_dequeue (wq_obj s2 p) of
       (None, _) \<Rightarrow> Some (Wq_spurious, wq_unlock p s2, env2)
     | (Some entry, wq) \<Rightarrow> Some (Wq_run entry, wq_unlock p (wq_put p wq s2), env2) }"

definition wq_worker_finish :: "nat \<Rightarrow> u64 \<Rightarrow> wq_env \<Rightarrow> wq_state \<Rightarrow> (wq_state \<times> wq_env) option" where
  "wq_worker_finish p sequence env s = do {
     (_, s1, env1) \<leftarrow> osal_mutex_lock (Some (wq_mtx (wq_obj s p))) WAIT_FOREVER env s;
     let wq = wq_complete sequence (wq_obj s1 p);
     (_, s2, env2) \<leftarrow> osal_condvar_notify_all (Some (wq_flush_cv wq)) env1 (wq_put p wq s1);
     Some (wq_unlock p s2, env2) }"

text \<open>\<open>call f a\<close> is what running the work function does to the state.\<close>

partial_function (option) wq_worker_entry ::
  "(nat \<Rightarrow> nat \<Rightarrow> wq_state \<Rightarrow> wq_state) \<Rightarrow> nat \<Rightarrow> wq_env \<Rightarrow> wq_state \<Rightarrow> (wq_state \<times> wq_env) option" where
  "wq_worker_entry call p env s = do {
     (f, s1, env1) \<leftarrow> wq_worker_fetch p env s;
     (case f of
        Wq_stop \<Rightarrow> Some (s1, env1)
      | Wq_spurious \<Rightarrow> wq_worker_entry call p env1 s1
      | Wq_run entry \<Rightarrow> do {
          (s2, env2) \<leftarrow> wq_worker_finish p (we_sequence entry) env1 (call (we_func entry) (we_arg entry) s1);
          wq_worker_entry call p env2 s2 }) }"

section \<open>Operations\<close>

text \<open>\<open>entry\<close> is the address of \<^verbatim>\<open>wq_worker_entry\<close>; its argument is the control object.\<close>

definition osal_work_queue_create ::
  "nat \<Rightarrow> handle option \<Rightarrow> handle \<Rightarrow> nat \<Rightarrow> nat \<Rightarrow> wq_state \<Rightarrow> error_code \<times> handle option \<times> wq_state" where
  "osal_work_queue_create entry hnd stack stack_bytes depth s =
     (if hnd = None \<or> depth = 0 then (Invalid_argument, hnd, s)
      else case emu_wq_acquire s of
        (None, s1) \<Rightarrow> (Out_of_resources, hnd, s1)
      | (Some p, s1) \<Rightarrow>
          if depth > length (wq_ring (wq_obj s1 p)) then (Invalid_argument, hnd, emu_wq_release p s1)
          else
            let wq1 = (wq_obj s1 p)\<lparr>wq_capacity := depth, wq_head := 0, wq_tail := 0, wq_count := 0,
                  wq_submitted_sequence := 0, wq_completed_sequence := 0, wq_active_sequence := 0,
                  wq_stop := False, wq_worker_active := False\<rparr>
            in case osal_mutex_create (wq_mtx wq1) (wq_put p wq1 s1) of (r2, m, s2) \<Rightarrow>
              let wq2 = wq1\<lparr>wq_mtx := m\<rparr> in
              if r2 \<noteq> Ok then (Out_of_resources, hnd, emu_wq_release p (wq_put p wq2 s2))
              else case osal_semaphore_create (Some (wq_not_empty wq2)) 0 (of_nat (depth + 1)) (wq_put p wq2 s2) of (r3, e, s3) \<Rightarrow>
                let wq3 = wq2\<lparr>wq_not_empty := the e\<rparr> in
                if r3 \<noteq> Ok then
                  case osal_mutex_destroy (Some (wq_mtx wq3)) (wq_put p wq3 s3) of (_, m', s4) \<Rightarrow>
                    (Out_of_resources, hnd, emu_wq_release p (wq_put p (wq3\<lparr>wq_mtx := m'\<rparr>) s4))
                else case osal_condvar_create (Some (wq_flush_cv wq3)) (wq_put p wq3 s3) of (r4, c, s4) \<Rightarrow>
                  let wq4 = wq3\<lparr>wq_flush_cv := the c\<rparr> in
                  if r4 \<noteq> Ok then
                    case osal_semaphore_destroy (Some (wq_not_empty wq4)) (wq_put p wq4 s4) of (_, e', s5) \<Rightarrow>
                    case osal_mutex_destroy (Some (wq_mtx wq4)) s5 of (_, m', s6) \<Rightarrow>
                      (Out_of_resources, hnd, emu_wq_release p (wq_put p (wq4\<lparr>wq_not_empty := e', wq_mtx := m'\<rparr>) s6))
                  else case osal_thread_create (wq_worker wq4) entry p stack stack_bytes (wq_put p wq4 s4) of (r5, w, s5) \<Rightarrow>
                    let wq5 = wq4\<lparr>wq_worker := w\<rparr> in
                    if r5 \<noteq> Ok then
                      case osal_condvar_destroy (Some (wq_flush_cv wq5)) (wq_put p wq5 s5) of (_, c', s6) \<Rightarrow>
                      case osal_semaphore_destroy (Some (wq_not_empty wq5)) s6 of (_, e', s7) \<Rightarrow>
                      case osal_mutex_destroy (Some (wq_mtx wq5)) s7 of (_, m', s8) \<Rightarrow>
                        (Out_of_resources, hnd,
                         emu_wq_release p (wq_put p (wq5\<lparr>wq_flush_cv := the c', wq_not_empty := e', wq_mtx := m'\<rparr>) s8))
                    else (Ok, Some (Some p), wq_put p wq5 s5))"

definition osal_work_queue_destroy ::
  "handle option \<Rightarrow> wq_env \<Rightarrow> wq_state \<Rightarrow> (error_code \<times> handle option \<times> wq_state \<times> wq_env) option" where
  "osal_work_queue_destroy hnd env s =
     (case native_of hnd of
        None \<Rightarrow> Some (Ok, hnd, s, env)
      | Some p \<Rightarrow> do {
          (_, s1, env1) \<leftarrow> osal_mutex_lock (Some (wq_mtx (wq_obj s p))) WAIT_FOREVER env s;
          (_, s2, env2) \<leftarrow> osal_semaphore_give (Some (wq_not_empty (wq_obj s1 p))) env1 (wq_put p ((wq_obj s1 p)\<lparr>wq_stop := True\<rparr>) s1);
          let s3 = wq_unlock p s2;
          (_, w, s4, env4) \<leftarrow> osal_thread_join (Some (wq_worker (wq_obj s3 p))) WAIT_FOREVER env2 s3;
          let (_, c, s5) = osal_condvar_destroy (Some (wq_flush_cv (wq_obj s4 p))) s4;
          let (_, e, s6) = osal_semaphore_destroy (Some (wq_not_empty (wq_obj s4 p))) s5;
          let (_, m, s7) = osal_mutex_destroy (Some (wq_mtx (wq_obj s4 p))) s6;
          Some (Ok, Some None,
            emu_wq_release p (wq_put p ((wq_obj s7 p)\<lparr>wq_worker := the w, wq_flush_cv := the c, wq_not_empty := e, wq_mtx := m\<rparr>) s7), env4) })"

text \<open>A null function pointer is \<open>None\<close>.\<close>

definition osal_work_queue_submit ::
  "handle option \<Rightarrow> nat option \<Rightarrow> nat \<Rightarrow> wq_env \<Rightarrow> wq_state \<Rightarrow> (error_code \<times> wq_state \<times> wq_env) option" where
  "osal_work_queue_submit hnd func arg env s =
     (case native_of hnd of
        None \<Rightarrow> Some (Not_initialized, s, env)
      | Some p \<Rightarrow>
          (case func of
             None \<Rightarrow> Some (Invalid_argument, s, env)
           | Some f \<Rightarrow> do {
               (_, s1, env1) \<leftarrow> osal_mutex_lock (Some (wq_mtx (wq_obj s p))) WAIT_FOREVER env s;
               (case wq_enqueue f arg (wq_obj s1 p) of
                  (False, _) \<Rightarrow> Some (Overflow, wq_unlock p s1, env1)
                | (True, wq) \<Rightarrow> do {
                    (_, s2, env2) \<leftarrow> osal_semaphore_give (Some (wq_not_empty wq)) env1 (wq_put p wq s1);
                    Some (Ok, wq_unlock p s2, env2) }) }))"

definition osal_work_queue_submit_from_isr :: "handle option \<Rightarrow> nat option \<Rightarrow> nat \<Rightarrow> error_code" where
  "osal_work_queue_submit_from_isr hnd func arg = Not_supported"

definition wq_target :: "emulated_wq_obj \<Rightarrow> u64" where
  "wq_target wq =
     (if wq_count wq \<noteq> 0 then we_sequence (wq_ring wq ! emu_wq_retreat_index (wq_tail wq) (wq_capacity wq))
      else if wq_worker_active wq then wq_active_sequence wq
      else wq_completed_sequence wq)"

partial_function (option) wq_flush_loop ::
  "nat \<Rightarrow> u64 \<Rightarrow> tick_t \<Rightarrow> tick_t \<Rightarrow> wq_env \<Rightarrow> wq_state \<Rightarrow> (error_code \<times> wq_state \<times> wq_env) option" where
  "wq_flush_loop p target timeout start env s =
     (if wq_completed_sequence (wq_obj s p) < target then
        if timeout \<noteq> WAIT_FOREVER \<and> osal_clock_ticks s - start \<ge> timeout then Some (Timeout, wq_unlock p s, env)
        else do {
          (r, s1, env1) \<leftarrow> osal_condvar_wait (Some (wq_flush_cv (wq_obj s p))) (Some (wq_mtx (wq_obj s p)))
            (if timeout \<noteq> WAIT_FOREVER then timeout - (osal_clock_ticks s - start) else WAIT_FOREVER) env s;
          if r \<noteq> Ok \<and> r \<noteq> Timeout then Some (r, wq_unlock p s1, env1)
          else wq_flush_loop p target timeout start env1 s1 }
      else Some (Ok, wq_unlock p s, env))"

text \<open>The test before the loop is the first test of the loop.\<close>

definition osal_work_queue_flush ::
  "handle option \<Rightarrow> tick_t \<Rightarrow> wq_env \<Rightarrow> wq_state \<Rightarrow> (error_code \<times> wq_state \<times> wq_env) option" where
  "osal_work_queue_flush hnd timeout env s =
     (case native_of hnd of
        None \<Rightarrow> Some (Not_initialized, s, env)
      | Some p \<Rightarrow>
          let start = (if timeout = WAIT_FOREVER then 0 else osal_clock_ticks s) in do {
            (_, s1, env1) \<leftarrow> osal_mutex_lock (Some (wq_mtx (wq_obj s p))) WAIT_FOREVER env s;
            let target_sequence = wq_target (wq_obj s1 p);
            if wq_completed_sequence (wq_obj s1 p) \<ge> target_sequence then Some (Ok, wq_unlock p s1, env1)
            else wq_flush_loop p target_sequence timeout start env1 s1 })"

fun wq_drain :: "handle \<Rightarrow> nat \<Rightarrow> wq_env \<Rightarrow> wq_state \<Rightarrow> (wq_state \<times> wq_env) option" where
  "wq_drain h 0 env s = Some (s, env)"
| "wq_drain h (Suc n) env s =
     (case osal_semaphore_try_take (Some h) env s of
        None \<Rightarrow> None
      | Some (_, s1, env1) \<Rightarrow> wq_drain h n env1 s1)"

definition osal_work_queue_cancel_all ::
  "handle option \<Rightarrow> wq_env \<Rightarrow> wq_state \<Rightarrow> (error_code \<times> wq_state \<times> wq_env) option" where
  "osal_work_queue_cancel_all hnd env s =
     (case native_of hnd of
        None \<Rightarrow> Some (Not_initialized, s, env)
      | Some p \<Rightarrow> do {
          (_, s1, env1) \<leftarrow> osal_mutex_lock (Some (wq_mtx (wq_obj s p))) WAIT_FOREVER env s;
          let drained = wq_count (wq_obj s1 p);
          let s2 = wq_put p (wq_clear (wq_obj s1 p)) s1;
          (s3, env3) \<leftarrow> wq_drain (wq_not_empty (wq_obj s2 p)) drained env1 s2;
          Some (Ok, wq_unlock p s3, env3) })"

definition osal_work_queue_pending :: "handle option \<Rightarrow> wq_env \<Rightarrow> wq_state \<Rightarrow> (nat \<times> wq_state \<times> wq_env) option" where
  "osal_work_queue_pending hnd env s =
     (case native_of hnd of
        None \<Rightarrow> Some (0, s, env)
      | Some p \<Rightarrow> do {
          (_, s1, env1) \<leftarrow> osal_mutex_lock (Some (wq_mtx (wq_obj s p))) WAIT_FOREVER env s;
          Some (wq_count (wq_obj s1 p), wq_unlock p s1, env1) })"

section \<open>The ring as a queue\<close>

definition wq_entries :: "emulated_wq_obj \<Rightarrow> emulated_wq_entry list" where
  "wq_entries wq = ring_seq (take (wq_capacity wq) (wq_ring wq)) (wq_head wq) (wq_count wq)"

definition wq_items :: "emulated_wq_obj \<Rightarrow> (nat \<times> nat) list" where
  "wq_items wq = map (\<lambda>e. (we_func e, we_arg e)) (wq_entries wq)"

definition wq_ring_ok :: "emulated_wq_obj \<Rightarrow> bool" where
  "wq_ring_ok wq \<longleftrightarrow> 0 < wq_capacity wq \<and> wq_capacity wq \<le> length (wq_ring wq) \<and> wq_head wq < wq_capacity wq \<and>
     wq_count wq \<le> wq_capacity wq \<and> wq_tail wq = (wq_head wq + wq_count wq) mod wq_capacity wq"

lemma length_wq_entries [simp]: "length (wq_entries wq) = wq_count wq"
  by (simp add: wq_entries_def)

lemma wq_advance_mod: "i < c \<Longrightarrow> emu_wq_advance_index i c = Suc i mod c"
  by (auto simp: emu_wq_advance_index_def Let_def mod_if)

lemma wq_retreat_mod: "0 < c \<Longrightarrow> emu_wq_retreat_index (Suc i mod c) c = i mod c"
proof -
  assume c: "0 < c"
  have "Suc i mod c = (if Suc (i mod c) = c then 0 else Suc (i mod c))" using c by (simp add: mod_Suc)
  then show ?thesis by (auto simp: emu_wq_retreat_index_def)
qed

lemma wq_enqueue_ok:
  assumes ok: "wq_ring_ok wq" and room: "wq_count wq < wq_capacity wq" and e: "wq_enqueue f a wq = (b, wq')"
  shows "b \<and> wq_ring_ok wq' \<and> wq_capacity wq' = wq_capacity wq \<and> wq_count wq' = Suc (wq_count wq) \<and>
    wq_submitted_sequence wq' = wq_submitted_sequence wq + 1 \<and>
    wq_entries wq' = wq_entries wq @ [\<lparr>we_func = f, we_arg = a, we_sequence = wq_submitted_sequence wq + 1\<rparr>]"
proof -
  let ?c = "wq_capacity wq" and ?buf = "take (wq_capacity wq) (wq_ring wq)"
  let ?x = "\<lparr>we_func = f, we_arg = a, we_sequence = wq_submitted_sequence wq + 1\<rparr>"
  have len: "length ?buf = ?c" using ok by (simp add: wq_ring_ok_def)
  have t: "wq_tail wq = (wq_head wq + wq_count wq) mod length ?buf" "wq_tail wq < ?c" using ok len by (simp_all add: wq_ring_ok_def)
  have wq': "b" "wq' = wq\<lparr>wq_submitted_sequence := wq_submitted_sequence wq + 1, wq_ring := (wq_ring wq)[wq_tail wq := ?x],
      wq_tail := Suc (wq_tail wq) mod ?c, wq_count := wq_count wq + 1\<rparr>"
    using e room wq_advance_mod [OF t(2)] by (simp_all add: wq_enqueue_def Let_def)
  have "ring_seq (?buf[wq_tail wq := ?x]) (wq_head wq) (wq_count wq + length [?x]) = ring_seq ?buf (wq_head wq) (wq_count wq) @ [?x]"
    using ring_seq_copy_in [of "wq_head wq" ?buf "wq_count wq" "[?x]"] ring_copy_in_single [of "wq_tail wq" ?buf ?x] t ok room len
    by (simp add: wq_ring_ok_def)
  then have "wq_entries wq' = wq_entries wq @ [?x]" by (simp add: wq_entries_def wq'(2) take_update_swap)
  moreover have "wq_ring_ok wq'" using ok room by (simp add: wq_ring_ok_def wq'(2) mod_simps)
  ultimately show ?thesis by (simp add: wq')
qed

lemma wq_dequeue_ok:
  assumes ok: "wq_ring_ok wq" and ne: "wq_count wq \<noteq> 0"
  obtains wq' where "wq_dequeue wq = (Some (hd (wq_entries wq)), wq')" "wq_ring_ok wq'" "wq_capacity wq' = wq_capacity wq"
    "wq_entries wq' = tl (wq_entries wq)" "wq_active_sequence wq' = we_sequence (hd (wq_entries wq))" "wq_worker_active wq'"
    "wq_count wq' = wq_count wq - 1"
    "wq_mtx wq' = wq_mtx wq" "wq_not_empty wq' = wq_not_empty wq" "wq_completed_sequence wq' = wq_completed_sequence wq"
proof -
  let ?c = "wq_capacity wq" and ?buf = "take (wq_capacity wq) (wq_ring wq)"
  have len: "length ?buf = ?c" and h: "wq_head wq < ?c" using ok by (simp_all add: wq_ring_ok_def)
  obtain n where n: "wq_count wq = Suc n" using ne by (cases "wq_count wq") auto
  have es: "wq_entries wq = wq_ring wq ! wq_head wq # ring_seq ?buf (Suc (wq_head wq) mod ?c) n"
    using ring_seq_Suc [of ?buf "wq_head wq" n] n h len by (simp add: wq_entries_def)
  let ?wq' = "wq\<lparr>wq_head := Suc (wq_head wq) mod ?c, wq_count := n, wq_worker_active := True,
      wq_active_sequence := we_sequence (hd (wq_entries wq))\<rparr>"
  have "wq_dequeue wq = (Some (hd (wq_entries wq)), ?wq')"
    using n es wq_advance_mod [OF h] by (simp add: wq_dequeue_def Let_def)
  moreover have "wq_ring_ok ?wq'" using ok n by (simp add: wq_ring_ok_def mod_simps)
  moreover have "wq_entries ?wq' = tl (wq_entries wq)" using es by (simp add: wq_entries_def)
  ultimately show ?thesis using that [of ?wq'] n by simp
qed

text \<open>The contract of a bounded queue of work items.\<close>

definition wq_push :: "nat \<times> nat \<Rightarrow> emulated_wq_obj \<Rightarrow> bool \<times> emulated_wq_obj" where
  "wq_push x wq = wq_enqueue (fst x) (snd x) wq"

definition wq_pop :: "emulated_wq_obj \<Rightarrow> (nat \<times> nat) option \<times> emulated_wq_obj" where
  "wq_pop wq = (case wq_dequeue wq of (r, wq') \<Rightarrow> (map_option (\<lambda>e. (we_func e, we_arg e)) r, wq'))"

interpretation wq: bounded_fifo wq_ring_ok "\<lambda>_ _. True" wq_capacity wq_items wq_push wq_pop
proof unfold_locales
  fix wq wq' :: emulated_wq_obj and x b r
  show "wq_ring_ok wq \<Longrightarrow> length (wq_items wq) \<le> wq_capacity wq" by (simp add: wq_items_def wq_ring_ok_def)
  show "wq_ring_ok wq \<Longrightarrow> True \<Longrightarrow> wq_push x wq = (b, wq') \<Longrightarrow>
      (b, wq_items wq') = lq_push (wq_capacity wq) x (wq_items wq) \<and> wq_ring_ok wq' \<and> wq_capacity wq' = wq_capacity wq \<and> (\<lambda>_. True) = (\<lambda>_. True)"
  proof -
    assume ok: "wq_ring_ok wq" and e: "wq_push x wq = (b, wq')"
    show "(b, wq_items wq') = lq_push (wq_capacity wq) x (wq_items wq) \<and> wq_ring_ok wq' \<and> wq_capacity wq' = wq_capacity wq \<and> (\<lambda>_. True) = (\<lambda>_. True)"
    proof (cases "wq_count wq < wq_capacity wq")
      case True
      with wq_enqueue_ok [OF ok True e [unfolded wq_push_def]] show ?thesis by (simp add: lq_push_def wq_items_def)
    next
      case False
      with e ok show ?thesis by (auto simp: wq_push_def wq_enqueue_def lq_push_def wq_items_def)
    qed
  qed
  show "wq_ring_ok wq \<Longrightarrow> wq_pop wq = (r, wq') \<Longrightarrow>
      (r, wq_items wq') = lq_pop (wq_items wq) \<and> wq_ring_ok wq' \<and> wq_capacity wq' = wq_capacity wq \<and> (\<lambda>_. True) = (\<lambda>_. True)"
  proof -
    assume ok: "wq_ring_ok wq" and e: "wq_pop wq = (r, wq')"
    show "(r, wq_items wq') = lq_pop (wq_items wq) \<and> wq_ring_ok wq' \<and> wq_capacity wq' = wq_capacity wq \<and> (\<lambda>_. True) = (\<lambda>_. True)"
    proof (cases "wq_count wq = 0")
      case True
      with e ok show ?thesis by (auto simp: wq_pop_def wq_dequeue_def wq_items_def wq_entries_def)
    next
      case False
      obtain wq1 where d: "wq_dequeue wq = (Some (hd (wq_entries wq)), wq1)" "wq_ring_ok wq1" "wq_capacity wq1 = wq_capacity wq"
        "wq_entries wq1 = tl (wq_entries wq)"
        by (rule wq_dequeue_ok [OF ok False])
      moreover have "wq_entries wq \<noteq> []" using False by (metis length_wq_entries list.size(3))
      ultimately show ?thesis using e by (cases "wq_entries wq") (auto simp: wq_pop_def wq_items_def)
    qed
  qed
qed

section \<open>The operations undisturbed\<close>

definition wq_inv :: "nat \<Rightarrow> wq_state \<Rightarrow> bool" where
  "wq_inv p s \<longleftrightarrow> p < length (emu_wq_pool s) \<and> wq_ring_ok (wq_obj s p) \<and> \<not> wq_stop (wq_obj s p) \<and>
     mutex_free (wq_mtx (wq_obj s p)) s \<and> wq_capacity (wq_obj s p) + 1 < 2 ^ 32 \<and>
     (\<exists>i. wq_not_empty (wq_obj s p) = Some i \<and> i < length (bm_sem_pool s) \<and>
        sem_max (bm_sem_pool s ! i) = of_nat (wq_capacity (wq_obj s p) + 1) \<and> sem_get i s = of_nat (wq_count (wq_obj s p)))"

lemma wq_invE:
  assumes "wq_inv p s"
  obtains g i where "wq_mtx (wq_obj s p) = Some g" "g < length (bm_mutex_pool s)" "\<not> mtx_flag (bm_mutex_pool s ! g)"
    "wq_not_empty (wq_obj s p) = Some i" "i < length (bm_sem_pool s)" "sem_max (bm_sem_pool s ! i) = of_nat (wq_capacity (wq_obj s p) + 1)"
    "sem_get i s = of_nat (wq_count (wq_obj s p))" "p < length (emu_wq_pool s)" "wq_ring_ok (wq_obj s p)" "\<not> wq_stop (wq_obj s p)"
    "wq_count (wq_obj s p) < 2 ^ 32" "wq_count (wq_obj s p) \<le> wq_capacity (wq_obj s p)" "wq_capacity (wq_obj s p) + 1 < 2 ^ 32"
  using assms unfolding wq_inv_def mutex_free_def wq_ring_ok_def by auto

lemma wq_frame [simp]:
  "wq_obj (mutex_set g b s) q = wq_obj s q" "emu_wq_pool (mutex_set g b s) = emu_wq_pool s"
  "wq_obj (sem_set i c s) q = wq_obj s q" "emu_wq_pool (sem_set i c s) = emu_wq_pool s"
  "p < length (emu_wq_pool s) \<Longrightarrow> wq_obj (wq_put p obj s) q = (if q = p then obj else wq_obj s q)"
  "length (emu_wq_pool (wq_put p obj s)) = length (emu_wq_pool s)"
  "bm_mutex_pool (wq_put p obj s) = bm_mutex_pool s" "bm_sem_pool (wq_put p obj s) = bm_sem_pool s"
  "sem_get i (wq_put p obj s) = sem_get i s"
  by (simp_all add: wq_obj_def wq_put_def mutex_set_def sem_set_def sem_get_def nth_list_update)

lemma wq_commute:
  "wq_put p obj (mutex_set g b s) = mutex_set g b (wq_put p obj s)" "sem_set i c (mutex_set g b s) = mutex_set g b (sem_set i c s)"
  by (simp_all add: wq_put_def mutex_set_def sem_set_def)

lemma wq_unlock_set:
  assumes "wq_mtx (wq_obj s p) = Some g" "\<not> mtx_flag (bm_mutex_pool s ! g)"
  shows "wq_unlock p (mutex_set g True s) = s"
  using assms by (simp add: wq_unlock_def mutex_unlock_set mutex_set_undo)

text \<open>What is left is well formed when the ring is and the semaphore holds one token per item.\<close>

lemma wq_inv_update:
  assumes inv: "wq_inv p s" and i: "wq_not_empty (wq_obj s p) = Some i" and ok: "wq_ring_ok wq"
    and same: "wq_mtx wq = wq_mtx (wq_obj s p)" "wq_not_empty wq = wq_not_empty (wq_obj s p)" "wq_capacity wq = wq_capacity (wq_obj s p)"
      "\<not> wq_stop wq"
  shows "wq_inv p (sem_set i (of_nat (wq_count wq)) (wq_put p wq s))"
proof -
  have "i < length (bm_sem_pool s)" "sem_max (bm_sem_pool s ! i) = of_nat (wq_capacity (wq_obj s p) + 1)"
    using inv i by (auto simp: wq_inv_def)
  then show ?thesis using inv i ok same by (simp add: wq_inv_def mutex_free_def mutex_pool_sem_set) (simp add: sem_set_def)
qed

lemma wq_submit_calm:
  assumes inv: "wq_inv p s"
  shows "\<exists>s' env'. osal_work_queue_submit (Some (Some p)) (Some f) a ((id, False) # env) s =
      Some (if wq_count (wq_obj s p) < wq_capacity (wq_obj s p) then Ok else Overflow, s', env') \<and> wq_inv p s' \<and>
    wq_items (wq_obj s' p) = (if wq_count (wq_obj s p) < wq_capacity (wq_obj s p) then wq_items (wq_obj s p) @ [(f, a)] else wq_items (wq_obj s p))"
proof -
  let ?o = "wq_obj s p"
  obtain g i where g: "wq_mtx ?o = Some g" "\<not> mtx_flag (bm_mutex_pool s ! g)" and i: "wq_not_empty ?o = Some i" "i < length (bm_sem_pool s)"
      "sem_max (bm_sem_pool s ! i) = of_nat (wq_capacity ?o + 1)" "sem_get i s = of_nat (wq_count ?o)" "wq_capacity ?o + 1 < 2 ^ 32"
    and p: "p < length (emu_wq_pool s)" and ok: "wq_ring_ok ?o" and st: "\<not> wq_stop ?o"
    by (rule wq_invE [OF inv])
  obtain b wq where e: "wq_enqueue f a ?o = (b, wq)" by fastforce
  show ?thesis
  proof (cases "wq_count ?o < wq_capacity ?o")
    case True
    note w = wq_enqueue_ok [OF ok True e]
    have same: "wq_mtx wq = wq_mtx ?o" "wq_not_empty wq = wq_not_empty ?o" "\<not> wq_stop wq"
      using e True st by (auto simp: wq_enqueue_def Let_def)
    let ?s1 = "mutex_set g True (wq_put p wq s)" and ?s' = "sem_set i (of_nat (wq_count wq)) (wq_put p wq s)"
    have "(of_nat (wq_count ?o) :: u32) < of_nat (wq_capacity ?o + 1)"
      unfolding word_less_nat_alt using True i(5) by (simp only: unat_of_nat take_bit_nat_eq_self) simp
    then have "osal_semaphore_give (Some (Some i)) ((id, False) # env) ?s1 = Some (Ok, sem_set i (of_nat (wq_count wq)) ?s1, env)"
      using sem_give_quiet [of i ?s1 env] i w by (simp add: add.commute)
    moreover have "wq_unlock p (mutex_set g True ?s') = ?s'"
      by (rule wq_unlock_set) (use same g p in \<open>simp_all add: mutex_pool_sem_set\<close>)
    ultimately have "osal_work_queue_submit (Some (Some p)) (Some f) a ((id, False) # env) s = Some (Ok, ?s', env)"
      using g mutex_lock_set [OF g(2)] e w same i(1) by (simp add: osal_work_queue_submit_def wq_commute)
    moreover have "wq_inv p ?s'" using wq_inv_update [OF inv i(1)] w same by blast
    ultimately show ?thesis using True w p by (intro exI [of _ ?s'] exI [of _ env]) (simp add: wq_items_def)
  next
    case False
    then have "\<not> b" "wq = ?o" using e by (auto simp: wq_enqueue_def)
    then have "osal_work_queue_submit (Some (Some p)) (Some f) a ((id, False) # env) s = Some (Overflow, s, (id, False) # env)"
      using g mutex_lock_set [OF g(2)] e wq_unlock_set [OF g] by (simp add: osal_work_queue_submit_def)
    with inv False show ?thesis by auto
  qed
qed

lemma wq_fetch_calm:
  assumes inv: "wq_inv p s" and ne: "wq_count (wq_obj s p) \<noteq> 0"
  shows "\<exists>s'. wq_worker_fetch p ((id, False) # env) s = Some (Wq_run (hd (wq_entries (wq_obj s p))), s', env) \<and> wq_inv p s' \<and>
    wq_entries (wq_obj s' p) = tl (wq_entries (wq_obj s p)) \<and> wq_worker_active (wq_obj s' p) \<and>
    wq_active_sequence (wq_obj s' p) = we_sequence (hd (wq_entries (wq_obj s p)))"
proof -
  let ?o = "wq_obj s p"
  obtain g i where g: "wq_mtx ?o = Some g" "\<not> mtx_flag (bm_mutex_pool s ! g)" and i: "wq_not_empty ?o = Some i" "i < length (bm_sem_pool s)"
      "sem_get i s = of_nat (wq_count ?o)" "wq_count ?o < 2 ^ 32"
    and p: "p < length (emu_wq_pool s)" and ok: "wq_ring_ok ?o" and st: "\<not> wq_stop ?o"
    by (rule wq_invE [OF inv])
  obtain wq where d: "wq_dequeue ?o = (Some (hd (wq_entries ?o)), wq)" "wq_ring_ok wq" "wq_capacity wq = wq_capacity ?o"
    "wq_entries wq = tl (wq_entries ?o)" "wq_active_sequence wq = we_sequence (hd (wq_entries ?o))" "wq_worker_active wq"
    "wq_count wq = wq_count ?o - 1" "wq_mtx wq = wq_mtx ?o" "wq_not_empty wq = wq_not_empty ?o"
    by (rule wq_dequeue_ok [OF ok ne])
  have stop: "\<not> wq_stop wq" using d(1) ne st by (auto simp: wq_dequeue_def Let_def)
  have pos: "sem_get i s > 0" using i(3,4) ne by (simp add: word_gt_0 of_nat_neq_0)
  have dec: "sem_get i s - 1 = of_nat (wq_count wq)" using i(3) d(7) ne by (simp add: of_nat_diff)
  let ?s1 = "sem_set i (of_nat (wq_count wq)) s" and ?s' = "sem_set i (of_nat (wq_count wq)) (wq_put p wq s)"
  have take: "osal_semaphore_take (Some (Some i)) WAIT_FOREVER ((id, False) # env) s = Some (Ok, ?s1, env)"
    using sem_take_quiet [OF pos] dec by simp
  have g1: "\<not> mtx_flag (bm_mutex_pool ?s1 ! g)" using g(2) by (simp add: mutex_pool_sem_set)
  have "wq_put p wq ?s1 = ?s'" by (simp add: wq_put_def sem_set_def)
  moreover have "wq_unlock p (mutex_set g True ?s') = ?s'"
    by (rule wq_unlock_set) (use d(8) g p in \<open>simp_all add: mutex_pool_sem_set\<close>)
  ultimately have "wq_worker_fetch p ((id, False) # env) s = Some (Wq_run (hd (wq_entries ?o)), ?s', env)"
    using take i(1) g(1) mutex_lock_set [OF g1] d(1) ne by (simp add: wq_worker_fetch_def wq_commute(1))
  moreover have "wq_inv p ?s'" using wq_inv_update [OF inv i(1) d(2,8,9,3) stop] .
  ultimately show ?thesis using d p by (intro exI [of _ ?s']) simp
qed

lemma wq_drain_calm:
  "n < 2 ^ 32 \<Longrightarrow> i < length (bm_sem_pool s) \<Longrightarrow> sem_get i s = of_nat n \<Longrightarrow>
   wq_drain (Some i) n (calm n @ env) s = Some (sem_set i 0 s, env)"
proof (induction n arbitrary: s)
  case 0
  then show ?case using sem_set_same [of i s] by (simp add: calm_def)
next
  case (Suc n)
  then have "sem_get i s > 0" by (simp add: word_gt_0 of_nat_neq_0 del: of_nat_Suc)
  then have "osal_semaphore_try_take (Some (Some i)) (calm (Suc n) @ env) s = Some (Ok, sem_set i (of_nat n) s, calm n @ env)"
    using sem_take_quiet [of i s NO_WAIT "calm n @ env"] Suc.prems(3) by (simp add: osal_semaphore_try_take_def calm_Suc)
  moreover have "i < length (bm_sem_pool (sem_set i (of_nat n) s))" using Suc.prems(2) by (simp add: sem_set_def)
  moreover have "sem_set i 0 (sem_set i (of_nat n) s) = sem_set i 0 s" using Suc.prems(2) by (simp add: sem_set_def)
  ultimately show ?case using Suc.IH [of "sem_set i (of_nat n) s"] Suc.prems by simp
qed

lemma wq_cancel_calm:
  assumes inv: "wq_inv p s"
  shows "\<exists>s'. osal_work_queue_cancel_all (Some (Some p)) (calm (wq_count (wq_obj s p)) @ env) s = Some (Ok, s', env) \<and> wq_inv p s' \<and>
    wq_items (wq_obj s' p) = [] \<and> wq_completed_sequence (wq_obj s' p) = wq_completed_sequence (wq_obj s p)"
proof -
  let ?o = "wq_obj s p"
  obtain g i where g: "wq_mtx ?o = Some g" "\<not> mtx_flag (bm_mutex_pool s ! g)" and i: "wq_not_empty ?o = Some i" "i < length (bm_sem_pool s)"
      "sem_get i s = of_nat (wq_count ?o)" "wq_count ?o < 2 ^ 32"
    and p: "p < length (emu_wq_pool s)" and ok: "wq_ring_ok ?o" and st: "\<not> wq_stop ?o"
    by (rule wq_invE [OF inv])
  let ?wq = "?o\<lparr>wq_head := 0, wq_tail := 0, wq_count := 0\<rparr>"
  let ?s' = "sem_set i (of_nat (wq_count ?wq)) (wq_put p ?wq s)"
  have "wq_drain (Some i) (wq_count ?o) (calm (wq_count ?o) @ env) (mutex_set g True (wq_put p ?wq s)) = Some (mutex_set g True ?s', env)"
    using wq_drain_calm [of "wq_count ?o" i "mutex_set g True (wq_put p ?wq s)" env] i by (simp add: wq_commute(2))
  moreover have "wq_unlock p (mutex_set g True ?s') = ?s'"
    by (rule wq_unlock_set) (use g p in \<open>simp_all add: mutex_pool_sem_set\<close>)
  ultimately have "osal_work_queue_cancel_all (Some (Some p)) (calm (wq_count ?o) @ env) s = Some (Ok, ?s', env)"
    using g(1) mutex_lock_set [OF g(2)] i(1) p by (simp add: osal_work_queue_cancel_all_def wq_clear_def wq_commute(1) Let_def)
  moreover have "wq_inv p ?s'"
    by (rule wq_inv_update [OF inv i(1)]) (use ok st in \<open>simp_all add: wq_ring_ok_def\<close>)
  ultimately show ?thesis using p by (intro exI [of _ ?s']) (simp add: wq_items_def wq_entries_def)
qed

lemma wq_pending_calm:
  assumes inv: "wq_inv p s"
  shows "osal_work_queue_pending (Some (Some p)) env s = Some (length (wq_items (wq_obj s p)), s, env)"
proof -
  obtain g where g: "wq_mtx (wq_obj s p) = Some g" "\<not> mtx_flag (bm_mutex_pool s ! g)" by (rule wq_invE [OF inv])
  then show ?thesis using mutex_lock_set [OF g(2)] wq_unlock_set [OF g] by (simp add: osal_work_queue_pending_def wq_items_def)
qed

text \<open>
  C21: A work queue is a bounded queue of calls. Submitting appends the call when there is room and
  answers overflow, changing nothing, when there is none; the worker takes the oldest call and leaves
  the rest; cancelling discards all calls and one token of the semaphore for each, so that tokens and
  calls still agree; the number of pending calls is the length of the queue.
\<close>

theorem work_queue_exact:
  assumes inv: "wq_inv p s"
  shows "(\<exists>s' env'. osal_work_queue_submit (Some (Some p)) (Some f) a ((id, False) # env) s =
        Some (if length (wq_items (wq_obj s p)) < wq_capacity (wq_obj s p) then Ok else Overflow, s', env') \<and> wq_inv p s' \<and>
        wq_items (wq_obj s' p) = wq_items (wq_obj s p) @ (if length (wq_items (wq_obj s p)) < wq_capacity (wq_obj s p) then [(f, a)] else [])) \<and>
    (wq_items (wq_obj s p) \<noteq> [] \<longrightarrow>
      (\<exists>entry s'. wq_worker_fetch p ((id, False) # env) s = Some (Wq_run entry, s', env) \<and> wq_inv p s' \<and>
        wq_items (wq_obj s p) = (we_func entry, we_arg entry) # wq_items (wq_obj s' p) \<and>
        wq_worker_active (wq_obj s' p) \<and> wq_active_sequence (wq_obj s' p) = we_sequence entry)) \<and>
    (\<exists>s'. osal_work_queue_cancel_all (Some (Some p)) (calm (length (wq_items (wq_obj s p))) @ env) s = Some (Ok, s', env) \<and>
        wq_inv p s' \<and> wq_items (wq_obj s' p) = []) \<and>
    osal_work_queue_pending (Some (Some p)) env s = Some (length (wq_items (wq_obj s p)), s, env)"
proof (intro conjI impI)
  have len [simp]: "length (wq_items (wq_obj s p)) = wq_count (wq_obj s p)" by (simp add: wq_items_def)
  show "\<exists>s' env'. osal_work_queue_submit (Some (Some p)) (Some f) a ((id, False) # env) s =
        Some (if length (wq_items (wq_obj s p)) < wq_capacity (wq_obj s p) then Ok else Overflow, s', env') \<and> wq_inv p s' \<and>
        wq_items (wq_obj s' p) = wq_items (wq_obj s p) @ (if length (wq_items (wq_obj s p)) < wq_capacity (wq_obj s p) then [(f, a)] else [])"
    using wq_submit_calm [OF inv, of f a env] by (simp split: if_splits)
  show "\<exists>s'. osal_work_queue_cancel_all (Some (Some p)) (calm (length (wq_items (wq_obj s p))) @ env) s = Some (Ok, s', env) \<and>
        wq_inv p s' \<and> wq_items (wq_obj s' p) = []"
    using wq_cancel_calm [OF inv, of env] by auto
  show "osal_work_queue_pending (Some (Some p)) env s = Some (length (wq_items (wq_obj s p)), s, env)" by (rule wq_pending_calm [OF inv])
  assume "wq_items (wq_obj s p) \<noteq> []"
  then obtain x xs where xs: "wq_entries (wq_obj s p) = x # xs" by (cases "wq_entries (wq_obj s p)") (simp_all add: wq_items_def)
  then have "wq_count (wq_obj s p) \<noteq> 0" by (metis length_wq_entries length_0_conv list.discI)
  from wq_fetch_calm [OF inv this, of env] xs
  show "\<exists>entry s'. wq_worker_fetch p ((id, False) # env) s = Some (Wq_run entry, s', env) \<and> wq_inv p s' \<and>
        wq_items (wq_obj s p) = (we_func entry, we_arg entry) # wq_items (wq_obj s' p) \<and>
        wq_worker_active (wq_obj s' p) \<and> wq_active_sequence (wq_obj s' p) = we_sequence entry"
    by (auto simp: wq_items_def)
qed

definition wq_demo_obj :: emulated_wq_obj where
  "wq_demo_obj = \<lparr>wq_ring = [\<lparr>we_func = 7, we_arg = 8, we_sequence = 1\<rparr>, \<lparr>we_func = 0, we_arg = 0, we_sequence = 0\<rparr>], wq_capacity = 2,
     wq_head = 0, wq_tail = 1, wq_count = 1, wq_worker = Some 0, wq_mtx = Some 0, wq_not_empty = Some 0, wq_flush_cv = Some 0,
     wq_submitted_sequence = 1, wq_completed_sequence = 0, wq_active_sequence = 0, wq_stop = False, wq_worker_active = False\<rparr>"

definition wq_demo :: wq_state where
  "wq_demo = \<lparr>g_ticks = 0, bm_tasks = [], bm_current = -1, bm_last_scheduled = -1,
     bm_mutex_pool = [\<lparr>mtx_flag = False\<rparr>, \<lparr>mtx_flag = False\<rparr>], bm_mutex_used_bits = [3],
     bm_sem_pool = [\<lparr>sem_count = 1, sem_max = 3\<rparr>, \<lparr>sem_count = 0, sem_max = 1\<rparr>], bm_sem_used_bits = [3],
     bm_queue_pool = [], bm_queue_used_bits = [], bm_timer_pool = [],
     emu_cv_pool = [\<lparr>cv_waiters = [\<lparr>cw_sem = Some 1, cw_in_use = False, cw_signalled = False\<rparr>],
       cv_guard = Some 1, cv_n_waiters = 0, cv_pool_allocated = True\<rparr>], emu_cv_used = [True],
     emu_wq_pool = [wq_demo_obj], emu_wq_used = [True], wq_diag = diag_zero\<rparr>"

lemma wq_demo_simps [simp]:
  "wq_obj wq_demo 0 = wq_demo_obj" "bm_mutex_pool wq_demo = [\<lparr>mtx_flag = False\<rparr>, \<lparr>mtx_flag = False\<rparr>]"
  by (simp_all add: wq_demo_def wq_obj_def)

lemma wq_demo_items [simp]:
  "wq_items wq_demo_obj = [(7, 8)]" "wq_capacity wq_demo_obj = 2" "wq_mtx wq_demo_obj = Some 0"
  by (simp_all add: wq_demo_obj_def wq_items_def wq_entries_def ring_seq_def)

lemma wq_demo_ok: "wq_inv 0 wq_demo"
proof -
  have "bm_sem_pool wq_demo = [\<lparr>sem_count = 1, sem_max = 3\<rparr>, \<lparr>sem_count = 0, sem_max = 1\<rparr>]" "length (emu_wq_pool wq_demo) = 1" by (simp_all add: wq_demo_def)
  then show ?thesis by (simp add: wq_inv_def mutex_free_def sem_get_def wq_ring_ok_def) (simp add: wq_demo_obj_def)
qed

theorem work_queue_exact_witness:
  "\<exists>s' env'. osal_work_queue_submit (Some (Some 0)) (Some 5) 6 [(id, False)] wq_demo = Some (Ok, s', env') \<and>
     wq_items (wq_obj s' 0) = [(7, 8), (5, 6)]"
  using work_queue_exact [OF wq_demo_ok, of 5 6 "[]"] by auto

section \<open>Flushing\<close>

text \<open>
  The histories of the control object: work is submitted (fewer than \<open>2 ^ 64\<close> items in all), the idle
  worker takes an item, the worker finishes the one it took, everything pending is cancelled.
\<close>

inductive wq_reach :: "emulated_wq_obj \<Rightarrow> bool" where
  created: "wq_ring_ok wq \<Longrightarrow> wq_count wq = 0 \<Longrightarrow> \<not> wq_worker_active wq \<Longrightarrow> wq_completed_sequence wq = 0 \<Longrightarrow> wq_reach wq"
| submitted: "wq_reach wq \<Longrightarrow> wq_submitted_sequence wq < - 1 \<Longrightarrow> wq_enqueue f a wq = (b, wq') \<Longrightarrow> wq_reach wq'"
| taken: "wq_reach wq \<Longrightarrow> \<not> wq_worker_active wq \<Longrightarrow> wq_dequeue wq = (r, wq') \<Longrightarrow> wq_reach wq'"
| finished: "wq_reach wq \<Longrightarrow> wq_worker_active wq \<Longrightarrow> wq_reach (wq_complete (wq_active_sequence wq) wq)"
| cancelled: "wq_reach wq \<Longrightarrow> wq_reach (wq_clear wq)"

definition wq_ordered :: "emulated_wq_obj \<Rightarrow> bool" where
  "wq_ordered wq \<longleftrightarrow> wq_ring_ok wq \<and>
     sorted_wrt (<) (wq_completed_sequence wq # (if wq_worker_active wq then [wq_active_sequence wq] else []) @ map we_sequence (wq_entries wq)) \<and>
     (\<forall>x \<in> set (wq_completed_sequence wq # (if wq_worker_active wq then [wq_active_sequence wq] else []) @ map we_sequence (wq_entries wq)).
        x \<le> wq_submitted_sequence wq)"

lemma word_less_inc: "(x :: 'a::len word) < - 1 \<Longrightarrow> y \<le> x \<Longrightarrow> y < x + 1 \<and> y \<le> x + 1"
proof -
  assume x: "x < - 1" "y \<le> x"
  have "1 + x \<noteq> 0" using x(1) by (metis add.commute add_eq_0_iff less_irrefl)
  then have "unat (x + 1) = Suc (unat x)" using unatSuc [of x] by (simp add: add.commute)
  then show "y < x + 1 \<and> y \<le> x + 1" using x(2) by (simp add: word_less_nat_alt word_le_nat_alt)
qed

lemma wq_ordered_enqueue:
  assumes ok: "wq_ordered wq" and less: "wq_submitted_sequence wq < - 1" and e: "wq_enqueue f a wq = (b, wq')"
  shows "wq_ordered wq'"
proof (cases "wq_count wq < wq_capacity wq")
  case True
  have ring: "wq_ring_ok wq" using ok by (simp add: wq_ordered_def)
  note w = wq_enqueue_ok [OF ring True e]
  have same: "wq_completed_sequence wq' = wq_completed_sequence wq" "wq_worker_active wq' = wq_worker_active wq" "wq_active_sequence wq' = wq_active_sequence wq"
    using e True by (auto simp: wq_enqueue_def Let_def)
  show ?thesis using ok w same word_less_inc [OF less] by (auto simp: wq_ordered_def sorted_wrt_append)
next
  case False
  then show ?thesis using e ok by (auto simp: wq_enqueue_def)
qed

lemma wq_ordered_dequeue:
  assumes ok: "wq_ordered wq" and idle: "\<not> wq_worker_active wq" and d: "wq_dequeue wq = (r, wq')"
  shows "wq_ordered wq'"
proof (cases "wq_count wq = 0")
  case False
  have ring: "wq_ring_ok wq" using ok by (simp add: wq_ordered_def)
  obtain x xs where xs: "wq_entries wq = x # xs" using False by (metis length_wq_entries length_0_conv neq_Nil_conv)
  have "wq_submitted_sequence wq' = wq_submitted_sequence wq" using d False by (auto simp: wq_dequeue_def Let_def)
  moreover obtain wq1 where "wq_dequeue wq = (Some (hd (wq_entries wq)), wq1)" "wq_ring_ok wq1" "wq_entries wq1 = tl (wq_entries wq)"
    "wq_active_sequence wq1 = we_sequence (hd (wq_entries wq))" "wq_worker_active wq1" "wq_completed_sequence wq1 = wq_completed_sequence wq"
    by (rule wq_dequeue_ok [OF ring False])
  ultimately show ?thesis using ok idle d xs by (auto simp: wq_ordered_def)
qed (use d ok in \<open>auto simp: wq_dequeue_def\<close>)

lemma wq_reach_ordered: "wq_reach wq \<Longrightarrow> wq_ordered wq"
proof (induction rule: wq_reach.induct)
  case (created wq)
  then show ?case by (simp add: wq_ordered_def wq_entries_def)
next
  case (finished wq)
  then show ?case by (auto simp: wq_ordered_def wq_complete_def wq_entries_def wq_ring_ok_def)
next
  case (cancelled wq)
  then show ?case by (auto simp: wq_ordered_def wq_clear_def wq_entries_def wq_ring_ok_def)
qed (blast intro: wq_ordered_enqueue wq_ordered_dequeue)+

text \<open>The frontier a flush waits for is the last live sequence number.\<close>

lemma wq_target_max:
  assumes ok: "wq_ordered wq"
  shows "wq_target wq = last (wq_completed_sequence wq # (if wq_worker_active wq then [wq_active_sequence wq] else []) @ map we_sequence (wq_entries wq))"
proof (cases "wq_count wq")
  case 0
  then show ?thesis by (simp add: wq_target_def wq_entries_def)
next
  case (Suc n)
  let ?buf = "take (wq_capacity wq) (wq_ring wq)"
  have ring: "0 < wq_capacity wq" "wq_capacity wq \<le> length (wq_ring wq)" "wq_tail wq = Suc (wq_head wq + n) mod wq_capacity wq"
    using ok Suc by (simp_all add: wq_ordered_def wq_ring_ok_def)
  then have "emu_wq_retreat_index (wq_tail wq) (wq_capacity wq) = (wq_head wq + n) mod wq_capacity wq" using wq_retreat_mod by simp
  moreover have "wq_entries wq ! n = wq_ring wq ! ((wq_head wq + n) mod wq_capacity wq)"
    using ring Suc by (simp add: wq_entries_def ring_seq_def del: upt_Suc)
  moreover have ne: "wq_entries wq \<noteq> []" using Suc by (metis length_wq_entries length_0_conv nat.discI)
  ultimately have "wq_target wq = we_sequence (last (wq_entries wq))" using Suc by (simp add: wq_target_def last_conv_nth)
  then show ?thesis using ne by (simp add: last_map)
qed

lemma last_is_max: "sorted_wrt (<) (xs :: 'a::linorder list) \<Longrightarrow> x \<in> set xs \<Longrightarrow> x \<le> last xs"
  by (induction xs) (auto simp: order.order_iff_strict split: if_splits)

lemma wq_unlock_obj [simp]: "wq_obj (wq_unlock p s) q = wq_obj s q"
  by (simp add: wq_unlock_def osal_mutex_unlock_def wq_obj_def split: option.split)

lemma wq_flush_loop_post:
  assumes "wq_flush_loop p target timeout start env s = Some (r, s', env')"
  shows "r = Ok \<Longrightarrow> target \<le> wq_completed_sequence (wq_obj s' p)"
proof -
  have "\<forall>s' env'. res = (Ok, s', env') \<longrightarrow> target \<le> wq_completed_sequence (wq_obj s' p)"
    if "wq_flush_loop p target timeout start env s = Some res" for res
    using that
  proof (induction rule: wq_flush_loop.raw_induct [rotated 1, consumes 1])
    case (1 loop p target timeout start env s res)
    show ?case
    proof (cases "wq_completed_sequence (wq_obj s p) < target \<and> \<not> (timeout \<noteq> WAIT_FOREVER \<and> osal_clock_ticks s - start \<ge> timeout)")
      case True
      then obtain r1 s1 env1 where "(if r1 \<noteq> Ok \<and> r1 \<noteq> Timeout then Some (r1, wq_unlock p s1, env1) else loop p target timeout start env1 s1) = Some res"
        using 1(2) by (auto split: bind_splits)
      then show ?thesis using 1(1) [of p target timeout start env1 s1 res] by (auto split: if_splits)
    qed (use 1(2) in \<open>auto split: if_splits\<close>)
  qed
  with assms show "r = Ok \<Longrightarrow> target \<le> wq_completed_sequence (wq_obj s' p)" by blast
qed

text \<open>
  C22: When a flush answers ok, every item that was pending and the item that was running when it was
  called have been passed by the worker: no live sequence number of that moment is greater than the
  completed one, whatever other tasks did in between. A flush of an idle queue answers ok at once.
\<close>

theorem work_queue_flush_complete:
  assumes reach: "wq_reach (wq_obj s p)" and free: "mutex_free (wq_mtx (wq_obj s p)) s"
  shows "(\<forall>s' env'. osal_work_queue_flush (Some (Some p)) timeout env s = Some (Ok, s', env') \<longrightarrow>
      (\<forall>entry \<in> set (wq_entries (wq_obj s p)). we_sequence entry \<le> wq_completed_sequence (wq_obj s' p)) \<and>
      (wq_worker_active (wq_obj s p) \<longrightarrow> wq_active_sequence (wq_obj s p) \<le> wq_completed_sequence (wq_obj s' p))) \<and>
    (wq_entries (wq_obj s p) = [] \<and> \<not> wq_worker_active (wq_obj s p) \<longrightarrow>
      osal_work_queue_flush (Some (Some p)) timeout env s = Some (Ok, s, env))"
proof -
  let ?o = "wq_obj s p"
  have ord: "wq_ordered ?o" by (rule wq_reach_ordered [OF reach])
  obtain g where g: "wq_mtx ?o = Some g" "\<not> mtx_flag (bm_mutex_pool s ! g)" using free by (auto simp: mutex_free_def)
  have flush: "osal_work_queue_flush (Some (Some p)) timeout env s =
      (if wq_completed_sequence ?o \<ge> wq_target ?o then Some (Ok, wq_unlock p (mutex_set g True s), env)
       else wq_flush_loop p (wq_target ?o) timeout (if timeout = WAIT_FOREVER then 0 else osal_clock_ticks s) env (mutex_set g True s))"
    using g(1) mutex_lock_set [OF g(2)] by (simp add: osal_work_queue_flush_def Let_def)
  have top: "x \<le> wq_target ?o"
    if "x \<in> set (wq_completed_sequence ?o # (if wq_worker_active ?o then [wq_active_sequence ?o] else []) @ map we_sequence (wq_entries ?o))" for x
    unfolding wq_target_max [OF ord] by (rule last_is_max [OF _ that]) (use ord in \<open>simp add: wq_ordered_def\<close>)
  have "wq_target ?o \<le> wq_completed_sequence (wq_obj s' p)"
    if "osal_work_queue_flush (Some (Some p)) timeout env s = Some (Ok, s', env')" for s' env'
    using that wq_flush_loop_post by (fastforce simp: flush split: if_splits)
  then have "we_sequence entry \<le> wq_completed_sequence (wq_obj s' p)" if "osal_work_queue_flush (Some (Some p)) timeout env s = Some (Ok, s', env')"
      "entry \<in> set (wq_entries ?o)" for entry s' env'
    using top [of "we_sequence entry"] that by fastforce
  moreover have "wq_active_sequence ?o \<le> wq_completed_sequence (wq_obj s' p)"
    if "osal_work_queue_flush (Some (Some p)) timeout env s = Some (Ok, s', env')" "wq_worker_active ?o" for s' env'
    using top [of "wq_active_sequence ?o"] that \<open>\<And>s' env'. osal_work_queue_flush (Some (Some p)) timeout env s = Some (Ok, s', env') \<Longrightarrow>
      wq_target ?o \<le> wq_completed_sequence (wq_obj s' p)\<close> by fastforce
  moreover have "osal_work_queue_flush (Some (Some p)) timeout env s = Some (Ok, s, env)" if "wq_entries ?o = []" "\<not> wq_worker_active ?o"
  proof -
    have "wq_count ?o = 0" using that(1) by (metis length_wq_entries list.size(3))
    then show ?thesis using that(2) wq_unlock_set [OF g] by (simp add: flush wq_target_def)
  qed
  ultimately show ?thesis by blast
qed

lemma wq_demo_reach: "wq_reach wq_demo_obj"
proof -
  let ?e = "\<lparr>we_func = 0, we_arg = 0, we_sequence = 0\<rparr>"
  let ?o = "wq_demo_obj\<lparr>wq_ring := [?e, ?e], wq_tail := 0, wq_count := 0, wq_submitted_sequence := 0\<rparr>"
  have "wq_reach ?o" by (rule wq_reach.created) (simp_all add: wq_ring_ok_def, simp_all add: wq_demo_obj_def)
  moreover have "wq_enqueue 7 8 ?o = (True, wq_demo_obj)" by (simp add: wq_enqueue_def wq_demo_obj_def emu_wq_advance_index_def)
  moreover have "wq_submitted_sequence ?o < - 1" by (simp add: word_gt_0)
  ultimately show ?thesis using wq_reach.submitted by blast
qed

text \<open>The worker takes the pending item, runs it, and wakes the flusher, which sleeps in slot 0.\<close>

definition wq_demo_worker :: "wq_state \<Rightarrow> wq_state" where
  "wq_demo_worker s = wq_put 0 (wq_complete 1 (snd (wq_dequeue (wq_obj s 0)))) (sem_set 1 1 s)"

lemma wq_demo_ticks: "bm_ticks_now wq_demo = 0" "bm_ticks_now (mutex_set i b wq_demo) = 0"
  by (simp_all add: bm_ticks_now_def wq_demo_def mutex_set_def)

lemma wq_demo_flush:
  "\<exists>s' env'. osal_work_queue_flush (Some (Some 0)) 5 [(wq_demo_worker, False), (id, False)] wq_demo = Some (Ok, s', env')"
proof -
  let ?s = "mutex_set 0 True wq_demo"
  have [simp]: "wq_completed_sequence wq_demo_obj = 0" "wq_target wq_demo_obj = 1" "wq_flush_cv wq_demo_obj = Some 0"
    by (simp_all add: wq_demo_obj_def wq_target_def emu_wq_retreat_index_def)
  have "\<exists>s1. osal_condvar_wait (Some (Some 0)) (Some (Some 0)) 5 [(wq_demo_worker, False), (id, False)] ?s = Some (Ok, s1, []) \<and>
      wq_completed_sequence (wq_obj s1 0) = 1"
    by (simp add: osal_condvar_wait_def cv_release_mutex_def osal_semaphore_try_take_def cv_obj_def wq_demo_def mutex_set_def osal_mutex_lock_def osal_semaphore_take_def
       mutex_lock_body_def mutex_test_and_set_def cv_sleep_def cv_unlock_def osal_mutex_unlock_def cv_register_def cv_unregister_def cv_put_def Let_def
       sem_get_def sem_set_def bm_deadline_def bm_ticks_now_def WAIT_FOREVER_def NO_WAIT_def wq_demo_worker_def wq_put_def wq_obj_def wq_complete_def)
  then obtain s1 where wait: "osal_condvar_wait (Some (Some 0)) (Some (Some 0)) 5 [(wq_demo_worker, False), (id, False)] ?s = Some (Ok, s1, [])"
    and compl: "wq_completed_sequence (wq_obj s1 0) = 1" by blast
  have "wq_flush_loop 0 1 5 0 [] s1 = Some (Ok, wq_unlock 0 s1, [])" by (subst wq_flush_loop.simps) (simp add: compl)
  then have "wq_flush_loop 0 1 5 0 [(wq_demo_worker, False), (id, False)] ?s = Some (Ok, wq_unlock 0 s1, [])"
    by (subst wq_flush_loop.simps) (simp add: wait osal_clock_ticks_def wq_demo_ticks WAIT_FOREVER_def)
  then show ?thesis using mutex_lock_set [of wq_demo 0] by (simp add: osal_work_queue_flush_def osal_clock_ticks_def wq_demo_ticks WAIT_FOREVER_def)
qed

theorem work_queue_flush_complete_witness:
  "\<exists>s' env'. osal_work_queue_flush (Some (Some 0)) 5 [(wq_demo_worker, False), (id, False)] wq_demo = Some (Ok, s', env') \<and>
     (1 :: u64) \<le> wq_completed_sequence (wq_obj s' 0)"
proof -
  have "mutex_free (wq_mtx (wq_obj wq_demo 0)) wq_demo" by (simp add: mutex_free_def)
  note all = work_queue_flush_complete [of wq_demo 0, OF _ this, of 5 "[(wq_demo_worker, False), (id, False)]"]
  have "wq_entries (wq_obj wq_demo 0) = [\<lparr>we_func = 7, we_arg = 8, we_sequence = 1\<rparr>]"
    by (simp add: wq_entries_def ring_seq_def) (simp add: wq_demo_obj_def)
  with all wq_demo_reach wq_demo_flush show ?thesis by fastforce
qed

end
