(* ===== verification/Osal_Bus.thy ===== *)
theory Osal_Bus
  imports Bm_Queue Bm_Sync "HOL-Library.Monad_Syntax"
begin

text \<open>
  Channels and publish-subscribe topics of the generic bus backend
  (\<^verbatim>\<open>include/osal/bus/detail/osal_bus_backend_generic.hpp\<close>,
  \<^verbatim>\<open>osal_signal_backend_generic.hpp\<close>). A channel is a queue of the backend that holds the bytes of
  its messages; a topic has one channel per subscriber slot and a mutex. Subscriber ids carry the
  slot and a generation, so that the id of a registration that is gone names nobody.
\<close>

section \<open>Channels\<close>

text \<open>\<open>storage_\<close> belongs to the queue from its creation on.\<close>

record osal_bus =
  bus_valid :: bool
  bus_handle :: handle

definition osal_bus_create :: "nat \<Rightarrow> nat \<Rightarrow> 'z bm_state_scheme \<Rightarrow> osal_bus \<times> 'z bm_state_scheme" where
  "osal_bus_create value_size capacity s =
     (case osal_queue_create None (replicate (capacity * value_size) 0) value_size capacity s of
        (r, h, s1) \<Rightarrow> (\<lparr>bus_valid = (r = Ok), bus_handle = h\<rparr>, s1))"

definition osal_bus_destroy :: "osal_bus \<Rightarrow> 'z bm_state_scheme \<Rightarrow> osal_bus \<times> 'z bm_state_scheme" where
  "osal_bus_destroy bus s =
     (if bus_valid bus then
        case osal_queue_destroy (Some (bus_handle bus)) s of (_, h, s1) \<Rightarrow> (\<lparr>bus_valid = False, bus_handle = h\<rparr>, s1)
      else (bus, s))"

definition bus_send ::
  "osal_bus \<Rightarrow> byte list \<Rightarrow> tick_t \<Rightarrow> 'z bm_state_scheme env \<Rightarrow> 'z bm_state_scheme
   \<Rightarrow> (bool \<times> 'z bm_state_scheme \<times> 'z bm_state_scheme env) option" where
  "bus_send bus item timeout_ticks env s = do {
     (r, s1, env1) \<leftarrow> osal_queue_send (Some (bus_handle bus)) item timeout_ticks env s;
     Some (r = Ok, s1, env1) }"

definition bus_try_send ::
  "osal_bus \<Rightarrow> byte list \<Rightarrow> 'z bm_state_scheme env \<Rightarrow> 'z bm_state_scheme
   \<Rightarrow> (bool \<times> 'z bm_state_scheme \<times> 'z bm_state_scheme env) option" where
  "bus_try_send bus item env s = bus_send bus item NO_WAIT env s"

text \<open>The result of a receive is the message, \<open>None\<close> where the source returns false.\<close>

definition bus_receive ::
  "osal_bus \<Rightarrow> tick_t \<Rightarrow> 'z bm_state_scheme env \<Rightarrow> 'z bm_state_scheme
   \<Rightarrow> (byte list option \<times> 'z bm_state_scheme \<times> 'z bm_state_scheme env) option" where
  "bus_receive bus timeout_ticks env s = do {
     ((r, item), s1, env1) \<leftarrow> osal_queue_receive (Some (bus_handle bus)) timeout_ticks env s;
     Some (if r = Ok then item else None, s1, env1) }"

definition bus_try_receive ::
  "osal_bus \<Rightarrow> 'z bm_state_scheme env \<Rightarrow> 'z bm_state_scheme
   \<Rightarrow> (byte list option \<times> 'z bm_state_scheme \<times> 'z bm_state_scheme env) option" where
  "bus_try_receive bus env s = bus_receive bus NO_WAIT env s"

partial_function (option) bus_drain ::
  "osal_bus \<Rightarrow> 'z bm_state_scheme env \<Rightarrow> 'z bm_state_scheme \<Rightarrow> ('z bm_state_scheme \<times> 'z bm_state_scheme env) option" where
  "bus_drain bus env s = do {
     (item, s1, env1) \<leftarrow> bus_try_receive bus env s;
     if item = None then Some (s1, env1) else bus_drain bus env1 s1 }"

definition bus_purge ::
  "osal_bus \<Rightarrow> 'z bm_state_scheme env \<Rightarrow> 'z bm_state_scheme \<Rightarrow> ('z bm_state_scheme \<times> 'z bm_state_scheme env) option" where
  "bus_purge bus env s = (if \<not> bus_valid bus then Some (s, env) else bus_drain bus env s)"

section \<open>Subscriber ids\<close>

type_synonym subscriber_id = u64

definition invalid_subscriber_id :: subscriber_id where
  "invalid_subscriber_id = - 1"

record subscriber_slot =
  sl_generation :: subscriber_id
  sl_in_use :: bool
  sl_receivers :: nat
  sl_queue :: osal_bus

text \<open>\<open>sg_address\<close> is the address of the object, \<^verbatim>\<open>this\<close>.\<close>

record osal_signal =
  sg_slots :: "subscriber_slot list"
  sg_mutex :: handle
  sg_mutex_valid :: bool
  sg_count :: nat
  sg_address :: u64

definition subscriber_id_span :: "nat \<Rightarrow> subscriber_id" where
  "subscriber_id_span n = of_nat n"

definition subscriber_generation_modulus :: "nat \<Rightarrow> subscriber_id" where
  "subscriber_generation_modulus n = invalid_subscriber_id div subscriber_id_span n"

definition subscriber_cookie :: "u64 \<Rightarrow> subscriber_id" where
  "subscriber_cookie address = address XOR 0x9E3779B97F4A7C15"

definition pack_subscriber_id :: "nat \<Rightarrow> nat \<Rightarrow> subscriber_id \<Rightarrow> subscriber_id" where
  "pack_subscriber_id n slot_index generation = generation * subscriber_id_span n + of_nat slot_index + 1"

definition encode_subscriber_id :: "u64 \<Rightarrow> nat \<Rightarrow> nat \<Rightarrow> subscriber_id \<Rightarrow> subscriber_id" where
  "encode_subscriber_id address n slot_index generation =
     subscriber_cookie address XOR pack_subscriber_id n slot_index generation"

definition unpack_subscriber_counter :: "subscriber_id \<Rightarrow> subscriber_id" where
  "unpack_subscriber_counter packed_id = packed_id - 1"

definition slot_index_from_packed :: "nat \<Rightarrow> subscriber_id \<Rightarrow> nat" where
  "slot_index_from_packed n packed_id = unat (unpack_subscriber_counter packed_id mod subscriber_id_span n)"

definition generation_from_packed :: "nat \<Rightarrow> subscriber_id \<Rightarrow> subscriber_id" where
  "generation_from_packed n packed_id = unpack_subscriber_counter packed_id div subscriber_id_span n"

definition packed_out_of_range :: "nat \<Rightarrow> subscriber_id \<Rightarrow> bool" where
  "packed_out_of_range n packed_id \<longleftrightarrow>
     packed_id = 0 \<or> packed_id > subscriber_generation_modulus n * subscriber_id_span n"

definition slot_index_from_id :: "osal_signal \<Rightarrow> subscriber_id \<Rightarrow> nat" where
  "slot_index_from_id sg sid =
     (let n = length (sg_slots sg) in
      if sid = invalid_subscriber_id then n
      else let packed_id = sid XOR subscriber_cookie (sg_address sg) in
        if packed_out_of_range n packed_id then n else slot_index_from_packed n packed_id)"

definition subscriber_id_matches_slot :: "osal_signal \<Rightarrow> subscriber_id \<Rightarrow> nat \<Rightarrow> bool" where
  "subscriber_id_matches_slot sg sid slot_index =
     (let n = length (sg_slots sg) in
      if slot_index \<ge> n \<or> \<not> sl_in_use (sg_slots sg ! slot_index) \<or> sid = invalid_subscriber_id then False
      else let packed_id = sid XOR subscriber_cookie (sg_address sg) in
        if packed_out_of_range n packed_id then False
        else slot_index_from_packed n packed_id = slot_index \<and>
             generation_from_packed n packed_id = sl_generation (sg_slots sg ! slot_index))"

definition next_generation :: "u64 \<Rightarrow> nat \<Rightarrow> nat \<Rightarrow> subscriber_id \<Rightarrow> subscriber_id" where
  "next_generation address n slot_index g =
     (let g1 = (g + 1) mod subscriber_generation_modulus n in
      if encode_subscriber_id address n slot_index g1 = invalid_subscriber_id
      then (g1 + 1) mod subscriber_generation_modulus n else g1)"

definition sg_slot_update :: "nat \<Rightarrow> (subscriber_slot \<Rightarrow> subscriber_slot) \<Rightarrow> osal_signal \<Rightarrow> osal_signal" where
  "sg_slot_update i f sg = sg\<lparr>sg_slots := (sg_slots sg)[i := f (sg_slots sg ! i)]\<rparr>"

definition advance_subscriber_generation :: "nat \<Rightarrow> osal_signal \<Rightarrow> osal_signal" where
  "advance_subscriber_generation i sg =
     sg_slot_update i (\<lambda>sl. sl\<lparr>sl_generation := next_generation (sg_address sg) (length (sg_slots sg)) i (sl_generation sl)\<rparr>) sg"

definition ensure_subscriber_id :: "nat \<Rightarrow> osal_signal \<Rightarrow> subscriber_id \<times> osal_signal" where
  "ensure_subscriber_id i sg =
     (let encode = (\<lambda>sg. encode_subscriber_id (sg_address sg) (length (sg_slots sg)) i (sl_generation (sg_slots sg ! i)));
          sid = encode sg
      in if sid = invalid_subscriber_id
         then let sg1 = advance_subscriber_generation i sg in (encode sg1, sg1)
         else (sid, sg))"

text \<open>Taking a free slot, and giving it up.\<close>

definition sg_register :: "nat \<Rightarrow> osal_signal \<Rightarrow> subscriber_id option \<times> osal_signal" where
  "sg_register i sg =
     (case ensure_subscriber_id i sg of (new_id, sg1) \<Rightarrow>
        if new_id = invalid_subscriber_id then (None, sg1)
        else (Some new_id, (sg_slot_update i (\<lambda>sl. sl\<lparr>sl_in_use := True\<rparr>) sg1)\<lparr>sg_count := sg_count sg1 + 1\<rparr>))"

definition sg_unregister :: "nat \<Rightarrow> osal_signal \<Rightarrow> osal_signal" where
  "sg_unregister i sg =
     (let sg1 = advance_subscriber_generation i (sg_slot_update i (\<lambda>sl. sl\<lparr>sl_in_use := False\<rparr>) sg)
      in sg1\<lparr>sg_count := sg_count sg1 - 1\<rparr>)"

section \<open>Topics\<close>

text \<open>
  The topic is a field of the state, so that other tasks can use it while a receive blocks.
  \<open>topic_locked\<close> is \<^verbatim>\<open>scoped_lock lk{mutex_}\<close> around a body.
\<close>

record topic_state = bm_state +
  topic :: osal_signal

type_synonym topic_env = "topic_state env"

definition topic_locked ::
  "(topic_env \<Rightarrow> topic_state \<Rightarrow> ('r \<times> topic_state \<times> topic_env) option) \<Rightarrow> topic_env \<Rightarrow> topic_state
   \<Rightarrow> ('r \<times> topic_state \<times> topic_env) option" where
  "topic_locked body env s = do {
     (_, s1, env1) \<leftarrow> osal_mutex_lock (Some (sg_mutex (topic s))) WAIT_FOREVER env s;
     (r, s2, env2) \<leftarrow> body env1 s1;
     Some (r, snd (osal_mutex_unlock (Some (sg_mutex (topic s2))) s2), env2) }"

definition topic_slot :: "topic_state \<Rightarrow> nat \<Rightarrow> subscriber_slot" where
  "topic_slot s i = sg_slots (topic s) ! i"

definition topic_valid :: "topic_state \<Rightarrow> bool" where
  "topic_valid s \<longleftrightarrow> sg_mutex_valid (topic s) \<and> (\<forall>sl \<in> set (sg_slots (topic s)). bus_valid (sl_queue sl))"

fun subscribe_from :: "nat \<Rightarrow> nat \<Rightarrow> topic_env \<Rightarrow> topic_state \<Rightarrow> (subscriber_id option \<times> topic_state \<times> topic_env) option" where
  "subscribe_from i 0 env s = Some (None, s, env)"
| "subscribe_from i (Suc k) env s =
     (if \<not> sl_in_use (topic_slot s i) then do {
        (s1, env1) \<leftarrow> bus_purge (sl_queue (topic_slot s i)) env s;
        let (new_id, sg) = sg_register i (topic s1);
        Some (new_id, s1\<lparr>topic := sg\<rparr>, env1) }
      else subscribe_from (Suc i) k env s)"

text \<open>The result is the id, \<open>None\<close> where the source returns false with an invalid id.\<close>

definition subscribe :: "topic_env \<Rightarrow> topic_state \<Rightarrow> (subscriber_id option \<times> topic_state \<times> topic_env) option" where
  "subscribe env s =
     (if \<not> topic_valid s then Some (None, s, env)
      else topic_locked (\<lambda>env s. subscribe_from 0 (length (sg_slots (topic s))) env s) env s)"

definition unsubscribe :: "subscriber_id \<Rightarrow> topic_env \<Rightarrow> topic_state \<Rightarrow> (bool \<times> topic_state \<times> topic_env) option" where
  "unsubscribe sid env s =
     (if \<not> topic_valid s then Some (False, s, env)
      else topic_locked (\<lambda>env s.
        let i = slot_index_from_id (topic s) sid in
        if i \<ge> length (sg_slots (topic s)) \<or> \<not> subscriber_id_matches_slot (topic s) sid i then Some (False, s, env)
        else if sl_receivers (topic_slot s i) \<noteq> 0 then Some (False, s, env)
        else Some (True, s\<lparr>topic := sg_unregister i (topic s)\<rparr>, env)) env s)"

fun publish_from :: "nat \<Rightarrow> nat \<Rightarrow> byte list \<Rightarrow> bool \<Rightarrow> topic_env \<Rightarrow> topic_state \<Rightarrow> (bool \<times> topic_state \<times> topic_env) option" where
  "publish_from i 0 msg any env s = Some (any, s, env)"
| "publish_from i (Suc k) msg any env s =
     (if sl_in_use (topic_slot s i) then
        case bus_try_send (sl_queue (topic_slot s i)) msg env s of
          None \<Rightarrow> None
        | Some (b, s1, env1) \<Rightarrow> publish_from (Suc i) k msg (any \<or> b) env1 s1
      else publish_from (Suc i) k msg any env s)"

definition publish :: "byte list \<Rightarrow> topic_env \<Rightarrow> topic_state \<Rightarrow> (bool \<times> topic_state \<times> topic_env) option" where
  "publish msg env s =
     (if \<not> topic_valid s then Some (False, s, env)
      else topic_locked (\<lambda>env s. publish_from 0 (length (sg_slots (topic s))) msg False env s) env s)"

definition try_receive :: "subscriber_id \<Rightarrow> topic_env \<Rightarrow> topic_state \<Rightarrow> (byte list option \<times> topic_state \<times> topic_env) option" where
  "try_receive sid env s =
     (if \<not> topic_valid s then Some (None, s, env)
      else topic_locked (\<lambda>env s.
        let i = slot_index_from_id (topic s) sid in
        if i \<ge> length (sg_slots (topic s)) \<or> \<not> subscriber_id_matches_slot (topic s) sid i then Some (None, s, env)
        else bus_try_receive (sl_queue (topic_slot s i)) env s) env s)"

definition receive :: "subscriber_id \<Rightarrow> tick_t \<Rightarrow> topic_env \<Rightarrow> topic_state \<Rightarrow> (byte list option \<times> topic_state \<times> topic_env) option" where
  "receive sid timeout env s =
     (if \<not> topic_valid s then Some (None, s, env)
      else do {
        let i = slot_index_from_id (topic s) sid;
        (found, s1, env1) \<leftarrow> topic_locked (\<lambda>env s.
          if i \<ge> length (sg_slots (topic s)) \<or> \<not> subscriber_id_matches_slot (topic s) sid i then Some (False, s, env)
          else Some (True, s\<lparr>topic := sg_slot_update i (\<lambda>sl. sl\<lparr>sl_receivers := sl_receivers sl + 1\<rparr>) (topic s)\<rparr>, env)) env s;
        if \<not> found then Some (None, s1, env1)
        else do {
          (received, s2, env2) \<leftarrow> bus_receive (sl_queue (topic_slot s1 i)) timeout env1 s1;
          (_, s3, env3) \<leftarrow> topic_locked (\<lambda>env s.
            Some ((), s\<lparr>topic := sg_slot_update i (\<lambda>sl. sl\<lparr>sl_receivers := sl_receivers sl - 1\<rparr>) (topic s)\<rparr>, env)) env2 s2;
          Some (received, s3, env3) } })"

definition subscriber_count :: "topic_env \<Rightarrow> topic_state \<Rightarrow> (nat \<times> topic_state \<times> topic_env) option" where
  "subscriber_count env s =
     (if \<not> topic_valid s then Some (0, s, env)
      else topic_locked (\<lambda>env s. Some (sg_count (topic s), s, env)) env s)"

text \<open>Construction: the channels of the slots, then the mutex.\<close>

fun create_slots :: "nat \<Rightarrow> nat \<Rightarrow> nat \<Rightarrow> 'z bm_state_scheme \<Rightarrow> subscriber_slot list \<times> 'z bm_state_scheme" where
  "create_slots 0 value_size capacity s = ([], s)"
| "create_slots (Suc n) value_size capacity s =
     (case osal_bus_create value_size capacity s of (bus, s1) \<Rightarrow>
      case create_slots n value_size capacity s1 of (sls, s2) \<Rightarrow>
        (\<lparr>sl_generation = 0, sl_in_use = False, sl_receivers = 0, sl_queue = bus\<rparr> # sls, s2))"

definition osal_signal_create :: "u64 \<Rightarrow> nat \<Rightarrow> nat \<Rightarrow> nat \<Rightarrow> topic_state \<Rightarrow> topic_state" where
  "osal_signal_create address max_subscribers value_size capacity s =
     (case create_slots max_subscribers value_size capacity s of (sls, s1) \<Rightarrow>
      case osal_mutex_create None s1 of (r, h, s2) \<Rightarrow>
        s2\<lparr>topic := \<lparr>sg_slots = sls, sg_mutex = h, sg_mutex_valid = (r = Ok), sg_count = 0, sg_address = address\<rparr>\<rparr>)"

section \<open>Ids name one registration\<close>

text \<open>Ids and generations as numbers: \<open>n\<close> slots, and \<open>M\<close> generations of each.\<close>

definition generations :: "nat \<Rightarrow> nat" where
  "generations n = (2 ^ 64 - 1) div n"

definition slots_fit :: "nat \<Rightarrow> bool" where
  "slots_fit n \<longleftrightarrow> 0 < n \<and> n < 2 ^ 64"

lemma unat_span: "slots_fit n \<Longrightarrow> unat (subscriber_id_span n) = n"
  by (simp add: slots_fit_def subscriber_id_span_def unat_of_nat take_bit_nat_eq_self)

lemma unat_modulus: "slots_fit n \<Longrightarrow> unat (subscriber_generation_modulus n) = generations n"
  by (simp add: subscriber_generation_modulus_def unat_div unat_span invalid_subscriber_id_def generations_def unat_minus_1)

lemma generations_mult: "generations n * n \<le> 2 ^ 64 - 1"
  by (simp add: generations_def)

lemma generations_bound: "generations n \<le> 2 ^ 64 - 1"
  unfolding generations_def by (rule div_le_dividend)

lemma unat_range: "slots_fit n \<Longrightarrow> unat (subscriber_generation_modulus n * subscriber_id_span n) = generations n * n"
  using generations_mult [of n] by (simp add: unat_mult_fits unat_modulus unat_span)

lemma pack_bound:
  assumes "i < n" "g < generations n"
  shows "g * n + i + 1 \<le> generations n * n"
proof -
  have "(g + 1) * n \<le> generations n * n" using assms(2) by (intro mult_right_mono) simp_all
  then show ?thesis using assms(1) by simp
qed

lemma unat_pack:
  assumes "slots_fit n" "i < n" "unat g < generations n"
  shows "unat (pack_subscriber_id n i g) = unat g * n + i + 1"
proof -
  have b: "unat g * n + i + 1 \<le> 2 ^ 64 - 1" using pack_bound [OF assms(2,3)] generations_mult [of n] by simp
  have i: "unat (of_nat i :: u64) = i" using assms(1,2) by (simp add: slots_fit_def unat_of_nat take_bit_nat_eq_self)
  have "unat (g * subscriber_id_span n) = unat g * n" using b assms(1) by (simp add: unat_mult_fits unat_span)
  moreover from this have "unat (g * subscriber_id_span n + of_nat i) = unat g * n + i" using b i by (simp add: unat_add_fits)
  ultimately show ?thesis unfolding pack_subscriber_id_def using b unat_add_fits [of "g * subscriber_id_span n + of_nat i" 1] by simp
qed

lemma unat_unpack: "p \<noteq> 0 \<Longrightarrow> unat (unpack_subscriber_counter p) = unat p - 1"
  unfolding unpack_subscriber_counter_def by (subst unat_sub_fits) (simp_all add: word_le_nat_alt unat_gt_0 Suc_leI)

lemma pack_decodes:
  assumes "slots_fit n" "i < n" "unat g < generations n"
  shows "\<not> packed_out_of_range n (pack_subscriber_id n i g)" "slot_index_from_packed n (pack_subscriber_id n i g) = i"
    "generation_from_packed n (pack_subscriber_id n i g) = g"
proof -
  let ?p = "pack_subscriber_id n i g"
  note u = unat_pack [OF assms]
  have ne: "?p \<noteq> 0" using u by auto
  then have d: "unat (unpack_subscriber_counter ?p) = unat g * n + i" using u by (simp add: unat_unpack)
  show "\<not> packed_out_of_range n ?p"
    using ne u pack_bound [OF assms(2,3)] by (simp add: packed_out_of_range_def word_less_nat_alt unat_range [OF assms(1)])
  show "slot_index_from_packed n ?p = i" using d assms(2) by (simp add: slot_index_from_packed_def unat_mod unat_span [OF assms(1)])
  have "unat (generation_from_packed n ?p) = unat g"
    using d assms(2) by (simp add: generation_from_packed_def unat_div unat_span [OF assms(1)])
  then show "generation_from_packed n ?p = g" by (simp add: word_unat_eq_iff)
qed

lemma packed_is_pack:
  assumes "slots_fit n" "\<not> packed_out_of_range n p"
  shows "p = pack_subscriber_id n (slot_index_from_packed n p) (generation_from_packed n p)"
    "slot_index_from_packed n p < n" "unat (generation_from_packed n p) < generations n"
proof -
  have p: "p \<noteq> 0" "unat p \<le> generations n * n"
    using assms(2) by (simp_all add: packed_out_of_range_def word_less_nat_alt unat_range [OF assms(1)])
  have n: "0 < n" using assms(1) by (simp add: slots_fit_def)
  let ?d = "unat p - 1"
  have d: "unat (unpack_subscriber_counter p) = ?d" "0 < unat p" using p(1) by (simp_all add: unat_unpack unat_gt_0)
  have i: "slot_index_from_packed n p = ?d mod n" "unat (generation_from_packed n p) = ?d div n"
    using d by (simp_all add: slot_index_from_packed_def generation_from_packed_def unat_mod unat_div unat_span [OF assms(1)])
  show s: "slot_index_from_packed n p < n" using i n by simp
  have "?d < generations n * n" using d(2) p(2) by simp
  then show g: "unat (generation_from_packed n p) < generations n" using i by (simp add: less_mult_imp_div_less)
  have "unat (pack_subscriber_id n (slot_index_from_packed n p) (generation_from_packed n p)) = unat p"
    using unat_pack [OF assms(1) s g] i d(2) by (simp add: div_mult_mod_eq)
  then show "p = pack_subscriber_id n (slot_index_from_packed n p) (generation_from_packed n p)" by (simp add: word_unat_eq_iff)
qed

text \<open>The id of a slot and a generation, and the slot and the generation of an id.\<close>

lemma encode_iff: "sid XOR subscriber_cookie a = pack_subscriber_id n i g \<longleftrightarrow> sid = encode_subscriber_id a n i g"
proof
  let ?c = "subscriber_cookie a" let ?p = "pack_subscriber_id n i g"
  { assume "sid XOR ?c = ?p"
    then have "encode_subscriber_id a n i g = ?c XOR (sid XOR ?c)" by (simp add: encode_subscriber_id_def)
    then show "sid = encode_subscriber_id a n i g" by (simp add: xor.left_commute) }
  assume "sid = encode_subscriber_id a n i g"
  then have "sid XOR ?c = (?c XOR ?p) XOR ?c" by (simp add: encode_subscriber_id_def)
  then show "sid XOR ?c = ?p" by (simp add: xor.commute xor.left_commute)
qed

lemma encode_inj:
  assumes "slots_fit n" "i < n" "unat g < generations n" "j < n" "unat h < generations n"
    and "encode_subscriber_id a n i g = encode_subscriber_id a n j h"
  shows "i = j \<and> g = h"
proof -
  have "pack_subscriber_id n i g = pack_subscriber_id n j h" using assms(6) by (metis encode_iff)
  then show ?thesis using pack_decodes [OF assms(1-3)] pack_decodes [OF assms(1,4,5)] by metis
qed

definition generations_ok :: "osal_signal \<Rightarrow> bool" where
  "generations_ok sg \<longleftrightarrow> slots_fit (length (sg_slots sg)) \<and> 2 \<le> generations (length (sg_slots sg)) \<and>
     (\<forall>i < length (sg_slots sg). unat (sl_generation (sg_slots sg ! i)) < generations (length (sg_slots sg)))"

abbreviation slot_id :: "osal_signal \<Rightarrow> nat \<Rightarrow> subscriber_id" where
  "slot_id sg i \<equiv> encode_subscriber_id (sg_address sg) (length (sg_slots sg)) i (sl_generation (sg_slots sg ! i))"

lemma matches_iff:
  assumes "generations_ok sg"
  shows "subscriber_id_matches_slot sg sid i \<longleftrightarrow>
    i < length (sg_slots sg) \<and> sl_in_use (sg_slots sg ! i) \<and> sid \<noteq> invalid_subscriber_id \<and> sid = slot_id sg i"
proof -
  let ?n = "length (sg_slots sg)" let ?g = "sl_generation (sg_slots sg ! i)" let ?p = "sid XOR subscriber_cookie (sg_address sg)"
  have fit: "slots_fit ?n" and g: "i < ?n \<Longrightarrow> unat ?g < generations ?n" using assms by (auto simp: generations_ok_def)
  have "i < ?n \<Longrightarrow> (\<not> packed_out_of_range ?n ?p \<and> slot_index_from_packed ?n ?p = i \<and> generation_from_packed ?n ?p = ?g) \<longleftrightarrow> sid = slot_id sg i"
  proof
    assume "i < ?n" "\<not> packed_out_of_range ?n ?p \<and> slot_index_from_packed ?n ?p = i \<and> generation_from_packed ?n ?p = ?g"
    then show "sid = slot_id sg i" using packed_is_pack(1) [OF fit, of ?p] by (simp add: encode_iff)
  next
    assume i: "i < ?n" and "sid = slot_id sg i"
    then have "?p = pack_subscriber_id ?n i ?g" by (simp add: encode_iff)
    then show "\<not> packed_out_of_range ?n ?p \<and> slot_index_from_packed ?n ?p = i \<and> generation_from_packed ?n ?p = ?g"
      using pack_decodes [OF fit i g [OF i]] by simp
  qed
  then show ?thesis unfolding subscriber_id_matches_slot_def Let_def by auto
qed

lemma slot_of_match:
  assumes "subscriber_id_matches_slot sg sid i"
  shows "slot_index_from_id sg sid = i"
  using assms unfolding subscriber_id_matches_slot_def slot_index_from_id_def Let_def by (auto split: if_splits)

section \<open>Generations\<close>

text \<open>The next generation of a slot as a number: the next one modulo \<open>M\<close> that gives a valid id.\<close>

definition next_valid :: "nat \<Rightarrow> (nat \<Rightarrow> bool) \<Rightarrow> nat \<Rightarrow> nat" where
  "next_valid M bad g = (let g1 = (g + 1) mod M in if bad g1 then (g1 + 1) mod M else g1)"

lemma unat_mod_succ:
  assumes "slots_fit n" "unat g < generations n"
  shows "unat ((g + 1) mod subscriber_generation_modulus n) = (unat g + 1) mod generations n"
proof -
  have "unat (g + 1) = unat g + 1" using assms(2) generations_bound [of n] by (subst unat_add_fits) simp_all
  then show ?thesis by (simp add: unat_mod unat_modulus [OF assms(1)])
qed

lemma unat_next_generation:
  assumes "slots_fit n" "unat g < generations n"
  shows "unat (next_generation a n i g) =
    next_valid (generations n) (\<lambda>x. encode_subscriber_id a n i (of_nat x) = invalid_subscriber_id) (unat g)"
proof -
  let ?M = "generations n" let ?g = "(g + 1) mod subscriber_generation_modulus n"
  have u: "unat ?g = (unat g + 1) mod ?M" using assms by (rule unat_mod_succ)
  then have "unat ?g < ?M" using assms(2) by simp
  then have v: "unat ((?g + 1) mod subscriber_generation_modulus n) = (unat ?g + 1) mod ?M" by (rule unat_mod_succ [OF assms(1)])
  have w: "of_nat ((unat g + 1) mod ?M) = ?g" unfolding u [symmetric] by simp
  show ?thesis unfolding next_generation_def next_valid_def Let_def by (simp only: w u v split: if_split) simp
qed

lemma next_valid_step:
  assumes "g < M" "bad B" "B < M" "\<And>x. x < M \<Longrightarrow> bad x \<Longrightarrow> x = B" "g \<noteq> B" "k + 2 < M"
    and b: "b = (B + M - g) mod M"
    and d: "d = (if b \<le> k then k + 1 else k)"
  shows "next_valid M bad ((g + d) mod M) = (g + (if b \<le> Suc k then Suc k + 1 else Suc k)) mod M"
proof -
  have bp: "0 < b" "b < M" "(g + b) mod M = B"
    using assms(1,3,5) unfolding b by (auto simp: mod_if)
  have s: "((g + d) mod M + 1) mod M = (g + (d + 1)) mod M" by (simp add: mod_simps)
  have bad: "bad ((g + (d + 1)) mod M) \<longleftrightarrow> d + 1 = b"
  proof -
    have "d + 1 < M" using assms(6) d by auto
    then have "(g + (d + 1)) mod M = (g + b) mod M \<longleftrightarrow> d + 1 = b"
      using bp(2) assms(1) by (auto simp: mod_if split: if_splits)
    then show ?thesis using assms(2-4) bp(3) by (metis assms(1) mod_less_divisor not_less_zero neq0_conv)
  qed
  show ?thesis
  proof (cases "d + 1 = b")
    case True
    then have "d = k" "b = Suc k" using d by (auto split: if_splits)
    then show ?thesis using True bad by (simp add: next_valid_def s mod_simps)
  next
    case False
    then have "d + 1 = (if b \<le> Suc k then Suc k + 1 else Suc k)" using d by (auto split: if_splits)
    then show ?thesis using False bad unfolding next_valid_def Let_def s by simp
  qed
qed

text \<open>
  At most one generation \<open>B\<close> is skipped, so the generations of a slot come back only after all the
  others have been used.
\<close>

lemma next_valid_iterate:
  assumes "g < M" "bad B" "B < M" "\<And>x. x < M \<Longrightarrow> bad x \<Longrightarrow> x = B" "g \<noteq> B" "k + 2 \<le> M"
  shows "(next_valid M bad ^^ k) g = (g + (if (B + M - g) mod M \<le> k then k + 1 else k)) mod M"
  using assms(6)
proof (induction k)
  case 0
  have "(B + M - g) mod M \<noteq> 0" using assms(1,3,5) by (auto simp: mod_if)
  then show ?case using assms(1) by simp
next
  case (Suc k)
  have k: "k + 2 < M" using Suc.prems by simp
  have "(next_valid M bad ^^ Suc k) g = next_valid M bad ((g + (if (B + M - g) mod M \<le> k then k + 1 else k)) mod M)"
    using Suc by (simp del: add_Suc_right)
  also have "\<dots> = (g + (if (B + M - g) mod M \<le> Suc k then Suc k + 1 else Suc k)) mod M"
    by (rule next_valid_step [of g M bad B k, OF assms(1-5) k refl refl])
  finally show ?case .
qed

lemma next_valid_iterate_plain:
  assumes "g < M" "\<And>x. x < M \<Longrightarrow> \<not> bad x"
  shows "(next_valid M bad ^^ k) g = (g + k) mod M"
proof (induction k)
  case (Suc k)
  have "\<not> bad ((g + k + 1) mod M)" using assms by simp
  then have "next_valid M bad ((g + k) mod M) = (g + Suc k) mod M" by (simp add: next_valid_def mod_simps)
  then show ?case by (simp add: Suc)
qed (use assms in simp)

lemma add_mod_ne: "0 < d \<Longrightarrow> d < M \<Longrightarrow> g < M \<Longrightarrow> (g + d) mod M \<noteq> (g :: nat)"
  by (auto simp: mod_if split: if_splits)

lemma next_valid_fresh:
  assumes "g < M" "\<not> bad g" "\<And>x y. x < M \<Longrightarrow> y < M \<Longrightarrow> bad x \<Longrightarrow> bad y \<Longrightarrow> x = y" "0 < k" "k + 2 \<le> M"
  shows "(next_valid M bad ^^ k) g \<noteq> g"
proof (cases "\<exists>B < M. bad B")
  case True
  then obtain B where B: "B < M" "bad B" by blast
  have "(next_valid M bad ^^ k) g = (g + (if (B + M - g) mod M \<le> k then k + 1 else k)) mod M"
    using B assms by (intro next_valid_iterate) auto
  then show ?thesis using add_mod_ne [of "k + 1" M g] add_mod_ne [of k M g] assms(1,4,5) by (simp split: if_splits)
next
  case False
  then show ?thesis using add_mod_ne [of k M g] assms(1,4,5) by (simp add: next_valid_iterate_plain)
qed

lemma next_valid_good:
  assumes "2 \<le> M" "\<And>x y. x < M \<Longrightarrow> y < M \<Longrightarrow> bad x \<Longrightarrow> bad y \<Longrightarrow> x = y"
  shows "next_valid M bad g < M" "\<not> bad (next_valid M bad g)"
proof -
  let ?g = "(g + 1) mod M"
  show "next_valid M bad g < M" using assms(1) by (simp add: next_valid_def Let_def)
  have "(?g + 1) mod M \<noteq> ?g" using assms(1) by (intro add_mod_ne) simp_all
  then have "bad ?g \<Longrightarrow> \<not> bad ((?g + 1) mod M)" using assms by (meson assms(1) mod_less_divisor less_le_trans zero_less_numeral)
  then show "\<not> bad (next_valid M bad g)" by (simp add: next_valid_def Let_def)
qed

text \<open>The same for the generations of a slot.\<close>

lemma bad_unique:
  assumes "slots_fit n" "i < n"
    and "x < generations n" "encode_subscriber_id a n i (of_nat x) = invalid_subscriber_id"
    and "y < generations n" "encode_subscriber_id a n i (of_nat y) = invalid_subscriber_id"
  shows "x = y"
proof -
  have "unat (of_nat z :: u64) = z" if "z < generations n" for z
    using that generations_bound [of n] by (simp add: unat_of_nat take_bit_nat_eq_self)
  then show ?thesis using encode_inj [OF assms(1,2) _ assms(2), of "of_nat x" "of_nat y" a] assms(3-6) by metis
qed

lemma next_generation_good:
  assumes "slots_fit n" "2 \<le> generations n" "i < n" "unat g < generations n"
  shows "unat (next_generation a n i g) < generations n"
    "encode_subscriber_id a n i (next_generation a n i g) \<noteq> invalid_subscriber_id"
proof -
  let ?bad = "\<lambda>x. encode_subscriber_id a n i (of_nat x) = invalid_subscriber_id"
  note u = unat_next_generation [OF assms(1,4), of a i]
  have un: "\<And>x y. x < generations n \<Longrightarrow> y < generations n \<Longrightarrow> ?bad x \<Longrightarrow> ?bad y \<Longrightarrow> x = y"
    using bad_unique [OF assms(1,3)] by blast
  show "unat (next_generation a n i g) < generations n"
    unfolding u by (rule next_valid_good(1) [OF assms(2)]) (rule un)
  have "\<not> ?bad (unat (next_generation a n i g))"
    unfolding u by (rule next_valid_good(2) [OF assms(2)]) (rule un)
  then show "encode_subscriber_id a n i (next_generation a n i g) \<noteq> invalid_subscriber_id" by simp
qed

lemma unat_generation_iterate:
  assumes "slots_fit n" "2 \<le> generations n" "i < n" "unat g < generations n"
  shows "unat ((next_generation a n i ^^ k) g) < generations n \<and>
    unat ((next_generation a n i ^^ k) g) =
      (next_valid (generations n) (\<lambda>x. encode_subscriber_id a n i (of_nat x) = invalid_subscriber_id) ^^ k) (unat g)"
proof (induction k)
  case (Suc k)
  then have "unat ((next_generation a n i ^^ k) g) < generations n" by blast
  note n = next_generation_good(1) [OF assms(1-3) this, of a] unat_next_generation [OF assms(1) this, of a i]
  show ?case using n Suc by simp
qed (use assms in simp)

lemma generation_fresh:
  assumes "slots_fit n" "2 \<le> generations n" "i < n" "unat g < generations n"
    and "encode_subscriber_id a n i g \<noteq> invalid_subscriber_id" "0 < k" "k + 2 \<le> generations n"
  shows "(next_generation a n i ^^ k) g \<noteq> g"
proof -
  have "unat ((next_generation a n i ^^ k) g) \<noteq> unat g"
    unfolding unat_generation_iterate [OF assms(1-4), THEN conjunct2]
  proof (rule next_valid_fresh)
    show "encode_subscriber_id a n i (of_nat (unat g)) \<noteq> invalid_subscriber_id" using assms(5) by simp
  qed (use assms bad_unique [OF assms(1,3)] in auto)
  then show ?thesis by metis
qed

section \<open>The id of a registration that is gone names nobody\<close>

datatype slot_op = Register nat | Unregister nat

text \<open>What the operations do to the slots: a free slot is taken, a slot in use is given up.\<close>

fun slot_step :: "slot_op \<Rightarrow> osal_signal \<Rightarrow> osal_signal" where
  "slot_step (Register i) sg =
     (if i < length (sg_slots sg) \<and> \<not> sl_in_use (sg_slots sg ! i) then snd (sg_register i sg) else sg)"
| "slot_step (Unregister i) sg =
     (if i < length (sg_slots sg) \<and> sl_in_use (sg_slots sg ! i) then sg_unregister i sg else sg)"

lemmas slot_ops_defs = sg_register_def sg_unregister_def ensure_subscriber_id_def advance_subscriber_generation_def sg_slot_update_def Let_def

lemma slot_frame [simp]:
  "length (sg_slots (snd (sg_register i sg))) = length (sg_slots sg)" "sg_address (snd (sg_register i sg)) = sg_address sg"
  "length (sg_slots (sg_unregister i sg)) = length (sg_slots sg)" "sg_address (sg_unregister i sg) = sg_address sg"
  by (simp_all add: slot_ops_defs)

lemma register_slots:
  assumes "i < length (sg_slots sg)"
  shows "sl_generation (sg_slots (snd (sg_register i sg)) ! j) =
      (if j = i \<and> slot_id sg i = invalid_subscriber_id
       then next_generation (sg_address sg) (length (sg_slots sg)) i (sl_generation (sg_slots sg ! i))
       else sl_generation (sg_slots sg ! j))"
  using assms by (auto simp: slot_ops_defs nth_list_update)

lemma unregister_slots:
  assumes "i < length (sg_slots sg)"
  shows "sl_generation (sg_slots (sg_unregister i sg) ! j) =
      (if j = i then next_generation (sg_address sg) (length (sg_slots sg)) i (sl_generation (sg_slots sg ! i))
       else sl_generation (sg_slots sg ! j))"
  using assms by (auto simp: slot_ops_defs nth_list_update)

lemma slot_step_frame [simp]:
  "length (sg_slots (slot_step op sg)) = length (sg_slots sg)" "sg_address (slot_step op sg) = sg_address sg"
  by (cases op; simp)+

lemma register_in_use:
  assumes "i < length (sg_slots sg)" "sl_in_use (sg_slots sg ! j)"
  shows "sl_in_use (sg_slots (snd (sg_register i sg)) ! j)"
  using assms by (auto simp: slot_ops_defs nth_list_update)

lemma unregister_in_use:
  assumes "i < length (sg_slots sg)"
  shows "sl_in_use (sg_slots (sg_unregister i sg) ! j) \<longleftrightarrow> j \<noteq> i \<and> sl_in_use (sg_slots sg ! j)"
  using assms by (auto simp: slot_ops_defs nth_list_update)

lemma slot_step_generations_ok: "generations_ok sg \<Longrightarrow> generations_ok (slot_step op sg)"
  by (cases op) (auto simp: generations_ok_def register_slots unregister_slots next_generation_good)

lemma fold_slots_frame [simp]:
  "length (sg_slots (fold slot_step ops sg)) = length (sg_slots sg)" "sg_address (fold slot_step ops sg) = sg_address sg"
  by (induction ops arbitrary: sg) simp_all

lemma fold_generations_ok: "generations_ok sg \<Longrightarrow> generations_ok (fold slot_step ops sg)"
  by (induction ops arbitrary: sg) (simp_all add: slot_step_generations_ok)

text \<open>The generation of slot \<open>i\<close> is \<open>k\<close> after \<open>g\<close>, and its id is valid.\<close>

definition aged :: "nat \<Rightarrow> subscriber_id \<Rightarrow> nat \<Rightarrow> osal_signal \<Rightarrow> bool" where
  "aged i g k sg \<longleftrightarrow> generations_ok sg \<and> i < length (sg_slots sg) \<and> slot_id sg i \<noteq> invalid_subscriber_id \<and>
     sl_generation (sg_slots sg ! i) = (next_generation (sg_address sg) (length (sg_slots sg)) i ^^ k) g"

lemma unregister_aged:
  assumes "aged i g k sg"
  shows "aged i g (Suc k) (sg_unregister i sg)"
proof -
  have a: "generations_ok sg" "i < length (sg_slots sg)"
    and g: "unat (sl_generation (sg_slots sg ! i)) < generations (length (sg_slots sg))" "slots_fit (length (sg_slots sg))"
      "2 \<le> generations (length (sg_slots sg))"
    using assms by (auto simp: aged_def generations_ok_def)
  have "generations_ok (sg_unregister i sg)"
    using a by (auto simp: generations_ok_def unregister_slots next_generation_good)
  then show ?thesis
    using assms next_generation_good(2) [OF g(2,3) a(2) g(1), of "sg_address sg"] by (simp add: aged_def unregister_slots)
qed

lemma aged_step:
  assumes "aged i g k sg"
  shows "aged i g k (slot_step op sg) \<or> op = Unregister i \<and> aged i g (Suc k) (slot_step op sg)"
proof (cases "op = Unregister i")
  case True
  then show ?thesis using assms unregister_aged [OF assms] by simp
next
  case False
  then have "sl_generation (sg_slots (slot_step op sg) ! i) = sl_generation (sg_slots sg ! i)"
    using assms by (cases op) (auto simp: register_slots unregister_slots aged_def)
  then show ?thesis using assms by (auto simp: aged_def slot_step_generations_ok)
qed

lemma aged_fold:
  assumes "aged i g k sg"
  shows "\<exists>k'. k \<le> k' \<and> k' \<le> k + length (filter (\<lambda>op. op = Unregister i) ops) \<and> aged i g k' (fold slot_step ops sg)"
  using assms
proof (induction ops arbitrary: k sg)
  case (Cons op ops)
  consider "aged i g k (slot_step op sg)" | "op = Unregister i" "aged i g (Suc k) (slot_step op sg)"
    using aged_step [OF Cons.prems, of op] by blast
  then show ?case
  proof cases
    case 1
    then show ?thesis using Cons.IH [OF 1] by fastforce
  next
    case 2
    obtain k' where "Suc k \<le> k'" "k' \<le> Suc k + length (filter (\<lambda>op. op = Unregister i) ops)"
      "aged i g k' (fold slot_step ops (slot_step op sg))"
      using Cons.IH [OF 2(2)] by blast
    then show ?thesis using 2(1) by (intro exI [of _ k']) simp
  qed
qed auto

lemma aged_other:
  assumes "aged i g k sg" "unat g < generations (length (sg_slots sg))"
    "(next_generation (sg_address sg) (length (sg_slots sg)) i ^^ k) g \<noteq> g \<or> j \<noteq> i"
  shows "\<not> subscriber_id_matches_slot sg (encode_subscriber_id (sg_address sg) (length (sg_slots sg)) i g) j"
proof
  let ?n = "length (sg_slots sg)" let ?sid = "encode_subscriber_id (sg_address sg) ?n i g"
  assume "subscriber_id_matches_slot sg ?sid j"
  then have j: "j < ?n" "?sid = slot_id sg j" using assms(1) by (auto simp: aged_def matches_iff)
  have "slots_fit ?n" "i < ?n" "unat (sl_generation (sg_slots sg ! j)) < generations ?n"
    using assms(1) j(1) by (auto simp: aged_def generations_ok_def)
  from encode_inj [OF this(1,2) assms(2) j(1) this(3) j(2)] show False using assms(1,3) by (auto simp: aged_def)
qed

lemma register_aged:
  assumes "generations_ok sg" "i < length (sg_slots sg)" "sg_register i sg = (Some sid, sg1)"
  shows "\<exists>g. aged i g 0 sg1 \<and> unat g < generations (length (sg_slots sg)) \<and> sl_in_use (sg_slots sg1 ! i) \<and>
    sid = encode_subscriber_id (sg_address sg) (length (sg_slots sg)) i g \<and>
    length (sg_slots sg1) = length (sg_slots sg) \<and> sg_address sg1 = sg_address sg"
proof (intro exI conjI)
  let ?g = "sl_generation (sg_slots sg1 ! i)"
  have s: "sg1 = snd (sg_register i sg)" using assms(3) by simp
  show len: "length (sg_slots sg1) = length (sg_slots sg)" and adr: "sg_address sg1 = sg_address sg" unfolding s by simp_all
  have ok: "generations_ok sg1"
    unfolding s using assms(1,2) by (auto simp: generations_ok_def register_slots next_generation_good)
  show "unat ?g < generations (length (sg_slots sg))" using ok assms(2) len by (auto simp: generations_ok_def)
  have r: "sid \<noteq> invalid_subscriber_id \<and> sid = slot_id sg1 i \<and> sl_in_use (sg_slots sg1 ! i)"
    using assms(2,3) by (auto simp: slot_ops_defs split: if_splits)
  then show "sl_in_use (sg_slots sg1 ! i)" by blast
  show "sid = encode_subscriber_id (sg_address sg) (length (sg_slots sg)) i ?g" using r len adr by simp
  show "aged i ?g 0 sg1" using ok r assms(2) len by (auto simp: aged_def)
qed

lemma fold_in_use:
  "i < length (sg_slots sg) \<Longrightarrow> sl_in_use (sg_slots sg ! i) \<Longrightarrow> Unregister i \<notin> set ops
   \<Longrightarrow> sl_in_use (sg_slots (fold slot_step ops sg) ! i)"
proof (induction ops arbitrary: sg)
  case (Cons op ops)
  then have "sl_in_use (sg_slots (slot_step op sg) ! i)"
    by (cases op) (auto simp: register_in_use unregister_in_use)
  then show ?case using Cons by simp
qed simp

lemma no_unregister: "Unregister i \<notin> set ops \<Longrightarrow> filter (\<lambda>op. op = Unregister i) ops = []"
  by (auto simp: filter_empty_conv)

text \<open>
  C26: the id a subscription returns names its slot, and only that one, as long as the subscriber
  stays, whatever the other slots do. Once it has been given up the id names no slot: not while its slot is
  used again by others, up to \<open>generations n - 3\<close> further times, where \<open>n\<close> is the number of slots.
\<close>

theorem subscriber_id_stale:
  assumes "generations_ok sg" "i < length (sg_slots sg)" "sg_register i sg = (Some sid, sg1)"
  shows "(\<forall>ops j. Unregister i \<notin> set ops \<longrightarrow> subscriber_id_matches_slot (fold slot_step ops sg1) sid j = (j = i)) \<and>
    (\<forall>ops j. length (filter (\<lambda>op. op = Unregister i) ops) + 3 \<le> generations (length (sg_slots sg)) \<longrightarrow>
       \<not> subscriber_id_matches_slot (fold slot_step ops (sg_unregister i sg1)) sid j)"
proof (intro conjI allI impI)
  let ?n = "length (sg_slots sg)" let ?a = "sg_address sg"
  obtain g where g: "aged i g 0 sg1" "unat g < generations ?n" "sl_in_use (sg_slots sg1 ! i)" "sid = encode_subscriber_id ?a ?n i g"
    and f: "length (sg_slots sg1) = ?n" "sg_address sg1 = ?a"
    using register_aged [OF assms] by blast
  fix ops j
  { assume n: "Unregister i \<notin> set ops"
    then have a: "aged i g 0 (fold slot_step ops sg1)" using aged_fold [OF g(1), of ops] by (simp add: no_unregister)
    have m: "subscriber_id_matches_slot (fold slot_step ops sg1) sid i"
      using a fold_in_use [of i sg1 ops] n g assms(2) f by (auto simp: aged_def matches_iff)
    have "j \<noteq> i \<Longrightarrow> \<not> subscriber_id_matches_slot (fold slot_step ops sg1) sid j"
      using aged_other [OF a, of j] g f by simp
    with m show "subscriber_id_matches_slot (fold slot_step ops sg1) sid j = (j = i)" by blast }
  assume k: "length (filter (\<lambda>op. op = Unregister i) ops) + 3 \<le> generations ?n"
  let ?sg = "fold slot_step ops (sg_unregister i sg1)"
  obtain k' where k': "1 \<le> k'" "k' \<le> 1 + length (filter (\<lambda>op. op = Unregister i) ops)" "aged i g k' ?sg"
    using aged_fold [OF unregister_aged [OF g(1)], of ops] by auto
  have "(next_generation ?a ?n i ^^ k') g \<noteq> g"
    using assms(1,2) g(1,2,4) k k'(1,2) f by (intro generation_fresh) (auto simp: generations_ok_def aged_def)
  then show "\<not> subscriber_id_matches_slot ?sg sid j" using aged_other [OF k'(3), of j] g(2,4) f by simp
qed

definition two_slots :: osal_signal where
  "two_slots = \<lparr>sg_slots = replicate 2 \<lparr>sl_generation = 0, sl_in_use = False, sl_receivers = 0,
      sl_queue = \<lparr>bus_valid = True, bus_handle = None\<rparr>\<rparr>,
    sg_mutex = None, sg_mutex_valid = True, sg_count = 0, sg_address = 0x1000\<rparr>"

theorem subscriber_id_stale_witness:
  "fst (sg_register 1 two_slots) = Some (0x9E3779B97F4A6C17) \<and>
   \<not> subscriber_id_matches_slot
      (fold slot_step [Register 1, Unregister 1, Register 1] (sg_unregister 1 (snd (sg_register 1 two_slots)))) 0x9E3779B97F4A6C17 1"
proof -
  have ok: "generations_ok two_slots"
    by (auto simp: generations_ok_def two_slots_def slots_fit_def generations_def)
  have l: "1 < length (sg_slots two_slots)" by (simp add: two_slots_def)
  have r: "sg_register 1 two_slots = (Some 0x9E3779B97F4A6C17, snd (sg_register 1 two_slots))" by code_simp
  have "length (filter (\<lambda>op. op = Unregister 1) [Register 1, Unregister 1, Register 1]) + 3 \<le> generations (length (sg_slots two_slots))"
    by (simp add: two_slots_def generations_def)
  then have "\<not> subscriber_id_matches_slot
      (fold slot_step [Register 1, Unregister 1, Register 1] (sg_unregister 1 (snd (sg_register 1 two_slots)))) 0x9E3779B97F4A6C17 1"
    using subscriber_id_stale [OF ok l r] by blast
  then show ?thesis using r by (metis fst_conv)
qed

end
