(* ===== verification/Osal_Topic.thy ===== *)
theory Osal_Topic
  imports Osal_Bus
begin

text \<open>
  What a topic promises: every subscriber has a bounded list of messages, a publish appends to
  each list that has room, a receive takes the oldest. The operations of \<open>Osal_Bus\<close> refine this
  specification, call by call and for any sequence of calls.
\<close>

section \<open>Channels of the slots\<close>

definition slot_q :: "osal_signal \<Rightarrow> nat \<Rightarrow> nat" where
  "slot_q sg i = the (bus_handle (sl_queue (sg_slots sg ! i)))"

definition slot_used :: "osal_signal \<Rightarrow> nat \<Rightarrow> bool" where
  "slot_used sg i \<longleftrightarrow> i < length (sg_slots sg) \<and> sl_in_use (sg_slots sg ! i)"

text \<open>The channels of the slots: valid, distinct, of one item size and capacity.\<close>

definition channels_ok :: "nat \<Rightarrow> nat \<Rightarrow> osal_signal \<Rightarrow> bm_queue list \<Rightarrow> bool" where
  "channels_ok sz cap sg pool \<longleftrightarrow> inj_on (slot_q sg) {..<length (sg_slots sg)} \<and>
     (\<forall>i < length (sg_slots sg). sl_queue (sg_slots sg ! i) = \<lparr>bus_valid = True, bus_handle = Some (slot_q sg i)\<rparr> \<and>
        slot_q sg i < length pool \<and> queue_inv (pool ! slot_q sg i) \<and>
        q_item_size (pool ! slot_q sg i) = sz \<and> q_capacity (pool ! slot_q sg i) = cap)"

text \<open>The registrations: ids of slots in use are valid, the counter counts them, no receive is in progress.\<close>

definition registrations_ok :: "osal_signal \<Rightarrow> bool" where
  "registrations_ok sg \<longleftrightarrow> generations_ok sg \<and>
     (\<forall>i < length (sg_slots sg). sl_receivers (sg_slots sg ! i) = 0 \<and> (slot_used sg i \<longrightarrow> slot_id sg i \<noteq> invalid_subscriber_id)) \<and>
     sg_count sg = card {i. slot_used sg i}"

definition topic_subs :: "osal_signal \<Rightarrow> bm_queue list \<Rightarrow> subscriber_id \<Rightarrow> byte list list option" where
  "topic_subs sg pool sid =
     (let i = slot_index_from_id sg sid in
      if subscriber_id_matches_slot sg sid i then Some (queue_items (pool ! slot_q sg i)) else None)"

lemma matches_used:
  assumes "registrations_ok sg"
  shows "subscriber_id_matches_slot sg sid i \<longleftrightarrow> slot_used sg i \<and> sid = slot_id sg i"
  using assms by (auto simp: registrations_ok_def matches_iff slot_used_def)

lemma slot_id_inj:
  assumes "registrations_ok sg" "slot_used sg i" "slot_used sg j" "slot_id sg i = slot_id sg j"
  shows "i = j"
  using slot_of_match [of sg "slot_id sg i"] matches_used [OF assms(1)] assms(2-4) by metis

lemma topic_subs_iff:
  assumes "registrations_ok sg"
  shows "topic_subs sg pool sid = Some xs \<longleftrightarrow>
    (\<exists>i. slot_used sg i \<and> sid = slot_id sg i \<and> xs = queue_items (pool ! slot_q sg i))"
proof
  assume "topic_subs sg pool sid = Some xs"
  then show "\<exists>i. slot_used sg i \<and> sid = slot_id sg i \<and> xs = queue_items (pool ! slot_q sg i)"
    using matches_used [OF assms] by (auto simp: topic_subs_def Let_def split: if_splits)
next
  assume "\<exists>i. slot_used sg i \<and> sid = slot_id sg i \<and> xs = queue_items (pool ! slot_q sg i)"
  then obtain i where i: "slot_used sg i" "sid = slot_id sg i" "xs = queue_items (pool ! slot_q sg i)" by blast
  then have "subscriber_id_matches_slot sg sid i" using matches_used [OF assms] by blast
  then show "topic_subs sg pool sid = Some xs" using i(3) slot_of_match [of sg sid i] by (simp add: topic_subs_def)
qed

lemma topic_subs_none:
  assumes "registrations_ok sg"
  shows "topic_subs sg pool sid = None \<longleftrightarrow> (\<forall>i. slot_used sg i \<longrightarrow> sid \<noteq> slot_id sg i)"
  using topic_subs_iff [OF assms] by (metis not_None_eq)

text \<open>Calls on a channel of the topic.\<close>

lemma slot_send:
  assumes "channels_ok sz cap (topic s) (bm_queue_pool s)" "i < length (sg_slots (topic s))" "length msg = sz"
  shows "\<exists>q. bus_try_send (sl_queue (topic_slot s i)) msg env s =
      Some (length (queue_items (queue_of s (slot_q (topic s) i))) < cap,
        s\<lparr>bm_queue_pool := (bm_queue_pool s)[slot_q (topic s) i := q]\<rparr>, env) \<and>
    queue_items q = snd (lq_push cap msg (queue_items (queue_of s (slot_q (topic s) i)))) \<and>
    queue_inv q \<and> q_item_size q = sz \<and> q_capacity q = cap"
proof -
  let ?i = "slot_q (topic s) i" let ?q = "bm_queue_pool s ! ?i"
  have ch: "bus_handle (sl_queue (topic_slot s i)) = Some ?i" "?i < length (bm_queue_pool s)" "queue_inv ?q"
    "q_item_size ?q = sz" "q_capacity ?q = cap"
    using assms(1,2) by (auto simp: channels_ok_def topic_slot_def)
  have fits: "item_fits ?q msg" using assms(3) ch(4) by (simp add: item_fits_def)
  obtain b q where put: "queue_put msg ?q = (b, q)" by fastforce
  have "\<not> b \<Longrightarrow> q = ?q" using put by (auto simp: queue_put_def split: if_splits)
  then have "bus_try_send (sl_queue (topic_slot s i)) msg env s = Some (b, s\<lparr>bm_queue_pool := (bm_queue_pool s)[?i := q]\<rparr>, env)"
    using queue_send_isr_eq [OF ch(2), of msg env] put ch(1)
    by (auto simp: bus_try_send_def bus_send_def osal_queue_send_isr_def)
  then show ?thesis
    using queue_put_law [OF ch(3) fits put] queue_inv_put [OF ch(3) fits put] ch(4,5)
    by (intro exI [of _ q]) (auto simp: queue_of_def lq_push_def split: if_splits)
qed

lemma bus_try_receive_eq:
  assumes "bus_handle bus = Some h" "h < length (bm_queue_pool s)"
  shows "bus_try_receive bus env s = Some (fst (queue_get (bm_queue_pool s ! h)),
    s\<lparr>bm_queue_pool := (bm_queue_pool s)[h := snd (queue_get (bm_queue_pool s ! h))]\<rparr>, env)"
proof -
  obtain r q where get: "queue_get (bm_queue_pool s ! h) = (r, q)" by fastforce
  have "r = None \<Longrightarrow> q = bm_queue_pool s ! h" using get by (auto simp: queue_get_def split: if_splits)
  then show ?thesis
    using queue_receive_isr_eq [OF assms(2), of env] get assms(1)
    by (auto simp: bus_try_receive_def bus_receive_def osal_queue_receive_isr_def)
qed

lemma slot_receive:
  assumes "channels_ok sz cap (topic s) (bm_queue_pool s)" "i < length (sg_slots (topic s))"
  shows "\<exists>q. bus_try_receive (sl_queue (topic_slot s i)) env s =
      Some (fst (lq_pop (queue_items (queue_of s (slot_q (topic s) i)))),
        s\<lparr>bm_queue_pool := (bm_queue_pool s)[slot_q (topic s) i := q]\<rparr>, env) \<and>
    queue_items q = snd (lq_pop (queue_items (queue_of s (slot_q (topic s) i)))) \<and>
    queue_inv q \<and> q_item_size q = sz \<and> q_capacity q = cap"
proof -
  let ?i = "slot_q (topic s) i" let ?q = "bm_queue_pool s ! ?i"
  have ch: "bus_handle (sl_queue (topic_slot s i)) = Some ?i" "?i < length (bm_queue_pool s)" "queue_inv ?q"
    "q_item_size ?q = sz" "q_capacity ?q = cap"
    using assms(1,2) by (auto simp: channels_ok_def topic_slot_def)
  obtain r q where get: "queue_get ?q = (r, q)" by fastforce
  have "bus_try_receive (sl_queue (topic_slot s i)) env s = Some (r, s\<lparr>bm_queue_pool := (bm_queue_pool s)[?i := q]\<rparr>, env)"
    using bus_try_receive_eq [OF ch(1,2)] get by simp
  then show ?thesis
    using queue_get_law [OF ch(3) get, symmetric] queue_inv_get [OF ch(3) get] ch(4,5)
    by (intro exI [of _ q]) (simp add: queue_of_def)
qed

lemma channels_update:
  assumes "channels_ok sz cap sg pool" "i < length (sg_slots sg)" "queue_inv q" "q_item_size q = sz" "q_capacity q = cap"
  shows "channels_ok sz cap sg (pool[slot_q sg i := q])"
    and "j < length (sg_slots sg) \<Longrightarrow> pool[slot_q sg i := q] ! slot_q sg j = (if j = i then q else pool ! slot_q sg j)"
proof -
  have i: "slot_q sg i < length pool" using assms(1,2) by (simp add: channels_ok_def)
  have ne: "j < length (sg_slots sg) \<Longrightarrow> slot_q sg j = slot_q sg i \<longleftrightarrow> j = i" for j
    using assms(1,2) by (auto simp: channels_ok_def inj_on_def)
  then show "channels_ok sz cap sg (pool[slot_q sg i := q])"
    using assms by (auto simp: channels_ok_def nth_list_update)
  show "j < length (sg_slots sg) \<Longrightarrow> pool[slot_q sg i := q] ! slot_q sg j = (if j = i then q else pool ! slot_q sg j)"
    using i ne [of j] by (auto simp: nth_list_update)
qed

lemma channels_cong:
  "channels_ok sz cap sg pool \<Longrightarrow> map sl_queue (sg_slots sg') = map sl_queue (sg_slots sg) \<Longrightarrow> channels_ok sz cap sg' pool"
  "map sl_queue (sg_slots sg') = map sl_queue (sg_slots sg) \<Longrightarrow> i < length (sg_slots sg) \<Longrightarrow> slot_q sg' i = slot_q sg i"
proof -
  show q: "map sl_queue (sg_slots sg') = map sl_queue (sg_slots sg) \<Longrightarrow> i < length (sg_slots sg) \<Longrightarrow> slot_q sg' i = slot_q sg i" for i
    unfolding slot_q_def by (metis length_map nth_map)
  assume c: "channels_ok sz cap sg pool" and m: "map sl_queue (sg_slots sg') = map sl_queue (sg_slots sg)"
  have l: "length (sg_slots sg') = length (sg_slots sg)" using m by (metis length_map)
  then have "i < length (sg_slots sg) \<Longrightarrow> sl_queue (sg_slots sg' ! i) = sl_queue (sg_slots sg ! i)" for i
    using m by (metis nth_map)
  then show "channels_ok sz cap sg' pool" using c l q [OF m] by (simp add: channels_ok_def inj_on_def)
qed

lemma slot_drain:
  assumes "channels_ok sz cap (topic s) (bm_queue_pool s)" "i < length (sg_slots (topic s))"
  shows "\<exists>q. bus_drain (sl_queue (topic_slot s i)) env s =
      Some (s\<lparr>bm_queue_pool := (bm_queue_pool s)[slot_q (topic s) i := q]\<rparr>, env) \<and>
    queue_items q = [] \<and> queue_inv q \<and> q_item_size q = sz \<and> q_capacity q = cap"
  using assms
proof (induction "length (queue_items (queue_of s (slot_q (topic s) i)))" arbitrary: s rule: less_induct)
  case less
  let ?i = "slot_q (topic s) i" let ?xs = "queue_items (queue_of s ?i)"
  obtain q where q: "bus_try_receive (sl_queue (topic_slot s i)) env s =
      Some (fst (lq_pop ?xs), s\<lparr>bm_queue_pool := (bm_queue_pool s)[?i := q]\<rparr>, env)"
    "queue_items q = snd (lq_pop ?xs)" "queue_inv q" "q_item_size q = sz" "q_capacity q = cap"
    using slot_receive [OF less.prems] by blast
  let ?s = "s\<lparr>bm_queue_pool := (bm_queue_pool s)[?i := q]\<rparr>"
  show ?case
  proof (cases ?xs)
    case Nil
    then show ?thesis using q by (subst bus_drain.simps) (auto intro!: exI [of _ q])
  next
    case (Cons x xs)
    have len: "?i < length (bm_queue_pool s)" using less.prems by (simp add: channels_ok_def)
    then have "length (queue_items (queue_of ?s (slot_q (topic ?s) i))) < length ?xs" using q(2) Cons by (simp add: queue_of_def)
    moreover have "channels_ok sz cap (topic ?s) (bm_queue_pool ?s)"
      using channels_update(1) [OF less.prems q(3-5)] by simp
    ultimately obtain q' where "bus_drain (sl_queue (topic_slot ?s i)) env ?s = Some (?s\<lparr>bm_queue_pool := (bm_queue_pool ?s)[?i := q']\<rparr>, env)"
      "queue_items q' = []" "queue_inv q'" "q_item_size q' = sz" "q_capacity q' = cap"
      using less.hyps [of ?s] less.prems(2) by fastforce
    then show ?thesis using q(1) Cons by (subst bus_drain.simps) (auto simp: topic_slot_def intro!: exI [of _ q'])
  qed
qed

lemma publish_from_pushes:
  assumes "channels_ok sz cap (topic s) (bm_queue_pool s)" "length msg = sz" "i + k \<le> length (sg_slots (topic s))"
  shows "\<exists>pool. publish_from i k msg any env s =
      Some (any \<or> (\<exists>j. i \<le> j \<and> j < i + k \<and> slot_used (topic s) j \<and> length (queue_items (queue_of s (slot_q (topic s) j))) < cap),
        s\<lparr>bm_queue_pool := pool\<rparr>, env) \<and>
    channels_ok sz cap (topic s) pool \<and>
    (\<forall>j < length (sg_slots (topic s)). queue_items (pool ! slot_q (topic s) j) =
       (if i \<le> j \<and> j < i + k \<and> slot_used (topic s) j then snd (lq_push cap msg (queue_items (queue_of s (slot_q (topic s) j))))
        else queue_items (queue_of s (slot_q (topic s) j))))"
  using assms
proof (induction k arbitrary: i s any)
  case 0
  then show ?case by (intro exI [of _ "bm_queue_pool s"]) (auto simp: queue_of_def)
next
  case (Suc k)
  have i: "i < length (sg_slots (topic s))" using Suc.prems(3) by simp
  have range: "i \<le> j \<and> j < i + Suc k \<and> P j \<longleftrightarrow> (j = i \<and> P i) \<or> (Suc i \<le> j \<and> j < Suc i + k \<and> P j)" for j P
    by (auto simp: le_eq_less_or_eq)
  then have ex: "(\<exists>j\<ge>i. j < i + Suc k \<and> P j) \<longleftrightarrow> P i \<or> (\<exists>j\<ge>Suc i. j < Suc i + k \<and> P j)" for P
    by (simp only: ex_disj_distrib simp_thms)
  show ?case
  proof (cases "slot_used (topic s) i")
    case False
    then have "publish_from i (Suc k) msg any env s = publish_from (Suc i) k msg any env s"
      using i by (simp add: slot_used_def topic_slot_def)
    then show ?thesis unfolding ex range using Suc.IH [OF Suc.prems(1,2), of "Suc i" any] Suc.prems(3) False
      by (simp del: publish_from.simps)
  next
    case True
    let ?q = "\<lambda>j. queue_items (queue_of s (slot_q (topic s) j))"
    obtain q where q: "bus_try_send (sl_queue (topic_slot s i)) msg env s =
        Some (length (?q i) < cap, s\<lparr>bm_queue_pool := (bm_queue_pool s)[slot_q (topic s) i := q]\<rparr>, env)"
      "queue_items q = snd (lq_push cap msg (?q i))" "queue_inv q" "q_item_size q = sz" "q_capacity q = cap"
      using slot_send [OF Suc.prems(1) i Suc.prems(2)] by blast
    let ?s = "s\<lparr>bm_queue_pool := (bm_queue_pool s)[slot_q (topic s) i := q]\<rparr>"
    note up = channels_update [OF Suc.prems(1) i q(3-5)]
    have items: "queue_items (queue_of ?s (slot_q (topic s) j)) = (if j = i then snd (lq_push cap msg (?q i)) else ?q j)"
      if "j < length (sg_slots (topic s))" for j
      using up(2) [OF that] q(2) by (simp add: queue_of_def)
    have step: "publish_from i (Suc k) msg any env s = publish_from (Suc i) k msg (any \<or> length (?q i) < cap) env ?s"
      using True q(1) by (simp add: slot_used_def topic_slot_def)
    have ch: "channels_ok sz cap (topic ?s) (bm_queue_pool ?s)" "Suc i + k \<le> length (sg_slots (topic ?s))"
      using up(1) Suc.prems(3) by simp_all
    have any: "(\<exists>j. Suc i \<le> j \<and> j < Suc i + k \<and> slot_used (topic s) j \<and> length (queue_items (queue_of ?s (slot_q (topic s) j))) < cap) \<longleftrightarrow>
        (\<exists>j. Suc i \<le> j \<and> j < Suc i + k \<and> slot_used (topic s) j \<and> length (?q j) < cap)"
      using items ch(2) by (intro ex_cong1) auto
    show ?thesis
      unfolding step ex range using Suc.IH [OF ch(1) Suc.prems(2) ch(2), of "any \<or> length (?q i) < cap"] True
      by (elim ex_forward) (auto simp: any [simplified] items)
  qed
qed

section \<open>The specification\<close>

type_synonym subs = "subscriber_id \<Rightarrow> byte list list option"

datatype topic_call = Subscribe | Unsubscribe subscriber_id | Publish "byte list" | Receive subscriber_id | Count

datatype topic_answer = Subscribed "subscriber_id option" | Done bool | Received "byte list option" | Counted nat

text \<open>
  \<open>n\<close> subscribers, each with a list of at most \<open>cap\<close> messages. Which new id a subscriber gets is
  left open.
\<close>

fun topic_spec :: "nat \<Rightarrow> nat \<Rightarrow> topic_call \<Rightarrow> subs \<Rightarrow> topic_answer \<Rightarrow> subs \<Rightarrow> bool" where
  "topic_spec n cap Subscribe m (Subscribed None) m' \<longleftrightarrow> card (dom m) = n \<and> m' = m"
| "topic_spec n cap Subscribe m (Subscribed (Some sid)) m' \<longleftrightarrow>
     card (dom m) < n \<and> sid \<noteq> invalid_subscriber_id \<and> m sid = None \<and> m' = m(sid \<mapsto> [])"
| "topic_spec n cap (Unsubscribe sid) m (Done b) m' \<longleftrightarrow> b = (m sid \<noteq> None) \<and> m' = m(sid := None)"
| "topic_spec n cap (Publish msg) m (Done b) m' \<longleftrightarrow>
     b = (\<exists>sid xs. m sid = Some xs \<and> length xs < cap) \<and>
     m' = (\<lambda>sid. map_option (\<lambda>xs. snd (lq_push cap msg xs)) (m sid))"
| "topic_spec n cap (Receive sid) m (Received r) m' \<longleftrightarrow>
     (case m sid of None \<Rightarrow> r = None \<and> m' = m
      | Some xs \<Rightarrow> r = fst (lq_pop xs) \<and> m' = m(sid \<mapsto> snd (lq_pop xs)))"
| "topic_spec n cap Count m (Counted k) m' \<longleftrightarrow> k = card (dom m) \<and> m' = m"
| "topic_spec n cap _ m _ m' \<longleftrightarrow> False"

fun topic_trace :: "nat \<Rightarrow> nat \<Rightarrow> topic_call list \<Rightarrow> subs \<Rightarrow> topic_answer list \<Rightarrow> subs \<Rightarrow> bool" where
  "topic_trace n cap [] m [] m' \<longleftrightarrow> m' = m"
| "topic_trace n cap (c # cs) m (a # as) m' \<longleftrightarrow> (\<exists>m1. topic_spec n cap c m a m1 \<and> topic_trace n cap cs m1 as m')"
| "topic_trace n cap _ m _ m' \<longleftrightarrow> False"

section \<open>The calls\<close>

fun topic_do :: "topic_call \<Rightarrow> topic_env \<Rightarrow> topic_state \<Rightarrow> (topic_answer \<times> topic_state \<times> topic_env) option" where
  "topic_do Subscribe env s = do { (r, s1, env1) \<leftarrow> subscribe env s; Some (Subscribed r, s1, env1) }"
| "topic_do (Unsubscribe sid) env s = do { (b, s1, env1) \<leftarrow> unsubscribe sid env s; Some (Done b, s1, env1) }"
| "topic_do (Publish msg) env s = do { (b, s1, env1) \<leftarrow> publish msg env s; Some (Done b, s1, env1) }"
| "topic_do (Receive sid) env s = do { (r, s1, env1) \<leftarrow> try_receive sid env s; Some (Received r, s1, env1) }"
| "topic_do Count env s = do { (k, s1, env1) \<leftarrow> subscriber_count env s; Some (Counted k, s1, env1) }"

fun topic_run :: "topic_call list \<Rightarrow> topic_env \<Rightarrow> topic_state \<Rightarrow> (topic_answer list \<times> topic_state \<times> topic_env) option" where
  "topic_run [] env s = Some ([], s, env)"
| "topic_run (c # cs) env s = do {
     (a, s1, env1) \<leftarrow> topic_do c env s;
     (as, s2, env2) \<leftarrow> topic_run cs env1 s1;
     Some (a # as, s2, env2) }"

fun call_fits :: "nat \<Rightarrow> topic_call \<Rightarrow> bool" where
  "call_fits sz (Publish msg) \<longleftrightarrow> length msg = sz"
| "call_fits sz _ \<longleftrightarrow> True"

section \<open>Refinement\<close>

definition topic_ok :: "nat \<Rightarrow> nat \<Rightarrow> topic_state \<Rightarrow> bool" where
  "topic_ok sz cap s \<longleftrightarrow> sg_mutex_valid (topic s) \<and> mutex_free (sg_mutex (topic s)) s \<and>
     channels_ok sz cap (topic s) (bm_queue_pool s) \<and> registrations_ok (topic s)"

definition topic_abs :: "topic_state \<Rightarrow> subs" where
  "topic_abs s = topic_subs (topic s) (bm_queue_pool s)"

lemma topic_ok_valid: "topic_ok sz cap s \<Longrightarrow> topic_valid s"
  by (auto simp: topic_ok_def topic_valid_def channels_ok_def in_set_conv_nth)

lemma topic_subs_dom:
  assumes "registrations_ok sg"
  shows "card (dom (topic_subs sg pool)) = sg_count sg"
proof -
  have "dom (topic_subs sg pool) = slot_id sg ` {i. slot_used sg i}"
    by (auto simp: topic_subs_iff [OF assms] dom_def)
  moreover have "inj_on (slot_id sg) {i. slot_used sg i}" using slot_id_inj [OF assms] by (intro inj_onI) auto
  ultimately show ?thesis using assms by (simp add: card_image registrations_ok_def)
qed

text \<open>A body that runs under the lock and leaves the mutexes alone.\<close>

lemma locked_rule:
  assumes "mutex_free (sg_mutex (topic s)) s"
  shows "\<exists>m. \<forall>r s'. body env (s\<lparr>bm_mutex_pool := m\<rparr>) = Some (r, s'\<lparr>bm_mutex_pool := m\<rparr>, env) \<and>
    sg_mutex (topic s') = sg_mutex (topic s) \<and> bm_mutex_pool s' = bm_mutex_pool s \<longrightarrow> topic_locked body env s = Some (r, s', env)"
proof -
  obtain g where g: "sg_mutex (topic s) = Some g" "g < length (bm_mutex_pool s)" "\<not> mtx_flag (bm_mutex_pool s ! g)"
    using assms(1) by (auto simp: mutex_free_def)
  let ?m = "(bm_mutex_pool s)[g := (bm_mutex_pool s ! g)\<lparr>mtx_flag := True\<rparr>]"
  have lock: "osal_mutex_lock (Some (sg_mutex (topic s))) WAIT_FOREVER env s = Some (Ok, s\<lparr>bm_mutex_pool := ?m\<rparr>, env)"
    using mutex_lock_set [OF g(3)] g(1) by (simp add: mutex_set_def)
  have unlock: "snd (osal_mutex_unlock (Some (sg_mutex (topic s))) (s'\<lparr>bm_mutex_pool := ?m\<rparr>)) = s'"
    if "bm_mutex_pool s' = bm_mutex_pool s" for s'
    using mutex_set_undo [of s' g] g that mutex_unlock_set [of g "s'\<lparr>bm_mutex_pool := ?m\<rparr>"] by (simp add: mutex_set_def)
  show ?thesis by (intro exI [of _ ?m]) (auto simp: topic_locked_def lock unlock)
qed

lemma state_commute:
  "s\<lparr>bm_queue_pool := p, bm_mutex_pool := m\<rparr> = s\<lparr>bm_mutex_pool := m, bm_queue_pool := p\<rparr>"
  "s\<lparr>topic := sg, bm_mutex_pool := m\<rparr> = s\<lparr>bm_mutex_pool := m, topic := sg\<rparr>"
  "s\<lparr>topic := sg, bm_queue_pool := p\<rparr> = s\<lparr>bm_queue_pool := p, topic := sg\<rparr>"
  by simp_all

lemma mutex_free_cong: "bm_mutex_pool s' = bm_mutex_pool s \<Longrightarrow> mutex_free h s' = mutex_free h s"
  by (simp add: mutex_free_def)

text \<open>The outcome of a call: the specification allows it, and the topic is in order again.\<close>

definition refined :: "nat \<Rightarrow> nat \<Rightarrow> topic_call \<Rightarrow> topic_state \<Rightarrow> topic_answer \<Rightarrow> topic_state \<Rightarrow> bool" where
  "refined sz cap c s a s' \<longleftrightarrow> topic_ok sz cap s' \<and> length (sg_slots (topic s')) = length (sg_slots (topic s)) \<and>
     topic_spec (length (sg_slots (topic s))) cap c (topic_abs s) a (topic_abs s')"

lemma publish_body:
  assumes "channels_ok sz cap (topic s) (bm_queue_pool s)" "length msg = sz"
  shows "\<exists>pool. publish_from 0 (length (sg_slots (topic s))) msg False env s =
      Some (\<exists>j. slot_used (topic s) j \<and> length (queue_items (bm_queue_pool s ! slot_q (topic s) j)) < cap, s\<lparr>bm_queue_pool := pool\<rparr>, env) \<and>
    channels_ok sz cap (topic s) pool \<and>
    (\<forall>j. slot_used (topic s) j \<longrightarrow>
       queue_items (pool ! slot_q (topic s) j) = snd (lq_push cap msg (queue_items (bm_queue_pool s ! slot_q (topic s) j))))"
proof -
  have b: "(\<exists>j\<ge>0. j < 0 + length (sg_slots (topic s)) \<and> slot_used (topic s) j \<and> P j) \<longleftrightarrow> (\<exists>j. slot_used (topic s) j \<and> P j)" for P
    by (auto simp: slot_used_def)
  have u: "slot_used (topic s) j \<Longrightarrow> j < length (sg_slots (topic s))" for j by (simp add: slot_used_def)
  have l: "0 + length (sg_slots (topic s)) \<le> length (sg_slots (topic s))" by simp
  show ?thesis
    using publish_from_pushes [OF assms l, of False env] unfolding b queue_of_def
    by (elim ex_forward) (auto dest: u)
qed

lemma publish_refines:
  assumes "topic_ok sz cap s" "length msg = sz"
  shows "\<exists>b s'. publish msg env s = Some (b, s', env) \<and> refined sz cap (Publish msg) s (Done b) s'"
proof -
  let ?body = "\<lambda>env s. publish_from 0 (length (sg_slots (topic s))) msg False env s"
  have ok: "mutex_free (sg_mutex (topic s)) s" "channels_ok sz cap (topic s) (bm_queue_pool s)" "registrations_ok (topic s)"
    using assms(1) by (auto simp: topic_ok_def)
  obtain m where m: "\<forall>r s'. ?body env (s\<lparr>bm_mutex_pool := m\<rparr>) = Some (r, s'\<lparr>bm_mutex_pool := m\<rparr>, env) \<and>
    sg_mutex (topic s') = sg_mutex (topic s) \<and> bm_mutex_pool s' = bm_mutex_pool s \<longrightarrow> topic_locked ?body env s = Some (r, s', env)"
    using locked_rule [OF ok(1), of ?body env] by (rule exE)
  let ?b = "\<exists>j. slot_used (topic s) j \<and> length (queue_items (bm_queue_pool s ! slot_q (topic s) j)) < cap"
  have "channels_ok sz cap (topic (s\<lparr>bm_mutex_pool := m\<rparr>)) (bm_queue_pool (s\<lparr>bm_mutex_pool := m\<rparr>))" using ok(2) by simp
  from publish_body [OF this assms(2)] obtain pool where
    p: "?body env (s\<lparr>bm_mutex_pool := m\<rparr>) = Some (?b, (s\<lparr>bm_queue_pool := pool\<rparr>)\<lparr>bm_mutex_pool := m\<rparr>, env)"
    "channels_ok sz cap (topic s) pool"
    "\<And>j. slot_used (topic s) j \<Longrightarrow> queue_items (pool ! slot_q (topic s) j) = snd (lq_push cap msg (queue_items (bm_queue_pool s ! slot_q (topic s) j)))"
    by (auto simp: state_commute(1) simp del: publish_from.simps)
  let ?s = "s\<lparr>bm_queue_pool := pool\<rparr>"
  have "publish msg env s = Some (?b, ?s, env)" using m p(1) topic_ok_valid [OF assms(1)] by (simp add: publish_def)
  moreover have "topic_abs ?s = (\<lambda>sid. map_option (\<lambda>xs. snd (lq_push cap msg xs)) (topic_abs s sid))"
    using p(3) matches_used [OF ok(3)] by (auto simp: topic_abs_def topic_subs_def Let_def)
  moreover have "?b \<longleftrightarrow> (\<exists>sid xs. topic_abs s sid = Some xs \<and> length xs < cap)"
    by (auto simp: topic_abs_def topic_subs_iff [OF ok(3)])
  moreover have "topic_ok sz cap ?s" using assms(1) p(2) by (simp add: topic_ok_def mutex_free_def)
  ultimately show ?thesis by (auto simp: refined_def)
qed

lemma abs_update:
  assumes "channels_ok sz cap sg pool" "registrations_ok sg" "slot_used sg i" "queue_inv q" "q_item_size q = sz" "q_capacity q = cap"
  shows "topic_subs sg (pool[slot_q sg i := q]) = (topic_subs sg pool)(slot_id sg i \<mapsto> queue_items q)"
proof
  fix sid
  have i: "i < length (sg_slots sg)" using assms(3) by (simp add: slot_used_def)
  note up = channels_update(2) [OF assms(1) i assms(4-6)]
  show "topic_subs sg (pool[slot_q sg i := q]) sid = ((topic_subs sg pool)(slot_id sg i \<mapsto> queue_items q)) sid"
  proof (cases "\<exists>j. slot_used sg j \<and> sid = slot_id sg j")
    case True
    then obtain j where j: "slot_used sg j" "sid = slot_id sg j" by blast
    then have "topic_subs sg p sid = Some (queue_items (p ! slot_q sg j))" for p
      using topic_subs_iff [OF assms(2)] by blast
    moreover have "j < length (sg_slots sg)" using j(1) by (simp add: slot_used_def)
    ultimately show ?thesis using up [of j] slot_id_inj [OF assms(2) j(1) assms(3)] j(2) by auto
  next
    case False
    then have "topic_subs sg p sid = None" for p using topic_subs_none [OF assms(2)] by blast
    then show ?thesis using False assms(3) by auto
  qed
qed

lemma abs_unused:
  assumes "channels_ok sz cap sg pool" "registrations_ok sg" "i < length (sg_slots sg)" "\<not> slot_used sg i"
    "queue_inv q" "q_item_size q = sz" "q_capacity q = cap"
  shows "topic_subs sg (pool[slot_q sg i := q]) = topic_subs sg pool"
proof
  fix sid
  show "topic_subs sg (pool[slot_q sg i := q]) sid = topic_subs sg pool sid"
    using channels_update(2) [OF assms(1,3,5-7), of "slot_index_from_id sg sid"] assms(4) matches_used [OF assms(2), of sid]
    by (auto simp: topic_subs_def Let_def slot_used_def)
qed

lemma try_receive_refines:
  assumes "topic_ok sz cap s"
  shows "\<exists>r s'. try_receive sid env s = Some (r, s', env) \<and> refined sz cap (Receive sid) s (Received r) s'"
proof -
  let ?i = "slot_index_from_id (topic s) sid"
  let ?body = "\<lambda>env s. let i = slot_index_from_id (topic s) sid in
        if i \<ge> length (sg_slots (topic s)) \<or> \<not> subscriber_id_matches_slot (topic s) sid i then Some (None, s, env)
        else bus_try_receive (sl_queue (topic_slot s i)) env s"
  have ok: "mutex_free (sg_mutex (topic s)) s" "channels_ok sz cap (topic s) (bm_queue_pool s)" "registrations_ok (topic s)"
    using assms(1) by (auto simp: topic_ok_def)
  have lock: "try_receive sid env s = topic_locked ?body env s" using topic_ok_valid [OF assms] by (simp add: try_receive_def)
  obtain m where m: "\<forall>r s'. ?body env (s\<lparr>bm_mutex_pool := m\<rparr>) = Some (r, s'\<lparr>bm_mutex_pool := m\<rparr>, env) \<and>
    sg_mutex (topic s') = sg_mutex (topic s) \<and> bm_mutex_pool s' = bm_mutex_pool s \<longrightarrow> topic_locked ?body env s = Some (r, s', env)"
    using locked_rule [OF ok(1), of ?body env] by (rule exE)
  show ?thesis
  proof (cases "slot_used (topic s) ?i \<and> sid = slot_id (topic s) ?i")
    case False
    then have "topic_abs s sid = None" using matches_used [OF ok(3)] by (auto simp: topic_abs_def topic_subs_def Let_def)
    moreover have "?body env (s\<lparr>bm_mutex_pool := m\<rparr>) = Some (None, s\<lparr>bm_mutex_pool := m\<rparr>, env)"
      using False matches_used [OF ok(3)] by (auto simp: Let_def)
    ultimately show ?thesis using m assms unfolding lock by (auto simp: refined_def)
  next
    case True
    let ?xs = "queue_items (bm_queue_pool s ! slot_q (topic s) ?i)"
    have i: "?i < length (sg_slots (topic s))" "subscriber_id_matches_slot (topic s) sid ?i"
      using True matches_used [OF ok(3)] by (auto simp: slot_used_def)
    have "channels_ok sz cap (topic (s\<lparr>bm_mutex_pool := m\<rparr>)) (bm_queue_pool (s\<lparr>bm_mutex_pool := m\<rparr>))"
      "?i < length (sg_slots (topic (s\<lparr>bm_mutex_pool := m\<rparr>)))" using ok(2) i by simp_all
    from slot_receive [OF this, of env] obtain q where
      q: "bus_try_receive (sl_queue (topic_slot s ?i)) env (s\<lparr>bm_mutex_pool := m\<rparr>) =
        Some (fst (lq_pop ?xs), (s\<lparr>bm_queue_pool := (bm_queue_pool s)[slot_q (topic s) ?i := q]\<rparr>)\<lparr>bm_mutex_pool := m\<rparr>, env)"
      "queue_items q = snd (lq_pop ?xs)" "queue_inv q" "q_item_size q = sz" "q_capacity q = cap"
      by (auto simp: state_commute(1) queue_of_def topic_slot_def)
    let ?s = "s\<lparr>bm_queue_pool := (bm_queue_pool s)[slot_q (topic s) ?i := q]\<rparr>"
    have "?body env (s\<lparr>bm_mutex_pool := m\<rparr>) = Some (fst (lq_pop ?xs), ?s\<lparr>bm_mutex_pool := m\<rparr>, env)"
      using q(1) i by (simp add: Let_def topic_slot_def)
    moreover have "topic_ok sz cap ?s"
      using assms channels_update(1) [OF ok(2) i(1) q(3-5)] by (simp add: topic_ok_def mutex_free_def)
    moreover have "topic_abs s sid = Some ?xs" using i by (simp add: topic_abs_def topic_subs_def)
    moreover have "topic_abs ?s = (topic_abs s)(sid \<mapsto> snd (lq_pop ?xs))"
      using abs_update [OF ok(2,3) _ q(3-5)] True q(2) by (simp add: topic_abs_def)
    ultimately show ?thesis using m unfolding lock by (auto simp: refined_def)
  qed
qed

text \<open>Taking and giving up a slot.\<close>

lemma register_frame_more [simp]:
  "map sl_queue (sg_slots (snd (sg_register i sg))) = map sl_queue (sg_slots sg)"
  "sg_mutex (snd (sg_register i sg)) = sg_mutex sg" "sg_mutex_valid (snd (sg_register i sg)) = sg_mutex_valid sg"
  "map sl_receivers (sg_slots (snd (sg_register i sg))) = map sl_receivers (sg_slots sg)"
  by (cases "i < length (sg_slots sg)"; simp add: slot_ops_defs map_update list_update_same_conv list_update_beyond)+

lemma unregister_frame_more [simp]:
  "map sl_queue (sg_slots (sg_unregister i sg)) = map sl_queue (sg_slots sg)"
  "sg_mutex (sg_unregister i sg) = sg_mutex sg" "sg_mutex_valid (sg_unregister i sg) = sg_mutex_valid sg"
  "map sl_receivers (sg_slots (sg_unregister i sg)) = map sl_receivers (sg_slots sg)"
  by (cases "i < length (sg_slots sg)"; simp add: slot_ops_defs map_update list_update_same_conv list_update_beyond)+

lemma receivers_nth: "map sl_receivers xs = map sl_receivers ys \<Longrightarrow> i < length ys \<Longrightarrow> sl_receivers (xs ! i) = sl_receivers (ys ! i)"
  by (metis length_map nth_map)

lemma used_finite: "finite {i. slot_used sg i}"
  by (rule finite_subset [of _ "{..<length (sg_slots sg)}"]) (auto simp: slot_used_def)

lemma register_takes:
  assumes "registrations_ok sg" "i < length (sg_slots sg)" "\<not> slot_used sg i"
  shows "\<exists>sid sg'. sg_register i sg = (Some sid, sg') \<and> registrations_ok sg' \<and> sid = slot_id sg' i \<and>
    (\<forall>j. slot_used sg' j \<longleftrightarrow> slot_used sg j \<or> j = i) \<and> (\<forall>j. j \<noteq> i \<longrightarrow> slot_id sg' j = slot_id sg j)"
proof -
  have ok: "generations_ok sg" using assms(1) by (simp add: registrations_ok_def)
  let ?sg = "snd (sg_register i sg)" let ?n = "length (sg_slots sg)"
  have gen: "generations_ok ?sg"
    using slot_step_generations_ok [OF ok, of "Register i"] assms(2,3) by (simp add: slot_used_def)
  have good: "encode_subscriber_id (sg_address sg) ?n i (next_generation (sg_address sg) ?n i (sl_generation (sg_slots sg ! i))) \<noteq> invalid_subscriber_id"
    using ok assms(2) by (intro next_generation_good(2)) (auto simp: generations_ok_def)
  have reg: "sg_register i sg = (Some (slot_id ?sg i), ?sg)" and valid: "slot_id ?sg i \<noteq> invalid_subscriber_id"
    and cnt: "sg_count ?sg = sg_count sg + 1"
    using good assms(2) by (auto simp: slot_ops_defs)
  have used: "slot_used ?sg j \<longleftrightarrow> slot_used sg j \<or> j = i" for j
    using good assms(2) by (auto simp: slot_ops_defs slot_used_def nth_list_update)
  have ids: "j \<noteq> i \<Longrightarrow> slot_id ?sg j = slot_id sg j" for j
    using assms(2) by (simp add: register_slots)
  have "{j. slot_used ?sg j} = insert i {j. slot_used sg j}" using used by auto
  then have "sg_count ?sg = card {j. slot_used ?sg j}"
    using cnt assms used_finite [of sg] by (simp add: registrations_ok_def)
  moreover have "slot_used ?sg j \<longrightarrow> slot_id ?sg j \<noteq> invalid_subscriber_id" for j
    using ids [of j] valid used [of j] assms(1) by (cases "j = i") (auto simp: registrations_ok_def slot_used_def)
  moreover have "j < ?n \<Longrightarrow> sl_receivers (sg_slots ?sg ! j) = 0" for j
    using receivers_nth [of "sg_slots ?sg" "sg_slots sg" j] assms(1) by (simp add: registrations_ok_def)
  ultimately have "registrations_ok ?sg" using gen by (simp add: registrations_ok_def)
  then show ?thesis using reg used ids by blast
qed

lemma unregister_gives:
  assumes "registrations_ok sg" "slot_used sg i"
  shows "registrations_ok (sg_unregister i sg) \<and>
    (\<forall>j. slot_used (sg_unregister i sg) j \<longleftrightarrow> slot_used sg j \<and> j \<noteq> i) \<and>
    (\<forall>j. j \<noteq> i \<longrightarrow> slot_id (sg_unregister i sg) j = slot_id sg j)"
proof -
  have ok: "generations_ok sg" "i < length (sg_slots sg)" using assms by (auto simp: registrations_ok_def slot_used_def)
  let ?sg = "sg_unregister i sg"
  have gen: "generations_ok ?sg"
    using slot_step_generations_ok [OF ok(1), of "Unregister i"] assms(2) by (simp add: slot_used_def)
  have used: "slot_used ?sg j \<longleftrightarrow> slot_used sg j \<and> j \<noteq> i" for j
    using ok(2) by (auto simp: slot_used_def unregister_in_use)
  have ids: "j \<noteq> i \<Longrightarrow> slot_id ?sg j = slot_id sg j" for j using ok(2) by (simp add: unregister_slots)
  have "sg_count ?sg = sg_count sg - 1" by (simp add: slot_ops_defs)
  moreover have "{j. slot_used ?sg j} = {j. slot_used sg j} - {i}" using used by auto
  ultimately have "sg_count ?sg = card {j. slot_used ?sg j}"
    using assms used_finite [of sg] by (simp add: registrations_ok_def)
  moreover have "slot_used ?sg j \<longrightarrow> slot_id ?sg j \<noteq> invalid_subscriber_id" for j
    using ids [of j] used [of j] assms(1) by (auto simp: registrations_ok_def slot_used_def)
  moreover have "j < length (sg_slots sg) \<Longrightarrow> sl_receivers (sg_slots ?sg ! j) = 0" for j
    using receivers_nth [of "sg_slots ?sg" "sg_slots sg" j] assms(1) by (simp add: registrations_ok_def)
  ultimately have "registrations_ok ?sg" using gen by (simp add: registrations_ok_def)
  then show ?thesis using used ids by blast
qed

lemma topic_subs_eqI:
  assumes "registrations_ok sg"
    and "\<And>x xs. m x = Some xs \<longleftrightarrow> (\<exists>i. slot_used sg i \<and> x = slot_id sg i \<and> xs = queue_items (pool ! slot_q sg i))"
  shows "topic_subs sg pool = m"
proof
  fix x
  have "topic_subs sg pool x = Some xs \<longleftrightarrow> m x = Some xs" for xs
    unfolding topic_subs_iff [OF assms(1)] assms(2) ..
  then show "topic_subs sg pool x = m x" by (cases "m x"; cases "topic_subs sg pool x") auto
qed

lemma slot_q_frame [simp]:
  "j < length (sg_slots sg) \<Longrightarrow> slot_q (sg_unregister i sg) j = slot_q sg j"
  "j < length (sg_slots sg) \<Longrightarrow> slot_q (snd (sg_register i sg)) j = slot_q sg j"
  by (rule channels_cong(2); simp)+

lemma abs_unregister:
  assumes "registrations_ok sg" "slot_used sg i"
  shows "topic_subs (sg_unregister i sg) pool = (topic_subs sg pool)(slot_id sg i := None)"
proof (rule topic_subs_eqI)
  let ?sg = "sg_unregister i sg"
  note un = unregister_gives [OF assms]
  then show "registrations_ok ?sg" by blast
  fix x xs
  have e: "slot_used ?sg j \<and> x = slot_id ?sg j \<and> xs = queue_items (pool ! slot_q ?sg j) \<longleftrightarrow>
      x \<noteq> slot_id sg i \<and> slot_used sg j \<and> x = slot_id sg j \<and> xs = queue_items (pool ! slot_q sg j)" for j
    using un slot_id_inj [OF assms(1) _ assms(2), of j] by (cases "j = i") (auto simp: slot_used_def)
  show "((topic_subs sg pool)(slot_id sg i := None)) x = Some xs \<longleftrightarrow>
      (\<exists>j. slot_used ?sg j \<and> x = slot_id ?sg j \<and> xs = queue_items (pool ! slot_q ?sg j))"
    unfolding e using topic_subs_iff [OF assms(1)] by auto
qed

lemma abs_register:
  assumes "registrations_ok sg" "i < length (sg_slots sg)" "\<not> slot_used sg i" "sg_register i sg = (Some sid, sg')"
  shows "topic_subs sg pool sid = None \<and> topic_subs sg' pool = (topic_subs sg pool)(sid \<mapsto> queue_items (pool ! slot_q sg i))"
proof -
  have r: "registrations_ok sg'" "sid = slot_id sg' i" "\<And>j. slot_used sg' j \<longleftrightarrow> slot_used sg j \<or> j = i"
    "\<And>j. j \<noteq> i \<Longrightarrow> slot_id sg' j = slot_id sg j"
    using register_takes [OF assms(1-3)] assms(4) by auto
  have sg': "sg' = snd (sg_register i sg)" using assms(4) by simp
  have new: "slot_used sg j \<Longrightarrow> slot_id sg j \<noteq> sid" for j
    using slot_id_inj [OF r(1), of j i] r(2-4) assms(3) by metis
  have "topic_subs sg' pool = (topic_subs sg pool)(sid \<mapsto> queue_items (pool ! slot_q sg i))"
  proof (rule topic_subs_eqI [OF r(1)])
    fix x xs
    have e: "slot_used sg' j \<and> x = slot_id sg' j \<and> xs = queue_items (pool ! slot_q sg' j) \<longleftrightarrow>
        j = i \<and> x = sid \<and> xs = queue_items (pool ! slot_q sg i) \<or>
        x \<noteq> sid \<and> slot_used sg j \<and> x = slot_id sg j \<and> xs = queue_items (pool ! slot_q sg j)" for j
    proof (cases "j = i")
      case True
      then show ?thesis using r(2,3) assms(2,3) by (auto simp: sg')
    next
      case False
      have "slot_used sg j \<Longrightarrow> slot_q sg' j = slot_q sg j" by (simp add: sg' slot_used_def)
      then show ?thesis using False r(3,4) new [of j] by auto
    qed
    show "((topic_subs sg pool)(sid \<mapsto> queue_items (pool ! slot_q sg i))) x = Some xs \<longleftrightarrow>
        (\<exists>j. slot_used sg' j \<and> x = slot_id sg' j \<and> xs = queue_items (pool ! slot_q sg' j))"
      unfolding e using topic_subs_iff [OF assms(1)] by auto
  qed
  moreover have "topic_subs sg pool sid = None" using topic_subs_none [OF assms(1)] new by metis
  ultimately show ?thesis by blast
qed

lemma unsubscribe_refines:
  assumes "topic_ok sz cap s"
  shows "\<exists>b s'. unsubscribe sid env s = Some (b, s', env) \<and> refined sz cap (Unsubscribe sid) s (Done b) s'"
proof -
  let ?i = "slot_index_from_id (topic s) sid"
  let ?body = "\<lambda>env s. let i = slot_index_from_id (topic s) sid in
        if i \<ge> length (sg_slots (topic s)) \<or> \<not> subscriber_id_matches_slot (topic s) sid i then Some (False, s, env)
        else if sl_receivers (topic_slot s i) \<noteq> 0 then Some (False, s, env)
        else Some (True, s\<lparr>topic := sg_unregister i (topic s)\<rparr>, env)"
  have ok: "mutex_free (sg_mutex (topic s)) s" "channels_ok sz cap (topic s) (bm_queue_pool s)" "registrations_ok (topic s)"
    using assms(1) by (auto simp: topic_ok_def)
  have lock: "unsubscribe sid env s = topic_locked ?body env s" using topic_ok_valid [OF assms] by (simp add: unsubscribe_def)
  obtain m where m: "\<forall>r s'. ?body env (s\<lparr>bm_mutex_pool := m\<rparr>) = Some (r, s'\<lparr>bm_mutex_pool := m\<rparr>, env) \<and>
    sg_mutex (topic s') = sg_mutex (topic s) \<and> bm_mutex_pool s' = bm_mutex_pool s \<longrightarrow> topic_locked ?body env s = Some (r, s', env)"
    using locked_rule [OF ok(1), of ?body env] by (rule exE)
  show ?thesis
  proof (cases "slot_used (topic s) ?i \<and> sid = slot_id (topic s) ?i")
    case False
    then have "topic_abs s sid = None" using matches_used [OF ok(3)] by (auto simp: topic_abs_def topic_subs_def Let_def)
    moreover have "?body env (s\<lparr>bm_mutex_pool := m\<rparr>) = Some (False, s\<lparr>bm_mutex_pool := m\<rparr>, env)"
      using False matches_used [OF ok(3)] by (auto simp: Let_def)
    ultimately show ?thesis using m assms unfolding lock by (auto simp: refined_def fun_upd_idem)
  next
    case True
    let ?sg = "sg_unregister ?i (topic s)" let ?s = "s\<lparr>topic := ?sg\<rparr>"
    have i: "?i < length (sg_slots (topic s))" "subscriber_id_matches_slot (topic s) sid ?i"
      using True matches_used [OF ok(3)] by (auto simp: slot_used_def)
    note un = unregister_gives [OF ok(3) conjunct1 [OF True]]
    have body: "?body env (s\<lparr>bm_mutex_pool := m\<rparr>) = Some (True, ?s\<lparr>bm_mutex_pool := m\<rparr>, env)"
      using i ok(3) by (simp add: Let_def topic_slot_def registrations_ok_def state_commute)
    have "unsubscribe sid env s = Some (True, ?s, env)" unfolding lock by (rule m [rule_format]) (use body in simp)
    moreover have "topic_ok sz cap ?s"
      using assms un channels_cong(1) [OF ok(2), of ?sg] by (simp add: topic_ok_def mutex_free_def)
    moreover have "topic_abs s sid \<noteq> None" using i by (simp add: topic_abs_def topic_subs_def)
    moreover have "topic_abs ?s = (topic_abs s)(sid := None)"
      using abs_unregister [OF ok(3) conjunct1 [OF True]] True by (simp add: topic_abs_def)
    ultimately show ?thesis by (auto simp: refined_def)
  qed
qed

lemma subscriber_count_refines:
  assumes "topic_ok sz cap s"
  shows "\<exists>k s'. subscriber_count env s = Some (k, s', env) \<and> refined sz cap Count s (Counted k) s'"
proof -
  let ?body = "\<lambda>env s. Some (sg_count (topic s), s, env)"
  have ok: "mutex_free (sg_mutex (topic s)) s" "registrations_ok (topic s)" using assms(1) by (auto simp: topic_ok_def)
  have "subscriber_count env s = Some (sg_count (topic s), s, env)"
    using locked_rule [OF ok(1), of ?body env] topic_ok_valid [OF assms] by (auto simp: subscriber_count_def)
  then show ?thesis using assms topic_subs_dom [OF ok(2)] by (auto simp: refined_def topic_abs_def)
qed

lemma subscribe_from_full:
  "(\<And>j. i \<le> j \<Longrightarrow> j < i + k \<Longrightarrow> sl_in_use (topic_slot s j)) \<Longrightarrow> subscribe_from i k env s = Some (None, s, env)"
  by (induction k arbitrary: i) auto

lemma subscribe_from_free:
  assumes "i \<le> j" "j < i + k" "\<not> sl_in_use (topic_slot s j)" "\<And>l. i \<le> l \<Longrightarrow> l < j \<Longrightarrow> sl_in_use (topic_slot s l)"
  shows "subscribe_from i k env s = do {
        (s1, env1) \<leftarrow> bus_purge (sl_queue (topic_slot s j)) env s;
        let (new_id, sg) = sg_register j (topic s1);
        Some (new_id, s1\<lparr>topic := sg\<rparr>, env1) }"
  using assms
proof (induction k arbitrary: i)
  case (Suc k)
  show ?case
  proof (cases "i = j")
    case False
    then have "sl_in_use (topic_slot s i)" "Suc i \<le> j" "j < Suc i + k" using Suc.prems by auto
    then show ?thesis using Suc.IH [of "Suc i"] Suc.prems(3,4) by simp
  qed (use Suc.prems in simp)
qed simp

lemma first_slot_free:
  assumes "registrations_ok sg" "sg_count sg < length (sg_slots sg)"
  shows "\<exists>i < length (sg_slots sg). \<not> slot_used sg i \<and> (\<forall>l < i. slot_used sg l)"
proof -
  have "\<exists>i < length (sg_slots sg). \<not> slot_used sg i"
  proof (rule ccontr)
    assume "\<not> ?thesis"
    then have "{i. slot_used sg i} = {..<length (sg_slots sg)}" by (auto simp: slot_used_def)
    then show False using assms by (simp add: registrations_ok_def)
  qed
  then obtain i where "\<not> slot_used sg i \<and> i < length (sg_slots sg)" by blast
  from LeastI [of "\<lambda>i. \<not> slot_used sg i \<and> i < length (sg_slots sg)", OF this] not_less_Least
  show ?thesis by (metis (no_types, lifting) order_less_trans)
qed

lemma all_used:
  assumes "registrations_ok sg" "\<not> sg_count sg < length (sg_slots sg)"
  shows "sg_count sg = length (sg_slots sg) \<and> (\<forall>i < length (sg_slots sg). slot_used sg i)"
proof -
  have sub: "{i. slot_used sg i} \<subseteq> {..<length (sg_slots sg)}" by (auto simp: slot_used_def)
  then have "card {i. slot_used sg i} \<le> length (sg_slots sg)" using card_mono [of "{..<length (sg_slots sg)}"] by fastforce
  then have c: "card {i. slot_used sg i} = length (sg_slots sg)" using assms by (simp add: registrations_ok_def)
  then have "{i. slot_used sg i} = {..<length (sg_slots sg)}" using sub by (intro card_subset_eq) auto
  then show ?thesis using assms(1) c by (auto simp: registrations_ok_def)
qed

lemma subscribe_refines:
  assumes "topic_ok sz cap s"
  shows "\<exists>r s'. subscribe env s = Some (r, s', env) \<and> refined sz cap Subscribe s (Subscribed r) s'"
proof -
  let ?n = "length (sg_slots (topic s))"
  let ?body = "\<lambda>env s. subscribe_from 0 (length (sg_slots (topic s))) env s"
  have ok: "mutex_free (sg_mutex (topic s)) s" "channels_ok sz cap (topic s) (bm_queue_pool s)" "registrations_ok (topic s)"
    using assms(1) by (auto simp: topic_ok_def)
  have lock: "subscribe env s = topic_locked ?body env s" using topic_ok_valid [OF assms] by (simp add: subscribe_def)
  obtain m where m: "\<forall>r s'. ?body env (s\<lparr>bm_mutex_pool := m\<rparr>) = Some (r, s'\<lparr>bm_mutex_pool := m\<rparr>, env) \<and>
    sg_mutex (topic s') = sg_mutex (topic s) \<and> bm_mutex_pool s' = bm_mutex_pool s \<longrightarrow> topic_locked ?body env s = Some (r, s', env)"
    using locked_rule [OF ok(1), of ?body env] by (rule exE)
  have dom: "card (dom (topic_abs s)) = sg_count (topic s)" using topic_subs_dom [OF ok(3)] by (simp add: topic_abs_def)
  show ?thesis
  proof (cases "sg_count (topic s) < ?n")
    case False
    note full = all_used [OF ok(3) False]
    have "?body env (s\<lparr>bm_mutex_pool := m\<rparr>) = Some (None, s\<lparr>bm_mutex_pool := m\<rparr>, env)"
      using full by (intro subscribe_from_full) (simp add: topic_slot_def slot_used_def)
    then show ?thesis using m assms full dom unfolding lock by (auto simp: refined_def)
  next
    case True
    then obtain i where i: "i < ?n" "\<not> slot_used (topic s) i" "\<And>l. l < i \<Longrightarrow> slot_used (topic s) l"
      using first_slot_free [OF ok(3)] by blast
    let ?m = "s\<lparr>bm_mutex_pool := m\<rparr>"
    have "channels_ok sz cap (topic ?m) (bm_queue_pool ?m)" "i < length (sg_slots (topic ?m))" using ok(2) i by simp_all
    from slot_drain [OF this, of env] obtain q where
      q: "bus_drain (sl_queue (topic_slot s i)) env ?m = Some (?m\<lparr>bm_queue_pool := (bm_queue_pool s)[slot_q (topic s) i := q]\<rparr>, env)"
      "queue_items q = []" "queue_inv q" "q_item_size q = sz" "q_capacity q = cap"
      by (auto simp: topic_slot_def)
    have valid: "bus_valid (sl_queue (topic_slot s i))" using ok(2) i(1) by (simp add: channels_ok_def topic_slot_def)
    let ?p = "(bm_queue_pool s)[slot_q (topic s) i := q]"
    obtain sid sg where r: "sg_register i (topic s) = (Some sid, sg)" "registrations_ok sg" "sid = slot_id sg i" "slot_used sg i"
      using register_takes [OF ok(3) i(1,2)] by blast
    have sg: "sg = snd (sg_register i (topic s))" using r(1) by simp
    let ?s = "s\<lparr>bm_queue_pool := ?p, topic := sg\<rparr>"
    have body: "?body env ?m = Some (Some sid, ?s\<lparr>bm_mutex_pool := m\<rparr>, env)"
      using i subscribe_from_free [of 0 i ?n ?m env] q(1) valid r(1)
      by (simp add: topic_slot_def slot_used_def bus_purge_def state_commute)
    have "subscribe env s = Some (Some sid, ?s, env)" unfolding lock by (rule m [rule_format]) (use body in \<open>simp add: sg\<close>)
    moreover have "channels_ok sz cap sg ?p"
      using channels_update(1) [OF ok(2) i(1) q(3-5)] channels_cong(1) [of sz cap "topic s" ?p sg] by (simp add: sg)
    then have "topic_ok sz cap ?s" using assms r(2) by (simp add: topic_ok_def mutex_free_def sg)
    moreover have "topic_abs s sid = None \<and> topic_abs ?s = (topic_abs s)(sid \<mapsto> [])"
      using abs_register [OF ok(3) i(1,2) r(1), of ?p] abs_unused [OF ok(2,3) i(1,2) q(3-5)] channels_update(2) [OF ok(2) i(1) q(3-5) i(1)] q(2)
      by (simp add: topic_abs_def)
    moreover have "sid \<noteq> invalid_subscriber_id" using r(2-4) by (auto simp: registrations_ok_def slot_used_def)
    ultimately show ?thesis using True dom by (auto simp: refined_def sg)
  qed
qed

section \<open>Construction\<close>

definition fresh_queue :: "nat \<Rightarrow> nat \<Rightarrow> bm_queue" where
  "fresh_queue sz cap = \<lparr>q_buf = replicate (cap * sz) 0, q_item_size = sz, q_capacity = cap, q_head = 0, q_tail = 0, q_count = 0\<rparr>"

definition fresh_slot :: "nat \<Rightarrow> subscriber_slot" where
  "fresh_slot h = \<lparr>sl_generation = 0, sl_in_use = False, sl_receivers = 0, sl_queue = \<lparr>bus_valid = True, bus_handle = Some h\<rparr>\<rparr>"

lemma bus_create_takes:
  assumes "osal_bus_create sz cap s = (bus, s1)" "bus_valid bus" "queue_pool_ok s"
  shows "\<exists>h. bus = \<lparr>bus_valid = True, bus_handle = Some h\<rparr> \<and> h < length (bm_queue_pool s) \<and> h \<notin> queue_used s \<and>
    queue_used s1 = insert h (queue_used s) \<and> queue_pool_ok s1 \<and> bm_queue_pool s1 = (bm_queue_pool s)[h := fresh_queue sz cap]"
proof -
  obtain r h s' where c: "osal_queue_create None (replicate (cap * sz) 0) sz cap s = (r, h, s')" by (rule prod_cases3)
  have r: "r = Ok" "s1 = s'" "bus = \<lparr>bus_valid = True, bus_handle = h\<rparr>" using assms(1,2) c by (auto simp: osal_bus_create_def)
  then have "\<exists>i. h = Some i \<and> bm_queue_pool s1 = (bm_queue_pool s)[i := fresh_queue sz cap]"
    using c by (cases "first_free (bm_queue_used_bits s) 0 (length (bm_queue_pool s))") (simp_all add: osal_queue_create_def fresh_queue_def, force)
  then obtain i where h: "h = Some i" "bm_queue_pool s1 = (bm_queue_pool s)[i := fresh_queue sz cap]" by blast
  have "queue_alloc (replicate (cap * sz) 0) sz cap s = (Some i, s1)" using c r h by (simp add: queue_alloc_def)
  from queues.alloc_some [OF assms(3) this] show ?thesis using r h by blast
qed

lemma create_slots_fresh:
  assumes "create_slots n sz cap s = (sls, s1)" "\<forall>sl \<in> set sls. bus_valid (sl_queue sl)" "queue_pool_ok s"
  shows "\<exists>hs. sls = map fresh_slot hs \<and> length hs = n \<and> distinct hs \<and> set hs \<inter> queue_used s = {} \<and>
    queue_used s1 = queue_used s \<union> set hs \<and> queue_pool_ok s1 \<and> length (bm_queue_pool s1) = length (bm_queue_pool s) \<and>
    (\<forall>h. h < length (bm_queue_pool s) \<longrightarrow> bm_queue_pool s1 ! h = (if h \<in> set hs then fresh_queue sz cap else bm_queue_pool s ! h))"
  using assms
proof (induction n arbitrary: s sls)
  case (Suc n)
  obtain bus s' where b: "osal_bus_create sz cap s = (bus, s')" by fastforce
  obtain sls' where sl: "create_slots n sz cap s' = (sls', s1)"
    "sls = \<lparr>sl_generation = 0, sl_in_use = False, sl_receivers = 0, sl_queue = bus\<rparr> # sls'"
    using Suc.prems(1) b by (auto split: prod.splits)
  then obtain h where h: "bus = \<lparr>bus_valid = True, bus_handle = Some h\<rparr>" "h < length (bm_queue_pool s)" "h \<notin> queue_used s"
    "queue_used s' = insert h (queue_used s)" "queue_pool_ok s'" "bm_queue_pool s' = (bm_queue_pool s)[h := fresh_queue sz cap]"
    using bus_create_takes [OF b _ Suc.prems(3)] Suc.prems(2) by auto
  obtain hs where hs: "sls' = map fresh_slot hs" "length hs = n" "distinct hs" "set hs \<inter> queue_used s' = {}"
    "queue_used s1 = queue_used s' \<union> set hs" "queue_pool_ok s1" "length (bm_queue_pool s1) = length (bm_queue_pool s')"
    "\<And>h. h < length (bm_queue_pool s') \<Longrightarrow> bm_queue_pool s1 ! h = (if h \<in> set hs then fresh_queue sz cap else bm_queue_pool s' ! h)"
    using Suc.IH [OF sl(1) _ h(5)] Suc.prems(2) sl(2) by auto
  show ?case
  proof (intro exI [of _ "h # hs"] conjI allI impI)
    show "sls = map fresh_slot (h # hs)" using sl(2) hs(1) h(1) by (simp add: fresh_slot_def)
    fix k assume "k < length (bm_queue_pool s)"
    then show "bm_queue_pool s1 ! k = (if k \<in> set (h # hs) then fresh_queue sz cap else bm_queue_pool s ! k)"
      using hs(8) [of k] h(6) by (auto simp: nth_list_update)
  qed (use hs h in auto)
qed simp

lemma fresh_queue_inv: "0 < cap \<Longrightarrow> queue_inv (fresh_queue sz cap) \<and> queue_items (fresh_queue sz cap) = []"
  by (simp add: fresh_queue_def queue_inv_def queue_items_def)

lemma signal_create_ok:
  assumes "queue_pool_ok s" "0 < cap" "slots_fit n" "2 \<le> generations n" "topic_valid (osal_signal_create a n sz cap s)"
  shows "topic_ok sz cap (osal_signal_create a n sz cap s) \<and> topic_abs (osal_signal_create a n sz cap s) = Map.empty \<and>
    length (sg_slots (topic (osal_signal_create a n sz cap s))) = n"
proof -
  let ?s = "osal_signal_create a n sz cap s"
  obtain sls s1 where sl: "create_slots n sz cap s = (sls, s1)" by fastforce
  obtain r g s2 where mu: "osal_mutex_create None s1 = (r, g, s2)" by (rule prod_cases3)
  have s: "?s = s2\<lparr>topic := \<lparr>sg_slots = sls, sg_mutex = g, sg_mutex_valid = (r = Ok), sg_count = 0, sg_address = a\<rparr>\<rparr>"
    using sl mu by (simp add: osal_signal_create_def)
  have v: "r = Ok" "\<forall>sl \<in> set sls. bus_valid (sl_queue sl)" using assms(5) by (simp_all add: s topic_valid_def)
  obtain hs where hs: "sls = map fresh_slot hs" "length hs = n" "distinct hs" "queue_used s1 = queue_used s \<union> set hs"
    "queue_pool_ok s1" "length (bm_queue_pool s1) = length (bm_queue_pool s)"
    "\<And>h. h < length (bm_queue_pool s) \<Longrightarrow> h \<in> set hs \<Longrightarrow> bm_queue_pool s1 ! h = fresh_queue sz cap"
    using create_slots_fresh [OF sl v(2) assms(1)] by auto
  obtain i b u where "g = Some i" "i < length (bm_mutex_pool s1)" "\<not> mtx_flag (b ! i)" "length b = length (bm_mutex_pool s1)"
    "s2 = s1\<lparr>bm_mutex_used_bits := u, bm_mutex_pool := b\<rparr>"
    by (rule mutex_create_ok [OF mu [unfolded v(1)]])
  then have i: "g = Some i" "i < length (bm_mutex_pool s2)" "\<not> mtx_flag (bm_mutex_pool s2 ! i)" "bm_queue_pool s2 = bm_queue_pool s1"
    by simp_all
  have q: "slot_q (topic ?s) j = hs ! j" "sg_slots (topic ?s) ! j = fresh_slot (hs ! j)" if "j < n" for j
    using that hs(1,2) by (simp_all add: s slot_q_def fresh_slot_def)
  have used: "j < n \<Longrightarrow> hs ! j < length (bm_queue_pool s)" for j
    using queues.used_bounded [OF hs(5)] hs(2,4,6) nth_mem [of j hs] by auto
  have unused: "\<not> slot_used (topic ?s) j" for j using q(2) hs(1,2) by (auto simp: slot_used_def s fresh_slot_def)
  have len: "length (sg_slots (topic ?s)) = n" using hs by (simp add: s)
  have "channels_ok sz cap (topic ?s) (bm_queue_pool ?s)"
    unfolding channels_ok_def len
  proof (intro conjI allI impI inj_onI)
    fix j k assume "j \<in> {..<n}" "k \<in> {..<n}" "slot_q (topic ?s) j = slot_q (topic ?s) k"
    then show "j = k" using q(1) hs(2,3) by (simp add: nth_eq_iff_index_eq)
  next
    fix j assume j: "j < n"
    have fq: "bm_queue_pool ?s ! slot_q (topic ?s) j = fresh_queue sz cap"
      using hs(7) [OF used [OF j]] j hs(2) q(1) [OF j] i(4) by (simp add: s)
    then show "queue_inv (bm_queue_pool ?s ! slot_q (topic ?s) j)" "q_item_size (bm_queue_pool ?s ! slot_q (topic ?s) j) = sz"
      "q_capacity (bm_queue_pool ?s ! slot_q (topic ?s) j) = cap"
      using fresh_queue_inv [OF assms(2)] by (simp_all add: fresh_queue_def)
    show "slot_q (topic ?s) j < length (bm_queue_pool ?s)" using used [OF j] q(1) [OF j] i(4) hs(6) by (simp add: s)
    show "sl_queue (sg_slots (topic ?s) ! j) = \<lparr>bus_valid = True, bus_handle = Some (slot_q (topic ?s) j)\<rparr>"
      using q [OF j] by (simp add: fresh_slot_def)
  qed
  moreover have reg: "registrations_ok (topic ?s)"
    using assms(3,4) unused q(2) len by (simp add: registrations_ok_def generations_ok_def fresh_slot_def) (simp add: s)
  moreover have "mutex_free (sg_mutex (topic ?s)) ?s" "sg_mutex_valid (topic ?s)" using i v(1) by (auto simp: mutex_free_def s)
  moreover have "topic_abs ?s = Map.empty"
    using topic_subs_none [OF reg] unused by (simp add: topic_abs_def fun_eq_iff)
  ultimately show ?thesis using len by (simp add: topic_ok_def)
qed

lemma topic_do_refines:
  assumes "topic_ok sz cap s" "call_fits sz c"
  shows "\<exists>a s'. topic_do c env s = Some (a, s', env) \<and> refined sz cap c s a s'"
proof (cases c)
  case (Publish msg)
  then show ?thesis using publish_refines [OF assms(1), of msg env] assms(2) by auto
next
  case Subscribe
  then show ?thesis using subscribe_refines [OF assms(1), of env] by auto
next
  case (Unsubscribe sid)
  then show ?thesis using unsubscribe_refines [OF assms(1), of sid env] by auto
next
  case (Receive sid)
  then show ?thesis using try_receive_refines [OF assms(1), of sid env] by auto
next
  case Count
  then show ?thesis using subscriber_count_refines [OF assms(1), of env] by auto
qed

lemma topic_run_refines:
  assumes "topic_ok sz cap s" "\<forall>c \<in> set cs. call_fits sz c"
  shows "\<exists>as s'. topic_run cs env s = Some (as, s', env) \<and> topic_ok sz cap s' \<and>
    topic_trace (length (sg_slots (topic s))) cap cs (topic_abs s) as (topic_abs s')"
  using assms
proof (induction cs arbitrary: s)
  case (Cons c cs)
  then obtain a s1 where 1: "topic_do c env s = Some (a, s1, env)" "refined sz cap c s a s1"
    using topic_do_refines [of sz cap s c env] by auto
  then obtain as s' where "topic_run cs env s1 = Some (as, s', env)" "topic_ok sz cap s'"
    "topic_trace (length (sg_slots (topic s1))) cap cs (topic_abs s1) as (topic_abs s')"
    using Cons.IH [of s1] Cons.prems(2) by (auto simp: refined_def)
  then show ?case using 1 by (intro exI [of _ "a # as"] exI [of _ s']) (auto simp: refined_def)
qed simp

text \<open>
  C25: a topic whose channels and mutex could be created answers every sequence of calls, and answers
  as the specification allows: each subscriber has its own list of at most \<open>cap\<close> messages, oldest
  first; a publish reaches exactly the subscribers whose list has room and reports whether there was one; a new
  subscriber starts with an empty list and an id nobody has; an id that is gone receives nothing.
\<close>

theorem topic_refines:
  assumes "queue_pool_ok s" "0 < cap" "slots_fit n" "2 \<le> generations n" "topic_valid (osal_signal_create a n sz cap s)"
    and "\<forall>c \<in> set cs. call_fits sz c"
  shows "\<exists>as s'. topic_run cs env (osal_signal_create a n sz cap s) = Some (as, s', env) \<and>
    topic_ok sz cap s' \<and> topic_trace n cap cs Map.empty as (topic_abs s')"
  using topic_run_refines [of sz cap "osal_signal_create a n sz cap s" cs env] signal_create_ok [OF assms(1-5)] assms(6) by simp

definition topic_demo :: topic_state where
  "topic_demo = \<lparr>g_ticks = 0, bm_tasks = [], bm_current = -1, bm_last_scheduled = -1,
     bm_mutex_pool = [\<lparr>mtx_flag = False\<rparr>], bm_mutex_used_bits = [0], bm_sem_pool = [], bm_sem_used_bits = [],
     bm_queue_pool = replicate 2 (fresh_queue 0 1), bm_queue_used_bits = [0], bm_timer_pool = [],
     topic = two_slots\<rparr>"

theorem topic_refines_witness:
  "\<exists>as s'. topic_run [Subscribe, Publish [7], Receive 0x9E3779B97F4A6C14, Publish [8], Publish [9], Receive 0x9E3779B97F4A6C14, Count] []
      (osal_signal_create 0x1000 2 1 1 topic_demo) = Some (as, s', []) \<and>
    topic_trace 2 1 [Subscribe, Publish [7], Receive 0x9E3779B97F4A6C14, Publish [8], Publish [9], Receive 0x9E3779B97F4A6C14, Count]
      Map.empty as (topic_abs s')"
proof -
  have "queue_pool_ok topic_demo" by (simp add: queue_pool_ok_def topic_demo_def bits_cover_def)
  moreover have "slots_fit 2" "2 \<le> generations 2" by (simp_all add: slots_fit_def generations_def)
  moreover have "topic_valid (osal_signal_create 0x1000 2 1 1 topic_demo)" by code_simp
  ultimately show ?thesis
    using topic_refines [where s = topic_demo and cap = 1 and n = 2 and a = "0x1000" and sz = 1 and env = "[]" and cs = "[Subscribe, Publish [7], Receive 0x9E3779B97F4A6C14, Publish [8], Publish [9], Receive 0x9E3779B97F4A6C14, Count]"]
    by fastforce
qed

section \<open>Blocking receives\<close>

text \<open>
  A receive holds its slot without the lock while it waits. Until it is done the slot cannot be given
  up, so the channel it waits on stays that of its subscriber.
\<close>

lemma locked_all:
  assumes "mutex_free (sg_mutex (topic s)) s" "\<And>m. body env (s\<lparr>bm_mutex_pool := m\<rparr>) = Some (r, s'\<lparr>bm_mutex_pool := m\<rparr>, env)"
    "sg_mutex (topic s') = sg_mutex (topic s)" "bm_mutex_pool s' = bm_mutex_pool s"
  shows "topic_locked body env s = Some (r, s', env)"
  using locked_rule [OF assms(1), of body env] assms(2-4) by auto

lemma unsubscribe_busy:
  assumes "topic_valid s" "mutex_free (sg_mutex (topic s)) s" "sl_receivers (topic_slot s (slot_index_from_id (topic s) sid)) \<noteq> 0"
  shows "unsubscribe sid env s = Some (False, s, env)"
  unfolding unsubscribe_def using assms by (auto intro!: locked_all simp: Let_def topic_slot_def)

definition waiting :: "nat \<Rightarrow> topic_state \<Rightarrow> topic_state" where
  "waiting i s = s\<lparr>topic := sg_slot_update i (\<lambda>sl. sl\<lparr>sl_receivers := sl_receivers sl + 1\<rparr>) (topic s)\<rparr>"

lemma waiting_frame [simp]:
  "sg_mutex (topic (waiting i s)) = sg_mutex (topic s)" "bm_mutex_pool (waiting i s) = bm_mutex_pool s"
  "bm_queue_pool (waiting i s) = bm_queue_pool s" "length (sg_slots (topic (waiting i s))) = length (sg_slots (topic s))"
  "i < length (sg_slots (topic s)) \<Longrightarrow> sl_queue (topic_slot (waiting i s) i) = sl_queue (topic_slot s i)"
  "map sl_queue (sg_slots (topic (waiting i s))) = map sl_queue (sg_slots (topic s))"
  "sg_address (topic (waiting i s)) = sg_address (topic s)" "sg_mutex_valid (topic (waiting i s)) = sg_mutex_valid (topic s)"
  by (cases "i < length (sg_slots (topic s))"; simp add: waiting_def sg_slot_update_def topic_slot_def map_update list_update_same_conv list_update_beyond)+

lemma waiting_undo:
  assumes "i < length (sg_slots (topic s))"
  shows "sg_slot_update i (\<lambda>sl. sl\<lparr>sl_receivers := sl_receivers sl - 1\<rparr>) (topic (waiting i s)) = topic s"
    "(waiting i s)\<lparr>topic := topic s\<rparr> = s"
  using assms by (simp_all add: waiting_def sg_slot_update_def)

lemma waiting_valid: "topic_valid (waiting i s) = topic_valid s"
proof -
  have "(\<forall>sl \<in> set xs. bus_valid (sl_queue sl)) \<longleftrightarrow> (\<forall>b \<in> set (map sl_queue xs). bus_valid b)" for xs by simp
  note all = this
  show ?thesis unfolding topic_valid_def all waiting_frame ..
qed

lemma try_receive_eq:
  assumes "topic_ok sz cap s" "subscriber_id_matches_slot (topic s) sid i"
  shows "try_receive sid env s = Some (fst (queue_get (bm_queue_pool s ! slot_q (topic s) i)),
    s\<lparr>bm_queue_pool := (bm_queue_pool s)[slot_q (topic s) i := snd (queue_get (bm_queue_pool s ! slot_q (topic s) i))]\<rparr>, env)"
proof -
  have i: "slot_index_from_id (topic s) sid = i" "i < length (sg_slots (topic s))"
    using slot_of_match [OF assms(2)] assms(2) by (auto simp: subscriber_id_matches_slot_def Let_def split: if_splits)
  then have ch: "bus_handle (sl_queue (topic_slot s i)) = Some (slot_q (topic s) i)" "slot_q (topic s) i < length (bm_queue_pool s)"
    using assms(1) by (auto simp: topic_ok_def channels_ok_def topic_slot_def)
  show ?thesis
    unfolding try_receive_def using topic_ok_valid [OF assms(1)] assms i ch
    by (auto intro!: locked_all simp: topic_ok_def bus_try_receive_eq topic_slot_def state_commute Let_def)
qed

lemma receive_eq:
  assumes "topic_ok sz cap s" "subscriber_id_matches_slot (topic s) sid i"
  shows "receive sid NO_WAIT env s = try_receive sid env s"
proof -
  let ?h = "slot_q (topic s) i" let ?p = "(bm_queue_pool s)[?h := snd (queue_get (bm_queue_pool s ! ?h))]"
  let ?r = "fst (queue_get (bm_queue_pool s ! ?h))"
  have i: "slot_index_from_id (topic s) sid = i" "i < length (sg_slots (topic s))"
    using slot_of_match [OF assms(2)] assms(2) by (auto simp: subscriber_id_matches_slot_def Let_def split: if_splits)
  then have ch: "bus_handle (sl_queue (topic_slot s i)) = Some ?h" "?h < length (bm_queue_pool s)"
    using assms(1) by (auto simp: topic_ok_def channels_ok_def topic_slot_def)
  have free: "mutex_free (sg_mutex (topic s)) s" using assms(1) by (simp add: topic_ok_def)
  have 1: "topic_locked (\<lambda>env s.
          if i \<ge> length (sg_slots (topic s)) \<or> \<not> subscriber_id_matches_slot (topic s) sid i then Some (False, s, env)
          else Some (True, s\<lparr>topic := sg_slot_update i (\<lambda>sl. sl\<lparr>sl_receivers := sl_receivers sl + 1\<rparr>) (topic s)\<rparr>, env)) env s =
      Some (True, waiting i s, env)"
    using assms(2) i free by (intro locked_all) (simp_all add: waiting_def state_commute sg_slot_update_def)
  have 2: "bus_receive (sl_queue (topic_slot (waiting i s) i)) NO_WAIT env (waiting i s) = Some (?r, (waiting i s)\<lparr>bm_queue_pool := ?p\<rparr>, env)"
    using bus_try_receive_eq [of "sl_queue (topic_slot (waiting i s) i)" ?h "waiting i s" env] ch i by (simp add: bus_try_receive_def)
  have 3: "topic_locked (\<lambda>env s.
            Some ((), s\<lparr>topic := sg_slot_update i (\<lambda>sl. sl\<lparr>sl_receivers := sl_receivers sl - 1\<rparr>) (topic s)\<rparr>, env)) env
          ((waiting i s)\<lparr>bm_queue_pool := ?p\<rparr>) = Some ((), s\<lparr>bm_queue_pool := ?p\<rparr>, env)"
    using free waiting_undo(1) [OF i(2)]
    by (intro locked_all) (auto simp: mutex_free_def state_commute waiting_def sg_slot_update_def)
  show ?thesis
    unfolding try_receive_eq [OF assms] receive_def using topic_ok_valid [OF assms(1)] i 1 2 3 by simp
qed

text \<open>
  A receive that does not wait is \<open>try_receive\<close>; while a receive waits on slot \<open>i\<close>, in the state
  \<open>waiting i s\<close>, its id cannot be given up.
\<close>

theorem receive_holds_slot:
  assumes "topic_ok sz cap s"
  shows "receive sid NO_WAIT env s = try_receive sid env s \<and>
    (\<forall>i. slot_used (topic s) i \<longrightarrow> unsubscribe (slot_id (topic s) i) env (waiting i s) = Some (False, waiting i s, env))"
proof -
  have ok: "mutex_free (sg_mutex (topic s)) s" "channels_ok sz cap (topic s) (bm_queue_pool s)" "registrations_ok (topic s)" "topic_valid s"
    using assms topic_ok_valid by (auto simp: topic_ok_def)
  have "receive sid NO_WAIT env s = try_receive sid env s"
  proof (cases "subscriber_id_matches_slot (topic s) sid (slot_index_from_id (topic s) sid)")
    case True
    then show ?thesis by (rule receive_eq [OF assms])
  next
    case False
    then have "try_receive sid env s = Some (None, s, env)" "receive sid NO_WAIT env s = Some (None, s, env)"
      unfolding try_receive_def receive_def using ok(1,4) locked_all [OF ok(1), where r = False and s' = s]
      by (auto intro!: locked_all simp: Let_def)
    then show ?thesis by simp
  qed
  moreover have "unsubscribe (slot_id (topic s) i) env (waiting i s) = Some (False, waiting i s, env)" if i: "slot_used (topic s) i" for i
  proof (rule unsubscribe_busy)
    have l: "i < length (sg_slots (topic s))" using i by (simp add: slot_used_def)
    have "slot_index_from_id (topic s) (slot_id (topic s) i) = i"
      using matches_used [OF ok(3)] i by (intro slot_of_match) blast
    then have "slot_index_from_id (topic (waiting i s)) (slot_id (topic s) i) = i"
      unfolding slot_index_from_id_def waiting_frame .
    then show "sl_receivers (topic_slot (waiting i s) (slot_index_from_id (topic (waiting i s)) (slot_id (topic s) i))) \<noteq> 0"
      using l by (simp add: waiting_def sg_slot_update_def topic_slot_def)
    show "mutex_free (sg_mutex (topic (waiting i s))) (waiting i s)" using ok(1) by (simp add: mutex_free_def)
    show "topic_valid (waiting i s)" using ok(4) by (simp add: waiting_valid)
  qed
  ultimately show ?thesis by blast
qed

theorem receive_holds_slot_witness:
  "receive 0x9E3779B97F4A6C14 NO_WAIT [] (osal_signal_create 0x1000 2 1 1 topic_demo) =
   try_receive 0x9E3779B97F4A6C14 [] (osal_signal_create 0x1000 2 1 1 topic_demo)"
proof -
  have "queue_pool_ok topic_demo" by (simp add: queue_pool_ok_def topic_demo_def bits_cover_def)
  moreover have "slots_fit 2" "2 \<le> generations 2" by (simp_all add: slots_fit_def generations_def)
  moreover have "topic_valid (osal_signal_create 0x1000 2 1 1 topic_demo)" by code_simp
  ultimately have "topic_ok 1 1 (osal_signal_create 0x1000 2 1 1 topic_demo)" using signal_create_ok by simp
  from receive_holds_slot [OF this, of "0x9E3779B97F4A6C14" "[]"] show ?thesis by blast
qed

end
