(* ===== verification/Osal_Zero_Copy.thy ===== *)
theory Osal_Zero_Copy
  imports Bm_Queue Osal_Diagnostics Osal_Bus "HOL-Library.Multiset"
begin

text \<open>
  Zero-copy signals (\<^verbatim>\<open>include/osal/bus/zero_copy_signal.hpp\<close>): a pool of payload slots with
  reference counts, and a topic whose channels carry indices of the pool instead of messages. The
  operations are first whole, as one task runs them undisturbed, then split at their critical
  sections and interleaved, with what every task holds written down beside the state.

  A channel \<^verbatim>\<open>osal_bus<std::size_t, ...>\<close> is the kernel queue its handle names; sending and
  receiving without waiting are \<open>queue_put\<close> and \<open>queue_get\<close> on the bytes of the index.
\<close>

section \<open>Channels of indices\<close>

fun size_bytes :: "nat \<Rightarrow> nat \<Rightarrow> byte list" where
  "size_bytes 0 i = []"
| "size_bytes (Suc n) i = of_nat i # size_bytes n (i div 256)"

fun size_value :: "byte list \<Rightarrow> nat" where
  "size_value [] = 0"
| "size_value (b # bs) = unat b + 256 * size_value bs"

definition channel_send :: "nat \<Rightarrow> bm_queue \<Rightarrow> bool \<times> bm_queue" where
  "channel_send index q = queue_put (size_bytes 8 index) q"

definition channel_receive :: "bm_queue \<Rightarrow> nat option \<times> bm_queue" where
  "channel_receive q = (case queue_get q of (r, q') \<Rightarrow> (map_option size_value r, q'))"

definition channel_inv :: "bm_queue \<Rightarrow> bool" where
  "channel_inv q \<longleftrightarrow> queue_inv q \<and> q_item_size q = 8"

definition channel_items :: "bm_queue \<Rightarrow> nat list" where
  "channel_items q = map size_value (queue_items q)"

lemma size_roundtrip: "i < 256 ^ n \<Longrightarrow> size_value (size_bytes n i) = i"
proof (induction n arbitrary: i)
  case (Suc n)
  then have "i div 256 < 256 ^ n" by (simp add: less_mult_imp_div_less mult.commute)
  moreover have "unat (of_nat i :: byte) = i mod 256" by (simp add: unat_of_nat take_bit_eq_mod)
  ultimately show ?case using Suc.IH by simp
qed simp

lemma length_size_bytes [simp]: "length (size_bytes n i) = n"
  by (induction n arbitrary: i) simp_all

interpretation channel: bounded_fifo channel_inv "\<lambda>q i. i < 2 ^ 64" q_capacity channel_items channel_send channel_receive
proof unfold_locales
  fix q q' :: bm_queue and i b r
  show "channel_inv q \<Longrightarrow> length (channel_items q) \<le> q_capacity q"
    by (simp add: channel_inv_def channel_items_def queue_items_bounded)
  show "channel_inv q \<Longrightarrow> i < 2 ^ 64 \<Longrightarrow> channel_send i q = (b, q') \<Longrightarrow>
      (b, channel_items q') = lq_push (q_capacity q) i (channel_items q) \<and> channel_inv q' \<and>
      q_capacity q' = q_capacity q \<and> (\<lambda>i::nat. i < 2 ^ 64) = (\<lambda>i. i < 2 ^ 64)"
  proof -
    assume a: "channel_inv q" "i < 2 ^ 64" "channel_send i q = (b, q')"
    then have fit: "item_fits q (size_bytes 8 i)" and inv: "queue_inv q" and put: "queue_put (size_bytes 8 i) q = (b, q')"
      by (simp_all add: channel_inv_def item_fits_def channel_send_def)
    have "size_value (size_bytes 8 i) = i" using a(2) by (intro size_roundtrip) simp
    then show ?thesis
      using queue_put_law [OF inv fit put] queue_inv_put [OF inv fit put] a(1)
      by (auto simp: channel_inv_def channel_items_def lq_push_def split: if_splits)
  qed
  show "channel_inv q \<Longrightarrow> channel_receive q = (r, q') \<Longrightarrow>
      (r, channel_items q') = lq_pop (channel_items q) \<and> channel_inv q' \<and> q_capacity q' = q_capacity q \<and>
      (\<lambda>i::nat. i < 2 ^ 64) = (\<lambda>i. i < 2 ^ 64)"
  proof -
    assume a: "channel_inv q" "channel_receive q = (r, q')"
    obtain x where get: "queue_get q = (x, q')" and r: "r = map_option size_value x"
      using a(2) by (auto simp: channel_receive_def split: prod.splits)
    have inv: "queue_inv q" using a(1) by (simp add: channel_inv_def)
    show ?thesis
      using queue_get_law [OF inv get] queue_inv_get [OF inv get] a(1) r
      by (cases "queue_items q") (auto simp: channel_inv_def channel_items_def)
  qed
qed

section \<open>The message pool\<close>

text \<open>Payloads are opaque. \<^verbatim>\<open>references\<close> never wraps: \<^verbatim>\<open>retain_\<close> asserts it.\<close>

record pool_slot =
  ps_value :: nat
  ps_references :: nat

record pool_statistics =
  st_current :: nat
  st_high_water :: nat
  st_exhaustion :: nat

record message_pool =
  mp_valid :: bool
  mp_slots :: "pool_slot list"
  mp_stats :: pool_statistics
  mp_operations :: diagnostic_counters

fun free_slot :: "pool_slot list \<Rightarrow> nat \<Rightarrow> nat option" where
  "free_slot [] i = None"
| "free_slot (sl # sls) i = (if ps_references sl = 0 then Some i else free_slot sls (Suc i))"

definition set_references :: "nat \<Rightarrow> nat \<Rightarrow> message_pool \<Rightarrow> message_pool" where
  "set_references i n p = p\<lparr>mp_slots := (mp_slots p)[i := (mp_slots p ! i)\<lparr>ps_references := n\<rparr>]\<rparr>"

text \<open>A loan is the index of its slot; \<open>None\<close> is the empty loan.\<close>

definition pool_try_loan :: "message_pool \<Rightarrow> nat option \<times> message_pool" where
  "pool_try_loan p =
     (if \<not> mp_valid p then (None, p\<lparr>mp_operations := diag_attempt Not_initialized (mp_operations p)\<rparr>)
      else case free_slot (mp_slots p) 0 of
        Some i \<Rightarrow>
          (let p1 = set_references i 1 p;
               st = (mp_stats p1)\<lparr>st_current := st_current (mp_stats p1) + 1\<rparr>;
               st1 = (if st_current st > st_high_water st then st\<lparr>st_high_water := st_current st\<rparr> else st)
           in (Some i, p1\<lparr>mp_stats := st1, mp_operations := diag_attempt Ok (mp_operations p1)\<rparr>))
      | None \<Rightarrow>
          (None, p\<lparr>mp_stats := (mp_stats p)\<lparr>st_exhaustion := st_exhaustion (mp_stats p) + 1\<rparr>,
                   mp_operations := diag_attempt Out_of_resources (mp_operations p)\<rparr>))"

definition pool_retain :: "nat \<Rightarrow> message_pool \<Rightarrow> message_pool" where
  "pool_retain i p = set_references i (ps_references (mp_slots p ! i) + 1) p"

definition pool_release :: "nat \<Rightarrow> message_pool \<Rightarrow> message_pool" where
  "pool_release i p =
     (let p1 = set_references i (ps_references (mp_slots p ! i) - 1) p
      in if ps_references (mp_slots p1 ! i) = 0
         then p1\<lparr>mp_stats := (mp_stats p1)\<lparr>st_current := st_current (mp_stats p1) - 1\<rparr>\<rparr> else p1)"

text \<open>What producer and read loans do with their slot.\<close>

definition loan_get :: "nat option \<Rightarrow> message_pool \<Rightarrow> nat option" where
  "loan_get loan p = map_option (\<lambda>i. ps_value (mp_slots p ! i)) loan"

definition loan_release :: "nat option \<Rightarrow> message_pool \<Rightarrow> message_pool" where
  "loan_release loan p = (case loan of None \<Rightarrow> p | Some i \<Rightarrow> pool_release i p)"

definition loan_copy :: "nat option \<Rightarrow> message_pool \<Rightarrow> nat option \<times> message_pool" where
  "loan_copy loan p = (loan, case loan of None \<Rightarrow> p | Some i \<Rightarrow> pool_retain i p)"

definition loan_write :: "nat \<Rightarrow> nat \<Rightarrow> message_pool \<Rightarrow> message_pool" where
  "loan_write i v p = p\<lparr>mp_slots := (mp_slots p)[i := (mp_slots p ! i)\<lparr>ps_value := v\<rparr>]\<rparr>"

definition pool_snapshot :: "message_pool \<Rightarrow> pool_statistics" where
  "pool_snapshot p = (if \<not> mp_valid p then \<lparr>st_current = 0, st_high_water = 0, st_exhaustion = 0\<rparr> else mp_stats p)"

definition bus_diagnostic_gauge :: "nat \<Rightarrow> u32" where
  "bus_diagnostic_gauge n = (if n > 2 ^ 32 - 1 then - 1 else of_nat n)"

definition pool_diagnostics :: "message_pool \<Rightarrow> diagnostic_counters" where
  "pool_diagnostics p = (mp_operations p)\<lparr>dg_capacity := of_nat (length (mp_slots p)),
     dg_in_use := bus_diagnostic_gauge (st_current (pool_snapshot p)),
     dg_high_water := bus_diagnostic_gauge (st_high_water (pool_snapshot p))\<rparr>"

section \<open>The signal\<close>

datatype publish_status = delivered | partial | no_subscribers | full | invalid_loan

record publish_result =
  pr_accepted :: nat
  pr_dropped :: nat
  pr_status :: publish_status

record zc_slot =
  zs_valid :: bool
  zs_queue :: bm_queue
  zs_id :: subscriber_id
  zs_receivers :: nat
  zs_backlog :: nat

record zc_statistics =
  zt_drops :: nat
  zt_backlog :: nat
  zt_high_water :: nat
  zt_receivers :: nat

record zero_copy_signal =
  zc_pool :: message_pool
  zc_mutex_valid :: bool
  zc_slots :: "zc_slot list"
  zc_next_id :: subscriber_id
  zc_stats :: zc_statistics
  zc_operations :: diagnostic_counters

definition zc_valid :: "zero_copy_signal \<Rightarrow> bool" where
  "zc_valid z \<longleftrightarrow> zc_mutex_valid z \<and> mp_valid (zc_pool z) \<and> (\<forall>sl \<in> set (zc_slots z). zs_valid sl)"

definition zc_slot_update :: "nat \<Rightarrow> (zc_slot \<Rightarrow> zc_slot) \<Rightarrow> zero_copy_signal \<Rightarrow> zero_copy_signal" where
  "zc_slot_update k f z = z\<lparr>zc_slots := (zc_slots z)[k := f (zc_slots z ! k)]\<rparr>"

definition zc_try_loan :: "zero_copy_signal \<Rightarrow> nat option \<times> zero_copy_signal" where
  "zc_try_loan z =
     (if zc_valid z then case pool_try_loan (zc_pool z) of (r, p) \<Rightarrow> (r, z\<lparr>zc_pool := p\<rparr>) else (None, z))"

text \<open>The first slot with an id; \<open>invalid_subscriber_id\<close> marks the free ones.\<close>

fun find_id :: "subscriber_id \<Rightarrow> zc_slot list \<Rightarrow> nat \<Rightarrow> nat option" where
  "find_id sid [] k = None"
| "find_id sid (sl # sls) k = (if zs_id sl = sid then Some k else find_id sid sls (Suc k))"

definition zc_register :: "nat \<Rightarrow> zero_copy_signal \<Rightarrow> zero_copy_signal" where
  "zc_register k z = (zc_slot_update k (\<lambda>sl. sl\<lparr>zs_id := zc_next_id z\<rparr>) z)\<lparr>zc_next_id := zc_next_id z + 1\<rparr>"

definition zc_subscribe :: "zero_copy_signal \<Rightarrow> subscriber_id option \<times> zero_copy_signal" where
  "zc_subscribe z =
     (if \<not> zc_valid z then (None, z)
      else case find_id invalid_subscriber_id (zc_slots z) 0 of
        Some k \<Rightarrow> if zc_next_id z \<noteq> invalid_subscriber_id then (Some (zc_next_id z), zc_register k z) else (None, z)
      | None \<Rightarrow> (None, z))"

text \<open>\<^verbatim>\<open>while (slot.queue.try_receive(index)) pool_.release_(index);\<close> ends when the channel is empty.\<close>

fun drain_loop :: "nat \<Rightarrow> nat \<Rightarrow> zero_copy_signal \<Rightarrow> zero_copy_signal" where
  "drain_loop k 0 z = z"
| "drain_loop k (Suc fuel) z =
     (case channel_receive (zs_queue (zc_slots z ! k)) of
        (None, _) \<Rightarrow> z
      | (Some index, q) \<Rightarrow>
          drain_loop k fuel ((zc_slot_update k (\<lambda>sl. sl\<lparr>zs_queue := q\<rparr>) z)\<lparr>zc_pool := pool_release index (zc_pool z)\<rparr>))"

definition zc_drain :: "nat \<Rightarrow> zero_copy_signal \<Rightarrow> zero_copy_signal" where
  "zc_drain k z =
     (if \<not> zs_valid (zc_slots z ! k) then z
      else zc_slot_update k (\<lambda>sl. sl\<lparr>zs_backlog := 0\<rparr>) (drain_loop k (q_count (zs_queue (zc_slots z ! k))) z))"

definition zc_unsubscribe :: "subscriber_id \<Rightarrow> zero_copy_signal \<Rightarrow> bool \<times> zero_copy_signal" where
  "zc_unsubscribe sid z =
     (if \<not> zc_valid z \<or> sid = invalid_subscriber_id then (False, z)
      else case find_id sid (zc_slots z) 0 of
        None \<Rightarrow> (False, z)
      | Some k \<Rightarrow>
          if zs_receivers (zc_slots z ! k) \<noteq> 0 then (False, z)
          else (True, zc_drain k (zc_slot_update k (\<lambda>sl. sl\<lparr>zs_id := invalid_subscriber_id\<rparr>) z)))"

fun zc_destroy_from :: "nat \<Rightarrow> nat \<Rightarrow> zero_copy_signal \<Rightarrow> zero_copy_signal" where
  "zc_destroy_from k 0 z = z"
| "zc_destroy_from k (Suc j) z = zc_destroy_from (Suc k) j (zc_drain k z)"

text \<open>Publishing: the loan is retained for each subscriber before its index is queued.\<close>

definition zc_sent :: "nat \<Rightarrow> bm_queue \<Rightarrow> zero_copy_signal \<Rightarrow> zero_copy_signal" where
  "zc_sent k q z = zc_slot_update k (\<lambda>sl. sl\<lparr>zs_queue := q, zs_backlog := zs_backlog sl + 1\<rparr>) z"

definition zc_dropped :: "nat \<Rightarrow> zero_copy_signal \<Rightarrow> zero_copy_signal" where
  "zc_dropped index z = z\<lparr>zc_pool := pool_release index (zc_pool z),
     zc_stats := (zc_stats z)\<lparr>zt_drops := zt_drops (zc_stats z) + 1\<rparr>, zc_operations := diag_dropped (zc_operations z)\<rparr>"

fun publish_slots :: "nat \<Rightarrow> nat \<Rightarrow> nat \<Rightarrow> nat \<Rightarrow> nat \<Rightarrow> zero_copy_signal \<Rightarrow> nat \<times> nat \<times> zero_copy_signal" where
  "publish_slots index k 0 acc drp z = (acc, drp, z)"
| "publish_slots index k (Suc j) acc drp z =
     (if zs_id (zc_slots z ! k) \<noteq> invalid_subscriber_id then
        let z1 = z\<lparr>zc_pool := pool_retain index (zc_pool z)\<rparr> in
        case channel_send index (zs_queue (zc_slots z1 ! k)) of
          (True, q) \<Rightarrow> publish_slots index (Suc k) j (acc + 1) drp (zc_sent k q z1)
        | (False, _) \<Rightarrow> publish_slots index (Suc k) j acc (drp + 1) (zc_dropped index z1)
      else publish_slots index (Suc k) j acc drp z)"

definition update_high_water :: "zero_copy_signal \<Rightarrow> zero_copy_signal" where
  "update_high_water z =
     (let backlog = sum_list (map zs_backlog (zc_slots z)) in
      if backlog > zt_high_water (zc_stats z) then z\<lparr>zc_stats := (zc_stats z)\<lparr>zt_high_water := backlog\<rparr>\<rparr> else z)"

definition publish_end :: "nat \<Rightarrow> nat \<Rightarrow> nat \<Rightarrow> zero_copy_signal \<Rightarrow> publish_result \<times> nat option \<times> zero_copy_signal" where
  "publish_end index acc drp z =
     (let z1 = update_high_water z;
          status = (if acc \<noteq> 0 then if drp = 0 then delivered else partial else if drp = 0 then no_subscribers else full);
          z2 = (if acc \<noteq> 0 then z1\<lparr>zc_pool := pool_release index (zc_pool z1)\<rparr> else z1)
      in (\<lparr>pr_accepted = acc, pr_dropped = drp, pr_status = status\<rparr>, if acc \<noteq> 0 then None else Some index,
          z2\<lparr>zc_operations := diag_attempt (if acc \<noteq> 0 then Ok else Would_block) (zc_operations z2)\<rparr>))"

text \<open>
  The argument is the index of the loan, \<open>None\<close> for a loan that is empty or of another pool; the
  result also says what the caller is left with.
\<close>

definition publish_zero_copy :: "nat option \<Rightarrow> zero_copy_signal \<Rightarrow> publish_result \<times> nat option \<times> zero_copy_signal" where
  "publish_zero_copy loan z =
     (case loan of
        Some index \<Rightarrow>
          if zc_valid z then case publish_slots index 0 (length (zc_slots z)) 0 0 z of (acc, drp, z1) \<Rightarrow> publish_end index acc drp z1
          else (\<lparr>pr_accepted = 0, pr_dropped = 0, pr_status = invalid_loan\<rparr>, loan,
                z\<lparr>zc_operations := diag_attempt Invalid_argument (zc_operations z)\<rparr>)
      | None \<Rightarrow>
          (\<lparr>pr_accepted = 0, pr_dropped = 0, pr_status = invalid_loan\<rparr>, loan,
           z\<lparr>zc_operations := diag_attempt Invalid_argument (zc_operations z)\<rparr>))"

text \<open>Receiving: choose the slot, take from its channel, account for it.\<close>

definition zc_select :: "nat \<Rightarrow> zero_copy_signal \<Rightarrow> zero_copy_signal" where
  "zc_select k z = zc_slot_update k (\<lambda>sl. sl\<lparr>zs_receivers := zs_receivers sl + 1\<rparr>) z"

definition zc_settle :: "nat \<Rightarrow> bool \<Rightarrow> zero_copy_signal \<Rightarrow> zero_copy_signal" where
  "zc_settle k received z =
     zc_slot_update k (\<lambda>sl. let sl1 = sl\<lparr>zs_receivers := zs_receivers sl - 1\<rparr>
       in if received then sl1\<lparr>zs_backlog := zs_backlog sl1 - 1\<rparr> else sl1) z"

definition zc_take :: "nat \<Rightarrow> zero_copy_signal \<Rightarrow> nat option \<times> zero_copy_signal" where
  "zc_take k z = (case channel_receive (zs_queue (zc_slots z ! k)) of
     (r, q) \<Rightarrow> (r, zc_slot_update k (\<lambda>sl. sl\<lparr>zs_queue := q\<rparr>) z))"

text \<open>On success the new loan replaces what \<^verbatim>\<open>out\<close> held, which is released.\<close>

definition receive_loan :: "subscriber_id \<Rightarrow> nat option \<Rightarrow> zero_copy_signal \<Rightarrow> bool \<times> nat option \<times> zero_copy_signal" where
  "receive_loan sid out z =
     (if \<not> zc_valid z \<or> sid = invalid_subscriber_id then (False, out, z)
      else case find_id sid (zc_slots z) 0 of
        None \<Rightarrow> (False, out, z)
      | Some k \<Rightarrow>
          (case zc_take k (zc_select k z) of
             (None, z1) \<Rightarrow> (False, out, zc_settle k False z1)
           | (Some index, z1) \<Rightarrow>
               (let z2 = zc_settle k True z1 in (True, Some index, z2\<lparr>zc_pool := loan_release out (zc_pool z2)\<rparr>))))"

definition zc_snapshot :: "zero_copy_signal \<Rightarrow> zc_statistics" where
  "zc_snapshot z =
     (if \<not> zc_valid z then \<lparr>zt_drops = 0, zt_backlog = 0, zt_high_water = 0, zt_receivers = 0\<rparr>
      else (zc_stats z)\<lparr>zt_backlog := zt_backlog (zc_stats z) + sum_list (map zs_backlog (zc_slots z)),
             zt_receivers := zt_receivers (zc_stats z) + sum_list (map zs_receivers (zc_slots z))\<rparr>)"

definition zc_diagnostics :: "nat \<Rightarrow> zero_copy_signal \<Rightarrow> diagnostic_counters" where
  "zc_diagnostics per_sub_capacity z =
     (let g = zc_snapshot z; in_use = bus_diagnostic_gauge (zt_backlog g)
      in (zc_operations z)\<lparr>dg_capacity := of_nat (length (zc_slots z) * per_sub_capacity), dg_in_use := in_use,
           dg_backlog := in_use, dg_high_water := bus_diagnostic_gauge (zt_high_water g)\<rparr>)"

section \<open>Interleaving\<close>

text \<open>
  Tasks run the operations concurrently. The pool's mutex makes each of its operations one step;
  publishing and unsubscribing hold the topic's mutex through several steps, while receivers take
  from the channels without it. \<open>owner\<close> says what the holder of the topic's mutex is doing:
  publishing the loan \<open>index\<close> at slot \<open>k\<close>, with the reference for that slot taken or not, or draining
  slot \<open>k\<close>, with an index taken from the channel and not yet released, or not. The other fields list what
  the tasks hold: producer loans, read loans, indices taken from the channel of a slot by a receive that is not
  finished, and slots on which a receive waits.
\<close>

datatype zc_owner = Free | Publishing nat nat bool nat nat | Draining nat "nat option"

record zc_world =
  sys :: zero_copy_signal
  owner :: zc_owner
  producers :: "nat multiset"
  readers :: "nat multiset"
  inflight :: "(nat \<times> nat) multiset"
  waiting_on :: "nat multiset"

definition writable :: "nat \<Rightarrow> zc_world \<Rightarrow> bool" where
  "writable i w \<longleftrightarrow> i \<in># producers w \<and> (\<forall>k b a d. owner w \<noteq> Publishing i k b a d)"

definition on_pool :: "(message_pool \<Rightarrow> message_pool) \<Rightarrow> zero_copy_signal \<Rightarrow> zero_copy_signal" where
  "on_pool f z = z\<lparr>zc_pool := f (zc_pool z)\<rparr>"

abbreviation slot_at :: "zc_world \<Rightarrow> nat \<Rightarrow> zc_slot" where
  "slot_at w k \<equiv> zc_slots (sys w) ! k"

inductive zc_step :: "zc_world \<Rightarrow> zc_world \<Rightarrow> bool" where
  loan: "zc_try_loan (sys w) = (Some i, z) \<Longrightarrow> zc_step w (w\<lparr>sys := z, producers := producers w + {#i#}\<rparr>)"
| loan_none: "zc_try_loan (sys w) = (None, z) \<Longrightarrow> zc_step w (w\<lparr>sys := z\<rparr>)"
| writes: "writable i w \<Longrightarrow> zc_step w (w\<lparr>sys := on_pool (loan_write i v) (sys w)\<rparr>)"
| discard: "writable i w \<Longrightarrow> zc_step w (w\<lparr>sys := on_pool (loan_release (Some i)) (sys w), producers := producers w - {#i#}\<rparr>)"
| subscribes: "owner w = Free \<Longrightarrow> zc_subscribe (sys w) = (r, z) \<Longrightarrow> zc_step w (w\<lparr>sys := z\<rparr>)"
| publish_begin: "owner w = Free \<Longrightarrow> zc_valid (sys w) \<Longrightarrow> writable i w \<Longrightarrow> zc_step w (w\<lparr>owner := Publishing i 0 False 0 0\<rparr>)"
| publish_skip: "owner w = Publishing i k False a d \<Longrightarrow> k < length (zc_slots (sys w)) \<Longrightarrow> zs_id (slot_at w k) = invalid_subscriber_id \<Longrightarrow>
    zc_step w (w\<lparr>owner := Publishing i (Suc k) False a d\<rparr>)"
| publish_retain: "owner w = Publishing i k False a d \<Longrightarrow> k < length (zc_slots (sys w)) \<Longrightarrow> zs_id (slot_at w k) \<noteq> invalid_subscriber_id \<Longrightarrow>
    zc_step w (w\<lparr>sys := on_pool (pool_retain i) (sys w), owner := Publishing i k True a d\<rparr>)"
| publish_send: "owner w = Publishing i k True a d \<Longrightarrow> channel_send i (zs_queue (slot_at w k)) = (True, q) \<Longrightarrow>
    zc_step w (w\<lparr>sys := zc_sent k q (sys w), owner := Publishing i (Suc k) False (a + 1) d\<rparr>)"
| publish_drop: "owner w = Publishing i k True a d \<Longrightarrow> channel_send i (zs_queue (slot_at w k)) = (False, q) \<Longrightarrow>
    zc_step w (w\<lparr>sys := zc_dropped i (sys w), owner := Publishing i (Suc k) False a (d + 1)\<rparr>)"
| publish_kept: "owner w = Publishing i (length (zc_slots (sys w))) False a d \<Longrightarrow> publish_end i a d (sys w) = (r, Some i, z) \<Longrightarrow>
    zc_step w (w\<lparr>sys := z, owner := Free\<rparr>)"
| publish_done: "owner w = Publishing i (length (zc_slots (sys w))) False a d \<Longrightarrow> publish_end i a d (sys w) = (r, None, z) \<Longrightarrow>
    zc_step w (w\<lparr>sys := z, owner := Free, producers := producers w - {#i#}\<rparr>)"
| receive_select: "owner w = Free \<Longrightarrow> k < length (zc_slots (sys w)) \<Longrightarrow> zs_id (slot_at w k) \<noteq> invalid_subscriber_id \<Longrightarrow>
    zc_step w (w\<lparr>sys := zc_select k (sys w), waiting_on := waiting_on w + {#k#}\<rparr>)"
| receive_take: "k \<in># waiting_on w \<Longrightarrow> zc_take k (sys w) = (Some i, z) \<Longrightarrow>
    zc_step w (w\<lparr>sys := z, waiting_on := waiting_on w - {#k#}, inflight := inflight w + {#(k, i)#}\<rparr>)"
| receive_timeout: "owner w = Free \<Longrightarrow> k \<in># waiting_on w \<Longrightarrow>
    zc_step w (w\<lparr>sys := zc_settle k False (sys w), waiting_on := waiting_on w - {#k#}\<rparr>)"
| receive_done: "owner w = Free \<Longrightarrow> (k, i) \<in># inflight w \<Longrightarrow>
    zc_step w (w\<lparr>sys := zc_settle k True (sys w), inflight := inflight w - {#(k, i)#}, readers := readers w + {#i#}\<rparr>)"
| copies: "i \<in># readers w \<Longrightarrow> zc_step w (w\<lparr>sys := on_pool (\<lambda>p. snd (loan_copy (Some i) p)) (sys w), readers := readers w + {#i#}\<rparr>)"
| releases: "i \<in># readers w \<Longrightarrow> zc_step w (w\<lparr>sys := on_pool (loan_release (Some i)) (sys w), readers := readers w - {#i#}\<rparr>)"
| unsubscribe_begin: "owner w = Free \<Longrightarrow> k < length (zc_slots (sys w)) \<Longrightarrow> zs_id (slot_at w k) \<noteq> invalid_subscriber_id \<Longrightarrow>
    zs_receivers (slot_at w k) = 0 \<Longrightarrow>
    zc_step w (w\<lparr>sys := zc_slot_update k (\<lambda>sl. sl\<lparr>zs_id := invalid_subscriber_id\<rparr>) (sys w), owner := Draining k None\<rparr>)"
| drain_take: "owner w = Draining k None \<Longrightarrow> zc_take k (sys w) = (Some i, z) \<Longrightarrow> zc_step w (w\<lparr>sys := z, owner := Draining k (Some i)\<rparr>)"
| drain_release: "owner w = Draining k (Some i) \<Longrightarrow> zc_step w (w\<lparr>sys := on_pool (pool_release i) (sys w), owner := Draining k None\<rparr>)"
| drain_done: "owner w = Draining k None \<Longrightarrow> zc_take k (sys w) = (None, z) \<Longrightarrow>
    zc_step w (w\<lparr>sys := zc_slot_update k (\<lambda>sl. sl\<lparr>zs_backlog := 0\<rparr>) (sys w), owner := Free\<rparr>)"

section \<open>The pool counts its references\<close>

text \<open>Every reference to a slot is held by somebody: \<open>H\<close> is what is held, with multiplicity.\<close>

definition pool_holds :: "message_pool \<Rightarrow> nat multiset \<Rightarrow> bool" where
  "pool_holds p H \<longleftrightarrow> set_mset H \<subseteq> {..<length (mp_slots p)} \<and>
     (\<forall>i < length (mp_slots p). ps_references (mp_slots p ! i) = count H i) \<and> st_current (mp_stats p) = card (set_mset H)"

lemma free_slot_Some: "free_slot sls j = Some i \<Longrightarrow> j \<le> i \<and> i < j + length sls \<and> ps_references (sls ! (i - j)) = 0"
  by (induction sls j rule: free_slot.induct) (auto split: if_splits simp: Suc_diff_le)

lemma free_slot_None: "free_slot sls j = None \<longleftrightarrow> (\<forall>sl \<in> set sls. ps_references sl \<noteq> 0)"
  by (induction sls j rule: free_slot.induct) auto

lemma try_loan_holds:
  assumes "pool_holds p H" "pool_try_loan p = (Some i, p')"
  shows "pool_holds p' (H + {#i#}) \<and> i \<notin># H \<and> i < length (mp_slots p)"
proof -
  have f: "free_slot (mp_slots p) 0 = Some i" using assms(2) by (auto simp: pool_try_loan_def Let_def split: if_splits option.splits)
  then have i: "i < length (mp_slots p)" "ps_references (mp_slots p ! i) = 0" using free_slot_Some [OF f] by auto
  then have "count H i = 0" using assms(1) by (simp add: pool_holds_def)
  then have n: "i \<notin># H" by (simp add: not_in_iff)
  have p': "mp_slots p' = (mp_slots p)[i := (mp_slots p ! i)\<lparr>ps_references := 1\<rparr>]" "st_current (mp_stats p') = st_current (mp_stats p) + 1"
    using assms(2) f by (auto simp: pool_try_loan_def Let_def set_references_def split: if_splits)
  show ?thesis
    using assms(1) n i unfolding pool_holds_def p' by (auto simp: nth_list_update not_in_iff)
qed

lemma try_loan_none: "pool_holds p H \<Longrightarrow> pool_try_loan p = (None, p') \<Longrightarrow> pool_holds p' H \<and> mp_slots p' = mp_slots p"
  by (auto simp: pool_try_loan_def Let_def pool_holds_def split: if_splits option.splits)

lemma retain_holds: "pool_holds p H \<Longrightarrow> i \<in># H \<Longrightarrow> pool_holds (pool_retain i p) (H + {#i#})"
  by (auto simp: pool_holds_def pool_retain_def set_references_def nth_list_update insert_absorb)

lemma release_holds:
  assumes "pool_holds p H" "i \<in># H"
  shows "pool_holds (pool_release i p) (H - {#i#})"
proof -
  have i: "i < length (mp_slots p)" using assms by (auto simp: pool_holds_def)
  then have r: "ps_references (mp_slots p ! i) = count H i" using assms(1) by (simp add: pool_holds_def)
  have c: "count H i > 0" using assms(2) by simp
  show ?thesis
  proof (cases "count H i = 1")
    case True
    then have "set_mset (H - {#i#}) = set_mset H - {i}" by (auto simp: set_mset_diff in_diff_count split: if_splits)
    moreover have "card (set_mset H - {i}) = card (set_mset H) - 1" using assms(2) by simp
    ultimately show ?thesis
      using True assms(1) i r unfolding pool_holds_def
      by (auto simp: pool_release_def set_references_def Let_def nth_list_update)
  next
    case False
    with c have c1: "1 < count H i" by linarith
    then have "set_mset (H - {#i#}) = set_mset H" by (auto simp: set_mset_diff not_in_iff)
    then show ?thesis
      using c1 assms(1) i r unfolding pool_holds_def
      by (auto simp: pool_release_def set_references_def Let_def nth_list_update)
  qed
qed

lemma write_holds: "pool_holds p H \<Longrightarrow> pool_holds (loan_write i v p) H"
  by (cases "i < length (mp_slots p)") (auto simp: pool_holds_def loan_write_def nth_list_update list_update_beyond)

lemma set_references_value [simp]: "ps_value (mp_slots (set_references i n p) ! j) = ps_value (mp_slots p ! j)"
  by (cases "i < length (mp_slots p)"; cases "j = i") (auto simp: set_references_def list_update_beyond)

lemma pool_values [simp]:
  "ps_value (mp_slots (pool_retain i p) ! j) = ps_value (mp_slots p ! j)"
  "ps_value (mp_slots (pool_release i p) ! j) = ps_value (mp_slots p ! j)"
  by (simp_all add: pool_retain_def pool_release_def Let_def)

lemma try_loan_value: "pool_try_loan p = (r, p') \<Longrightarrow> ps_value (mp_slots p' ! j) = ps_value (mp_slots p ! j)"
  by (auto simp: pool_try_loan_def Let_def split: if_splits option.splits)

lemma pool_length [simp]:
  "length (mp_slots (pool_retain i p)) = length (mp_slots p)" "length (mp_slots (pool_release i p)) = length (mp_slots p)"
  "length (mp_slots (loan_write i v p)) = length (mp_slots p)"
  by (simp_all add: pool_retain_def pool_release_def set_references_def loan_write_def Let_def)

lemma try_loan_length: "pool_try_loan p = (r, p') \<Longrightarrow> length (mp_slots p') = length (mp_slots p)"
  by (auto simp: pool_try_loan_def set_references_def Let_def split: if_splits option.splits)

section \<open>What is held\<close>

definition queued :: "zero_copy_signal \<Rightarrow> nat multiset" where
  "queued z = sum_list (map (\<lambda>sl. mset (channel_items (zs_queue sl))) (zc_slots z))"

fun owner_ref :: "zc_owner \<Rightarrow> nat multiset" where
  "owner_ref (Publishing i k True a d) = {#i#}"
| "owner_ref (Draining k (Some i)) = {#i#}"
| "owner_ref _ = {#}"

text \<open>References somebody can read through, now or later; producer loans are the others.\<close>

definition shared :: "zc_world \<Rightarrow> nat multiset" where
  "shared w = readers w + queued (sys w) + image_mset snd (inflight w)"

definition held :: "zc_world \<Rightarrow> nat multiset" where
  "held w = producers w + shared w + owner_ref (owner w)"

lemma sum_list_update:
  fixes f :: "'a \<Rightarrow> 'b::comm_monoid_add"
  assumes "k < length xs"
  shows "sum_list (map f (xs[k := y])) + f (xs ! k) = sum_list (map f xs) + f y"
  using assms
proof (induction xs arbitrary: k)
  case (Cons x xs)
  then show ?case by (cases k) (simp_all add: ac_simps)
qed simp

lemma queued_update:
  assumes "k < length (zc_slots z)"
  shows "queued (zc_slot_update k f z) + mset (channel_items (zs_queue (zc_slots z ! k))) =
    queued z + mset (channel_items (zs_queue (f (zc_slots z ! k))))"
  unfolding queued_def zc_slot_update_def using sum_list_update [OF assms] by simp

text \<open>The channels of the slots and their gauges.\<close>

definition slot_ok :: "zc_slot \<Rightarrow> nat \<Rightarrow> nat \<Rightarrow> bool \<Rightarrow> bool" where
  "slot_ok sl waits taken draining \<longleftrightarrow> channel_inv (zs_queue sl) \<and> zs_receivers sl = waits + taken \<and>
     (if draining then zs_receivers sl = 0 \<and> zs_id sl = invalid_subscriber_id
      else zs_backlog sl = length (channel_items (zs_queue sl)) + taken \<and>
        (zs_id sl = invalid_subscriber_id \<longrightarrow> zs_backlog sl = 0 \<and> zs_receivers sl = 0))"

fun draining :: "zc_owner \<Rightarrow> nat \<Rightarrow> bool" where
  "draining (Draining k j) l \<longleftrightarrow> k = l"
| "draining _ l \<longleftrightarrow> False"

definition taken_from :: "zc_world \<Rightarrow> nat \<Rightarrow> nat" where
  "taken_from w k = count (image_mset fst (inflight w)) k"

definition slots_ok :: "zc_world \<Rightarrow> bool" where
  "slots_ok w \<longleftrightarrow> length (mp_slots (zc_pool (sys w))) \<le> 2 ^ 64 \<and>
     set_mset (waiting_on w) \<subseteq> {..<length (zc_slots (sys w))} \<and> fst ` set_mset (inflight w) \<subseteq> {..<length (zc_slots (sys w))} \<and>
     (\<forall>k < length (zc_slots (sys w)). slot_ok (slot_at w k) (count (waiting_on w) k) (taken_from w k) (draining (owner w) k))"

text \<open>A slot out on a producer loan is nobody else's, until it is published.\<close>

fun owner_ok :: "zc_world \<Rightarrow> zc_owner \<Rightarrow> bool" where
  "owner_ok w (Publishing i k b a d) \<longleftrightarrow> i \<in># producers w \<and> k \<le> length (zc_slots (sys w)) \<and>
     (b \<longrightarrow> k < length (zc_slots (sys w)) \<and> zs_id (slot_at w k) \<noteq> invalid_subscriber_id) \<and> (a = 0 \<longrightarrow> i \<notin># shared w)"
| "owner_ok w (Draining k j) \<longleftrightarrow> k < length (zc_slots (sys w)) \<and> (\<forall>i. j = Some i \<longrightarrow> i \<notin># producers w)"
| "owner_ok w Free \<longleftrightarrow> True"

definition exclusive :: "zc_world \<Rightarrow> bool" where
  "exclusive w \<longleftrightarrow> owner_ok w (owner w) \<and> (\<forall>i. count (producers w) i \<le> 1) \<and> (\<forall>i. writable i w \<longrightarrow> i \<notin># shared w)"

definition zc_inv :: "zc_world \<Rightarrow> bool" where
  "zc_inv w \<longleftrightarrow> pool_holds (zc_pool (sys w)) (held w) \<and> slots_ok w \<and> exclusive w"

section \<open>Effects of the operations\<close>

lemma queued_same: "zs_queue (f (zc_slots z ! k)) = zs_queue (zc_slots z ! k) \<Longrightarrow> queued (zc_slot_update k f z) = queued z"
  by (cases "k < length (zc_slots z)") (use queued_update [of k z f] in \<open>auto simp: zc_slot_update_def list_update_beyond\<close>)

lemma queued_frame [simp]:
  "queued (z\<lparr>zc_pool := p\<rparr>) = queued z" "queued (z\<lparr>zc_stats := st\<rparr>) = queued z" "queued (z\<lparr>zc_operations := d\<rparr>) = queued z"
  "queued (z\<lparr>zc_next_id := n\<rparr>) = queued z"
  by (simp_all add: queued_def)

lemma queued_ops [simp]:
  "queued (on_pool f z) = queued z" "queued (zc_select k z) = queued z" "queued (zc_settle k b z) = queued z"
  "queued (zc_dropped i z) = queued z" "queued (zc_register k z) = queued z" "queued (update_high_water z) = queued z"
  "queued (zc_slot_update k (\<lambda>sl. sl\<lparr>zs_id := sid\<rparr>) z) = queued z" "queued (zc_slot_update k (\<lambda>sl. sl\<lparr>zs_backlog := n\<rparr>) z) = queued z"
  by (simp_all add: on_pool_def zc_select_def zc_settle_def zc_dropped_def zc_register_def update_high_water_def queued_same Let_def)

lemma pool_frame [simp]:
  "zc_pool (on_pool f z) = f (zc_pool z)" "zc_pool (zc_select k z) = zc_pool z" "zc_pool (zc_settle k b z) = zc_pool z"
  "zc_pool (zc_sent k q z) = zc_pool z" "zc_pool (zc_slot_update k g z) = zc_pool z"
  "zc_pool (zc_dropped i z) = pool_release i (zc_pool z)" "zc_pool (zc_register k z) = zc_pool z" "zc_pool (update_high_water z) = zc_pool z"
  by (simp_all add: on_pool_def zc_select_def zc_settle_def zc_sent_def zc_dropped_def zc_register_def update_high_water_def zc_slot_update_def Let_def)

lemma slots_frame [simp]:
  "zc_slots (on_pool f z) = zc_slots z" "zc_slots (zc_dropped i z) = zc_slots z" "zc_slots (update_high_water z) = zc_slots z"
  "length (zc_slots (zc_slot_update k g z)) = length (zc_slots z)" "length (zc_slots (zc_register k z)) = length (zc_slots z)"
  by (simp_all add: on_pool_def zc_dropped_def zc_register_def update_high_water_def zc_slot_update_def Let_def)

lemma slot_update_nth:
  "k < length (zc_slots z) \<Longrightarrow> zc_slots (zc_slot_update k f z) ! j = (if j = k then f (zc_slots z ! k) else zc_slots z ! j)"
  by (simp add: zc_slot_update_def nth_list_update)

lemma try_loan_frame:
  assumes "zc_try_loan z = (r, z')"
  shows "zc_slots z' = zc_slots z" "queued z' = queued z"
    "pool_try_loan (zc_pool z) = (r, zc_pool z') \<or> r = None \<and> z' = z"
  using assms by (auto simp: zc_try_loan_def split: if_splits prod.splits)

lemma find_id_Some: "find_id sid sls j = Some k \<Longrightarrow> j \<le> k \<and> k < j + length sls \<and> zs_id (sls ! (k - j)) = sid"
  by (induction sid sls j rule: find_id.induct) (auto split: if_splits simp: Suc_diff_le)

lemma find_id_None: "find_id sid sls j = None \<longleftrightarrow> (\<forall>sl \<in> set sls. zs_id sl \<noteq> sid)"
  by (induction sid sls j rule: find_id.induct) auto

lemma subscribe_cases:
  assumes "zc_subscribe z = (r, z')"
  obtains (none) "z' = z" "r = None"
  | (slot) k where "k < length (zc_slots z)" "zs_id (zc_slots z ! k) = invalid_subscriber_id" "z' = zc_register k z"
      "r = Some (zc_next_id z)" "zc_next_id z \<noteq> invalid_subscriber_id"
proof (cases "zc_valid z \<and> zc_next_id z \<noteq> invalid_subscriber_id \<and> find_id invalid_subscriber_id (zc_slots z) 0 \<noteq> None")
  case True
  then obtain k where k: "find_id invalid_subscriber_id (zc_slots z) 0 = Some k" by blast
  show ?thesis using slot [of k] find_id_Some [OF k] True k assms by (simp add: zc_subscribe_def)
next
  case False
  then have "zc_subscribe z = (None, z)" by (auto simp: zc_subscribe_def split: option.split)
  then show ?thesis using none assms by simp
qed

lemma send_queued:
  assumes "k < length (zc_slots z)" "channel_inv (zs_queue (zc_slots z ! k))" "i < 2 ^ 64"
    "channel_send i (zs_queue (zc_slots z ! k)) = (True, q)"
  shows "queued (zc_sent k q z) = queued z + {#i#}"
    and "channel_inv q" "channel_items q = channel_items (zs_queue (zc_slots z ! k)) @ [i]"
proof -
  show q: "channel_inv q" and it: "channel_items q = channel_items (zs_queue (zc_slots z ! k)) @ [i]"
    using channel.push_law [OF assms(2,3,4)] by (auto simp: lq_push_def split: if_splits)
  show "queued (zc_sent k q z) = queued z + {#i#}"
    using queued_update [OF assms(1), of "\<lambda>sl. sl\<lparr>zs_queue := q, zs_backlog := zs_backlog sl + 1\<rparr>"] it
    by (simp add: zc_sent_def)
qed

lemma take_queued:
  assumes "k < length (zc_slots z)" "channel_inv (zs_queue (zc_slots z ! k))" "zc_take k z = (Some i, z')"
  shows "queued z = queued z' + {#i#}"
    and "\<exists>q. z' = zc_slot_update k (\<lambda>sl. sl\<lparr>zs_queue := q\<rparr>) z \<and> channel_inv q \<and> channel_items (zs_queue (zc_slots z ! k)) = i # channel_items q"
proof -
  obtain q where get: "channel_receive (zs_queue (zc_slots z ! k)) = (Some i, q)" and z': "z' = zc_slot_update k (\<lambda>sl. sl\<lparr>zs_queue := q\<rparr>) z"
    using assms(3) by (auto simp: zc_take_def split: prod.splits)
  have q: "channel_inv q" "channel_items (zs_queue (zc_slots z ! k)) = i # channel_items q"
    using channel.pop_law [OF assms(2) get] by (cases "channel_items (zs_queue (zc_slots z ! k))"; auto)+
  show "queued z = queued z' + {#i#}" using queued_update [OF assms(1), of "\<lambda>sl. sl\<lparr>zs_queue := q\<rparr>"] q z' by simp
  show "\<exists>q. z' = zc_slot_update k (\<lambda>sl. sl\<lparr>zs_queue := q\<rparr>) z \<and> channel_inv q \<and> channel_items (zs_queue (zc_slots z ! k)) = i # channel_items q"
    using q z' by blast
qed

lemma take_none:
  assumes "channel_inv (zs_queue (zc_slots z ! k))" "zc_take k z = (None, z')"
  shows "channel_items (zs_queue (zc_slots z ! k)) = []"
proof -
  obtain q where "channel_receive (zs_queue (zc_slots z ! k)) = (None, q)"
    using assms(2) by (auto simp: zc_take_def split: prod.splits)
  from channel.pop_law [OF assms(1) this] show ?thesis by (cases "channel_items (zs_queue (zc_slots z ! k))") auto
qed

lemma publish_end_effect:
  assumes "publish_end i a d z = (r, left, z')"
  shows "left = (if a = 0 then Some i else None)" "zc_slots z' = zc_slots z" "queued z' = queued z"
    "zc_pool z' = (if a = 0 then zc_pool z else pool_release i (zc_pool z))"
  using assms by (auto simp: publish_end_def Let_def)

section \<open>Every step keeps the invariant\<close>

lemma held_defs: "held w = producers w + (readers w + queued (sys w) + image_mset snd (inflight w)) + owner_ref (owner w)"
  by (simp add: held_def shared_def)

lemma slots_okD:
  assumes "slots_ok w" "k < length (zc_slots (sys w))"
  shows "channel_inv (zs_queue (slot_at w k))"
  using assms by (simp add: slots_ok_def slot_ok_def)

lemma held_small: "pool_holds (zc_pool (sys w)) (held w) \<Longrightarrow> slots_ok w \<Longrightarrow> i \<in># held w \<Longrightarrow> i < 2 ^ 64"
  unfolding pool_holds_def slots_ok_def by auto

lemma step_holds:
  assumes "zc_step w w'" "zc_inv w"
  shows "pool_holds (zc_pool (sys w')) (held w')"
proof -
  have h: "pool_holds (zc_pool (sys w)) (held w)" and sl: "slots_ok w" and ex: "exclusive w"
    using assms(2) by (simp_all add: zc_inv_def)
  have rel: "pool_holds (pool_release i (zc_pool (sys w))) H" if "held w = H + {#i#}" for i H
    using release_holds [OF h, of i] that by simp
  have ret: "pool_holds (pool_retain i (zc_pool (sys w))) (held w + {#i#})" if "i \<in># held w" for i
    using retain_holds [OF h that] .
  from assms(1) show ?thesis
  proof cases
    case (loan i z)
    then show ?thesis
      using try_loan_frame [OF loan(2)] try_loan_holds [OF h, of i "zc_pool z"] by (simp add: held_defs)
  next
    case (loan_none z)
    then show ?thesis
      using try_loan_frame [OF loan_none(2)] try_loan_none [OF h, of "zc_pool z"] h by (auto simp: held_defs)
  next
    case (writes i v)
    then show ?thesis using write_holds [OF h] by (simp add: held_defs)
  next
    case (discard i)
    then have "held w = held w' + {#i#}" by (simp add: held_defs writable_def)
    then show ?thesis using rel discard(1) by (simp add: loan_release_def)
  next
    case (subscribes r z)
    then have "queued z = queued (sys w) \<and> zc_pool z = zc_pool (sys w)" by (elim subscribe_cases) simp_all
    then show ?thesis using subscribes h by (simp add: held_defs)
  next
    case (publish_begin i)
    then show ?thesis using h by (simp add: held_defs)
  next
    case (publish_skip i k a d)
    then show ?thesis using h by (simp add: held_defs)
  next
    case (publish_retain i k a d)
    then have "i \<in># held w" using ex by (simp add: exclusive_def held_defs)
    then show ?thesis using ret [of i] publish_retain by (simp add: held_defs)
  next
    case (publish_send i k a d q)
    have i: "i \<in># held w" "k < length (zc_slots (sys w))" using publish_send(2) ex by (simp_all add: exclusive_def held_defs)
    have "queued (zc_sent k q (sys w)) = queued (sys w) + {#i#}"
      using send_queued(1) [OF i(2) slots_okD [OF sl i(2)] held_small [OF h sl i(1)] publish_send(3)] .
    then show ?thesis using h publish_send by (simp add: held_defs ac_simps)
  next
    case (publish_drop i k a d q)
    then have "held w = held w' + {#i#}" by (simp add: held_defs)
    then show ?thesis using rel publish_drop(1) by simp
  next
    case (publish_kept i a d r z)
    then show ?thesis using publish_end_effect [OF publish_kept(3)] h by (auto simp: held_defs split: if_splits)
  next
    case (publish_done i a d r z)
    note e = publish_end_effect [OF publish_done(3)]
    have "i \<in># producers w" using publish_done(2) ex by (simp add: exclusive_def)
    then have "held w = held w' + {#i#}" using publish_done e by (simp add: held_defs)
    then show ?thesis using rel publish_done(1) e by (simp split: if_splits)
  next
    case (receive_select k)
    then show ?thesis using h by (simp add: held_defs)
  next
    case (receive_take k i z)
    have k: "k < length (zc_slots (sys w))" using receive_take(2) sl by (auto simp: slots_ok_def)
    have "zc_pool z = zc_pool (sys w)" using take_queued(2) [OF k slots_okD [OF sl k] receive_take(3)] by auto
    then show ?thesis using take_queued(1) [OF k slots_okD [OF sl k] receive_take(3)] h receive_take(1) by (simp add: held_defs ac_simps)
  next
    case (receive_timeout k)
    then show ?thesis using h by (simp add: held_defs)
  next
    case (receive_done k i)
    then have "image_mset snd (inflight w) = image_mset snd (inflight w - {#(k, i)#}) + {#i#}"
      by (metis add_mset_add_single image_mset_add_mset insert_DiffM snd_conv)
    then show ?thesis using h receive_done(1) by (simp add: held_defs ac_simps)
  next
    case (copies i)
    then have "i \<in># held w" by (simp add: held_defs)
    then show ?thesis using ret [of i] copies by (simp add: held_defs loan_copy_def)
  next
    case (releases i)
    then have "held w = held w' + {#i#}" by (simp add: held_defs)
    then show ?thesis using rel releases(1) by (simp add: loan_release_def)
  next
    case (unsubscribe_begin k)
    then show ?thesis using h by (simp add: held_defs)
  next
    case (drain_take k i z)
    have k: "k < length (zc_slots (sys w))" using drain_take(2) ex by (simp add: exclusive_def)
    have "zc_pool z = zc_pool (sys w)" using take_queued(2) [OF k slots_okD [OF sl k] drain_take(3)] by auto
    then show ?thesis
      using take_queued(1) [OF k slots_okD [OF sl k] drain_take(3)] h drain_take(1,2) by (simp add: held_defs ac_simps)
  next
    case (drain_release k i)
    then have "held w = held w' + {#i#}" by (simp add: held_defs)
    then show ?thesis using rel drain_release(1) by simp
  next
    case (drain_done k z)
    then show ?thesis using h by (simp add: held_defs)
  qed
qed

lemma slots_ok_frame:
  assumes "slots_ok w" "zc_slots (sys w') = zc_slots (sys w)" "length (mp_slots (zc_pool (sys w'))) = length (mp_slots (zc_pool (sys w)))"
    "waiting_on w' = waiting_on w" "inflight w' = inflight w" "draining (owner w') = draining (owner w)"
  shows "slots_ok w'"
  using assms unfolding slots_ok_def taken_from_def by simp

lemma slots_ok_at:
  assumes "slots_ok w" "k < length (zc_slots (sys w))" "zc_slots (sys w') = (zc_slots (sys w))[k := sl]"
    "length (mp_slots (zc_pool (sys w'))) = length (mp_slots (zc_pool (sys w)))"
    "set_mset (waiting_on w') \<subseteq> insert k (set_mset (waiting_on w))" "fst ` set_mset (inflight w') \<subseteq> insert k (fst ` set_mset (inflight w))"
    "\<And>l. l \<noteq> k \<Longrightarrow> count (waiting_on w') l = count (waiting_on w) l"
    "\<And>l. l \<noteq> k \<Longrightarrow> taken_from w' l = taken_from w l"
    "\<And>l. l \<noteq> k \<Longrightarrow> draining (owner w') l = draining (owner w) l"
    "slot_ok sl (count (waiting_on w') k) (taken_from w' k) (draining (owner w') k)"
  shows "slots_ok w'"
  unfolding slots_ok_def
proof (intro conjI allI impI)
  show "set_mset (waiting_on w') \<subseteq> {..<length (zc_slots (sys w'))}"
    by (rule order_trans [OF assms(5)]) (use assms(1-3) in \<open>simp add: slots_ok_def\<close>)
  show "fst ` set_mset (inflight w') \<subseteq> {..<length (zc_slots (sys w'))}"
    by (rule order_trans [OF assms(6)]) (use assms(1-3) in \<open>simp add: slots_ok_def\<close>)
  show "length (mp_slots (zc_pool (sys w'))) \<le> 2 ^ 64" using assms(1,4) by (simp add: slots_ok_def)
  fix l assume "l < length (zc_slots (sys w'))"
  then show "slot_ok (slot_at w' l) (count (waiting_on w') l) (taken_from w' l) (draining (owner w') l)"
    using assms by (cases "l = k") (auto simp: slots_ok_def)
qed

lemma slots_okK:
  assumes "slots_ok w" "k < length (zc_slots (sys w))"
  shows "slot_ok (slot_at w k) (count (waiting_on w) k) (taken_from w k) (draining (owner w) k)"
  using assms by (simp add: slots_ok_def)

lemma taken_minus: "(k, i) \<in># M \<Longrightarrow> count (image_mset fst (M - {#(k, i)#})) l = count (image_mset fst M) l - (if l = k then 1 else 0)"
  by (simp add: image_mset_Diff)

lemma taken_pos: "(k, i) \<in># M \<Longrightarrow> 0 < count (image_mset fst M) k"
  by (metis count_greater_zero_iff fst_conv image_eqI set_image_mset)

lemma step_slots:
  assumes "zc_step w w'" "zc_inv w"
  shows "slots_ok w'"
proof -
  have h: "pool_holds (zc_pool (sys w)) (held w)" and sl: "slots_ok w" and ex: "exclusive w"
    using assms(2) by (simp_all add: zc_inv_def)
  from assms(1) show ?thesis
  proof cases
    case (loan i z)
    then show ?thesis
      using try_loan_frame [OF loan(2)] try_loan_length [of "zc_pool (sys w)"] by (auto intro!: slots_ok_frame [OF sl])
  next
    case (loan_none z)
    then show ?thesis
      using try_loan_frame [OF loan_none(2)] try_loan_length [of "zc_pool (sys w)"] by (auto intro!: slots_ok_frame [OF sl])
  next
    case (writes i v)
    then show ?thesis by (auto intro!: slots_ok_frame [OF sl])
  next
    case (discard i)
    then show ?thesis by (auto intro!: slots_ok_frame [OF sl] simp: loan_release_def)
  next
    case (subscribes r z)
    from subscribes(3) show ?thesis
    proof (cases rule: subscribe_cases)
      case none
      then show ?thesis using subscribes(1) sl by simp
    next
      case (slot k)
      show ?thesis
        using slots_okK [OF sl slot(1)] slot subscribes(1,2)
        by (intro slots_ok_at [OF sl slot(1), where sl = "(slot_at w k)\<lparr>zs_id := zc_next_id (sys w)\<rparr>"])
          (auto simp: zc_register_def zc_slot_update_def taken_from_def slot_ok_def)
    qed
  next
    case (publish_begin i)
    then show ?thesis by (auto intro!: slots_ok_frame [OF sl])
  next
    case (publish_skip i k a d)
    then show ?thesis by (auto intro!: slots_ok_frame [OF sl])
  next
    case (publish_retain i k a d)
    then show ?thesis by (auto intro!: slots_ok_frame [OF sl])
  next
    case (publish_send i k a d q)
    have i: "i \<in># held w" "k < length (zc_slots (sys w))" "zs_id (slot_at w k) \<noteq> invalid_subscriber_id"
      using publish_send(2) ex by (simp_all add: exclusive_def held_defs)
    note s = send_queued [OF i(2) slots_okD [OF sl i(2)] held_small [OF h sl i(1)] publish_send(3)]
    show ?thesis
      using slots_okK [OF sl i(2)] s publish_send(1,2) i(3)
      by (intro slots_ok_at [OF sl i(2), where sl = "(slot_at w k)\<lparr>zs_queue := q, zs_backlog := zs_backlog (slot_at w k) + 1\<rparr>"])
        (auto simp: zc_sent_def zc_slot_update_def taken_from_def slot_ok_def)
  next
    case (publish_drop i k a d q)
    then show ?thesis by (auto intro!: slots_ok_frame [OF sl])
  next
    case (publish_kept i a d r z)
    then show ?thesis using publish_end_effect [OF publish_kept(3)] by (auto intro!: slots_ok_frame [OF sl])
  next
    case (publish_done i a d r z)
    then show ?thesis using publish_end_effect [OF publish_done(3)] by (auto intro!: slots_ok_frame [OF sl])
  next
    case (receive_select k)
    show ?thesis
      using slots_okK [OF sl receive_select(3)] receive_select
      by (intro slots_ok_at [OF sl receive_select(3), where sl = "(slot_at w k)\<lparr>zs_receivers := zs_receivers (slot_at w k) + 1\<rparr>"])
        (auto simp: zc_select_def zc_slot_update_def taken_from_def slot_ok_def)
  next
    case (receive_take k i z)
    have k: "k < length (zc_slots (sys w))" using receive_take(2) sl by (auto simp: slots_ok_def)
    obtain q where q: "z = zc_slot_update k (\<lambda>sl. sl\<lparr>zs_queue := q\<rparr>) (sys w)" "channel_inv q"
      "channel_items (zs_queue (slot_at w k)) = i # channel_items q"
      using take_queued(2) [OF k slots_okD [OF sl k] receive_take(3)] by blast
    have c: "0 < count (waiting_on w) k" using receive_take(2) by simp
    show ?thesis
      using slots_okK [OF sl k] receive_take(1) q c
      by (intro slots_ok_at [OF sl k, where sl = "(slot_at w k)\<lparr>zs_queue := q\<rparr>"])
        (auto simp: zc_slot_update_def taken_from_def slot_ok_def dest: in_diffD)
  next
    case (receive_timeout k)
    have k: "k < length (zc_slots (sys w))" using receive_timeout(3) sl by (auto simp: slots_ok_def)
    have c: "0 < count (waiting_on w) k" using receive_timeout(3) by simp
    show ?thesis
      using slots_okK [OF sl k] receive_timeout(1,2) c
      by (intro slots_ok_at [OF sl k, where sl = "(slot_at w k)\<lparr>zs_receivers := zs_receivers (slot_at w k) - 1\<rparr>"])
        (auto simp: zc_settle_def zc_slot_update_def taken_from_def slot_ok_def dest: in_diffD)
  next
    case (receive_done k i)
    have k: "k < length (zc_slots (sys w))" using receive_done(3) sl by (force simp: slots_ok_def)
    show ?thesis
      using slots_okK [OF sl k] receive_done taken_pos [OF receive_done(3)]
      by (intro slots_ok_at [OF sl k, where sl = "(slot_at w k)\<lparr>zs_receivers := zs_receivers (slot_at w k) - 1, zs_backlog := zs_backlog (slot_at w k) - 1\<rparr>"])
        (auto simp: zc_settle_def zc_slot_update_def taken_from_def slot_ok_def taken_minus Let_def dest: in_diffD)
  next
    case (copies i)
    then show ?thesis by (auto intro!: slots_ok_frame [OF sl] simp: loan_copy_def)
  next
    case (releases i)
    then show ?thesis by (auto intro!: slots_ok_frame [OF sl] simp: loan_release_def)
  next
    case (unsubscribe_begin k)
    show ?thesis
      using slots_okK [OF sl unsubscribe_begin(3)] unsubscribe_begin
      by (intro slots_ok_at [OF sl unsubscribe_begin(3), where sl = "(slot_at w k)\<lparr>zs_id := invalid_subscriber_id\<rparr>"])
        (auto simp: zc_slot_update_def taken_from_def slot_ok_def)
  next
    case (drain_take k i z)
    have k: "k < length (zc_slots (sys w))" using drain_take(2) ex by (simp add: exclusive_def)
    obtain q where q: "z = zc_slot_update k (\<lambda>sl. sl\<lparr>zs_queue := q\<rparr>) (sys w)" "channel_inv q"
      using take_queued(2) [OF k slots_okD [OF sl k] drain_take(3)] by blast
    show ?thesis
      using slots_okK [OF sl k] drain_take(1,2) q
      by (intro slots_ok_at [OF sl k, where sl = "(slot_at w k)\<lparr>zs_queue := q\<rparr>"])
        (auto simp: zc_slot_update_def taken_from_def slot_ok_def)
  next
    case (drain_release k i)
    then show ?thesis by (auto intro!: slots_ok_frame [OF sl])
  next
    case (drain_done k z)
    have k: "k < length (zc_slots (sys w))" using drain_done(2) ex by (simp add: exclusive_def)
    show ?thesis
      using slots_okK [OF sl k] drain_done(1,2) take_none [OF slots_okD [OF sl k] drain_done(3)]
      by (intro slots_ok_at [OF sl k, where sl = "(slot_at w k)\<lparr>zs_backlog := 0\<rparr>"])
        (auto simp: zc_slot_update_def taken_from_def slot_ok_def)
  qed
qed

lemma exclusive_frame:
  assumes "exclusive w" "producers w' = producers w" "shared w' = shared w" "owner w' = owner w"
    "map zs_id (zc_slots (sys w')) = map zs_id (zc_slots (sys w))"
  shows "exclusive w'"
proof -
  have l: "length (zc_slots (sys w')) = length (zc_slots (sys w))" using assms(5) by (metis length_map)
  then have "k < length (zc_slots (sys w)) \<Longrightarrow> zs_id (slot_at w' k) = zs_id (slot_at w k)" for k using assms(5) by (metis nth_map)
  then show ?thesis using assms l by (cases "owner w") (auto simp: exclusive_def writable_def)
qed

lemma ids_update:
  "map zs_id (zc_slots (zc_slot_update k f z)) = (map zs_id (zc_slots z))[k := zs_id (f (zc_slots z ! k))]"
  by (simp add: zc_slot_update_def map_update)

lemma ids_same: "zs_id (f (zc_slots z ! k)) = zs_id (zc_slots z ! k) \<Longrightarrow> map zs_id (zc_slots (zc_slot_update k f z)) = map zs_id (zc_slots z)"
  unfolding ids_update by (cases "k < length (zc_slots z)") (simp_all add: list_update_same_conv list_update_beyond)

lemma ids_ops [simp]:
  "map zs_id (zc_slots (zc_select k z)) = map zs_id (zc_slots z)" "map zs_id (zc_slots (zc_settle k b z)) = map zs_id (zc_slots z)"
  "map zs_id (zc_slots (zc_sent k q z)) = map zs_id (zc_slots z)"
  "map zs_id (zc_slots (zc_slot_update k (\<lambda>sl. sl\<lparr>zs_queue := q\<rparr>) z)) = map zs_id (zc_slots z)"
  by (simp_all add: zc_select_def zc_settle_def zc_sent_def ids_same Let_def)

text \<open>A slot that is out on a producer loan and not being published is referred to by nobody else.\<close>

lemma writable_single:
  assumes "zc_inv w" "writable i w"
  shows "count (held w) i = 1"
proof -
  have ex: "exclusive w" using assms(1) by (simp add: zc_inv_def)
  then have "count (producers w) i = 1" "i \<notin># shared w"
    using assms(2) by (auto simp: exclusive_def writable_def) (metis One_nat_def Suc_leI count_greater_zero_iff le_antisym)
  moreover have "i \<notin># owner_ref (owner w)"
    using ex assms(2) by (cases "owner w" rule: owner_ref.cases) (auto simp: exclusive_def writable_def)
  ultimately show ?thesis by (simp add: held_def not_in_iff)
qed

lemma count_single: "count M i \<le> 1 \<Longrightarrow> i \<notin># M - {#i#}"
  by (simp add: not_in_iff)

lemma count_minus_le: "count M j \<le> n \<Longrightarrow> count (M - N) j \<le> n"
  by (simp add: le_diff_conv trans_le_add1)

lemma step_exclusive:
  assumes "zc_step w w'" "zc_inv w"
  shows "exclusive w'"
proof -
  have h: "pool_holds (zc_pool (sys w)) (held w)" and sl: "slots_ok w" and ex: "exclusive w"
    using assms(2) by (simp_all add: zc_inv_def)
  note ex_defs = exclusive_def writable_def
  from assms(1) show ?thesis
  proof cases
    case (loan i z)
    have f: "zc_slots z = zc_slots (sys w)" "queued z = queued (sys w)" "i \<notin># held w"
      using try_loan_frame [OF loan(2)] try_loan_holds [OF h, of i "zc_pool z"] by auto
    have s: "shared w' = shared w" using loan(1) f by (simp add: shared_def)
    have n: "i \<notin># producers w" "i \<notin># shared w" "i \<notin># owner_ref (owner w)" using f(3) by (simp_all add: held_def)
    have "owner_ok w' (owner w')"
      using ex loan(1) f s n by (cases "owner w" rule: owner_ref.cases) (auto simp: exclusive_def)
    moreover have "\<forall>j. count (producers w') j \<le> 1" using ex loan(1) n(1) by (auto simp: exclusive_def not_in_iff)
    moreover have "\<forall>j. writable j w' \<longrightarrow> j \<notin># shared w'" using ex loan(1) s n(2) by (auto simp: ex_defs)
    ultimately show ?thesis by (simp add: exclusive_def)
  next
    case (loan_none z)
    then show ?thesis using try_loan_frame [OF loan_none(2)] by (intro exclusive_frame [OF ex]) (simp_all add: shared_def)
  next
    case (writes i v)
    then show ?thesis by (intro exclusive_frame [OF ex]) (simp_all add: shared_def)
  next
    case (discard i)
    have s: "shared w' = shared w" using discard(1) by (simp add: shared_def)
    have "j \<in># producers w \<Longrightarrow> j \<noteq> i \<Longrightarrow> j \<in># producers w - {#i#}" for j by (simp add: in_diff_count)
    then have "owner_ok w' (owner w')"
      using ex discard s by (cases "owner w") (auto simp: ex_defs dest: in_diffD)
    moreover have "\<forall>j. count (producers w') j \<le> 1" using ex discard(1) by (simp add: exclusive_def count_minus_le)
    moreover have "\<forall>j. writable j w' \<longrightarrow> j \<notin># shared w'" using ex discard(1) s by (auto simp: ex_defs dest: in_diffD)
    ultimately show ?thesis by (simp add: exclusive_def)
  next
    case (subscribes r z)
    then have "queued z = queued (sys w)" by (elim subscribe_cases) simp_all
    then show ?thesis using ex subscribes(1,2) by (auto simp: ex_defs shared_def)
  next
    case (publish_begin i)
    then show ?thesis using ex by (auto simp: ex_defs shared_def)
  next
    case (publish_skip i k a d)
    then show ?thesis using ex by (auto simp: ex_defs shared_def)
  next
    case (publish_retain i k a d)
    then show ?thesis using ex by (auto simp: ex_defs shared_def)
  next
    case (publish_send i k a d q)
    have i: "i \<in># held w" "k < length (zc_slots (sys w))" using publish_send(2) ex by (simp_all add: exclusive_def held_defs)
    have "queued (zc_sent k q (sys w)) = queued (sys w) + {#i#}"
      using send_queued(1) [OF i(2) slots_okD [OF sl i(2)] held_small [OF h sl i(1)] publish_send(3)] .
    then have s: "shared w' = shared w + {#i#}" using publish_send(1) by (simp add: shared_def)
    moreover have "length (zc_slots (zc_sent k q (sys w))) = length (zc_slots (sys w))" by (simp add: zc_sent_def)
    ultimately show ?thesis using ex publish_send(1,2) by (auto simp: ex_defs)
  next
    case (publish_drop i k a d q)
    then show ?thesis using ex by (auto simp: ex_defs shared_def)
  next
    case (publish_kept i a d r z)
    then show ?thesis
      using ex publish_end_effect [OF publish_kept(3)] by (auto simp: ex_defs shared_def split: if_splits)
  next
    case (publish_done i a d r z)
    have s: "shared w' = shared w" using publish_done(1) publish_end_effect [OF publish_done(3)] by (simp add: shared_def)
    have "j \<in># producers w - {#i#} \<Longrightarrow> j \<noteq> i \<and> j \<in># producers w" for j
      using ex count_single [of "producers w" i] by (auto simp: exclusive_def dest: in_diffD)
    then show ?thesis using ex s publish_done(1,2) by (auto simp: ex_defs simp flip: count_diff intro!: count_minus_le)
  next
    case (receive_select k)
    then show ?thesis by (intro exclusive_frame [OF ex]) (simp_all add: shared_def)
  next
    case (receive_take k i z)
    have k: "k < length (zc_slots (sys w))" using receive_take(2) sl by (auto simp: slots_ok_def)
    note t = take_queued [OF k slots_okD [OF sl k] receive_take(3)]
    then show ?thesis using receive_take(1) by (intro exclusive_frame [OF ex]) (auto simp: shared_def)
  next
    case (receive_timeout k)
    then show ?thesis by (intro exclusive_frame [OF ex]) (simp_all add: shared_def)
  next
    case (receive_done k i)
    then have "image_mset snd (inflight w) = image_mset snd (inflight w - {#(k, i)#}) + {#i#}"
      by (metis add_mset_add_single image_mset_add_mset insert_DiffM snd_conv)
    then show ?thesis using receive_done(1) by (intro exclusive_frame [OF ex]) (simp_all add: shared_def)
  next
    case (copies i)
    then have s: "set_mset (shared w') = set_mset (shared w)" by (auto simp: shared_def)
    show ?thesis using ex copies(1) s by (cases "owner w") (auto simp: ex_defs)
  next
    case (releases i)
    then have s: "j \<in># shared w' \<Longrightarrow> j \<in># shared w" for j by (auto simp: shared_def dest: in_diffD)
    show ?thesis using ex releases(1) s by (cases "owner w") (auto simp: ex_defs)
  next
    case (unsubscribe_begin k)
    then show ?thesis using ex by (auto simp: ex_defs shared_def)
  next
    case (drain_take k i z)
    have k: "k < length (zc_slots (sys w))" using drain_take(2) ex by (simp add: exclusive_def)
    note t = take_queued [OF k slots_okD [OF sl k] drain_take(3)]
    have s: "shared w = shared w' + {#i#}" using t(1) drain_take(1) by (simp add: shared_def)
    have "i \<notin># producers w" using ex drain_take(2) s by (auto simp: ex_defs)
    moreover have "length (zc_slots z) = length (zc_slots (sys w))" using t(2) by auto
    ultimately show ?thesis using ex drain_take(1,2) s k by (auto simp: ex_defs)
  next
    case (drain_release k i)
    then show ?thesis using ex by (auto simp: ex_defs shared_def)
  next
    case (drain_done k z)
    then show ?thesis using ex by (auto simp: ex_defs shared_def)
  qed
qed

lemma zc_step_inv: "zc_step w w' \<Longrightarrow> zc_inv w \<Longrightarrow> zc_inv w'"
  by (simp add: zc_inv_def step_holds step_slots step_exclusive)

lemma zc_run_inv: "zc_step\<^sup>*\<^sup>* w w' \<Longrightarrow> zc_inv w \<Longrightarrow> zc_inv w'"
  by (induction rule: rtranclp_induct) (auto intro: zc_step_inv)

section \<open>Properties\<close>

text \<open>A pool with the given payloads and a signal with \<open>m\<close> slots, as constructed.\<close>

definition zc_start :: "nat list \<Rightarrow> nat \<Rightarrow> nat \<Rightarrow> zero_copy_signal" where
  "zc_start values m cap =
     \<lparr>zc_pool = \<lparr>mp_valid = True, mp_slots = map (\<lambda>v. \<lparr>ps_value = v, ps_references = 0\<rparr>) values,
        mp_stats = \<lparr>st_current = 0, st_high_water = 0, st_exhaustion = 0\<rparr>, mp_operations = diag_zero\<rparr>,
      zc_mutex_valid = True,
      zc_slots = replicate m \<lparr>zs_valid = True,
        zs_queue = \<lparr>q_buf = replicate (cap * 8) 0, q_item_size = 8, q_capacity = cap, q_head = 0, q_tail = 0, q_count = 0\<rparr>,
        zs_id = invalid_subscriber_id, zs_receivers = 0, zs_backlog = 0\<rparr>,
      zc_next_id = 0, zc_stats = \<lparr>zt_drops = 0, zt_backlog = 0, zt_high_water = 0, zt_receivers = 0\<rparr>, zc_operations = diag_zero\<rparr>"

definition zc_idle :: "zero_copy_signal \<Rightarrow> zc_world" where
  "zc_idle z = \<lparr>sys = z, owner = Free, producers = {#}, readers = {#}, inflight = {#}, waiting_on = {#}\<rparr>"

lemma zc_start_inv:
  assumes "0 < cap" "length values \<le> 2 ^ 64"
  shows "zc_inv (zc_idle (zc_start values m cap))"
proof -
  have q: "channel_items \<lparr>q_buf = b, q_item_size = 8, q_capacity = cap, q_head = 0, q_tail = 0, q_count = 0\<rparr> = []" for b
    by (simp add: channel_items_def queue_items_def)
  have "queued (zc_start values m cap) = {#}" by (induction m) (simp_all add: queued_def zc_start_def q)
  then show ?thesis
    using assms by (simp add: zc_inv_def zc_idle_def pool_holds_def held_def shared_def slots_ok_def slot_ok_def
        exclusive_def writable_def taken_from_def) (simp add: zc_start_def channel_inv_def queue_inv_def q)
qed

text \<open>
  C27: under every interleaving the reference count of a slot is the number of its holders: producer
  and read loans, indices in a channel, indices a receiver or a draining task has taken out, and the
  reference a publisher has taken in advance. So no reference is lost or invented, \<open>current\<close> counts the slots that are
  held, a slot out for writing has one reference, and between operations the backlog and receiver gauges of a slot are exact.
\<close>

theorem zero_copy_conserves:
  assumes "0 < cap" "length values \<le> 2 ^ 64" "zc_step\<^sup>*\<^sup>* (zc_idle (zc_start values m cap)) w"
  shows "(\<forall>i < length (mp_slots (zc_pool (sys w))). ps_references (mp_slots (zc_pool (sys w)) ! i) = count (held w) i) \<and>
    st_current (mp_stats (zc_pool (sys w))) = card (set_mset (held w)) \<and>
    (\<forall>i. writable i w \<longrightarrow> ps_references (mp_slots (zc_pool (sys w)) ! i) = 1) \<and>
    (owner w = Free \<longrightarrow> (\<forall>k < length (zc_slots (sys w)).
       zs_backlog (slot_at w k) = length (channel_items (zs_queue (slot_at w k))) + taken_from w k \<and>
       zs_receivers (slot_at w k) = count (waiting_on w) k + taken_from w k))"
proof -
  have inv: "zc_inv w" using zc_run_inv [OF assms(3) zc_start_inv [OF assms(1,2)]] .
  then have h: "pool_holds (zc_pool (sys w)) (held w)" and sl: "slots_ok w" by (simp_all add: zc_inv_def)
  have one: "ps_references (mp_slots (zc_pool (sys w)) ! i) = 1" if "writable i w" for i
  proof -
    have "i \<in># held w" using that by (simp add: writable_def held_def)
    then show ?thesis using h writable_single [OF inv that] by (auto simp: pool_holds_def)
  qed
  show ?thesis using h one slots_okK [OF sl] by (auto simp: pool_holds_def slot_ok_def)
qed

lemma write_value: "j \<noteq> i \<Longrightarrow> ps_value (mp_slots (loan_write i v p) ! j) = ps_value (mp_slots p ! j)"
  by (simp add: loan_write_def)

lemma step_value:
  assumes "zc_step w w'" "\<not> writable j w"
  shows "ps_value (mp_slots (zc_pool (sys w')) ! j) = ps_value (mp_slots (zc_pool (sys w)) ! j)"
  using assms(1)
proof cases
  case (loan i z)
  then show ?thesis using try_loan_frame(3) [OF loan(2)] by (auto simp: try_loan_value)
next
  case (loan_none z)
  then show ?thesis using try_loan_frame(3) [OF loan_none(2)] by (auto simp: try_loan_value)
next
  case (writes i v)
  then have "j \<noteq> i" using assms(2) by blast
  then show ?thesis using writes(1) by (simp add: write_value)
next
  case (subscribes r z)
  then have "zc_pool z = zc_pool (sys w)" by (elim subscribe_cases) simp_all
  then show ?thesis using subscribes(1) by simp
next
  case (publish_kept i a d r z)
  then show ?thesis using publish_end_effect(4) [OF publish_kept(3)] by simp
next
  case (publish_done i a d r z)
  then show ?thesis using publish_end_effect(4) [OF publish_done(3)] by simp
qed (auto simp: loan_release_def loan_copy_def zc_take_def split: prod.splits)

text \<open>
  C28: a payload that somebody reads, or that waits in a channel, does not change: only the holder of a
  producer loan writes, outside \<open>publish_zero_copy\<close>, and its slot is in no channel and on no read loan. And
  a slot is loaned out for writing only when nobody holds it in any way.
\<close>

theorem zero_copy_stable:
  assumes "0 < cap" "length values \<le> 2 ^ 64" "zc_step\<^sup>*\<^sup>* (zc_idle (zc_start values m cap)) w"
  shows "(\<forall>w' i. zc_step w w' \<and> i \<in># shared w \<longrightarrow>
      loan_get (Some i) (zc_pool (sys w')) = loan_get (Some i) (zc_pool (sys w))) \<and>
    (\<forall>i z. zc_try_loan (sys w) = (Some i, z) \<longrightarrow> i \<notin># held w)"
proof (intro conjI allI impI)
  have inv: "zc_inv w" using zc_run_inv [OF assms(3) zc_start_inv [OF assms(1,2)]] .
  { fix w' i assume s: "zc_step w w' \<and> i \<in># shared w"
    then have "\<not> writable i w" using inv by (auto simp: zc_inv_def exclusive_def)
    then show "loan_get (Some i) (zc_pool (sys w')) = loan_get (Some i) (zc_pool (sys w))"
      using step_value [of w w' i] s by (simp add: loan_get_def) }
  fix i z assume "zc_try_loan (sys w) = (Some i, z)"
  then show "i \<notin># held w" using try_loan_frame(3) try_loan_holds inv unfolding zc_inv_def by blast
qed

end
