(* ===== verification/Osal_Zero_Copy_Calls.thy ===== *)
theory Osal_Zero_Copy_Calls
  imports Osal_Zero_Copy
begin

text \<open>
  The whole operations of a zero-copy signal, as \<open>Osal_Zero_Copy\<close> defines them, are runs of the
  interleaved system in which nobody else moves; and what a publication delivers.
\<close>

section \<open>Publications are runs\<close>

lemma publish_slots_run:
  assumes "owner w = Publishing i k False a d" "k + j = length (zc_slots (sys w))" "publish_slots i k j a d (sys w) = (a', d', z)"
  shows "zc_step\<^sup>*\<^sup>* w (w\<lparr>sys := z, owner := Publishing i (length (zc_slots (sys w))) False a' d'\<rparr>)"
  using assms
proof (induction j arbitrary: k a d w)
  case 0
  then have "w\<lparr>sys := z, owner := Publishing i (length (zc_slots (sys w))) False a' d'\<rparr> = w" by simp
  then show ?case by (metis rtranclp.rtrancl_refl)
next
  case (Suc j)
  have k: "k < length (zc_slots (sys w))" using Suc.prems(2) by simp
  show ?case
  proof (cases "zs_id (slot_at w k) = invalid_subscriber_id")
    case True
    let ?w = "w\<lparr>owner := Publishing i (Suc k) False a d\<rparr>"
    have "zc_step w ?w" using publish_skip [OF Suc.prems(1) k True] .
    moreover have "zc_step\<^sup>*\<^sup>* ?w (?w\<lparr>sys := z, owner := Publishing i (length (zc_slots (sys ?w))) False a' d'\<rparr>)"
      using Suc.prems(2,3) True by (intro Suc.IH) simp_all
    ultimately show ?thesis by (simp add: converse_rtranclp_into_rtranclp)
  next
    case False
    let ?z = "on_pool (pool_retain i) (sys w)" let ?w = "w\<lparr>sys := ?z, owner := Publishing i k True a d\<rparr>"
    have 1: "zc_step w ?w" using publish_retain [OF Suc.prems(1) k False] .
    obtain b q where s: "channel_send i (zs_queue (slot_at ?w k)) = (b, q)" by fastforce
    show ?thesis
    proof (cases b)
      case True
      let ?v = "?w\<lparr>sys := zc_sent k q (sys ?w), owner := Publishing i (Suc k) False (a + 1) d\<rparr>"
      have "zc_step ?w ?v" using s True by (intro publish_send) simp_all
      moreover have "zc_step\<^sup>*\<^sup>* ?v (?v\<lparr>sys := z, owner := Publishing i (length (zc_slots (sys ?v))) False a' d'\<rparr>)"
        using Suc.prems(2,3) False s True by (intro Suc.IH) (simp_all add: on_pool_def zc_sent_def)
      ultimately show ?thesis using 1 by (simp add: zc_sent_def converse_rtranclp_into_rtranclp)
    next
      case nob: False
      let ?v = "?w\<lparr>sys := zc_dropped i (sys ?w), owner := Publishing i (Suc k) False a (d + 1)\<rparr>"
      have "zc_step ?w ?v" using s nob by (intro publish_drop) simp_all
      moreover have "zc_step\<^sup>*\<^sup>* ?v (?v\<lparr>sys := z, owner := Publishing i (length (zc_slots (sys ?v))) False a' d'\<rparr>)"
        using Suc.prems(2,3) False s nob by (intro Suc.IH) (simp_all add: on_pool_def)
      ultimately show ?thesis using 1 by (simp add: converse_rtranclp_into_rtranclp)
    qed
  qed
qed

lemma publish_slots_length: "publish_slots i k j a d z = (a', d', z') \<Longrightarrow> length (zc_slots z') = length (zc_slots z)"
proof (induction j arbitrary: k a d z)
  case (Suc j)
  then show ?case
    by (auto simp: Let_def zc_sent_def zc_dropped_def dest!: Suc.IH split: if_splits prod.splits bool.splits)
qed simp

lemma free_again:
  "owner w = Free \<Longrightarrow> w\<lparr>sys := z, owner := Free, producers := p\<rparr> = w\<lparr>sys := z, producers := p\<rparr>"
  "owner w = Free \<Longrightarrow> w\<lparr>sys := z, owner := Free\<rparr> = w\<lparr>sys := z\<rparr>"
  by (cases w; simp)+

lemma publish_run:
  assumes "owner w = Free" "writable i w" "zc_valid (sys w)" "publish_zero_copy (Some i) (sys w) = (r, left, z)"
  shows "zc_step\<^sup>*\<^sup>* w (w\<lparr>sys := z, producers := (if left = None then producers w - {#i#} else producers w)\<rparr>)"
proof -
  obtain a d z1 where ps: "publish_slots i 0 (length (zc_slots (sys w))) 0 0 (sys w) = (a, d, z1)" by (rule prod_cases3)
  then have e: "publish_end i a d z1 = (r, left, z)" using assms(3,4) by (simp add: publish_zero_copy_def)
  have l: "length (zc_slots z1) = length (zc_slots (sys w))" using publish_slots_length [OF ps] .
  let ?b = "w\<lparr>owner := Publishing i 0 False 0 0\<rparr>"
  let ?e = "w\<lparr>sys := z1, owner := Publishing i (length (zc_slots z1)) False a d\<rparr>"
  have "zc_step w ?b" using publish_begin [OF assms(1,3,2)] .
  moreover have "zc_step\<^sup>*\<^sup>* ?b ?e" using publish_slots_run [of ?b i 0 0 0 "length (zc_slots (sys w))" a d z1] ps l by simp
  moreover have "zc_step ?e (w\<lparr>sys := z, producers := (if left = None then producers w - {#i#} else producers w)\<rparr>)"
  proof (cases left)
    case None
    then show ?thesis using publish_done [of ?e i a d r z] e free_again(1) [OF assms(1)] by simp
  next
    case (Some j)
    then have "j = i" using publish_end_effect(1) [OF e] by (simp split: if_splits)
    then show ?thesis using publish_kept [of ?e i a d r z] e Some free_again(2) [OF assms(1)] by simp
  qed
  ultimately show ?thesis by (meson converse_rtranclp_into_rtranclp rtranclp.rtrancl_into_rtrancl)
qed

section \<open>Receives and departures are runs\<close>

lemma found_slot: "find_id sid sls 0 = Some k \<Longrightarrow> k < length sls \<and> zs_id (sls ! k) = sid"
  using find_id_Some [of sid sls 0 k] by simp

lemma take_slots [simp]: "zc_take k z = (r, z') \<Longrightarrow> length (zc_slots z') = length (zc_slots z)"
  by (auto simp: zc_take_def split: prod.splits)

text \<open>An empty take changes nothing.\<close>

lemma take_none_same:
  assumes "zc_take k z = (None, z')"
  shows "z' = z"
proof -
  obtain q where "channel_receive (zs_queue (zc_slots z ! k)) = (None, q)" "z' = zc_slot_update k (\<lambda>sl. sl\<lparr>zs_queue := q\<rparr>) z"
    using assms by (auto simp: zc_take_def split: prod.splits)
  moreover from this have "q = zs_queue (zc_slots z ! k)"
    by (auto simp: channel_receive_def queue_get_def split: if_splits)
  ultimately show ?thesis by (cases "k < length (zc_slots z)") (simp_all add: zc_slot_update_def list_update_beyond)
qed

lemma receive_run:
  assumes "owner w = Free" "receive_loan sid out (sys w) = (b, out', z)" "\<And>i. out = Some i \<Longrightarrow> i \<in># readers w"
  shows "\<exists>R. zc_step\<^sup>*\<^sup>* w (w\<lparr>sys := z, readers := R\<rparr>) \<and>
    (if b then \<exists>i. out' = Some i \<and> R = readers w + {#i#} - (case out of None \<Rightarrow> {#} | Some j \<Rightarrow> {#j#}) else out' = out \<and> R = readers w)"
proof (cases "\<not> zc_valid (sys w) \<or> sid = invalid_subscriber_id \<or> find_id sid (zc_slots (sys w)) 0 = None")
  case True
  then have "receive_loan sid out (sys w) = (False, out, sys w)" by (auto simp: receive_loan_def)
  then show ?thesis using assms(2) by (intro exI [of _ "readers w"]) simp
next
  case False
  then obtain k where k: "find_id sid (zc_slots (sys w)) 0 = Some k" and v: "zc_valid (sys w)" "sid \<noteq> invalid_subscriber_id" by auto
  have kl: "k < length (zc_slots (sys w))" "zs_id (slot_at w k) = sid" using found_slot [OF k] by auto
  obtain r z1 where t: "zc_take k (zc_select k (sys w)) = (r, z1)" by fastforce
  let ?s = "w\<lparr>sys := zc_select k (sys w), waiting_on := waiting_on w + {#k#}\<rparr>"
  have 1: "zc_step w ?s" using receive_select [OF assms(1) kl(1)] kl(2) v(2) by simp
  show ?thesis
  proof (cases r)
    case None
    then have z: "z = zc_settle k False (zc_select k (sys w))" "\<not> b" "out' = out"
      using assms(2) k v t take_none_same [of k "zc_select k (sys w)" z1] by (simp_all add: receive_loan_def)
    have "zc_step ?s (?s\<lparr>sys := zc_settle k False (sys ?s), waiting_on := waiting_on ?s - {#k#}\<rparr>)"
      using assms(1) by (intro receive_timeout) simp_all
    then have "zc_step ?s (w\<lparr>sys := z, readers := readers w\<rparr>)" using z(1) by simp
    then show ?thesis using 1 z(2,3) by (intro exI [of _ "readers w"]) (simp add: converse_rtranclp_into_rtranclp)
  next
    case (Some i)
    then have z: "z = zc_settle k True z1\<lparr>zc_pool := loan_release out (zc_pool z1)\<rparr>" "b" "out' = Some i"
      using assms(2) k v t by (simp_all add: receive_loan_def Let_def)
    let ?t = "w\<lparr>sys := z1, inflight := inflight w + {#(k, i)#}\<rparr>" let ?d = "w\<lparr>sys := zc_settle k True z1, readers := readers w + {#i#}\<rparr>"
    have "zc_step ?s (?s\<lparr>sys := z1, waiting_on := waiting_on ?s - {#k#}, inflight := inflight ?s + {#(k, i)#}\<rparr>)"
      using t Some by (intro receive_take) simp_all
    then have 2: "zc_step ?s ?t" by simp
    have "zc_step ?t (?t\<lparr>sys := zc_settle k True (sys ?t), inflight := inflight ?t - {#(k, i)#}, readers := readers ?t + {#i#}\<rparr>)"
      using assms(1) by (intro receive_done) simp_all
    then have 3: "zc_step ?t ?d" by simp
    have d: "zc_step\<^sup>*\<^sup>* w ?d" using 1 2 3 by (meson converse_rtranclp_into_rtranclp r_into_rtranclp)
    show ?thesis
    proof (cases out)
      case None
      then have "?d = w\<lparr>sys := z, readers := readers w + {#i#}\<rparr>" using z(1) by (simp add: loan_release_def)
      then show ?thesis using d z None by (intro exI [of _ "readers w + {#i#}"]) simp
    next
      case (Some j)
      have "zc_step ?d (?d\<lparr>sys := on_pool (loan_release (Some j)) (sys ?d), readers := readers ?d - {#j#}\<rparr>)"
        using assms(3) [OF Some] by (intro releases) simp
      then have "zc_step ?d (w\<lparr>sys := z, readers := readers w + {#i#} - {#j#}\<rparr>)" using z(1) Some by (simp add: on_pool_def)
      then show ?thesis using d z Some
        by (intro exI [of _ "readers w + {#i#} - {#j#}"]) (simp add: rtranclp.rtrancl_into_rtrancl)
    qed
  qed
qed

lemma drain_loop_run:
  assumes "owner w = Draining k None" "k < length (zc_slots (sys w))" "channel_inv (zs_queue (slot_at w k))"
    "length (channel_items (zs_queue (slot_at w k))) \<le> fuel"
  shows "zc_step\<^sup>*\<^sup>* w (w\<lparr>sys := drain_loop k fuel (sys w)\<rparr>) \<and>
    length (zc_slots (drain_loop k fuel (sys w))) = length (zc_slots (sys w)) \<and>
    fst (zc_take k (drain_loop k fuel (sys w))) = None"
  using assms
proof (induction fuel arbitrary: w)
  case 0
  obtain r q where g: "channel_receive (zs_queue (slot_at w k)) = (r, q)" by fastforce
  have "r = None" using channel.pop_law [OF "0.prems"(3) g] "0.prems"(4) by simp
  then show ?case using g by (simp add: zc_take_def)
next
  case (Suc fuel)
  obtain r q where g: "channel_receive (zs_queue (slot_at w k)) = (r, q)" by fastforce
  note law = channel.pop_law [OF Suc.prems(3) g]
  show ?case
  proof (cases r)
    case None
    then show ?thesis using g by (simp add: zc_take_def)
  next
    case (Some i)
    let ?z = "zc_slot_update k (\<lambda>sl. sl\<lparr>zs_queue := q\<rparr>) (sys w)"
    let ?t = "w\<lparr>sys := ?z, owner := Draining k (Some i)\<rparr>" let ?v = "w\<lparr>sys := on_pool (pool_release i) ?z, owner := Draining k None\<rparr>"
    have t: "zc_take k (sys w) = (Some i, ?z)" using g Some by (simp add: zc_take_def)
    have 1: "zc_step w ?t" using drain_take [OF Suc.prems(1) t] .
    have 2: "zc_step ?t ?v" using drain_release [of ?t k i] by simp
    have v: "?v = w\<lparr>sys := on_pool (pool_release i) ?z\<rparr>" using Suc.prems(1) by (cases w) simp
    have loop: "drain_loop k (Suc fuel) (sys w) = drain_loop k fuel (sys ?v)"
      using g Some by (simp add: on_pool_def)
    have q: "zs_queue (slot_at ?v k) = q" using Suc.prems(2) by (simp add: slot_update_nth)
    have "length (channel_items q) \<le> fuel"
      using law Suc.prems(4) Some by (cases "channel_items (zs_queue (slot_at w k))") auto
    then have ih: "zc_step\<^sup>*\<^sup>* ?v (?v\<lparr>sys := drain_loop k fuel (sys ?v)\<rparr>) \<and>
      length (zc_slots (drain_loop k fuel (sys ?v))) = length (zc_slots (sys ?v)) \<and>
      fst (zc_take k (drain_loop k fuel (sys ?v))) = None"
      using law Suc.prems(2) q by (intro Suc.IH) simp_all
    moreover have "?v\<lparr>sys := drain_loop k fuel (sys ?v)\<rparr> = w\<lparr>sys := drain_loop k (Suc fuel) (sys w)\<rparr>"
      using loop Suc.prems(1) by (cases w) simp
    ultimately show ?thesis using 1 2 loop by (auto intro: converse_rtranclp_into_rtranclp)
  qed
qed

lemma unsubscribe_run:
  assumes "owner w = Free" "slots_ok w" "zc_unsubscribe sid (sys w) = (b, z)"
  shows "zc_step\<^sup>*\<^sup>* w (w\<lparr>sys := z\<rparr>)"
proof (cases b)
  case False
  then have "z = sys w" using assms(3) by (auto simp: zc_unsubscribe_def split: if_splits option.splits)
  then show ?thesis by simp
next
  case True
  then obtain k where k: "find_id sid (zc_slots (sys w)) 0 = Some k" "zc_valid (sys w)" "sid \<noteq> invalid_subscriber_id" "zs_receivers (slot_at w k) = 0"
    "z = zc_drain k (zc_slot_update k (\<lambda>sl. sl\<lparr>zs_id := invalid_subscriber_id\<rparr>) (sys w))"
    using assms(3) by (auto simp: zc_unsubscribe_def split: if_splits option.splits)
  have kl: "k < length (zc_slots (sys w))" "zs_id (slot_at w k) = sid" using found_slot [OF k(1)] by auto
  let ?z = "zc_slot_update k (\<lambda>sl. sl\<lparr>zs_id := invalid_subscriber_id\<rparr>) (sys w)"
  let ?u = "w\<lparr>sys := ?z, owner := Draining k None\<rparr>" let ?n = "q_count (zs_queue (slot_at w k))"
  have at_k: "slot_at ?u k = (slot_at w k)\<lparr>zs_id := invalid_subscriber_id\<rparr>" using kl(1) by (simp add: slot_update_nth)
  have valid: "zs_valid (slot_at w k)" using k(2) kl(1) by (simp add: zc_valid_def)
  have 1: "zc_step w ?u" using unsubscribe_begin [OF assms(1) kl(1)] kl(2) k(3,4) by simp
  have run: "zc_step\<^sup>*\<^sup>* ?u (?u\<lparr>sys := drain_loop k ?n (sys ?u)\<rparr>)" "fst (zc_take k (drain_loop k ?n (sys ?u))) = None"
    using drain_loop_run [of ?u k ?n] kl(1) at_k slots_okD [OF assms(2) kl(1)] by (simp_all add: channel_items_def queue_items_def)
  let ?d = "?u\<lparr>sys := drain_loop k ?n (sys ?u)\<rparr>"
  obtain z2 where "zc_take k (sys ?d) = (None, z2)" using run(2) by (cases "zc_take k (drain_loop k ?n ?z)") auto
  then have "zc_step ?d (?d\<lparr>sys := zc_slot_update k (\<lambda>sl. sl\<lparr>zs_backlog := 0\<rparr>) (sys ?d), owner := Free\<rparr>)"
    by (intro drain_done) simp_all
  moreover have "?d\<lparr>sys := zc_slot_update k (\<lambda>sl. sl\<lparr>zs_backlog := 0\<rparr>) (sys ?d), owner := Free\<rparr> = w\<lparr>sys := z\<rparr>"
    using k(5) at_k valid free_again(2) [OF assms(1)] by (simp add: zc_drain_def)
  ultimately have last: "zc_step ?d (w\<lparr>sys := z\<rparr>)" by (simp only:)
  show ?thesis by (rule converse_rtranclp_into_rtranclp [OF 1 rtranclp.rtrancl_into_rtrancl [OF run(1) last]])
qed

section \<open>What a publication delivers\<close>

definition subscribed :: "zero_copy_signal \<Rightarrow> nat \<Rightarrow> bool" where
  "subscribed z k \<longleftrightarrow> zs_id (zc_slots z ! k) \<noteq> invalid_subscriber_id"

definition has_room :: "zero_copy_signal \<Rightarrow> nat \<Rightarrow> bool" where
  "has_room z k \<longleftrightarrow> length (channel_items (zs_queue (zc_slots z ! k))) < q_capacity (zs_queue (zc_slots z ! k))"

lemma channel_send_room:
  assumes "channel_inv q" "i < 2 ^ 64" "channel_send i q = (b, q')"
  shows "b \<longleftrightarrow> length (channel_items q) < q_capacity q" "channel_items q' = channel_items q @ (if b then [i] else [])"
  using channel.push_law [OF assms] by (auto simp: lq_push_def split: if_splits)

lemma publish_slots_delivers:
  assumes "publish_slots i k j a d z = (a', d', z')" "k + j \<le> length (zc_slots z)" "i < 2 ^ 64"
    "\<And>l. l < length (zc_slots z) \<Longrightarrow> channel_inv (zs_queue (zc_slots z ! l))"
  shows "a' = a + length (filter (\<lambda>l. subscribed z l \<and> has_room z l) [k..<k + j]) \<and>
    d' = d + length (filter (\<lambda>l. subscribed z l \<and> \<not> has_room z l) [k..<k + j]) \<and>
    (\<forall>l < length (zc_slots z). channel_items (zs_queue (zc_slots z' ! l)) = channel_items (zs_queue (zc_slots z ! l)) @
       (if k \<le> l \<and> l < k + j \<and> subscribed z l \<and> has_room z l then [i] else []))"
  using assms
proof (induction j arbitrary: k a d z)
  case (Suc j)
  have k: "k < length (zc_slots z)" using Suc.prems(2) by simp
  have up: "[k..<k + Suc j] = k # [Suc k..<Suc k + j]" by (simp add: upt_rec)
  show ?case
  proof (cases "subscribed z k")
    case False
    then have "publish_slots i (Suc k) j a d z = (a', d', z')" using Suc.prems(1) by (simp add: subscribed_def)
    from Suc.IH [OF this _ Suc.prems(3,4)] Suc.prems(2) False show ?thesis
      unfolding up by (auto simp: le_eq_less_or_eq)
  next
    case True
    obtain b q where s: "channel_send i (zs_queue (zc_slots z ! k)) = (b, q)" by fastforce
    note r = channel_send_room [OF Suc.prems(4) [OF k] Suc.prems(3) s]
    show ?thesis
    proof (cases b)
      case b: True
      let ?z = "zc_sent k q (z\<lparr>zc_pool := pool_retain i (zc_pool z)\<rparr>)"
      have p: "publish_slots i (Suc k) j (a + 1) d ?z = (a', d', z')" using Suc.prems(1) True s b by (simp add: subscribed_def)
      have nth: "zc_slots ?z ! l = (if l = k then (zc_slots z ! k)\<lparr>zs_queue := q, zs_backlog := zs_backlog (zc_slots z ! k) + 1\<rparr> else zc_slots z ! l)" for l
        using k by (simp add: zc_sent_def zc_slot_update_def nth_list_update)
      have len: "length (zc_slots ?z) = length (zc_slots z)" by (simp add: zc_sent_def)
      have same: "subscribed ?z l = subscribed z l" "has_room ?z l = has_room z l" if "l \<noteq> k" for l
        using that by (simp_all add: subscribed_def has_room_def nth)
      have f: "filter (\<lambda>l. subscribed ?z l \<and> has_room ?z l) [Suc k..<Suc k + j] = filter (\<lambda>l. subscribed z l \<and> has_room z l) [Suc k..<Suc k + j]"
        "filter (\<lambda>l. subscribed ?z l \<and> \<not> has_room ?z l) [Suc k..<Suc k + j] = filter (\<lambda>l. subscribed z l \<and> \<not> has_room z l) [Suc k..<Suc k + j]"
        by (rule filter_cong; auto simp: same)+
      have q: "channel_inv q" using channel.push_law [OF Suc.prems(4) [OF k] Suc.prems(3) s] by blast
      have ih: "a' = a + 1 + length (filter (\<lambda>l. subscribed z l \<and> has_room z l) [Suc k..<Suc k + j]) \<and>
        d' = d + length (filter (\<lambda>l. subscribed z l \<and> \<not> has_room z l) [Suc k..<Suc k + j]) \<and>
        (\<forall>l < length (zc_slots z). channel_items (zs_queue (zc_slots z' ! l)) = channel_items (zs_queue (zc_slots ?z ! l)) @
           (if Suc k \<le> l \<and> l < Suc k + j \<and> subscribed ?z l \<and> has_room ?z l then [i] else []))"
        using Suc.IH [OF p] Suc.prems(2,3,4) q len f by (simp add: nth)
      have room: "has_room z k" using r(1) b by (simp add: has_room_def)
      have items: "channel_items (zs_queue (zc_slots z' ! l)) = channel_items (zs_queue (zc_slots z ! l)) @
          (if k \<le> l \<and> l < k + Suc j \<and> subscribed z l \<and> has_room z l then [i] else [])" if l: "l < length (zc_slots z)" for l
      proof (cases "l = k")
        case lk: True
        show ?thesis using ih l r(2) b True room unfolding lk by (simp add: nth)
      next
        case False
        then have "(k \<le> l \<and> l < k + Suc j) = (Suc k \<le> l \<and> l < Suc k + j)" by auto
        then show ?thesis using ih l False same [OF False] nth [of l] by simp
      qed
      show ?thesis unfolding up using ih True room items by simp
    next
      case b: False
      let ?z = "zc_dropped i (z\<lparr>zc_pool := pool_retain i (zc_pool z)\<rparr>)"
      have p: "publish_slots i (Suc k) j a (d + 1) ?z = (a', d', z')" using Suc.prems(1) True s b by (simp add: subscribed_def)
      have sl: "zc_slots ?z = zc_slots z" by simp
      have room: "\<not> has_room z k" using r(1) b by (simp add: has_room_def)
      have same: "subscribed ?z = subscribed z" "has_room ?z = has_room z"
        by (rule ext, simp only: subscribed_def has_room_def sl)+
      have ih: "a' = a + length (filter (\<lambda>l. subscribed z l \<and> has_room z l) [Suc k..<Suc k + j]) \<and>
        d' = d + 1 + length (filter (\<lambda>l. subscribed z l \<and> \<not> has_room z l) [Suc k..<Suc k + j]) \<and>
        (\<forall>l < length (zc_slots z). channel_items (zs_queue (zc_slots z' ! l)) = channel_items (zs_queue (zc_slots z ! l)) @
           (if Suc k \<le> l \<and> l < Suc k + j \<and> subscribed z l \<and> has_room z l then [i] else []))"
        using Suc.IH [OF p, unfolded same sl] Suc.prems(2,3,4) by simp
      show ?thesis unfolding up using ih True room by (auto simp: le_eq_less_or_eq)
    qed
  qed
qed simp

lemma sum_list_nth: "sum_list (map f xs) = sum_list (map (\<lambda>k. f (xs ! k)) [0..<length xs])"
  by (rule arg_cong [of _ _ sum_list], rule nth_equalityI) simp_all

lemma sum_list_singles: "sum_list (map (\<lambda>k. if P k then {#i#} else {#}) ks) = replicate_mset (length (filter P ks)) i"
  by (induction ks) simp_all

lemma queued_delivers:
  assumes "length (zc_slots z') = length (zc_slots z)"
    "\<And>k. k < length (zc_slots z) \<Longrightarrow>
      channel_items (zs_queue (zc_slots z' ! k)) = channel_items (zs_queue (zc_slots z ! k)) @ (if P k then [i] else [])"
  shows "queued z' = queued z + replicate_mset (length (filter P [0..<length (zc_slots z)])) i"
proof -
  let ?m = "\<lambda>z k. mset (channel_items (zs_queue (zc_slots z ! k)))"
  have "queued z' = sum_list (map (?m z') [0..<length (zc_slots z)])"
    unfolding queued_def by (subst sum_list_nth) (simp add: assms(1))
  also have "\<dots> = sum_list (map (\<lambda>k. ?m z k + (if P k then {#i#} else {#})) [0..<length (zc_slots z)])"
    by (intro arg_cong [of _ _ sum_list] map_cong) (auto simp: assms(2))
  also have "\<dots> = sum_list (map (?m z) [0..<length (zc_slots z)]) + replicate_mset (length (filter P [0..<length (zc_slots z)])) i"
    by (simp add: sum_list_addf sum_list_singles)
  also have "sum_list (map (?m z) [0..<length (zc_slots z)]) = queued z"
    unfolding queued_def by (subst (2) sum_list_nth) simp
  finally show ?thesis .
qed

text \<open>
  Publishing a loan puts its index into the channel of every subscriber that has room, once, and into
  no other; the result counts both kinds of subscribers. The loan is used up exactly when somebody
  got the index, and then the slot has one reference per receiver; otherwise the caller keeps a loan that nobody shares.
\<close>

theorem publish_zero_copy_exact:
  assumes "zc_inv w" "owner w = Free" "writable i w" "zc_valid (sys w)" "publish_zero_copy (Some i) (sys w) = (r, left, z)"
  shows "pr_accepted r = length (filter (\<lambda>k. subscribed (sys w) k \<and> has_room (sys w) k) [0..<length (zc_slots (sys w))]) \<and>
    pr_dropped r = length (filter (\<lambda>k. subscribed (sys w) k \<and> \<not> has_room (sys w) k) [0..<length (zc_slots (sys w))]) \<and>
    (\<forall>k < length (zc_slots (sys w)). channel_items (zs_queue (zc_slots z ! k)) = channel_items (zs_queue (slot_at w k)) @
       (if subscribed (sys w) k \<and> has_room (sys w) k then [i] else [])) \<and>
    left = (if pr_accepted r = 0 then Some i else None) \<and>
    ps_references (mp_slots (zc_pool z) ! i) = (if pr_accepted r = 0 then 1 else pr_accepted r)"
proof -
  let ?n = "length (zc_slots (sys w))" let ?P = "\<lambda>k. subscribed (sys w) k \<and> has_room (sys w) k"
  have h: "pool_holds (zc_pool (sys w)) (held w)" and sl: "slots_ok w" using assms(1) by (simp_all add: zc_inv_def)
  obtain a d z1 where ps: "publish_slots i 0 ?n 0 0 (sys w) = (a, d, z1)" by (rule prod_cases3)
  then have e: "publish_end i a d z1 = (r, left, z)" using assms(4,5) by (simp add: publish_zero_copy_def)
  have i: "i \<in># held w" using assms(3) by (simp add: writable_def held_def)
  note dl = publish_slots_delivers [OF ps _ held_small [OF h sl i] slots_okD [OF sl], simplified]
  have r: "pr_accepted r = a" "pr_dropped r = d" using e by (auto simp: publish_end_def Let_def)
  note ee = publish_end_effect [OF e]
  have items: "channel_items (zs_queue (zc_slots z ! k)) = channel_items (zs_queue (slot_at w k)) @ (if ?P k then [i] else [])"
    if "k < ?n" for k using dl that ee(2) by auto
  let ?w = "w\<lparr>sys := z, producers := (if left = None then producers w - {#i#} else producers w)\<rparr>"
  have inv: "zc_inv ?w" using zc_run_inv [OF publish_run [OF assms(2-5)] assms(1)] .
  have c: "count (held ?w) i = (if a = 0 then 1 else a)"
  proof (cases "a = 0")
    case True
    then have "writable i ?w" using assms(3) ee(1) by (simp add: writable_def)
    then show ?thesis using True writable_single [OF inv] by simp
  next
    case False
    have "queued z = queued (sys w) + replicate_mset a i"
      using queued_delivers [of z "sys w" ?P i] items dl publish_slots_length [OF ps] ee(2) by simp
    then have "shared ?w = shared w + replicate_mset a i" by (simp add: shared_def)
    moreover have "count (shared w) i = 0" "count (producers w) i \<le> 1"
      using assms(1,3) by (auto simp: zc_inv_def exclusive_def not_in_iff)
    ultimately show ?thesis using False ee(1) assms(2) by (simp add: held_def)
  qed
  then have "i \<in># held ?w" by (metis count_eq_zero_iff zero_neq_one)
  then have "ps_references (mp_slots (zc_pool z) ! i) = count (held ?w) i" using inv by (auto simp: zc_inv_def pool_holds_def)
  then show ?thesis using dl r items c ee(1) by auto
qed

text \<open>
  The whole operations, run while nobody else moves, are runs of the interleaved system, and so keep
  its invariant: publishing a loan one holds, receiving (which replaces the read loan in \<open>out\<close>), leaving, and
  subscribing.
\<close>

theorem zero_copy_calls_run:
  assumes "zc_inv w" "owner w = Free"
  shows "(\<forall>i r left z. writable i w \<and> zc_valid (sys w) \<and> publish_zero_copy (Some i) (sys w) = (r, left, z) \<longrightarrow>
       zc_step\<^sup>*\<^sup>* w (w\<lparr>sys := z, producers := (if left = None then producers w - {#i#} else producers w)\<rparr>)) \<and>
    (\<forall>sid out b out' z. receive_loan sid out (sys w) = (b, out', z) \<and> (\<forall>i. out = Some i \<longrightarrow> i \<in># readers w) \<longrightarrow>
       (\<exists>R. zc_step\<^sup>*\<^sup>* w (w\<lparr>sys := z, readers := R\<rparr>) \<and>
         (if b then \<exists>i. out' = Some i \<and> R = readers w + {#i#} - (case out of None \<Rightarrow> {#} | Some j \<Rightarrow> {#j#})
          else out' = out \<and> R = readers w))) \<and>
    (\<forall>sid b z. zc_unsubscribe sid (sys w) = (b, z) \<longrightarrow> zc_step\<^sup>*\<^sup>* w (w\<lparr>sys := z\<rparr>)) \<and>
    (\<forall>r z. zc_subscribe (sys w) = (r, z) \<longrightarrow> zc_step\<^sup>*\<^sup>* w (w\<lparr>sys := z\<rparr>))"
proof (intro conjI allI impI)
  have sl: "slots_ok w" using assms(1) by (simp add: zc_inv_def)
  fix r z assume "zc_subscribe (sys w) = (r, z)"
  then show "zc_step\<^sup>*\<^sup>* w (w\<lparr>sys := z\<rparr>)" using subscribes [OF assms(2)] by blast
next
  fix sid b z assume "zc_unsubscribe sid (sys w) = (b, z)"
  then show "zc_step\<^sup>*\<^sup>* w (w\<lparr>sys := z\<rparr>)" using unsubscribe_run [OF assms(2)] assms(1) by (simp add: zc_inv_def)
next
  fix sid out b out' z
  assume "receive_loan sid out (sys w) = (b, out', z) \<and> (\<forall>i. out = Some i \<longrightarrow> i \<in># readers w)"
  then show "\<exists>R. zc_step\<^sup>*\<^sup>* w (w\<lparr>sys := z, readers := R\<rparr>) \<and>
         (if b then \<exists>i. out' = Some i \<and> R = readers w + {#i#} - (case out of None \<Rightarrow> {#} | Some j \<Rightarrow> {#j#})
          else out' = out \<and> R = readers w)" by (intro receive_run [OF assms(2)]) auto
next
  fix i r left z
  assume "writable i w \<and> zc_valid (sys w) \<and> publish_zero_copy (Some i) (sys w) = (r, left, z)"
  then show "zc_step\<^sup>*\<^sup>* w (w\<lparr>sys := z, producers := (if left = None then producers w - {#i#} else producers w)\<rparr>)"
    using publish_run [OF assms(2)] by blast
qed

section \<open>Examples\<close>

text \<open>One subscriber and a producer with a loan.\<close>

definition zc_demo :: zc_world where
  "zc_demo = (zc_idle (snd (zc_try_loan (snd (zc_subscribe (zc_start [5, 6] 2 1))))))\<lparr>producers := {#0#}\<rparr>"

lemma zc_demo_reached: "zc_step\<^sup>*\<^sup>* (zc_idle (zc_start [5, 6] 2 1)) zc_demo"
proof -
  let ?w = "zc_idle (zc_start [5, 6] 2 1)" let ?s = "?w\<lparr>sys := snd (zc_subscribe (sys ?w))\<rparr>"
  have "zc_step ?w ?s" by (rule subscribes [where r = "fst (zc_subscribe (sys ?w))"]) (simp_all add: zc_idle_def)
  moreover have "zc_try_loan (snd (zc_subscribe (zc_start [5, 6] 2 1))) = (Some 0, snd (zc_try_loan (snd (zc_subscribe (zc_start [5, 6] 2 1)))))"
    by code_simp
  then have "zc_step ?s zc_demo" using loan [of ?s 0] by (simp add: zc_demo_def zc_idle_def)
  ultimately show ?thesis by (meson converse_rtranclp_into_rtranclp r_into_rtranclp)
qed

lemma zc_demo_ok: "zc_inv zc_demo" "owner zc_demo = Free" "writable 0 zc_demo" "zc_valid (sys zc_demo)"
proof -
  show "zc_inv zc_demo" using zc_run_inv [OF zc_demo_reached zc_start_inv] by simp
  show "owner zc_demo = Free" "writable 0 zc_demo" by (simp_all add: zc_demo_def zc_idle_def writable_def)
  have "zc_valid (snd (zc_try_loan (snd (zc_subscribe (zc_start [5, 6] 2 1)))))" by code_simp
  then show "zc_valid (sys zc_demo)" by (simp add: zc_demo_def zc_idle_def)
qed

theorem zero_copy_conserves_witness: "ps_references (mp_slots (zc_pool (sys zc_demo)) ! 0) = 1"
  using zero_copy_conserves [OF _ _ zc_demo_reached] zc_demo_ok(3) by simp

theorem zero_copy_stable_witness: "zc_try_loan (sys zc_demo) = (Some 1, snd (zc_try_loan (sys zc_demo))) \<and> 1 \<notin># held zc_demo"
proof -
  have "zc_try_loan (snd (zc_try_loan (snd (zc_subscribe (zc_start [5, 6] 2 1))))) =
      (Some 1, snd (zc_try_loan (snd (zc_try_loan (snd (zc_subscribe (zc_start [5, 6] 2 1)))))))" by code_simp
  then have l: "zc_try_loan (sys zc_demo) = (Some 1, snd (zc_try_loan (sys zc_demo)))" by (simp add: zc_demo_def zc_idle_def)
  have "(0::nat) < 1" "length [5, 6 :: nat] \<le> 2 ^ 64" by simp_all
  from zero_copy_stable [OF this zc_demo_reached, THEN conjunct2, rule_format, OF l] l show ?thesis by blast
qed

theorem publish_zero_copy_exact_witness:
  "\<exists>r z. publish_zero_copy (Some 0) (sys zc_demo) = (r, None, z) \<and> pr_accepted r = 1 \<and>
    channel_items (zs_queue (zc_slots z ! 0)) = channel_items (zs_queue (slot_at zc_demo 0)) @ [0]"
proof -
  obtain r left z where p: "publish_zero_copy (Some 0) (sys zc_demo) = (r, left, z)" by (rule prod_cases3)
  have "pr_accepted (fst (publish_zero_copy (Some 0) (snd (zc_try_loan (snd (zc_subscribe (zc_start [5, 6] 2 1))))))) = 1" by code_simp
  then have a: "pr_accepted r = 1" using p by (simp add: zc_demo_def zc_idle_def)
  have "let y = snd (zc_try_loan (snd (zc_subscribe (zc_start [5, 6] 2 1)))) in subscribed y 0 \<and> has_room y 0 \<and> length (zc_slots y) = 2" by code_simp
  then have "subscribed (sys zc_demo) 0 \<and> has_room (sys zc_demo) 0" "0 < length (zc_slots (sys zc_demo))"
    by (simp_all add: zc_demo_def zc_idle_def Let_def)
  then show ?thesis using publish_zero_copy_exact [OF zc_demo_ok p] p a by auto
qed

theorem zero_copy_calls_run_witness:
  "zc_step\<^sup>*\<^sup>* zc_demo (zc_demo\<lparr>sys := snd (zc_unsubscribe 0 (sys zc_demo))\<rparr>)"
  using zero_copy_calls_run [OF zc_demo_ok(1,2)] by (metis prod.collapse)

end
