(* ===== verification/Osal_Notification.thy ===== *)
theory Osal_Notification
  imports Osal_Condvar_Lifecycle Osal_Clock
begin

text \<open>
  The class \<^verbatim>\<open>condvar\<close> of \<^verbatim>\<open>include/osal/condvar.hpp\<close>, whose waits take a predicate, over the
  emulated condition variable; and on it \<^verbatim>\<open>include/osal/notification.hpp\<close>: slots with a 32-bit
  value and a pending flag. The counters that \<^verbatim>\<open>osal::mutex\<close> keeps for the whole process are left out.
\<close>

section \<open>Condition variables with predicates\<close>

text \<open>The condition variable \<open>h\<close> and the mutex \<open>m\<close> are given by their handles.\<close>

definition condvar_wait ::
  "handle \<Rightarrow> handle \<Rightarrow> 'z cv_state_scheme env \<Rightarrow> 'z cv_state_scheme \<Rightarrow> ('z cv_state_scheme \<times> 'z cv_state_scheme env) option" where
  "condvar_wait h m env s = do { (_, s1, env1) \<leftarrow> osal_condvar_wait (Some h) (Some m) WAIT_FOREVER env s; Some (s1, env1) }"

partial_function (option) condvar_wait_pred ::
  "handle \<Rightarrow> handle \<Rightarrow> ('z cv_state_scheme \<Rightarrow> bool) \<Rightarrow> 'z cv_state_scheme env \<Rightarrow> 'z cv_state_scheme
   \<Rightarrow> ('z cv_state_scheme \<times> 'z cv_state_scheme env) option" where
  "condvar_wait_pred h m pred env s =
     (if pred s then Some (s, env)
      else do { (s1, env1) \<leftarrow> condvar_wait h m env s; condvar_wait_pred h m pred env1 s1 })"

definition condvar_wait_for ::
  "handle \<Rightarrow> handle \<Rightarrow> int \<Rightarrow> 'z cv_state_scheme env \<Rightarrow> 'z cv_state_scheme
   \<Rightarrow> (bool \<times> 'z cv_state_scheme \<times> 'z cv_state_scheme env) option" where
  "condvar_wait_for h m timeout env s = do {
     (r, s1, env1) \<leftarrow> osal_condvar_wait (Some h) (Some m) (ms_to_ticks osal_clock_tick_period_us timeout) env s;
     Some (r = Ok, s1, env1) }"

partial_function (option) wait_for_loop ::
  "handle \<Rightarrow> handle \<Rightarrow> int \<Rightarrow> ('z cv_state_scheme \<Rightarrow> bool) \<Rightarrow> 'z cv_state_scheme env \<Rightarrow> 'z cv_state_scheme
   \<Rightarrow> (bool \<times> 'z cv_state_scheme \<times> 'z cv_state_scheme env) option" where
  "wait_for_loop h m expiry pred env s =
     (if pred s then Some (True, s, env)
      else if deadline_expired expiry (osal_clock_monotonic_ms s) then Some (pred s, s, env)
      else do {
        (notified, s1, env1) \<leftarrow> condvar_wait_for h m (deadline_remaining expiry (osal_clock_monotonic_ms s)) env s;
        if \<not> notified then Some (pred s1, s1, env1) else wait_for_loop h m expiry pred env1 s1 })"

definition condvar_wait_for_pred ::
  "handle \<Rightarrow> handle \<Rightarrow> int \<Rightarrow> ('z cv_state_scheme \<Rightarrow> bool) \<Rightarrow> 'z cv_state_scheme env \<Rightarrow> 'z cv_state_scheme
   \<Rightarrow> (bool \<times> 'z cv_state_scheme \<times> 'z cv_state_scheme env) option" where
  "condvar_wait_for_pred h m timeout pred env s =
     wait_for_loop h m (deadline_after 1 1 (osal_clock_monotonic_ms s) timeout) pred env s"

partial_function (option) condvar_wait_until ::
  "handle \<Rightarrow> handle \<Rightarrow> int \<Rightarrow> 'z cv_state_scheme env \<Rightarrow> 'z cv_state_scheme
   \<Rightarrow> (bool \<times> 'z cv_state_scheme \<times> 'z cv_state_scheme env) option" where
  "condvar_wait_until h m deadline env s =
     (if deadline_expired deadline (osal_clock_monotonic_ms s) then Some (False, s, env)
      else do {
        (notified, s1, env1) \<leftarrow> condvar_wait_for h m (deadline_remaining deadline (osal_clock_monotonic_ms s)) env s;
        if notified then Some (True, s1, env1) else condvar_wait_until h m deadline env1 s1 })"

definition condvar_wait_until_pred ::
  "handle \<Rightarrow> handle \<Rightarrow> int \<Rightarrow> ('z cv_state_scheme \<Rightarrow> bool) \<Rightarrow> 'z cv_state_scheme env \<Rightarrow> 'z cv_state_scheme
   \<Rightarrow> (bool \<times> 'z cv_state_scheme \<times> 'z cv_state_scheme env) option" where
  "condvar_wait_until_pred h m deadline pred env s =
     condvar_wait_for_pred h m (deadline_remaining deadline (osal_clock_monotonic_ms s)) pred env s"

section \<open>Notifications\<close>

datatype notification_action = set_bits | increment | overwrite | no_overwrite

record slot_state =
  ns_value :: u32
  ns_pending :: bool

record notification =
  nt_mtx :: handle
  nt_mtx_valid :: bool
  nt_cv :: handle
  nt_cv_valid :: bool
  nt_slots :: "slot_state list"

record note_state = cv_state +
  ntf :: notification

type_synonym note_env = "note_state env"

definition note_valid :: "note_state \<Rightarrow> bool" where
  "note_valid s \<longleftrightarrow> nt_mtx_valid (ntf s) \<and> nt_cv_valid (ntf s)"

definition index_valid :: "note_state \<Rightarrow> nat \<Rightarrow> bool" where
  "index_valid s index \<longleftrightarrow> index < length (nt_slots (ntf s))"

text \<open>
  Construction of the members in their order, mutex, condition variable and slots, and destruction in the
  opposite order. A failed creation leaves the handle null.
\<close>

definition note_construct :: "nat \<Rightarrow> note_state \<Rightarrow> note_state" where
  "note_construct slots s =
     (case osal_mutex_create None s of (r1, m, s1) \<Rightarrow>
      case osal_condvar_create (Some None) s1 of (r2, c, s2) \<Rightarrow>
        s2\<lparr>ntf := \<lparr>nt_mtx = m, nt_mtx_valid = (r1 = Ok), nt_cv = the c, nt_cv_valid = (r2 = Ok),
          nt_slots = replicate slots \<lparr>ns_value = 0, ns_pending = False\<rparr>\<rparr>\<rparr>)"

definition note_destruct :: "note_state \<Rightarrow> note_state" where
  "note_destruct s =
     (let s1 = if nt_cv_valid (ntf s) then snd (snd (osal_condvar_destroy (Some (nt_cv (ntf s))) s)) else s
      in if nt_mtx_valid (ntf s1) then snd (snd (osal_mutex_destroy (Some (nt_mtx (ntf s1))) s1)) else s1)"

definition note_slot :: "note_state \<Rightarrow> nat \<Rightarrow> slot_state" where
  "note_slot s index = nt_slots (ntf s) ! index"

definition note_put :: "nat \<Rightarrow> slot_state \<Rightarrow> note_state \<Rightarrow> note_state" where
  "note_put index sl s = s\<lparr>ntf := (ntf s)\<lparr>nt_slots := (nt_slots (ntf s))[index := sl]\<rparr>\<rparr>"

definition note_lock :: "note_env \<Rightarrow> note_state \<Rightarrow> (note_state \<times> note_env) option" where
  "note_lock env s = do { (_, s1, env1) \<leftarrow> osal_mutex_lock (Some (nt_mtx (ntf s))) WAIT_FOREVER env s; Some (s1, env1) }"

definition note_unlock :: "note_state \<Rightarrow> note_state" where
  "note_unlock s = snd (osal_mutex_unlock (Some (nt_mtx (ntf s))) s)"

text \<open>The guards every operation starts with.\<close>

definition note_guard :: "nat \<Rightarrow> note_state \<Rightarrow> error_code option" where
  "note_guard index s =
     (if \<not> note_valid s then Some Not_initialized else if \<not> index_valid s index then Some Invalid_argument else None)"

text \<open>
  The \<^verbatim>\<open>switch\<close> of \<open>notify\<close>; \<open>None\<close> for a pending slot that must not be overwritten. The default case
  is for values that are none of the four enumerators.
\<close>

fun apply_action :: "notification_action \<Rightarrow> u32 \<Rightarrow> slot_state \<Rightarrow> slot_state option" where
  "apply_action set_bits v sl = Some (sl\<lparr>ns_value := ns_value sl OR v, ns_pending := True\<rparr>)"
| "apply_action increment v sl = Some (sl\<lparr>ns_value := ns_value sl + 1, ns_pending := True\<rparr>)"
| "apply_action overwrite v sl = Some (sl\<lparr>ns_value := v, ns_pending := True\<rparr>)"
| "apply_action no_overwrite v sl = (if ns_pending sl then None else Some (sl\<lparr>ns_value := v, ns_pending := True\<rparr>))"

definition note_notify :: "u32 \<Rightarrow> notification_action \<Rightarrow> nat \<Rightarrow> note_env \<Rightarrow> note_state \<Rightarrow> (error_code \<times> note_state \<times> note_env) option" where
  "note_notify v action index env s =
     (case note_guard index s of
        Some e \<Rightarrow> Some (e, s, env)
      | None \<Rightarrow> do {
          (s1, env1) \<leftarrow> note_lock env s;
          case apply_action action v (note_slot s1 index) of
            None \<Rightarrow> Some (Would_block, note_unlock s1, env1)
          | Some sl \<Rightarrow> do {
              (_, s2, env2) \<leftarrow> osal_condvar_notify_all (Some (nt_cv (ntf s1))) env1 (note_put index sl s1);
              Some (Ok, note_unlock s2, env2) } })"

definition note_clear :: "u32 \<Rightarrow> nat \<Rightarrow> note_env \<Rightarrow> note_state \<Rightarrow> (error_code \<times> note_state \<times> note_env) option" where
  "note_clear bits index env s =
     (case note_guard index s of
        Some e \<Rightarrow> Some (e, s, env)
      | None \<Rightarrow> do {
          (s1, env1) \<leftarrow> note_lock env s;
          let sl = note_slot s1 index;
          Some (Ok, note_unlock (note_put index (sl\<lparr>ns_value := ns_value sl AND NOT bits\<rparr>) s1), env1) })"

definition note_reset :: "nat \<Rightarrow> note_env \<Rightarrow> note_state \<Rightarrow> (error_code \<times> note_state \<times> note_env) option" where
  "note_reset index env s =
     (case note_guard index s of
        Some e \<Rightarrow> Some (e, s, env)
      | None \<Rightarrow> do {
          (s1, env1) \<leftarrow> note_lock env s;
          Some (Ok, note_unlock (note_put index \<lparr>ns_value = 0, ns_pending = False\<rparr> s1), env1) })"

text \<open>The end of a successful wait: what goes to \<^verbatim>\<open>value_out\<close>, and the slot consumed.\<close>

definition note_consume :: "nat \<Rightarrow> u32 \<Rightarrow> note_state \<Rightarrow> (error_code \<times> u32 option) \<times> note_state" where
  "note_consume index clear_on_exit s =
     (let sl = note_slot s index
      in ((Ok, Some (ns_value sl)),
          note_unlock (note_put index (sl\<lparr>ns_value := ns_value sl AND NOT clear_on_exit, ns_pending := False\<rparr>) s)))"

text \<open>A negative timeout waits forever. The value is \<open>None\<close> where nothing is written to \<^verbatim>\<open>value_out\<close>.\<close>

definition note_wait :: "nat \<Rightarrow> int \<Rightarrow> u32 \<Rightarrow> u32 \<Rightarrow> note_env \<Rightarrow> note_state \<Rightarrow> ((error_code \<times> u32 option) \<times> note_state \<times> note_env) option" where
  "note_wait index timeout clear_on_entry clear_on_exit env s =
     (case note_guard index s of
        Some e \<Rightarrow> Some ((e, None), s, env)
      | None \<Rightarrow> do {
          (s1, env1) \<leftarrow> note_lock env s;
          let sl = note_slot s1 index;
          let s2 = note_put index (sl\<lparr>ns_value := ns_value sl AND NOT clear_on_entry\<rparr>) s1;
          let pred = (\<lambda>s. ns_pending (note_slot s index));
          if pred s2 then case note_consume index clear_on_exit s2 of (r, s3) \<Rightarrow> Some (r, s3, env1)
          else if timeout < 0 then do {
            (s3, env3) \<leftarrow> condvar_wait_pred (nt_cv (ntf s2)) (nt_mtx (ntf s2)) pred env1 s2;
            case note_consume index clear_on_exit s3 of (r, s4) \<Rightarrow> Some (r, s4, env3) }
          else do {
            (b, s3, env3) \<leftarrow> condvar_wait_for_pred (nt_cv (ntf s2)) (nt_mtx (ntf s2)) timeout pred env1 s2;
            if \<not> b then Some ((Timeout, None), note_unlock s3, env3)
            else case note_consume index clear_on_exit s3 of (r, s4) \<Rightarrow> Some (r, s4, env3) } })"

definition note_pending :: "nat \<Rightarrow> note_env \<Rightarrow> note_state \<Rightarrow> (bool \<times> note_state \<times> note_env) option" where
  "note_pending index env s =
     (if note_guard index s \<noteq> None then Some (False, s, env)
      else do { (s1, env1) \<leftarrow> note_lock env s; Some (ns_pending (note_slot s1 index), note_unlock s1, env1) })"

definition note_peek :: "nat \<Rightarrow> note_env \<Rightarrow> note_state \<Rightarrow> (u32 \<times> note_state \<times> note_env) option" where
  "note_peek index env s =
     (if note_guard index s \<noteq> None then Some (0, s, env)
      else do { (s1, env1) \<leftarrow> note_lock env s; Some (ns_value (note_slot s1 index), note_unlock s1, env1) })"

section \<open>Frames\<close>

lemma note_frame [simp]:
  "ntf (mutex_set g b s) = ntf s" "ntf (cv_signal_eff c A s) = ntf s" "ntf (sem_set i n s) = ntf s" "ntf (cv_put c obj s) = ntf s"
  "ntf (cv_register c k s) = ntf s" "ntf (cv_unregister c k s) = ntf s"
  "cv_obj (note_put i sl s) c = cv_obj s c" "emu_cv_pool (note_put i sl s) = emu_cv_pool s"
  "bm_mutex_pool (note_put i sl s) = bm_mutex_pool s" "bm_sem_pool (note_put i sl s) = bm_sem_pool s" "g_ticks (note_put i sl s) = g_ticks s"
  by (simp_all add: mutex_set_def cv_signal_eff_def give_tokens_def sem_set_def cv_put_def cv_register_def cv_unregister_def cv_obj_def note_put_def Let_def)

lemma note_put_simps [simp]:
  "nt_mtx (ntf (note_put i sl s)) = nt_mtx (ntf s)" "nt_cv (ntf (note_put i sl s)) = nt_cv (ntf s)"
  "nt_mtx_valid (ntf (note_put i sl s)) = nt_mtx_valid (ntf s)" "nt_cv_valid (ntf (note_put i sl s)) = nt_cv_valid (ntf s)"
  "length (nt_slots (ntf (note_put i sl s))) = length (nt_slots (ntf s))"
  "i < length (nt_slots (ntf s)) \<Longrightarrow> note_slot (note_put i sl s) j = (if j = i then sl else note_slot s j)"
  by (simp_all add: note_put_def note_slot_def nth_list_update)

lemma note_cv_frame [simp]:
  "cv_core c (note_put i sl s) = cv_core c s" "cv_targets c (note_put i sl s) = cv_targets c s" "cv_targets c (mutex_set g b s) = cv_targets c s"
  "cv_inv c (note_put i sl s) = cv_inv c s" "note_slot (mutex_set g b s) i = note_slot s i"
  "note_slot (cv_signal_eff c A s) i = note_slot s i" "note_slot (cv_asleep c k l g s) i = note_slot s i" "note_slot (cv_awake c k l g s) i = note_slot s i"
  by (simp_all add: cv_asleep_def cv_awake_def cv_core_def cv_slot_ok_def sem_get_def cv_targets_def cv_inv_def mutex_free_def note_slot_def)

lemma note_put_commute:
  "note_put i sl (mutex_set g b s) = mutex_set g b (note_put i sl s)"
  "cv_signal_eff c A (note_put i sl s) = note_put i sl (cv_signal_eff c A s)"
  by (simp_all add: note_put_def mutex_set_def cv_signal_eff_def cv_put_def cv_obj_def give_tokens_def)

section \<open>Properties\<close>

text \<open>A notification object at rest: its mutex and its condition variable are free and well formed.\<close>

definition note_inv :: "note_state \<Rightarrow> bool" where
  "note_inv s \<longleftrightarrow> note_valid s \<and> mutex_free (nt_mtx (ntf s)) s \<and>
     (\<exists>c. nt_cv (ntf s) = Some c \<and> cv_inv c s \<and> cv_guard (cv_obj s c) \<noteq> nt_mtx (ntf s))"

lemma note_invE:
  assumes "note_inv s"
  obtains g c where "nt_mtx (ntf s) = Some g" "g < length (bm_mutex_pool s)" "\<not> mtx_flag (bm_mutex_pool s ! g)"
    "nt_cv (ntf s) = Some c" "cv_inv c s" "cv_guard (cv_obj s c) \<noteq> Some g" "note_valid s"
  using assms unfolding note_inv_def mutex_free_def by auto

lemma note_lock_free: "nt_mtx (ntf s) = Some g \<Longrightarrow> \<not> mtx_flag (bm_mutex_pool s ! g) \<Longrightarrow> note_lock env s = Some (mutex_set g True s, env)"
  by (simp add: note_lock_def mutex_lock_set)

lemma note_unlock_held:
  "nt_mtx (ntf s) = Some g \<Longrightarrow> \<not> mtx_flag (bm_mutex_pool s ! g) \<Longrightarrow> note_unlock (mutex_set g True s) = s"
  by (simp add: note_unlock_def mutex_unlock_set mutex_set_undo)

lemma note_notify_calm:
  assumes "note_inv s" "index_valid s index" "nt_cv (ntf s) = Some c"
  shows "\<exists>m'. note_notify v a index (calm (cv_slots c s) @ env) s =
    (case apply_action a v (note_slot s index) of
       None \<Rightarrow> Some (Would_block, s, calm m' @ env)
     | Some sl \<Rightarrow> Some (Ok, note_put index sl (cv_signal_eff c (cv_targets c s) s), calm m' @ env))"
proof -
  obtain g where g: "nt_mtx (ntf s) = Some g" "g < length (bm_mutex_pool s)" "\<not> mtx_flag (bm_mutex_pool s ! g)"
    and cv: "cv_inv c s" "cv_guard (cv_obj s c) \<noteq> Some g" and v: "note_valid s"
    using note_invE [OF assms(1)] assms(3) by (metis option.inject)
  have guard: "note_guard index s = None" using v assms(2) by (simp add: note_guard_def)
  show ?thesis
  proof (cases "apply_action a v (note_slot s index)")
    case None
    then show ?thesis
      using guard g by (intro exI [of _ "cv_slots c s"]) (simp add: note_notify_def note_lock_free note_unlock_held)
  next
    case (Some sl)
    let ?s1 = "mutex_set g True (note_put index sl s)"
    have "cv_inv c (note_put index sl s)" using cv(1) by simp
    then have cv1: "cv_inv c ?s1" by (rule cv_inv_mutex_set) (use cv(2) in simp)
    obtain m' where n: "osal_condvar_notify_all (Some (Some c)) (calm (cv_slots c s) @ env) ?s1 =
        Some (Ok, mutex_set g True (note_put index sl (cv_signal_eff c (cv_targets c s) s)), calm m' @ env)"
      using cv_notify_calm [OF cv1, of False env]
      by (auto simp: osal_condvar_notify_all_def cv_chosen_def cv_signal_eff_mutex_set note_put_commute)
    show ?thesis
      using guard g Some n assms(3)
      by (intro exI [of _ m']) (simp add: note_notify_def note_lock_free note_unlock_held note_put_commute)
  qed
qed

text \<open>
  Notifying a slot at rest does what its action says and makes the slot pending, unless the slot is pending and must
  not be overwritten: then nothing changes and the answer is \<open>Would_block\<close>. Otherwise every task waiting
  on the object is signalled and has a token, the other slots keep their state, and the object is at rest again.
\<close>

theorem notify_exact:
  assumes "note_inv s" "index_valid s index" "nt_cv (ntf s) = Some c" "n = cv_slots c s"
  shows "\<exists>r s' env'. note_notify v a index (calm n @ env) s = Some (r, s', env') \<and> note_inv s' \<and>
    (if a = no_overwrite \<and> ns_pending (note_slot s index) then r = Would_block \<and> s' = s
     else r = Ok \<and> ns_pending (note_slot s' index) \<and>
       ns_value (note_slot s' index) =
         (case a of set_bits \<Rightarrow> ns_value (note_slot s index) OR v | increment \<Rightarrow> ns_value (note_slot s index) + 1 | _ \<Rightarrow> v) \<and>
       (\<forall>j. j \<noteq> index \<longrightarrow> note_slot s' j = note_slot s j) \<and>
       (\<forall>k i. k < n \<and> cw_sem (cv_waiter c s k) = Some i \<and> cv_open (cv_waiter c s k) \<longrightarrow>
          cw_signalled (cv_waiter c s' k) \<and> sem_get i s' = 1))"
proof -
  obtain g where g: "nt_mtx (ntf s) = Some g" "g < length (bm_mutex_pool s)" "\<not> mtx_flag (bm_mutex_pool s ! g)"
    and cv: "cv_inv c s" "cv_guard (cv_obj s c) \<noteq> Some g" and v: "note_valid s"
    using note_invE [OF assms(1)] assms(3) by (metis option.inject)
  have core: "cv_core c s" using cv(1) by (simp add: cv_inv_def)
  have cp: "c < length (emu_cv_pool s)" by (rule cv_coreD(1) [OF core])
  have i: "index < length (nt_slots (ntf s))" using assms(2) by (simp add: index_valid_def)
  obtain m' where run: "note_notify v a index (calm n @ env) s =
    (case apply_action a v (note_slot s index) of
       None \<Rightarrow> Some (Would_block, s, calm m' @ env)
     | Some sl \<Rightarrow> Some (Ok, note_put index sl (cv_signal_eff c (cv_targets c s) s), calm m' @ env))"
    using note_notify_calm [OF assms(1-3)] assms(4) by blast
  show ?thesis
  proof (cases "apply_action a v (note_slot s index)")
    case None
    then have "a = no_overwrite \<and> ns_pending (note_slot s index)" by (cases a) (auto split: if_splits)
    then show ?thesis using run None assms(1) by simp
  next
    case (Some sl)
    let ?s' = "note_put index sl (cv_signal_eff c (cv_targets c s) s)"
    have "cv_inv c ?s'" using cv(1) cv_core_signal_eff [OF core] cp by (simp add: cv_inv_def mutex_free_def)
    then have inv: "note_inv ?s'" using g cv(2) v assms(3) cp by (simp add: note_inv_def mutex_free_def note_valid_def)
    have sl: "ns_pending sl" "ns_value sl =
         (case a of set_bits \<Rightarrow> ns_value (note_slot s index) OR v | increment \<Rightarrow> ns_value (note_slot s index) + 1 | _ \<Rightarrow> v)"
      "\<not> (a = no_overwrite \<and> ns_pending (note_slot s index))"
      using Some by (cases a; auto split: if_splits)+
    have "\<forall>k i. k < n \<and> cw_sem (cv_waiter c s k) = Some i \<and> cv_open (cv_waiter c s k) \<longrightarrow>
          cw_signalled (cv_waiter c ?s' k) \<and> sem_get i ?s' = 1"
      using assms(4) cp sem_get_signal_eff [OF core, of _ _ "cv_targets c s"] by (auto simp: cv_targets_def sem_get_def)
    then show ?thesis using run Some inv sl i by auto
  qed
qed


definition note_demo :: note_state where
  "note_demo = \<lparr>g_ticks = 0, bm_tasks = [], bm_current = -1, bm_last_scheduled = -1,
     bm_mutex_pool = [\<lparr>mtx_flag = False\<rparr>, \<lparr>mtx_flag = False\<rparr>], bm_mutex_used_bits = [3],
     bm_sem_pool = [\<lparr>sem_count = 0, sem_max = 1\<rparr>, \<lparr>sem_count = 0, sem_max = 1\<rparr>], bm_sem_used_bits = [3],
     bm_queue_pool = [], bm_queue_used_bits = [], bm_timer_pool = [],
     emu_cv_pool = [\<lparr>cv_waiters = [\<lparr>cw_sem = Some 0, cw_in_use = True, cw_signalled = False\<rparr>,
         \<lparr>cw_sem = Some 1, cw_in_use = False, cw_signalled = False\<rparr>],
       cv_guard = Some 0, cv_n_waiters = 1, cv_pool_allocated = True\<rparr>],
     emu_cv_used = [True],
     ntf = \<lparr>nt_mtx = Some 1, nt_mtx_valid = True, nt_cv = Some 0, nt_cv_valid = True,
       nt_slots = [\<lparr>ns_value = 9, ns_pending = True\<rparr>, \<lparr>ns_value = 4, ns_pending = False\<rparr>]\<rparr>\<rparr>"

lemma note_demo_simps:
  "cv_slots 0 note_demo = 2" "cv_guard (cv_obj note_demo 0) = Some 0" "g_ticks note_demo = 0" "length (emu_cv_pool note_demo) = 1"
  "cv_waiter 0 note_demo 0 = \<lparr>cw_sem = Some 0, cw_in_use = True, cw_signalled = False\<rparr>"
  "cv_waiter 0 note_demo (Suc 0) = \<lparr>cw_sem = Some 1, cw_in_use = False, cw_signalled = False\<rparr>"
  "bm_mutex_pool note_demo = [\<lparr>mtx_flag = False\<rparr>, \<lparr>mtx_flag = False\<rparr>]" "nt_cv (ntf note_demo) = Some 0" "nt_mtx (ntf note_demo) = Some 1"
  "note_slot note_demo (Suc 0) = \<lparr>ns_value = 4, ns_pending = False\<rparr>" "note_slot note_demo 0 = \<lparr>ns_value = 9, ns_pending = True\<rparr>"
  "index_valid note_demo (Suc 0)" "note_valid note_demo"
  by (simp_all add: note_demo_def cv_obj_def note_slot_def index_valid_def note_valid_def)

lemma note_demo_ok: "note_inv note_demo"
proof -
  have "{k. k < (2 :: nat) \<and> cw_in_use (cv_waiter 0 note_demo k)} = {0}" by (auto simp: less_2_cases_iff note_demo_simps)
  then have "card {k. k < (2 :: nat) \<and> cw_in_use (cv_waiter 0 note_demo k)} = 1" by simp
  moreover have "cv_n_waiters (cv_obj note_demo 0) = 1"
    "bm_sem_pool note_demo = [\<lparr>sem_count = 0, sem_max = 1\<rparr>, \<lparr>sem_count = 0, sem_max = 1\<rparr>]"
    by (simp_all add: note_demo_def cv_obj_def)
  ultimately have "cv_inv 0 note_demo"
    by (auto simp: cv_inv_def cv_core_def mutex_free_def cv_slot_ok_def cv_open_def note_demo_simps less_2_cases_iff sem_get_def)
  then show ?thesis by (simp add: note_inv_def note_demo_simps mutex_free_def)
qed

theorem notify_exact_witness:
  "\<exists>s' env'. note_notify 3 set_bits 1 (calm 2 @ []) note_demo = Some (Ok, s', env') \<and>
     note_slot s' 1 = \<lparr>ns_value = 7, ns_pending = True\<rparr> \<and> cw_signalled (cv_waiter 0 s' 0)"
proof -
  have two: "2 = cv_slots 0 note_demo" by (simp add: note_demo_simps)
  have inst: "\<exists>r s' env'. note_notify 3 set_bits 1 (calm 2 @ []) note_demo = Some (r, s', env') \<and> r = Ok \<and>
      ns_pending (note_slot s' 1) \<and> ns_value (note_slot s' 1) = 7 \<and>
      (\<forall>k i. k < 2 \<and> cw_sem (cv_waiter 0 note_demo k) = Some i \<and> cv_open (cv_waiter 0 note_demo k) \<longrightarrow> cw_signalled (cv_waiter 0 s' k) \<and> sem_get i s' = 1)"
      proof -
    have "(4 :: u32) OR 3 = 7" by code_simp
    then show ?thesis
      using notify_exact [OF note_demo_ok note_demo_simps(12) note_demo_simps(8) two, of 3 set_bits "[]"]
      by (simp add: note_demo_simps(10)) blast
  qed
  then obtain s' env' where run: "note_notify 3 set_bits 1 (calm 2 @ []) note_demo = Some (Ok, s', env')"
    and res: "ns_pending (note_slot s' 1)" "ns_value (note_slot s' 1) = 7" and sig: "\<forall>k i. k < 2 \<and> cw_sem (cv_waiter 0 note_demo k) = Some i \<and> cv_open (cv_waiter 0 note_demo k) \<longrightarrow>
      cw_signalled (cv_waiter 0 s' k) \<and> sem_get i s' = 1" by blast
  have "cw_signalled (cv_waiter 0 s' 0)" using sig [rule_format, of 0 0] by (simp add: note_demo_simps cv_open_def)
  moreover have "note_slot s' 1 = \<lparr>ns_value = 7, ns_pending = True\<rparr>" using res by (cases "note_slot s' 1") simp
  ultimately show ?thesis using run by blast
qed

section \<open>Waiting\<close>

text \<open>A wait with a predicate ends with the predicate true, a timed one answers what the predicate says at its end.\<close>

lemma condvar_wait_pred_result:
  assumes "condvar_wait_pred h m pred env s = Some (s', env')"
  shows "pred s'"
proof -
  have "condvar_wait_pred h m pred env s = Some res \<Longrightarrow> pred (fst res)" for res
  proof (induction rule: condvar_wait_pred.raw_induct [rotated 1, consumes 1])
    case (1 loop h m pred env s res)
    show ?case using "1"(2) by (auto split: if_splits bind_splits dest: "1"(1))
  qed
  with assms show ?thesis by force
qed

lemma wait_for_loop_result:
  assumes "wait_for_loop h m expiry pred env s = Some (b, s', env')"
  shows "b = pred s'"
proof -
  have "wait_for_loop h m expiry pred env s = Some res \<Longrightarrow> fst res = pred (fst (snd res))" for res
  proof (induction rule: wait_for_loop.raw_induct [rotated 1, consumes 1])
    case (1 loop h m expiry pred env s res)
    show ?case using "1"(2) by (auto split: if_splits bind_splits dest: "1"(1))
  qed
  with assms show ?thesis by force
qed

text \<open>What the others keep of the object is kept by the waits: their own steps do not touch it.\<close>

lemma note_stable: "cv_stable (\<lambda>s. Q (ntf s))"
  by (simp add: cv_stable_def sem_set_def)

lemma condvar_wait_pred_keeps:
  assumes "condvar_wait_pred h m pred env s = Some (s', env')" "env_keeps (\<lambda>s. Q (ntf s)) env" "Q (ntf s)"
  shows "Q (ntf s')"
proof -
  have "condvar_wait_pred h m pred env s = Some res \<Longrightarrow> env_keeps (\<lambda>s. Q (ntf s)) env \<Longrightarrow> Q (ntf s) \<Longrightarrow> Q (ntf (fst res))" for res
  proof (induction rule: condvar_wait_pred.raw_induct [rotated 1, consumes 1])
    case (1 loop h m pred env s res)
    show ?case
    proof (cases "pred s")
      case False
      then obtain r s1 env1 where w: "osal_condvar_wait (Some h) (Some m) WAIT_FOREVER env s = Some (r, s1, env1)" and l: "loop h m pred env1 s1 = Some res"
        using "1"(2) by (auto simp: condvar_wait_def split: bind_splits)
      from "1"(1) [OF l] show ?thesis using stable_condvar_wait [OF note_stable "1"(3,4) w] by blast
    qed (use 1 in auto)
  qed
  with assms show ?thesis by force
qed

lemma wait_for_loop_keeps:
  assumes "wait_for_loop h m expiry pred env s = Some (b, s', env')" "env_keeps (\<lambda>s. Q (ntf s)) env" "Q (ntf s)"
  shows "Q (ntf s')"
proof -
  have "wait_for_loop h m expiry pred env s = Some res \<Longrightarrow> env_keeps (\<lambda>s. Q (ntf s)) env \<Longrightarrow> Q (ntf s) \<Longrightarrow> Q (ntf (fst (snd res)))" for res
  proof (induction rule: wait_for_loop.raw_induct [rotated 1, consumes 1])
    case (1 loop h m expiry pred env s res)
    show ?case
    proof (cases "pred s \<or> deadline_expired expiry (osal_clock_monotonic_ms s)")
      case False
      then obtain r s1 env1 where w: "osal_condvar_wait (Some h) (Some m) (ms_to_ticks osal_clock_tick_period_us (deadline_remaining expiry (osal_clock_monotonic_ms s))) env s = Some (r, s1, env1)"
        and l: "(if r \<noteq> Ok then Some (pred s1, s1, env1) else loop h m expiry pred env1 s1) = Some res"
        using "1"(2) by (auto simp: condvar_wait_for_def split: bind_splits)
      note keep = stable_condvar_wait [OF note_stable "1"(3,4) w]
      show ?thesis
      proof (cases "r = Ok")
        case True
        then have "loop h m expiry pred env1 s1 = Some res" using l by simp
        from "1"(1) [OF this keep(2,1)] show ?thesis .
      qed (use l keep in auto)
    qed (use 1 in \<open>auto split: if_splits\<close>)
  qed
  with assms show ?thesis by force
qed

lemma note_lock_keeps: "note_lock env s = Some (s', env') \<Longrightarrow> env_keeps (\<lambda>s. Q (ntf s)) env \<Longrightarrow> Q (ntf s) \<Longrightarrow> Q (ntf s') \<and> env_keeps (\<lambda>s. Q (ntf s)) env'"
  using stable_mutex_lock [OF note_stable, of Q] by (auto simp: note_lock_def split: bind_splits)

lemma ntf_unlock [simp]: "ntf (note_unlock s) = ntf s" "note_slot (note_unlock s) i = note_slot s i"
  by (simp_all add: note_unlock_def note_slot_def osal_mutex_unlock_def split: option.split)

text \<open>The object with the bits to be cleared on entry cleared.\<close>

definition entry_cleared :: "nat \<Rightarrow> u32 \<Rightarrow> note_state \<Rightarrow> note_state" where
  "entry_cleared index ce s = note_put index ((note_slot s index)\<lparr>ns_value := ns_value (note_slot s index) AND NOT ce\<rparr>) s"

text \<open>
  C29: whatever the other tasks do meanwhile. Let \<open>Q\<close> be anything about the object that holds at the call, that the others keep, and that clearing the bits on
  entry keeps. A wait that succeeds has found the object in a state in which \<open>Q\<close> holds and its slot is pending; it returns the value the slot has in that state,
  and consumes the notification before it lets the mutex go. So it does not succeed if the slot was not pending and nobody made it pending, and it returns
  no value that nobody put there. A wait that reports a timeout leaves the slot not pending and \<open>Q\<close> true, and was not a wait without a limit. Every other answer is one
  of the two argument errors, and then nothing has changed.
\<close>

theorem notification_wait_result:
  assumes run: "note_wait index timeout ce cx env s = Some ((r, v), s', env')"
    and Q: "Q (ntf s)" "env_keeps (\<lambda>s. Q (ntf s)) env" "\<forall>t. Q (ntf t) \<longrightarrow> Q (ntf (entry_cleared index ce t))"
  shows "case r of
      Ok \<Rightarrow> \<exists>sp. let sl = note_slot sp index in Q (ntf sp) \<and> ns_pending sl \<and> v = Some (ns_value sl) \<and>
        s' = note_unlock (note_put index (sl\<lparr>ns_value := ns_value sl AND NOT cx, ns_pending := False\<rparr>) sp)
    | Timeout \<Rightarrow> 0 \<le> timeout \<and> v = None \<and> Q (ntf s') \<and> \<not> ns_pending (note_slot s' index)
    | _ \<Rightarrow> v = None \<and> s' = s \<and> env' = env \<and> note_guard index s = Some r"
proof (cases "note_guard index s")
  case (Some e)
  then have "e = Not_initialized \<or> e = Invalid_argument" by (auto simp: note_guard_def split: if_splits)
  then show ?thesis using run Some by (auto simp: note_wait_def)
next
  case None
  have consumed: ?thesis if "ns_pending (note_slot sp index)" "Q (ntf sp)" "note_consume index cx sp = ((r, v), s')" for sp
    using that by (auto simp: note_consume_def Let_def)
  obtain s1 env1 where lock: "note_lock env s = Some (s1, env1)" using run None by (auto simp: note_wait_def split: bind_splits)
  let ?pred = "\<lambda>s. ns_pending (note_slot s index)" and ?s2 = "entry_cleared index ce s1"
  have keep: "Q (ntf ?s2)" "env_keeps (\<lambda>s. Q (ntf s)) env1" using note_lock_keeps [OF lock Q(2,1)] Q(3) by blast+
  note wait = run [unfolded note_wait_def None lock Let_def option.case bind.bind_lunit prod.case, folded entry_cleared_def]
  consider "?pred ?s2" | "\<not> ?pred ?s2" "timeout < 0" | "\<not> ?pred ?s2" "0 \<le> timeout" by force
  then show ?thesis
  proof cases
    case 1
    then show ?thesis using wait keep(1) by (intro consumed) (auto split: prod.splits)
  next
    case 2
    then obtain s3 env3 where w: "condvar_wait_pred (nt_cv (ntf ?s2)) (nt_mtx (ntf ?s2)) ?pred env1 ?s2 = Some (s3, env3)"
      and c: "note_consume index cx s3 = ((r, v), s')" using wait by (auto split: bind_splits prod.splits)
    show ?thesis by (rule consumed [OF condvar_wait_pred_result [OF w] condvar_wait_pred_keeps [OF w keep(2,1)] c])
  next
    case 3
    then obtain b s3 env3 where w: "wait_for_loop (nt_cv (ntf ?s2)) (nt_mtx (ntf ?s2)) (deadline_after 1 1 (osal_clock_monotonic_ms ?s2) timeout) ?pred env1 ?s2 = Some (b, s3, env3)"
      and c: "if \<not> b then r = Timeout \<and> v = None \<and> s' = note_unlock s3 else note_consume index cx s3 = ((r, v), s')"
      using wait unfolding condvar_wait_for_pred_def by (auto split: bind_splits prod.splits if_splits)
    have b: "b = ?pred s3" "Q (ntf s3)" using wait_for_loop_result [OF w] wait_for_loop_keeps [OF w keep(2,1)] by simp_all
    show ?thesis
    proof (cases b)
      case True
      then show ?thesis using b c by (intro consumed) auto
    next
      case False
      then show ?thesis using b c 3(2) by auto
    qed
  qed
qed

theorem notification_wait_result_witness:
  "\<exists>s' sp. note_wait 0 5 0 1 [] note_demo = Some ((Ok, Some 9), s', []) \<and> ns_pending (note_slot sp 0) \<and> ns_value (note_slot sp 0) = 9 \<and>
     s' = note_unlock (note_put 0 ((note_slot sp 0)\<lparr>ns_value := ns_value (note_slot sp 0) AND NOT 1, ns_pending := False\<rparr>) sp)"
proof -
  let ?Q = "\<lambda>n. nt_slots n \<noteq> [] \<and> ns_value (nt_slots n ! 0) = 9"
  have "note_guard 0 note_demo = None" using note_demo_simps(13) by (simp add: note_guard_def index_valid_def) (simp add: note_demo_def)
  then obtain s' where run: "note_wait 0 5 0 1 [] note_demo = Some ((Ok, Some 9), s', [])"
    by (auto simp: note_wait_def note_lock_free note_demo_simps note_consume_def note_put_def note_slot_def mutex_set_def) (auto simp: note_demo_def note_consume_def note_slot_def Let_def)
  have "?Q (ntf note_demo)" "env_keeps (\<lambda>s. ?Q (ntf s)) []" "\<forall>t. ?Q (ntf t) \<longrightarrow> ?Q (ntf (entry_cleared 0 0 t))"
    by (simp_all add: note_demo_def env_keeps_def entry_cleared_def note_put_def note_slot_def)
  from notification_wait_result [where Q = ?Q, OF run this] show ?thesis using run by (auto simp: Let_def note_slot_def)
qed

text \<open>Another task that notifies undisturbed.\<close>

definition notifier :: "u32 \<Rightarrow> notification_action \<Rightarrow> nat \<Rightarrow> nat \<Rightarrow> note_state \<Rightarrow> note_state" where
  "notifier v a index n s = (case note_notify v a index (calm n) s of Some (_, s', _) \<Rightarrow> s' | None \<Rightarrow> s)"

lemma notifier_eq:
  assumes "note_inv s" "index_valid s index" "nt_cv (ntf s) = Some c" "\<not> ns_pending (note_slot s index)"
  obtains sl where "apply_action a v (note_slot s index) = Some sl" "ns_pending sl"
    "notifier v a index (cv_slots c s) s = note_put index sl (cv_signal_eff c (cv_targets c s) s)"
proof -
  obtain sl where sl: "apply_action a v (note_slot s index) = Some sl" "ns_pending sl" using assms(4) by (cases a) auto
  then have "notifier v a index (cv_slots c s) s = note_put index sl (cv_signal_eff c (cv_targets c s) s)"
    using note_notify_calm [OF assms(1-3), of v a "[]"] by (auto simp: notifier_def)
  with sl show ?thesis by (rule that)
qed

lemma note_asleep_frame [simp]:
  "ntf (cv_asleep c k i g (s :: note_state)) = ntf s" "ntf (cv_awake c k i g (s :: note_state)) = ntf s"
  by (simp_all add: cv_asleep_def cv_awake_def)

text \<open>The task asleep in slot \<open>k\<close> of the condition variable is woken by the notification and has its mutex back.\<close>

lemma note_sleep_notified:
  assumes inv: "note_inv s" and index: "index_valid s index" "\<not> ns_pending (note_slot s index)" and c: "nt_cv (ntf s) = Some c" "nt_mtx (ntf s) = Some g"
    and k: "k < cv_slots c s" "cv_open (cv_waiter c s k)" "cw_sem (cv_waiter c s k) = Some i" "sem_get i s = 0"
    and t: "g_ticks s \<noteq> - 1" and n: "n = cv_slots c s"
  shows "\<exists>sl s'. apply_action a v (note_slot s index) = Some sl \<and> ns_pending sl \<and>
    cv_sleep c k (Some (Some g)) WAIT_FOREVER ((notifier v a index n, False) # (id, False) # env) s = Some (Ok, s', env) \<and>
    cv_inv c s' \<and> mtx_flag (bm_mutex_pool s' ! g) \<and> g < length (bm_mutex_pool s') \<and> cv_guard (cv_obj s' c) \<noteq> Some g \<and>
    ntf s' = ntf (note_put index sl s) \<and> cv_slots c s' = cv_slots c s \<and>
    (\<forall>l < cv_slots c s. cw_in_use (cv_waiter c s' l) = (l \<noteq> k \<and> cw_in_use (cv_waiter c s l)))"
proof -
  let ?e = "notifier v a index n"
  have g: "g < length (bm_mutex_pool s)" "\<not> mtx_flag (bm_mutex_pool s ! g)" and cv: "cv_inv c s" "cv_guard (cv_obj s c) \<noteq> Some g"
    using inv c by (auto simp: note_inv_def mutex_free_def)
  have core: "cv_core c s" using cv(1) by (simp add: cv_inv_def)
  have p: "c < length (emu_cv_pool s)" by (rule cv_coreD(1) [OF core])
  obtain sl where sl: "apply_action a v (note_slot s index) = Some sl" "ns_pending sl"
    and e: "?e s = note_put index sl (cv_signal_eff c (cv_targets c s) s)"
    using notifier_eq [OF inv index(1) c(1) index(2)] n by metis
  have inv5: "cv_inv c (?e s)" unfolding e using cv(1) cv_core_signal_eff [OF core] p by (simp add: cv_inv_def mutex_free_def)
  have "k \<in> cv_targets c s" using k by (simp add: cv_targets_def)
  then have one: "sem_get i (?e s) = 1" unfolding e using sem_get_signal_eff [OF core k(1,3), of "cv_targets c s"] by (simp add: sem_get_def)
  have t4: "bm_ticks_now s < bm_deadline WAIT_FOREVER s"
    using t by (simp add: bm_ticks_now_def bm_deadline_def word_order.not_eq_extremum)
  have facts: "k < cv_slots c (?e s)" "cw_in_use (cv_waiter c (?e s) k)" "cw_sem (cv_waiter c (?e s) k) = Some i"
    "g < length (bm_mutex_pool (?e s))" "\<not> mtx_flag (bm_mutex_pool (?e s) ! g)" "cv_guard (cv_obj (?e s) c) \<noteq> Some g"
    using k g cv(2) p unfolding e by (simp_all add: cv_open_def)
  have nw: "WAIT_FOREVER \<noteq> (NO_WAIT :: tick_t)" by (simp add: WAIT_FOREVER_def NO_WAIT_def)
  note w = cv_sleep_granted [where e = ?e and s = s, OF k(3,4) inv5 facts(1-3) one facts(4-6) nw t4]
  let ?s' = "cv_awake c k i g (?e s)"
  have "ntf ?s' = ntf (note_put index sl s)" unfolding e by (simp add: note_put_def)
  moreover have "cv_guard (cv_obj ?s' c) \<noteq> Some g" "g < length (bm_mutex_pool ?s')"
    using facts p unfolding e by (simp_all add: cv_awake_def cv_unregister_def Let_def sem_set_def)
  moreover have "cv_slots c ?s' = cv_slots c s" "\<forall>l < cv_slots c s. cw_in_use (cv_waiter c ?s' l) = (l \<noteq> k \<and> cw_in_use (cv_waiter c s l))"
    using w(4,5) p unfolding e by simp_all
  ultimately show ?thesis using sl w(1-3) by blast
qed

lemma condvar_wait_pred_simp: "pred s \<Longrightarrow> condvar_wait_pred h m pred env s = Some (s, env)"
  by (subst condvar_wait_pred.simps) simp

lemma condvar_wait_pred_step:
  "\<not> pred s \<Longrightarrow> osal_condvar_wait (Some h) (Some m) WAIT_FOREVER env s = Some (r, s1, env1) \<Longrightarrow>
   condvar_wait_pred h m pred env s = condvar_wait_pred h m pred env1 s1"
  by (subst condvar_wait_pred.simps) (simp add: condvar_wait_def)

lemma apply_action_value:
  "apply_action a v sl = Some sl' \<Longrightarrow>
   ns_value sl' = (case a of set_bits \<Rightarrow> ns_value sl OR v | increment \<Rightarrow> ns_value sl + 1 | _ \<Rightarrow> v)"
  by (cases a) (auto split: if_splits)

text \<open>
  A task that waits without a limit on a slot at rest, with a waiter slot of the condition variable free, returns once
  another task notifies the slot: it answers \<open>Ok\<close> with the value the notification left, the slot is consumed,
  the other slots are untouched, the waiter slot is free again and the object is at rest.
\<close>

theorem notification_wait_notified:
  assumes inv: "note_inv s" and index: "index_valid s index" "\<not> ns_pending (note_slot s index)" and c: "nt_cv (ntf s) = Some c" "n = cv_slots c s"
    and free: "l < n" "\<not> cw_in_use (cv_waiter c s l)" and t: "g_ticks s \<noteq> - 1" "timeout < 0"
    and x: "x = (case a of set_bits \<Rightarrow> (ns_value (note_slot s index) AND NOT ce) OR v | increment \<Rightarrow> (ns_value (note_slot s index) AND NOT ce) + 1 | _ \<Rightarrow> v)"
  shows "\<exists>pre s'. set pre \<subseteq> {(id, False)} \<and>
    note_wait index timeout ce cx (pre @ (notifier v a index n, False) # (id, False) # env) s = Some ((Ok, Some x), s', env) \<and>
    note_slot s' index = \<lparr>ns_value = x AND NOT cx, ns_pending = False\<rparr> \<and> (\<forall>j. j \<noteq> index \<longrightarrow> note_slot s' j = note_slot s j) \<and>
    note_inv s' \<and> (\<forall>k < n. cw_in_use (cv_waiter c s' k) = cw_in_use (cv_waiter c s k))"
proof -
  obtain g where g: "nt_mtx (ntf s) = Some g" "g < length (bm_mutex_pool s)" "\<not> mtx_flag (bm_mutex_pool s ! g)"
    and cv: "cv_inv c s" "cv_guard (cv_obj s c) \<noteq> Some g" and v: "note_valid s"
    using note_invE [OF inv] c(1) by (metis option.inject)
  have guard: "note_guard index s = None" using v index(1) by (simp add: note_guard_def)
  have i: "index < length (nt_slots (ntf s))" using index(1) by (simp add: index_valid_def)
  let ?sl = "(note_slot s index)\<lparr>ns_value := ns_value (note_slot s index) AND NOT ce\<rparr>"
  let ?s2 = "note_put index ?sl (mutex_set g True s)" and ?rest = "(notifier v a index n, False) # (id, False) # env"
  let ?pred = "\<lambda>s. ns_pending (note_slot s index)"
  have cv2: "cv_inv c ?s2" using cv_inv_mutex_set [OF cv] by simp
  obtain k m pre where k: "k < cv_slots c ?s2" "\<not> cw_in_use (cv_waiter c ?s2 k)" "cw_sem (cv_waiter c ?s2 k) = Some m" "set pre \<subseteq> {(id, False)}"
    and run: "osal_condvar_wait (Some (Some c)) (Some (Some g)) WAIT_FOREVER (pre @ ?rest) ?s2 = cv_sleep c k (Some (Some g)) WAIT_FOREVER ?rest (cv_asleep c k m g ?s2)"
    and inv4: "cv_inv c (cv_asleep c k m g ?s2)"
    and obj: "cv_obj (cv_asleep c k m g ?s2) c = (cv_obj ?s2 c)\<lparr>cv_waiters := (cv_waiters (cv_obj ?s2 c))[k := (cv_waiter c ?s2 k)\<lparr>cw_in_use := True, cw_signalled := False\<rparr>],
       cv_n_waiters := cv_n_waiters (cv_obj ?s2 c) + 1\<rparr>"
    and zero: "sem_get m (cv_asleep c k m g ?s2) = 0"
    by (rule condvar_wait_sleeps [OF cv2, of l g WAIT_FOREVER ?rest]) (use free c(2) g(2) cv(2) in simp_all)
  let ?s4 = "cv_asleep c k m g ?s2"
  have n4: "cv_slots c ?s4 = n" using obj c(2) by simp
  have inv4': "note_inv ?s4"
    using inv4 obj cv(2) v c(1) g by (simp add: note_inv_def note_valid_def mutex_free_def) (simp add: cv_asleep_def mutex_pool_sem_set)
  have sl4: "note_slot ?s4 index = ?sl" using i by simp
  have facts: "index_valid ?s4 index" "\<not> ?pred ?s4" "nt_cv (ntf ?s4) = Some c" "nt_mtx (ntf ?s4) = Some g"
    using index c(1) g(1) sl4 by (simp_all add: index_valid_def)
  have k4: "k < cv_slots c ?s4" "cv_open (cv_waiter c ?s4 k)" "cw_sem (cv_waiter c ?s4 k) = Some m" using k obj by (simp_all add: cv_open_def)
  have t4: "g_ticks ?s4 \<noteq> - 1" using t(1) by (simp add: cv_asleep_def sem_set_def)
  obtain sl s5 where sl: "apply_action a v ?sl = Some sl" "ns_pending sl"
    and sleep: "cv_sleep c k (Some (Some g)) WAIT_FOREVER ?rest ?s4 = Some (Ok, s5, env)"
    and s5: "cv_inv c s5" "mtx_flag (bm_mutex_pool s5 ! g)" "g < length (bm_mutex_pool s5)" "cv_guard (cv_obj s5 c) \<noteq> Some g"
      "ntf s5 = ntf (note_put index sl ?s4)"
    and use5: "\<forall>l < n. cw_in_use (cv_waiter c s5 l) = (l \<noteq> k \<and> cw_in_use (cv_waiter c ?s4 l))"
    using note_sleep_notified [OF inv4' facts k4 zero t4 n4 [symmetric], of a v env] unfolding sl4 n4 by blast
  have slot5: "note_slot s5 j = (if j = index then sl else note_slot s j)" for j
    using i unfolding note_slot_def s5(5) by (simp add: nth_list_update note_put_def)
  have vx: "ns_value sl = x" using apply_action_value [OF sl(1)] x by (cases a) simp_all
  let ?s' = "mutex_set g False (note_put index (sl\<lparr>ns_value := ns_value sl AND NOT cx, ns_pending := False\<rparr>) s5)"
  have len5: "index < length (nt_slots (ntf s5))" and mt5: "nt_mtx (ntf s5) = Some g" "nt_cv (ntf s5) = Some c" "note_valid s5"
    using i g(1) c(1) v unfolding note_valid_def s5(5) by simp_all
  have "condvar_wait_pred (Some c) (Some g) ?pred (pre @ ?rest) ?s2 = Some (s5, env)"
    using condvar_wait_pred_step [of ?pred ?s2 "Some c" "Some g", OF _ run [unfolded sleep]]
      condvar_wait_pred_simp [of ?pred s5] slot5 sl(2) index(2) i by simp
  moreover have "note_consume index cx s5 = ((Ok, Some x), ?s')"
    using slot5 mt5 vx by (simp add: note_consume_def note_unlock_def mutex_unlock_set Let_def)
  ultimately have "note_wait index timeout ce cx (pre @ ?rest) s = Some ((Ok, Some x), ?s', env)"
    using guard t(2) g c(1) i index(2) by (simp add: note_wait_def note_lock_free Let_def)
  moreover have "note_slot ?s' j = (if j = index then \<lparr>ns_value = x AND NOT cx, ns_pending = False\<rparr> else note_slot s j)" for j
    using slot5 len5 vx by (cases sl) simp
  moreover have "note_inv ?s'"
    using cv_inv_mutex_set [of c "note_put index (sl\<lparr>ns_value := ns_value sl AND NOT cx, ns_pending := False\<rparr>) s5" g False] s5(1,3,4) mt5
    by (simp add: note_inv_def mutex_free_def note_valid_def)
  moreover have "\<forall>l < n. cw_in_use (cv_waiter c ?s' l) = cw_in_use (cv_waiter c s l)"
    using use5 obj k c(2) by (auto simp: nth_list_update)
  ultimately show ?thesis using k(4) by (intro exI [of _ pre] exI [of _ ?s']) simp
qed

theorem notification_wait_notified_witness:
  "\<exists>pre s'. note_wait 1 (-1) 4 0xFFFFFFFF (pre @ [(notifier 3 increment 1 2, False), (id, False)]) note_demo = Some ((Ok, Some 1), s', []) \<and>
     note_slot s' 1 = \<lparr>ns_value = 0, ns_pending = False\<rparr>"
proof -
  have x: "1 = (case increment of set_bits \<Rightarrow> (ns_value (note_slot note_demo 1) AND NOT 4) OR 3
      | increment \<Rightarrow> (ns_value (note_slot note_demo 1) AND NOT 4) + 1 | _ \<Rightarrow> (3 :: u32))"
    by (simp add: note_demo_simps)
  have "(1 :: u32) AND NOT 0xFFFFFFFF = 0" by code_simp
  then show ?thesis
    using notification_wait_notified [where s = note_demo and index = 1 and c = 0 and n = 2 and l = 1 and timeout = "- 1" and x = 1
        and a = increment and ce = 4 and v = 3 and cx = "0xFFFFFFFF" and env = "[]", OF note_demo_ok _ _ _ _ _ _ _ _ x]
    by (auto simp: note_demo_simps)
qed

section \<open>Waiting without a waiter slot\<close>

lemma condvar_wait_exhausted:
  assumes "cv_inv c s" "\<forall>k < cv_slots c s. cw_in_use (cv_waiter c s k)"
  shows "osal_condvar_wait (Some (Some c)) (Some m) timeout env s = Some (Out_of_resources, s, env)"
proof -
  obtain g where g: "cv_guard (cv_obj s c) = Some g" "\<not> mtx_flag (bm_mutex_pool s ! g)" using assms(1) by (auto simp: cv_inv_def mutex_free_def)
  have "cv_free_slot (cv_waiters (cv_obj s c)) 0 = None"
    using assms(2) cv_free_slot_spec(1) [of "cv_waiters (cv_obj s c)" 0] by (cases "cv_free_slot (cv_waiters (cv_obj s c)) 0") auto
  then show ?thesis using g by (simp add: osal_condvar_wait_def mutex_lock_set cv_unlock_def mutex_unlock_set mutex_set_undo)
qed

lemma condvar_wait_pred_exhausted:
  assumes "cv_inv c s" "\<forall>k < cv_slots c s. cw_in_use (cv_waiter c s k)" "\<not> pred s"
  shows "condvar_wait_pred (Some c) m pred env s = None"
proof -
  have "condvar_wait_pred h m pred env s = Some res \<Longrightarrow> h = Some c \<Longrightarrow> cv_inv c s \<Longrightarrow> \<forall>k < cv_slots c s. cw_in_use (cv_waiter c s k) \<Longrightarrow> pred s" for h res
  proof (induction rule: condvar_wait_pred.raw_induct [rotated 1, consumes 1])
    case (1 loop h m pred env s res)
    show ?case
    proof (rule ccontr)
      assume np: "\<not> pred s"
      have "loop (Some c) m pred env s = Some res"
        using "1"(2) np condvar_wait_exhausted [OF "1"(4,5)] by (simp add: condvar_wait_def "1"(3))
      from "1"(1) [OF this refl "1"(4,5)] np show False by simp
    qed
  qed
  then show ?thesis using assms by (cases "condvar_wait_pred (Some c) m pred env s") auto
qed

lemma wait_for_loop_exhausted:
  assumes "cv_inv c s" "\<forall>k < cv_slots c s. cw_in_use (cv_waiter c s k)" "\<not> pred s"
  shows "wait_for_loop (Some c) m expiry pred env s = Some (False, s, env)"
  using assms by (subst wait_for_loop.simps) (simp add: condvar_wait_for_def condvar_wait_exhausted)

text \<open>
  C30: when every waiter slot of the condition variable is taken, nobody can wait on a slot that is not pending. A wait
  without a limit then never returns, whatever the other tasks do: the answer \<open>Out_of_resources\<close> of the condition
  variable is dropped, the loop spins, and the mutex, which the notifier needs, stays locked. A wait with a limit answers \<open>Timeout\<close> at
  once, however long the limit is.
\<close>

theorem notification_wait_exhausted:
  assumes inv: "note_inv s" and index: "index_valid s index" "\<not> ns_pending (note_slot s index)" and c: "nt_cv (ntf s) = Some c"
    and full: "\<forall>k < cv_slots c s. cw_in_use (cv_waiter c s k)"
  shows "note_wait index timeout ce cx env s =
    (if timeout < 0 then None
     else Some ((Timeout, None), note_put index ((note_slot s index)\<lparr>ns_value := ns_value (note_slot s index) AND NOT ce\<rparr>) s, env))"
proof -
  obtain g where g: "nt_mtx (ntf s) = Some g" "g < length (bm_mutex_pool s)" "\<not> mtx_flag (bm_mutex_pool s ! g)"
    and cv: "cv_inv c s" "cv_guard (cv_obj s c) \<noteq> Some g" and v: "note_valid s"
    using note_invE [OF inv] c(1) by (metis option.inject)
  have guard: "note_guard index s = None" using v index(1) by (simp add: note_guard_def)
  have i: "index < length (nt_slots (ntf s))" using index(1) by (simp add: index_valid_def)
  let ?s1 = "note_put index ((note_slot s index)\<lparr>ns_value := ns_value (note_slot s index) AND NOT ce\<rparr>) s"
  let ?s2 = "mutex_set g True ?s1" and ?pred = "\<lambda>s. ns_pending (note_slot s index)"
  have cv2: "cv_inv c ?s2" by (rule cv_inv_mutex_set) (use cv in simp_all)
  have full2: "\<forall>k < cv_slots c ?s2. cw_in_use (cv_waiter c ?s2 k)" using full by simp
  have np: "\<not> ?pred ?s2" using index(2) i by simp
  note facts = note_wait_def note_lock_free note_put_commute Let_def condvar_wait_for_pred_def
  have "note_wait index timeout ce cx env s = None" if "timeout < 0"
    using that guard g c np condvar_wait_pred_exhausted [where pred = ?pred, OF cv2 full2 np, of "Some g" env] by (simp add: facts)
  moreover have "note_wait index timeout ce cx env s = Some ((Timeout, None), ?s1, env)" if "0 \<le> timeout"
    using that guard g c np wait_for_loop_exhausted [where pred = ?pred, OF cv2 full2 np] note_unlock_held [of ?s1 g] by (simp add: facts)
  ultimately show ?thesis by simp
qed

definition note_full :: note_state where
  "note_full = note_demo\<lparr>emu_cv_pool := [(cv_obj note_demo 0)\<lparr>cv_waiters := [\<lparr>cw_sem = Some 0, cw_in_use = True, cw_signalled = False\<rparr>]\<rparr>]\<rparr>"

lemma note_full_simps:
  "cv_slots 0 note_full = 1" "cv_waiter 0 note_full 0 = \<lparr>cw_sem = Some 0, cw_in_use = True, cw_signalled = False\<rparr>" "ntf note_full = ntf note_demo"
  "note_slot note_full i = note_slot note_demo i" "cv_guard (cv_obj note_full 0) = Some 0" "length (emu_cv_pool note_full) = 1"
  "bm_mutex_pool note_full = bm_mutex_pool note_demo"
  by (simp_all add: note_full_def cv_obj_def note_slot_def) (simp add: note_demo_def)

lemma note_full_ok: "note_inv note_full"
proof -
  have "{k. k = (0 :: nat) \<and> cw_in_use (cv_waiter 0 note_full k)} = {0}" by (auto simp: note_full_simps)
  then have "card {k. k = (0 :: nat) \<and> cw_in_use (cv_waiter 0 note_full k)} = 1" by simp
  moreover have "cv_n_waiters (cv_obj note_full 0) = 1"
    "bm_sem_pool note_full = [\<lparr>sem_count = 0, sem_max = 1\<rparr>, \<lparr>sem_count = 0, sem_max = 1\<rparr>]"
    by (simp_all add: note_full_def note_demo_def cv_obj_def)
  ultimately have "cv_inv 0 note_full"
    by (auto simp: cv_inv_def cv_core_def mutex_free_def cv_slot_ok_def cv_open_def note_full_simps note_demo_simps sem_get_def)
  then show ?thesis
    using note_demo_simps(13) by (simp add: note_inv_def note_full_simps note_demo_simps mutex_free_def note_valid_def)
qed

theorem notification_wait_exhausted_witness:
  "\<forall>env. note_wait 1 (-1) 0 0 env note_full = None \<and> (\<exists>s'. note_wait 1 1000 0 0 env note_full = Some ((Timeout, None), s', env))"
proof -
  have "index_valid note_full 1" "\<not> ns_pending (note_slot note_full 1)" "nt_cv (ntf note_full) = Some 0"
    "\<forall>k < cv_slots 0 note_full. cw_in_use (cv_waiter 0 note_full k)"
    using note_demo_simps(12) by (simp_all add: note_full_simps note_demo_simps index_valid_def)
  note w = notification_wait_exhausted [OF note_full_ok this]
  show ?thesis using w [of "- 1" 0 0] w [of 1000 0 0] by simp
qed

section \<open>Construction\<close>

lemma cv_create_sems_mutexes:
  "cv_create_sems ws s = (n, ws', s') \<Longrightarrow> bm_mutex_pool s' = bm_mutex_pool s \<and> bm_mutex_used_bits s' = bm_mutex_used_bits s"
proof (induction ws arbitrary: s n ws' s')
  case (Cons w ws)
  let ?t = "snd (snd (osal_semaphore_create (Some (cw_sem w)) 0 1 s))"
  have "bm_mutex_pool ?t = bm_mutex_pool s" "bm_mutex_used_bits ?t = bm_mutex_used_bits s"
    by (simp_all add: osal_semaphore_create_def split: option.split)
  with Cons show ?case by (fastforce split: prod.splits if_splits)
qed simp

lemma cv_destroy_sems_mutexes:
  "cv_destroy_sems ws s = (ws', s') \<Longrightarrow> bm_mutex_pool s' = bm_mutex_pool s \<and> bm_mutex_used_bits s' = bm_mutex_used_bits s"
proof (induction ws arbitrary: s ws' s')
  case (Cons w ws)
  let ?t = "snd (snd (osal_semaphore_destroy (Some (cw_sem w)) s))"
  have "bm_mutex_pool ?t = bm_mutex_pool s" "bm_mutex_used_bits ?t = bm_mutex_used_bits s"
    by (simp_all add: osal_semaphore_destroy_def split: option.split)
  with Cons show ?case by (fastforce split: prod.splits)
qed simp

lemma mutex_destroy_pool_ok:
  "mutex_pool_ok s \<Longrightarrow> mutex_pool_ok (snd (snd (osal_mutex_destroy h s)))"
  "bm_mutex_pool (snd (snd (osal_mutex_destroy h s))) = bm_mutex_pool s"
  by (simp_all add: osal_mutex_destroy_def mutex_pool_ok_def bits_cover_def bit_unmark_def split: option.split)

text \<open>Creating a condition variable leaves the mutexes in use as they are.\<close>

lemma condvar_create_mutexes:
  assumes ok: "mutex_pool_ok s" and run: "osal_condvar_create (Some h) s = (r, hnd, s')"
  shows "mutex_pool_ok s' \<and> length (bm_mutex_pool s') = length (bm_mutex_pool s) \<and> (\<forall>g \<in> mutex_used s. bm_mutex_pool s' ! g = bm_mutex_pool s ! g)"
proof (cases "first_unused (emu_cv_used s) 0")
  case (Some p)
  have "mutex_pool_ok (cv_claim p s)" using ok by simp
  then show ?thesis
  proof (cases rule: mutex_create_cases [where h = "cv_guard (cv_obj s p)"])
    case 2
    then show ?thesis using run ok by (auto simp: cv_create_unfold [OF Some] Let_def emu_cv_release_def mutex_pool_ok_def cv_put_def)
  next
    case (1 j)
    then have j: "j \<notin> mutex_used s" by simp
    let ?t = "cv_put p ((cv_blank (cv_obj s p))\<lparr>cv_guard := Some j\<rparr>) (mutex_taken j (cv_claim p s))"
    obtain n ws s3 where c: "cv_create_sems (cv_waiters (cv_blank (cv_obj s p))) ?t = (n, ws, s3)" by (metis prod_cases3)
    have "(bm_mutex_pool s)[j := m] ! g = bm_mutex_pool s ! g" if "g \<in> mutex_used s" for g m using that j by (cases "g = j") simp_all
    then have b: "\<forall>g \<in> mutex_used s. bm_mutex_pool s3 ! g = bm_mutex_pool s ! g" "length (bm_mutex_pool s3) = length (bm_mutex_pool s)" "mutex_pool_ok s3"
      using cv_create_sems_mutexes [OF c] j 1(5) by (auto simp: mutex_taken_def mutex_pool_ok_def cv_put_def)
    obtain ws' s4 where d: "cv_destroy_sems (take n ws) s3 = (ws', s4)" by (cases "cv_destroy_sems (take n ws) s3")
    have s4: "mutex_pool_ok s4" "bm_mutex_pool s4 = bm_mutex_pool s3" using cv_destroy_sems_mutexes [OF d] b(3) by (simp_all add: mutex_pool_ok_def)
    obtain r5 g5 s5 where e: "osal_mutex_destroy (Some (Some j)) s4 = (r5, g5, s5)" by (metis prod_cases3)
    have s5: "mutex_pool_ok s5" "bm_mutex_pool s5 = bm_mutex_pool s3" using mutex_destroy_pool_ok(1) [of s4 "Some (Some j)"] mutex_destroy_pool_ok(2) [of "Some (Some j)" s4] s4 e by simp_all
    have ok': "mutex_pool_ok (emu_cv_release p (cv_put p cv t)) = mutex_pool_ok t" "bm_mutex_pool (emu_cv_release p (cv_put p cv t)) = bm_mutex_pool t" for cv t
      by (simp_all add: emu_cv_release_def)
    show ?thesis
      using run b c d e s5 by (auto simp: cv_create_unfold [OF Some] 1(1) Let_def ok' split: if_splits)
  qed
qed (use run ok in \<open>auto simp: osal_condvar_create_def emu_cv_acquire_def\<close>)

lemma cv_destroy_sems_ntf: "ntf (snd (cv_destroy_sems ws (s :: note_state))) = ntf s"
proof (induction ws arbitrary: s)
  case (Cons w ws)
  have "ntf (snd (snd (osal_semaphore_destroy (Some (cw_sem w)) s))) = ntf s" by (simp add: osal_semaphore_destroy_def split: option.split)
  with Cons show ?case by (auto split: prod.splits) (metis snd_conv)+
qed simp

lemma condvar_destroy_mutexes:
  fixes s :: note_state
  assumes "mutex_pool_ok s"
  shows "mutex_pool_ok (snd (snd (osal_condvar_destroy h s)))" "ntf (snd (snd (osal_condvar_destroy h s))) = ntf s"
proof -
  have "mutex_pool_ok (snd (snd (osal_condvar_destroy h s))) \<and> ntf (snd (snd (osal_condvar_destroy h s))) = ntf s"
  proof (cases "native_of h")
    case (Some p)
    obtain ws s1 where d: "cv_destroy_sems (cv_waiters (cv_obj s p)) s = (ws, s1)" by (cases "cv_destroy_sems (cv_waiters (cv_obj s p)) s")
    obtain r g s2 where e: "osal_mutex_destroy (Some (cv_guard (cv_obj s p))) s1 = (r, g, s2)" by (metis prod_cases3)
    have "mutex_pool_ok s1" using cv_destroy_sems_mutexes [OF d] assms by (simp add: mutex_pool_ok_def)
    then have "mutex_pool_ok s2" using mutex_destroy_pool_ok(1) [of s1 "Some (cv_guard (cv_obj s p))"] e by simp
    moreover have "ntf s2 = ntf s"
      using cv_destroy_sems_ntf [of "cv_waiters (cv_obj s p)" s] d e by (auto simp: osal_mutex_destroy_def split: option.splits)
    ultimately show ?thesis using Some d e by (simp add: osal_condvar_destroy_def emu_cv_release_def)
  qed (use assms in \<open>simp add: osal_condvar_destroy_def\<close>)
  then show "mutex_pool_ok (snd (snd (osal_condvar_destroy h s)))" "ntf (snd (snd (osal_condvar_destroy h s))) = ntf s" by simp_all
qed

lemma used_ntf [simp]:
  "mutex_used (s\<lparr>ntf := x\<rparr>) = mutex_used s" "sem_used (s\<lparr>ntf := x\<rparr>) = sem_used s" "cv_inv p (s\<lparr>ntf := x\<rparr>) = cv_inv p s"
  "mutex_pool_ok (s\<lparr>ntf := x\<rparr>) = mutex_pool_ok s" "sem_pool_ok (s\<lparr>ntf := x\<rparr>) = sem_pool_ok s" "cv_obj (s\<lparr>ntf := x\<rparr>) p = cv_obj s p"
  "cv_fresh p t (s\<lparr>ntf := x\<rparr>) = cv_fresh p t s" "cv_pools_same t (s\<lparr>ntf := x\<rparr>) = cv_pools_same t s"
  by (simp_all add: mutex_used_def sem_used_def mutex_pool_ok_def sem_pool_ok_def cv_inv_def cv_core_def cv_slot_ok_def sem_get_def
    mutex_free_def cv_obj_def cv_fresh_def cv_pools_same_def)

text \<open>Destroying the object gives back what its members hold, whether or not they were all created.\<close>

lemma note_destruct_returns:
  assumes ok: "mutex_pool_ok s1" "length (emu_cv_used s1) = length (emu_cv_pool s1)" and s2: "mutex_pool_ok s2"
    and cv: "if nt_cv_valid (ntf s2) then \<exists>p. nt_cv (ntf s2) = Some p \<and> cv_fresh p s1 s2 else cv_pools_same s1 s2"
    and m: "if nt_mtx_valid (ntf s2) then \<exists>g. nt_mtx (ntf s2) = Some g \<and> g \<notin> mutex_used s \<and> mutex_used s1 = insert g (mutex_used s) \<and>
        sem_used s1 = sem_used s \<and> emu_cv_used s1 = emu_cv_used s
      else cv_pools_same s s1"
  shows "cv_pools_same s (note_destruct s2)"
proof -
  let ?s3 = "if nt_cv_valid (ntf s2) then snd (snd (osal_condvar_destroy (Some (nt_cv (ntf s2))) s2)) else s2"
  have s3: "cv_pools_same s1 ?s3"
    using cv condvar_destroy_fresh [OF ok(2), of _ s2] by (force split: if_splits)
  have ok3: "mutex_pool_ok ?s3" "ntf ?s3 = ntf s2" using s2 condvar_destroy_mutexes [OF s2] by simp_all
  show ?thesis
  proof (cases "nt_mtx_valid (ntf s2)")
    case True
    then obtain g where g: "nt_mtx (ntf s2) = Some g" "g \<notin> mutex_used s" "mutex_used s1 = insert g (mutex_used s)"
      "sem_used s1 = sem_used s" "emu_cv_used s1 = emu_cv_used s" using m by auto
    have "g \<in> mutex_used ?s3" using s3 g(3) by (simp add: cv_pools_same_def)
    then obtain u where u: "osal_mutex_destroy (Some (Some g)) ?s3 = (Ok, None, ?s3\<lparr>bm_mutex_used_bits := u\<rparr>)"
      "mutex_used (?s3\<lparr>bm_mutex_used_bits := u\<rparr>) = mutex_used ?s3 - {g}" using mutex_destroy_used [OF ok3(1)] by blast
    have "note_destruct s2 = ?s3\<lparr>bm_mutex_used_bits := u\<rparr>" unfolding note_destruct_def Let_def using True u(1) ok3(2) g(1) by simp
    moreover have "cv_pools_same s (?s3\<lparr>bm_mutex_used_bits := u\<rparr>)" unfolding cv_pools_same_def u(2) using s3 g by (simp add: cv_pools_same_def)
    ultimately show ?thesis by simp
  next
    case False
    then have "note_destruct s2 = ?s3" unfolding note_destruct_def Let_def using ok3(2) by simp
    moreover have "cv_pools_same s ?s3" using s3 m False by (simp add: cv_pools_same_def)
    ultimately show ?thesis by simp
  qed
qed

text \<open>
  A notification object whose construction succeeds is at rest: every slot is empty, nobody waits, and the operations
  above apply to it. Destroying an object gives back every mutex, semaphore and condition variable its construction
  claimed, also when a part of the construction failed.
\<close>

theorem notification_lifecycle:
  assumes ok: "mutex_pool_ok s" "sem_pool_ok s" "length (emu_cv_used s) = length (emu_cv_pool s)" "\<forall>p < length (emu_cv_pool s). cv_slots p s < 2 ^ 64"
    and s': "s' = note_construct n s"
  shows "cv_pools_same s (note_destruct s') \<and> (\<forall>i. index_valid s' i \<longleftrightarrow> i < n) \<and>
    (\<forall>i < n. note_slot s' i = \<lparr>ns_value = 0, ns_pending = False\<rparr>) \<and>
    (note_valid s' \<longrightarrow> note_inv s' \<and> (\<exists>c. nt_cv (ntf s') = Some c \<and> (\<forall>k < cv_slots c s'. \<not> cw_in_use (cv_waiter c s' k))))"
proof -
  obtain r1 m s1 where a: "osal_mutex_create None s = (r1, m, s1)" by (metis prod_cases3)
  obtain r2 c s2 where b: "osal_condvar_create (Some None) s1 = (r2, c, s2)" by (metis prod_cases3)
  let ?x = "\<lparr>nt_mtx = m, nt_mtx_valid = (r1 = Ok), nt_cv = the c, nt_cv_valid = (r2 = Ok), nt_slots = replicate n \<lparr>ns_value = 0, ns_pending = False\<rparr>\<rparr>"
  have eq: "s' = s2\<lparr>ntf := ?x\<rparr>" using s' a b by (simp add: note_construct_def)
  have m: "if r1 = Ok then \<exists>g. m = Some g \<and> g < length (bm_mutex_pool s) \<and> g \<notin> mutex_used s \<and> mutex_used s1 = insert g (mutex_used s) \<and> s1 = mutex_taken g s \<and> mutex_pool_ok s1
      else s1 = s"
    using a by (cases rule: mutex_create_cases [OF ok(1), where h = None]) auto
  have ok1: "mutex_pool_ok s1" "sem_pool_ok s1" "length (emu_cv_used s1) = length (emu_cv_pool s1)" "\<forall>p < length (emu_cv_pool s1). cv_slots p s1 < 2 ^ 64"
    using m ok by (auto split: if_splits)
  note out = condvar_create_outcome [OF ok1 b] and mx = condvar_create_mutexes [OF ok1(1) b]
  have "cv_pools_same s (note_destruct s')"
    by (rule note_destruct_returns [OF ok1(1,3)]) (use eq mx out m in \<open>auto simp: cv_pools_same_def split: if_splits\<close>)
  moreover have "note_inv s' \<and> (\<exists>c. nt_cv (ntf s') = Some c \<and> (\<forall>k < cv_slots c s'. \<not> cw_in_use (cv_waiter c s' k)))" if v: "note_valid s'"
  proof -
    have r: "r1 = Ok" "r2 = Ok" using v eq by (simp_all add: note_valid_def)
    obtain g where g: "m = Some g" "g < length (bm_mutex_pool s)" "g \<notin> mutex_used s" "mutex_used s1 = insert g (mutex_used s)" "s1 = mutex_taken g s" using m r by auto
    obtain p where p: "c = Some (Some p)" "cv_fresh p s1 s2" using out r by auto
    have "bm_mutex_pool s2 ! g = bm_mutex_pool s1 ! g" "length (bm_mutex_pool s2) = length (bm_mutex_pool s)" using mx g by (auto simp: mutex_taken_def)
    then have "mutex_free (Some g) s'" using g eq by (simp add: mutex_free_def mutex_taken_def)
    then show ?thesis using v p g eq by (auto simp: note_inv_def cv_fresh_def)
  qed
  ultimately show ?thesis using eq by (simp add: index_valid_def note_slot_def)
qed

definition note_blank :: note_state where
  "note_blank = \<lparr>g_ticks = 0, bm_tasks = [], bm_current = -1, bm_last_scheduled = -1,
     bm_mutex_pool = [\<lparr>mtx_flag = True\<rparr>, \<lparr>mtx_flag = True\<rparr>], bm_mutex_used_bits = [0],
     bm_sem_pool = [\<lparr>sem_count = 5, sem_max = 9\<rparr>], bm_sem_used_bits = [0],
     bm_queue_pool = [], bm_queue_used_bits = [], bm_timer_pool = [],
     emu_cv_pool = [\<lparr>cv_waiters = [\<lparr>cw_sem = None, cw_in_use = True, cw_signalled = False\<rparr>],
       cv_guard = None, cv_n_waiters = 7, cv_pool_allocated = False\<rparr>], emu_cv_used = [False],
     ntf = \<lparr>nt_mtx = None, nt_mtx_valid = False, nt_cv = None, nt_cv_valid = False, nt_slots = []\<rparr>\<rparr>"

theorem notification_lifecycle_witness:
  "note_inv (note_construct 2 note_blank) \<and> cv_pools_same note_blank (note_destruct (note_construct 2 note_blank))"
proof -
  have "mutex_pool_ok note_blank" "sem_pool_ok note_blank" "length (emu_cv_used note_blank) = length (emu_cv_pool note_blank)"
    "\<forall>p < length (emu_cv_pool note_blank). cv_slots p note_blank < 2 ^ 64"
    by (simp_all add: note_blank_def mutex_pool_ok_def sem_pool_ok_def bits_cover_def cv_obj_def)
  note w = notification_lifecycle [OF this refl, of 2]
  have "note_valid (note_construct 2 note_blank)"
    by (simp add: note_valid_def note_construct_def osal_condvar_create_def emu_cv_acquire_def note_blank_def cv_obj_def cv_put_def
      osal_mutex_create_def osal_semaphore_create_def bit_used_def bit_mark_def numeral_2_eq_2 Let_def)
  then show ?thesis using w by blast
qed

end
