(* ===== verification/Osal_C_Notification.thy ===== *)
theory Osal_C_Notification
  imports Osal_Notification
begin

unbundle bit_operations_syntax

text \<open>
  The notification object of the C interface, \<^verbatim>\<open>src/common/osal_c.cpp\<close>: a second implementation of
  \<open>Osal_Notification\<close>, directly over mutex and condition variable, with the slots in two arrays of the caller and
  time-outs in ticks. It is compared with the C++ class. The counters kept for the whole process are left out.
\<close>

section \<open>The handle\<close>

text \<open>A null array is the empty list. The arrays of the caller may be longer than the number of slots.\<close>

record c_notification =
  cn_mutex :: handle
  cn_condvar :: handle
  cn_values :: "u32 list"
  cn_pending :: "8 word list"
  cn_slot_count :: nat
  cn_valid :: bool

record cnote_state = cv_state +
  cn :: c_notification

type_synonym cnote_env = "cnote_state env"

text \<open>The pointer to the handle is null or points to the handle of the state, so a flag \<open>h\<close> is enough for it.\<close>

definition c_notification_valid :: "bool \<Rightarrow> cnote_state \<Rightarrow> bool" where
  "c_notification_valid h s \<longleftrightarrow> h \<and> cn_valid (cn s)"

definition notification_index_valid :: "bool \<Rightarrow> nat \<Rightarrow> cnote_state \<Rightarrow> bool" where
  "notification_index_valid h index s \<longleftrightarrow> c_notification_valid h s \<and> index < cn_slot_count (cn s)"

definition cn_value :: "cnote_state \<Rightarrow> nat \<Rightarrow> u32" where
  "cn_value s index = cn_values (cn s) ! index"

definition cn_is_pending :: "cnote_state \<Rightarrow> nat \<Rightarrow> bool" where
  "cn_is_pending s index \<longleftrightarrow> cn_pending (cn s) ! index \<noteq> 0"

definition cn_put_value :: "nat \<Rightarrow> u32 \<Rightarrow> cnote_state \<Rightarrow> cnote_state" where
  "cn_put_value index v s = s\<lparr>cn := (cn s)\<lparr>cn_values := (cn_values (cn s))[index := v]\<rparr>\<rparr>"

definition cn_put_pending :: "nat \<Rightarrow> 8 word \<Rightarrow> cnote_state \<Rightarrow> cnote_state" where
  "cn_put_pending index p s = s\<lparr>cn := (cn s)\<lparr>cn_pending := (cn_pending (cn s))[index := p]\<rparr>\<rparr>"

definition cn_lock :: "cnote_env \<Rightarrow> cnote_state \<Rightarrow> (error_code \<times> cnote_state \<times> cnote_env) option" where
  "cn_lock env s = osal_mutex_lock (Some (cn_mutex (cn s))) WAIT_FOREVER env s"

definition notification_unlock :: "cnote_state \<Rightarrow> cnote_state" where
  "notification_unlock s = snd (osal_mutex_unlock (Some (cn_mutex (cn s))) s)"

section \<open>Creation and destruction\<close>

definition osal_c_mutex_create :: "handle option \<Rightarrow> 'z bm_state_scheme \<Rightarrow> error_code \<times> handle option \<times> 'z bm_state_scheme" where
  "osal_c_mutex_create hnd s =
     (case hnd of
        None \<Rightarrow> (Invalid_argument, hnd, s)
      | Some native \<Rightarrow>
          if native \<noteq> None then (Already_exists, hnd, s)
          else case osal_mutex_create native s of (r, m, s1) \<Rightarrow> (r, Some m, s1))"

definition osal_c_notification_create ::
  "bool \<Rightarrow> u32 list option \<Rightarrow> 8 word list option \<Rightarrow> nat \<Rightarrow> cnote_state \<Rightarrow> error_code \<times> cnote_state" where
  "osal_c_notification_create h values pending slot_count s =
     (case (values, pending) of
        (Some vs, Some ps) \<Rightarrow>
          if \<not> h \<or> slot_count = 0 then (Invalid_argument, s)
          else if cn_valid (cn s) then (Already_exists, s)
          else
            let n1 = (cn s)\<lparr>cn_values := replicate slot_count 0 @ drop slot_count vs, cn_pending := replicate slot_count 0 @ drop slot_count ps,
                  cn_slot_count := slot_count, cn_valid := False\<rparr>
            in case osal_c_mutex_create (Some (cn_mutex n1)) s of (r1, m, s1) \<Rightarrow>
              let n2 = n1\<lparr>cn_mutex := the m\<rparr>
              in if r1 \<noteq> Ok then (r1, s1\<lparr>cn := n2\<lparr>cn_values := [], cn_pending := [], cn_slot_count := 0\<rparr>\<rparr>)
                 else case osal_condvar_create (Some (cn_condvar n2)) s1 of (r2, c, s2) \<Rightarrow>
                   let n3 = n2\<lparr>cn_condvar := the c\<rparr>
                   in if r2 \<noteq> Ok then
                        case osal_mutex_destroy (Some (cn_mutex n3)) s2 of (_, m', s3) \<Rightarrow>
                          (r2, s3\<lparr>cn := n3\<lparr>cn_mutex := m', cn_values := [], cn_pending := [], cn_slot_count := 0\<rparr>\<rparr>)
                      else (Ok, s2\<lparr>cn := n3\<lparr>cn_valid := True\<rparr>\<rparr>)
      | _ \<Rightarrow> (Invalid_argument, s))"

definition osal_c_notification_destroy :: "bool \<Rightarrow> cnote_state \<Rightarrow> error_code \<times> cnote_state" where
  "osal_c_notification_destroy h s =
     (if \<not> h then (Invalid_argument, s)
      else if \<not> c_notification_valid h s then (Not_initialized, s)
      else case osal_condvar_destroy (Some (cn_condvar (cn s))) s of (r1, c, s1) \<Rightarrow>
        case osal_mutex_destroy (Some (cn_mutex (cn s))) s1 of (r2, m, s2) \<Rightarrow>
          (if r1 \<noteq> Ok then r1 else r2,
           s2\<lparr>cn := (cn s)\<lparr>cn_mutex := m, cn_condvar := the c, cn_values := [], cn_pending := [], cn_slot_count := 0, cn_valid := False\<rparr>\<rparr>))"

section \<open>Operations\<close>

text \<open>The guard and the lock every operation starts with, and what it does between lock and return.\<close>

definition cn_guarded ::
  "bool \<Rightarrow> nat \<Rightarrow> (error_code \<Rightarrow> 'r) \<Rightarrow> (cnote_env \<Rightarrow> cnote_state \<Rightarrow> ('r \<times> cnote_state \<times> cnote_env) option) \<Rightarrow> cnote_env \<Rightarrow> cnote_state
   \<Rightarrow> ('r \<times> cnote_state \<times> cnote_env) option" where
  "cn_guarded h index fail body env s =
     (if \<not> notification_index_valid h index s
      then Some (fail (if c_notification_valid h s then Invalid_argument else Not_initialized), s, env)
      else do { (r, s1, env1) \<leftarrow> cn_lock env s; if r \<noteq> Ok then Some (fail r, s1, env1) else body env1 s1 })"

text \<open>The \<^verbatim>\<open>switch\<close> of \<open>notify\<close>; the default case is for values that are none of the four enumerators.\<close>

fun cn_action :: "notification_action \<Rightarrow> u32 \<Rightarrow> nat \<Rightarrow> cnote_state \<Rightarrow> cnote_state option" where
  "cn_action set_bits v i s = Some (cn_put_pending i 1 (cn_put_value i (cn_value s i OR v) s))"
| "cn_action increment v i s = Some (cn_put_pending i 1 (cn_put_value i (cn_value s i + 1) s))"
| "cn_action overwrite v i s = Some (cn_put_pending i 1 (cn_put_value i v s))"
| "cn_action no_overwrite v i s = (if cn_is_pending s i then None else Some (cn_put_pending i 1 (cn_put_value i v s)))"

definition osal_c_notification_notify ::
  "bool \<Rightarrow> u32 \<Rightarrow> notification_action \<Rightarrow> nat \<Rightarrow> cnote_env \<Rightarrow> cnote_state \<Rightarrow> (error_code \<times> cnote_state \<times> cnote_env) option" where
  "osal_c_notification_notify h v action index = cn_guarded h index id (\<lambda>env s.
     case cn_action action v index s of
       None \<Rightarrow> Some (Would_block, notification_unlock s, env)
     | Some s1 \<Rightarrow> do {
         (_, s2, env2) \<leftarrow> osal_condvar_notify_all (Some (cn_condvar (cn s1))) env s1;
         Some (Ok, notification_unlock s2, env2) })"

definition osal_c_notification_clear ::
  "bool \<Rightarrow> u32 \<Rightarrow> nat \<Rightarrow> cnote_env \<Rightarrow> cnote_state \<Rightarrow> (error_code \<times> cnote_state \<times> cnote_env) option" where
  "osal_c_notification_clear h bits index = cn_guarded h index id (\<lambda>env s.
     Some (Ok, notification_unlock (cn_put_value index (cn_value s index AND NOT bits) s), env))"

definition osal_c_notification_reset ::
  "bool \<Rightarrow> nat \<Rightarrow> cnote_env \<Rightarrow> cnote_state \<Rightarrow> (error_code \<times> cnote_state \<times> cnote_env) option" where
  "osal_c_notification_reset h index = cn_guarded h index id (\<lambda>env s.
     Some (Ok, notification_unlock (cn_put_pending index 0 (cn_put_value index 0 s)), env))"

definition osal_c_notification_pending ::
  "bool \<Rightarrow> nat \<Rightarrow> cnote_env \<Rightarrow> cnote_state \<Rightarrow> (bool \<times> cnote_state \<times> cnote_env) option" where
  "osal_c_notification_pending h index = cn_guarded h index (\<lambda>_. False) (\<lambda>env s.
     Some (cn_is_pending s index, notification_unlock s, env))"

definition osal_c_notification_peek ::
  "bool \<Rightarrow> nat \<Rightarrow> cnote_env \<Rightarrow> cnote_state \<Rightarrow> (u32 \<times> cnote_state \<times> cnote_env) option" where
  "osal_c_notification_peek h index = cn_guarded h index (\<lambda>_. 0) (\<lambda>env s.
     Some (cn_value s index, notification_unlock s, env))"

section \<open>Waiting\<close>

definition ticks_to_duration :: "tick_t \<Rightarrow> int" where
  "ticks_to_duration ticks = (if ticks = WAIT_FOREVER then -1 else ticks_to_ms osal_clock_tick_period_us ticks)"

definition remaining_ticks_until :: "int \<Rightarrow> int \<Rightarrow> tick_t" where
  "remaining_ticks_until deadline now =
     (if deadline_expired deadline now then NO_WAIT else ms_to_ticks osal_clock_tick_period_us (deadline_remaining deadline now))"

text \<open>The two loops; they answer \<open>Ok\<close> with the mutex held, and everything else after letting it go.\<close>

partial_function (option) cn_wait_forever :: "nat \<Rightarrow> cnote_env \<Rightarrow> cnote_state \<Rightarrow> (error_code \<times> cnote_state \<times> cnote_env) option" where
  "cn_wait_forever index env s =
     (if cn_is_pending s index then Some (Ok, s, env)
      else do {
        (r, s1, env1) \<leftarrow> osal_condvar_wait (Some (cn_condvar (cn s))) (Some (cn_mutex (cn s))) WAIT_FOREVER env s;
        if r \<noteq> Ok then Some (r, notification_unlock s1, env1) else cn_wait_forever index env1 s1 })"

partial_function (option) cn_wait_until :: "nat \<Rightarrow> int \<Rightarrow> cnote_env \<Rightarrow> cnote_state \<Rightarrow> (error_code \<times> cnote_state \<times> cnote_env) option" where
  "cn_wait_until index deadline env s =
     (if cn_is_pending s index then Some (Ok, s, env)
      else
        let remaining = remaining_ticks_until deadline (osal_clock_monotonic_ms s)
        in if remaining = NO_WAIT then Some (Timeout, notification_unlock s, env)
           else do {
             (r, s1, env1) \<leftarrow> osal_condvar_wait (Some (cn_condvar (cn s))) (Some (cn_mutex (cn s))) remaining env s;
             if r = Timeout \<and> \<not> cn_is_pending s1 index then Some (Timeout, notification_unlock s1, env1)
             else if r \<noteq> Ok \<and> r \<noteq> Timeout then Some (r, notification_unlock s1, env1)
             else cn_wait_until index deadline env1 s1 })"

definition cn_consume :: "nat \<Rightarrow> u32 \<Rightarrow> cnote_state \<Rightarrow> (error_code \<times> u32 option) \<times> cnote_state" where
  "cn_consume index clear_on_exit s =
     ((Ok, Some (cn_value s index)),
      notification_unlock (cn_put_pending index 0 (cn_put_value index (cn_value s index AND NOT clear_on_exit) s)))"

definition osal_c_notification_wait ::
  "bool \<Rightarrow> nat \<Rightarrow> u32 \<Rightarrow> u32 \<Rightarrow> tick_t \<Rightarrow> cnote_env \<Rightarrow> cnote_state \<Rightarrow> ((error_code \<times> u32 option) \<times> cnote_state \<times> cnote_env) option" where
  "osal_c_notification_wait h index clear_on_entry clear_on_exit timeout = cn_guarded h index (\<lambda>r. (r, None)) (\<lambda>env s.
     let s1 = cn_put_value index (cn_value s index AND NOT clear_on_entry) s in do {
       (r, s2, env2) \<leftarrow>
         (if cn_is_pending s1 index then Some (Ok, s1, env)
          else if timeout = WAIT_FOREVER then cn_wait_forever index env s1
          else cn_wait_until index (osal_clock_monotonic_ms s1 + ticks_to_duration timeout) env s1);
       if r \<noteq> Ok then Some ((r, None), s2, env2)
       else case cn_consume index clear_on_exit s2 of (x, s3) \<Rightarrow> Some (x, s3, env2) })"

section \<open>Frames\<close>

lemma cn_put_simps [simp]:
  "cn_mutex (cn (cn_put_value i v s)) = cn_mutex (cn s)" "cn_condvar (cn (cn_put_value i v s)) = cn_condvar (cn s)"
  "cn_mutex (cn (cn_put_pending i p s)) = cn_mutex (cn s)" "cn_condvar (cn (cn_put_pending i p s)) = cn_condvar (cn s)"
  "cn_is_pending (cn_put_value i v s) j = cn_is_pending s j" "cn_value (cn_put_pending i p s) j = cn_value s j"
  by (simp_all add: cn_put_value_def cn_put_pending_def cn_is_pending_def cn_value_def)

lemma cn_frame [simp]:
  "cn (mutex_set g b s) = cn s" "cn (cv_signal_eff c A s) = cn s"
  "cv_inv c (cn_put_value i v s) = cv_inv c s" "cv_inv c (cn_put_pending i p s) = cv_inv c s"
  "cv_obj (cn_put_value i v s) c = cv_obj s c" "cv_obj (cn_put_pending i p s) c = cv_obj s c"
  "cv_targets c (cn_put_value i v s) = cv_targets c s" "cv_targets c (cn_put_pending i p s) = cv_targets c s"
  "cv_targets c (mutex_set g b (s :: cnote_state)) = cv_targets c s"
  by (simp_all add: mutex_set_def cv_signal_eff_def give_tokens_def cv_put_def cn_put_value_def cn_put_pending_def cv_inv_def cv_core_def cv_slot_ok_def
      sem_get_def mutex_free_def cv_obj_def cv_targets_def)

lemma cn_put_commute:
  "cn_put_value i v (mutex_set g b s) = mutex_set g b (cn_put_value i v s)" "cn_put_pending i p (mutex_set g b s) = mutex_set g b (cn_put_pending i p s)"
  "cv_signal_eff c A (cn_put_value i v s) = cn_put_value i v (cv_signal_eff c A s)" "cv_signal_eff c A (cn_put_pending i p s) = cn_put_pending i p (cv_signal_eff c A s)"
  by (simp_all add: cn_put_value_def cn_put_pending_def mutex_set_def cv_signal_eff_def cv_put_def cv_obj_def give_tokens_def)

lemma cn_slot_frame [simp]:
  "cn_value (mutex_set g b s) i = cn_value s i" "cn_is_pending (mutex_set g b s) i = cn_is_pending s i"
  by (simp_all add: cn_value_def cn_is_pending_def)

section \<open>The C++ class as specification\<close>

text \<open>The same object, seen as one of the C++ class.\<close>

definition cpp_view :: "cnote_state \<Rightarrow> note_state" where
  "cpp_view s = cv_state.extend (cv_state.truncate s)
     (note_state.fields \<lparr>nt_mtx = cn_mutex (cn s), nt_mtx_valid = cn_valid (cn s), nt_cv = cn_condvar (cn s), nt_cv_valid = cn_valid (cn s),
       nt_slots = map (\<lambda>i. \<lparr>ns_value = cn_value s i, ns_pending = cn_is_pending s i\<rparr>) [0..<cn_slot_count (cn s)]\<rparr>)"

definition arrays_ok :: "cnote_state \<Rightarrow> bool" where
  "arrays_ok s \<longleftrightarrow> cn_slot_count (cn s) \<le> length (cn_values (cn s)) \<and> cn_slot_count (cn s) \<le> length (cn_pending (cn s))"

lemma cpp_view_simps [simp]:
  "ntf (cpp_view s) = \<lparr>nt_mtx = cn_mutex (cn s), nt_mtx_valid = cn_valid (cn s), nt_cv = cn_condvar (cn s), nt_cv_valid = cn_valid (cn s),
     nt_slots = map (\<lambda>i. \<lparr>ns_value = cn_value s i, ns_pending = cn_is_pending s i\<rparr>) [0..<cn_slot_count (cn s)]\<rparr>"
  "bm_mutex_pool (cpp_view s) = bm_mutex_pool s" "cv_obj (cpp_view s) c = cv_obj s c" "cv_inv c (cpp_view s) = cv_inv c s" "cv_targets c (cpp_view s) = cv_targets c s"
  by (simp_all add: cpp_view_def cv_state.defs note_state.defs cv_inv_def cv_core_def cv_slot_ok_def sem_get_def mutex_free_def cv_obj_def cv_targets_def)

lemma cpp_view_frame [simp]:
  "cpp_view (mutex_set g b s) = mutex_set g b (cpp_view s)" "cpp_view (cv_signal_eff c A s) = cv_signal_eff c A (cpp_view s)"
  by (simp_all add: cpp_view_def cv_state.defs note_state.defs mutex_set_def cv_signal_eff_def give_tokens_def cv_put_def cv_obj_def cn_value_def cn_is_pending_def)

lemma cpp_view_put:
  assumes "arrays_ok s" "i < cn_slot_count (cn s)"
  shows "cpp_view (cn_put_value i v s) = note_put i ((note_slot (cpp_view s) i)\<lparr>ns_value := v\<rparr>) (cpp_view s)"
    "cpp_view (cn_put_pending i p (cn_put_value i v s)) = note_put i \<lparr>ns_value = v, ns_pending = (p \<noteq> 0)\<rparr> (cpp_view s)"
  using assms
  by (auto simp: cpp_view_def cv_state.defs note_state.defs note_put_def note_slot_def cn_put_value_def cn_put_pending_def cn_value_def cn_is_pending_def
      arrays_ok_def nth_list_update intro!: nth_equalityI)

text \<open>Two calls return with the same answer, and the C object then is the C++ object.\<close>

fun same_outcome :: "('r \<times> cnote_state \<times> cnote_env) option \<Rightarrow> ('r \<times> note_state \<times> note_env) option \<Rightarrow> bool" where
  "same_outcome (Some (r, s, _)) (Some (r', t, _)) \<longleftrightarrow> r = r' \<and> t = cpp_view s"
| "same_outcome _ _ \<longleftrightarrow> False"

lemma cn_guarded_free:
  assumes "cn_mutex (cn s) = Some g" "\<not> mtx_flag (bm_mutex_pool s ! g)" "notification_index_valid h index s"
  shows "cn_guarded h index fail body env s = body env (mutex_set g True s)"
  using assms by (simp add: cn_guarded_def cn_lock_def mutex_lock_set)

lemma notification_unlock_held:
  "cn_mutex (cn s) = Some g \<Longrightarrow> \<not> mtx_flag (bm_mutex_pool s ! g) \<Longrightarrow> notification_unlock (mutex_set g True s) = s"
  by (simp add: notification_unlock_def mutex_unlock_set mutex_set_undo)

lemma cn_mutex_pool [simp]:
  "bm_mutex_pool (cn_put_value i v s) = bm_mutex_pool s" "bm_mutex_pool (cn_put_pending i p s) = bm_mutex_pool s"
  "osal_clock_monotonic_ms (cn_put_value i v s) = osal_clock_monotonic_ms s" "osal_clock_monotonic_ms (mutex_set g b s) = osal_clock_monotonic_ms s"
  by (simp_all add: cn_put_value_def cn_put_pending_def osal_clock_monotonic_ms_def bm_ticks_now_def mutex_set_def)

lemma note_slot_view: "i < cn_slot_count (cn s) \<Longrightarrow> note_slot (cpp_view s) i = \<lparr>ns_value = cn_value s i, ns_pending = cn_is_pending s i\<rparr>"
  by (simp add: note_slot_def)

lemma cn_action_view:
  assumes "arrays_ok s" "i < cn_slot_count (cn s)"
  shows "map_option cpp_view (cn_action a v i s) = map_option (\<lambda>sl. note_put i sl (cpp_view s)) (apply_action a v (note_slot (cpp_view s) i))"
  using assms by (cases a) (simp_all add: cpp_view_put note_slot_view)

lemma cn_action_mutex: "cn_action a v i (mutex_set g b s) = map_option (mutex_set g b) (cn_action a v i s)"
  by (cases a) (simp_all add: cn_put_commute)

lemma cn_action_frame:
  assumes "cn_action a v i s = Some s1"
  shows "cn_mutex (cn s1) = cn_mutex (cn s)" "cn_condvar (cn s1) = cn_condvar (cn s)" "cv_inv c s1 = cv_inv c s" "cv_obj s1 c = cv_obj s c"
    "cv_targets c s1 = cv_targets c s" "bm_mutex_pool s1 = bm_mutex_pool s"
  using assms by (cases a; auto split: if_splits)+

lemma c_notify_view:
  assumes ok: "arrays_ok s" "note_inv (cpp_view s)" and c: "cn_condvar (cn s) = Some c" and i: "i < cn_slot_count (cn s)"
  shows "same_outcome (osal_c_notification_notify True v a i (calm (cv_slots c s) @ env) s) (note_notify v a i (calm (cv_slots c s) @ env') (cpp_view s))"
proof -
  obtain g where g: "cn_mutex (cn s) = Some g" "\<not> mtx_flag (bm_mutex_pool s ! g)" and cv: "cv_inv c s" "cv_guard (cv_obj s c) \<noteq> Some g" "cn_valid (cn s)"
    by (rule note_invE [OF ok(2)]) (use c in \<open>simp add: note_valid_def\<close>)
  have iv: "notification_index_valid True i s" using i cv(3) by (simp add: notification_index_valid_def c_notification_valid_def)
  have cpp: "index_valid (cpp_view s) i" "nt_cv (ntf (cpp_view s)) = Some c" using i c by (simp_all add: index_valid_def)
  obtain m' where run: "note_notify v a i (calm (cv_slots c s) @ env') (cpp_view s) =
    (case apply_action a v (note_slot (cpp_view s) i) of
       None \<Rightarrow> Some (Would_block, cpp_view s, calm m' @ env')
     | Some sl \<Rightarrow> Some (Ok, note_put i sl (cv_signal_eff c (cv_targets c s) (cpp_view s)), calm m' @ env'))"
    using note_notify_calm [OF ok(2) cpp, of v a env'] unfolding cpp_view_simps(3,5) by blast
  note act = cn_action_view [OF ok(1) i, of a v]
  show ?thesis
  proof (cases "cn_action a v i s")
    case None
    then show ?thesis using run act g by (simp add: osal_c_notification_notify_def cn_guarded_free [OF g iv] cn_action_mutex notification_unlock_held)
  next
    case (Some s1)
    note fr = cn_action_frame [OF Some]
    obtain sl where sl: "apply_action a v (note_slot (cpp_view s) i) = Some sl" "cpp_view s1 = note_put i sl (cpp_view s)"
      using act Some by (cases "apply_action a v (note_slot (cpp_view s) i)") auto
    have "cv_inv c (mutex_set g True s1)" by (rule cv_inv_mutex_set) (use cv fr in simp_all)
    then obtain m2 where "osal_condvar_notify_all (Some (Some c)) (calm (cv_slots c s) @ env) (mutex_set g True s1) =
        Some (Ok, mutex_set g True (cv_signal_eff c (cv_targets c s) s1), calm m2 @ env)"
      using cv_notify_calm [of c "mutex_set g True s1" False env] fr
      by (auto simp: osal_condvar_notify_all_def cv_chosen_def cv_signal_eff_mutex_set)
    then have "osal_c_notification_notify True v a i (calm (cv_slots c s) @ env) s = Some (Ok, cv_signal_eff c (cv_targets c s) s1, calm m2 @ env)"
      using Some fr g c by (simp add: osal_c_notification_notify_def cn_guarded_free [OF g iv] cn_action_mutex notification_unlock_held)
    then show ?thesis using run sl by (simp add: note_put_commute)
  qed
qed

lemma cn_wait_nothing:
  assumes "\<not> cn_is_pending s i" "deadline \<le> osal_clock_monotonic_ms s"
  shows "cn_wait_until i deadline env s = Some (Timeout, notification_unlock s, env)"
  using assms by (subst cn_wait_until.simps) (simp add: remaining_ticks_until_def deadline_expired_def)

lemma ticks_to_duration_zero [simp]: "ticks_to_duration NO_WAIT = 0"
  by (simp add: ticks_to_duration_def ticks_to_ms_def NO_WAIT_def WAIT_FOREVER_def)

lemma c_wait_view:
  assumes ok: "arrays_ok s" "note_inv (cpp_view s)" and i: "i < cn_slot_count (cn s)" and t: "cn_is_pending s i \<or> timeout = NO_WAIT \<and> ms = 0"
  shows "same_outcome (osal_c_notification_wait True i ce cx timeout env s) (note_wait i ms ce cx env' (cpp_view s))"
proof -
  obtain g where g: "cn_mutex (cn s) = Some g" "\<not> mtx_flag (bm_mutex_pool s ! g)" and v: "cn_valid (cn s)"
    by (rule note_invE [OF ok(2)]) (simp add: note_valid_def)
  have iv: "notification_index_valid True i s" using i v by (simp add: notification_index_valid_def c_notification_valid_def)
  have guard: "note_guard i (cpp_view s) = None" using i v by (simp add: note_guard_def note_valid_def index_valid_def)
  have len: "i < length (nt_slots (ntf (cpp_view s)))" using i by simp
  let ?t1 = "note_put i \<lparr>ns_value = cn_value s i AND NOT ce, ns_pending = cn_is_pending s i\<rparr> (cpp_view s)"
  have lock: "note_lock env' (cpp_view s) = Some (mutex_set g True (cpp_view s), env')" using g by (simp add: note_lock_free)
  have v1: "cpp_view (cn_put_value i (cn_value s i AND NOT ce) s) = ?t1" using cpp_view_put(1) [OF ok(1) i] i by (simp add: note_slot_view)
  have v2: "cpp_view (cn_put_pending i 0 (cn_put_value i x (cn_put_value i (cn_value s i AND NOT ce) s))) = note_put i \<lparr>ns_value = x, ns_pending = False\<rparr> (cpp_view s)" for x
    using cpp_view_put(2) [OF ok(1) i, of 0 x] by (simp add: cn_put_value_def)
  have val: "cn_value (cn_put_value i x s) i = x" for x using ok(1) i by (simp add: cn_value_def cn_put_value_def arrays_ok_def)
  note c_run = osal_c_notification_wait_def cn_guarded_free [OF g iv] cn_put_commute Let_def
  note cpp_run = note_wait_def guard lock note_put_commute note_slot_view [OF i] Let_def
  show ?thesis
  proof (cases "cn_is_pending s i")
    case True
    then show ?thesis
      using g i len v2 val
      by (simp add: c_run cpp_run cn_consume_def note_consume_def notification_unlock_held note_unlock_held) (simp add: note_put_def)
  next
    case False
    then have "timeout = NO_WAIT" "timeout \<noteq> WAIT_FOREVER" "ms = 0" using t by (simp_all add: NO_WAIT_def WAIT_FOREVER_def)
    moreover have "wait_for_loop h m (osal_clock_monotonic_ms t) p env' t = Some (False, t, env')" if "\<not> p t" for h m p and t :: note_state
      using that by (subst wait_for_loop.simps) (simp add: deadline_expired_def)
    ultimately show ?thesis
      using False g i len v1
      by (simp add: c_run cpp_run cn_wait_nothing condvar_wait_for_pred_def deadline_after_def notification_unlock_held note_unlock_held)
  qed
qed

section \<open>Properties\<close>

text \<open>
  C40: on an object at rest the C interface and the C++ class do the same for the calls that need not sleep: they return with the same answer, and
  leave the same slots, the same tokens with the same waiters and the same mutex. These calls are every action of \<open>notify\<close>, \<open>clear\<close>, \<open>reset\<close>, \<open>pending\<close> and \<open>peek\<close>, with
  indices out of range as well, and the waits on a pending slot or with a time-out of zero. Waits that sleep are not compared, nor are creation and destruction: when
  every waiter slot of the condition variable is taken the two differ (\<open>c_notification_wait_exhausted\<close>).
\<close>

theorem c_notification_equivalence:
  assumes "arrays_ok s" "note_inv (cpp_view s)" "cn_condvar (cn s) = Some c" "n = cv_slots c s"
  shows "same_outcome (osal_c_notification_notify True v a i (calm n @ env) s) (note_notify v a i (calm n @ env') (cpp_view s)) \<and>
    same_outcome (osal_c_notification_clear True v i env s) (note_clear v i env' (cpp_view s)) \<and>
    same_outcome (osal_c_notification_reset True i env s) (note_reset i env' (cpp_view s)) \<and>
    same_outcome (osal_c_notification_pending True i env s) (note_pending i env' (cpp_view s)) \<and>
    same_outcome (osal_c_notification_peek True i env s) (note_peek i env' (cpp_view s)) \<and>
    (i < cn_slot_count (cn s) \<and> cn_is_pending s i \<or> timeout = NO_WAIT \<and> ms = 0 \<longrightarrow>
       same_outcome (osal_c_notification_wait True i ce cx timeout env s) (note_wait i ms ce cx env' (cpp_view s)))"
proof -
  obtain g where g: "cn_mutex (cn s) = Some g" "\<not> mtx_flag (bm_mutex_pool s ! g)" and v: "cn_valid (cn s)"
    by (rule note_invE [OF assms(2)]) (simp add: note_valid_def)
  note c_defs = osal_c_notification_notify_def osal_c_notification_clear_def osal_c_notification_reset_def osal_c_notification_pending_def
    osal_c_notification_peek_def osal_c_notification_wait_def
  note cpp_defs = note_notify_def note_clear_def note_reset_def note_pending_def note_peek_def note_wait_def
  show ?thesis
  proof (cases "i < cn_slot_count (cn s)")
    case False
    then have "\<not> notification_index_valid True i s" "c_notification_valid True s" using v by (simp_all add: notification_index_valid_def c_notification_valid_def)
    moreover have "note_guard i (cpp_view s) = Some Invalid_argument" using False v by (simp add: note_guard_def note_valid_def index_valid_def)
    ultimately show ?thesis using False by (simp add: c_defs cpp_defs cn_guarded_def)
  next
    case True
    then have iv: "notification_index_valid True i s" and guard: "note_guard i (cpp_view s) = None"
      using v by (simp_all add: notification_index_valid_def c_notification_valid_def note_guard_def note_valid_def index_valid_def)
    have lock: "note_lock env' (cpp_view s) = Some (mutex_set g True (cpp_view s), env')" using g by (simp add: note_lock_free)
    note runs = cn_guarded_free [OF g iv] guard lock note_slot_view [OF True] cn_put_commute note_put_commute notification_unlock_held note_unlock_held
      cpp_view_put [OF assms(1) True]
    have "same_outcome (osal_c_notification_clear True v i env s) (note_clear v i env' (cpp_view s))"
      "same_outcome (osal_c_notification_reset True i env s) (note_reset i env' (cpp_view s))"
      "same_outcome (osal_c_notification_pending True i env s) (note_pending i env' (cpp_view s))"
      "same_outcome (osal_c_notification_peek True i env s) (note_peek i env' (cpp_view s))"
      using g by (simp_all add: c_defs cpp_defs runs)
    then show ?thesis using c_notify_view [OF assms(1-3) True] c_wait_view [OF assms(1,2) True] assms(4) by blast
  qed
qed

lemma cn_wait_forever_result:
  assumes "cn_wait_forever i env s = Some (r, s', env')"
  shows "if r = Ok then cn_is_pending s' i else \<exists>sp. s' = notification_unlock sp"
proof -
  have "cn_wait_forever i env s = Some res \<Longrightarrow> if fst res = Ok then cn_is_pending (fst (snd res)) i else \<exists>sp. fst (snd res) = notification_unlock sp" for res
  proof (induction rule: cn_wait_forever.raw_induct [rotated 1, consumes 1])
    case (1 loop i env s res)
    show ?case using "1"(2) by (fastforce split: if_splits bind_splits dest!: "1"(1))
  qed
  with assms show ?thesis by force
qed

lemma cn_wait_until_result:
  assumes "cn_wait_until i deadline env s = Some (r, s', env')"
  shows "if r = Ok then cn_is_pending s' i else \<exists>sp. s' = notification_unlock sp \<and> (r = Timeout \<longrightarrow> \<not> cn_is_pending sp i)"
proof -
  have "cn_wait_until i deadline env s = Some res \<Longrightarrow> if fst res = Ok then cn_is_pending (fst (snd res)) i
    else \<exists>sp. fst (snd res) = notification_unlock sp \<and> (fst res = Timeout \<longrightarrow> \<not> cn_is_pending sp i)" for res
  proof (induction rule: cn_wait_until.raw_induct [rotated 1, consumes 1])
    case (1 loop i deadline env s res)
    show ?case using "1"(2) by (fastforce simp: Let_def split: if_splits bind_splits dest!: "1"(1))
  qed
  with assms show ?thesis by force
qed

text \<open>
  Whatever the other tasks do meanwhile, a wait of the C interface that answers \<open>Ok\<close> has found its slot pending, returns its value at that moment, and
  consumes it before it lets the mutex go. Every other answer writes no value: it is an argument error and changes nothing, or the mutex was not obtained, or
  the mutex is let go before the return; and if it is the timeout of a wait with a limit the slot was not pending then.
\<close>

theorem c_notification_wait_result:
  assumes "osal_c_notification_wait h i ce cx timeout env s = Some ((r, v), s', env')"
  shows "if r = Ok then \<exists>sp. cn_is_pending sp i \<and> v = Some (cn_value sp i) \<and>
        s' = notification_unlock (cn_put_pending i 0 (cn_put_value i (cn_value sp i AND NOT cx) sp))
    else v = None \<and>
      (if \<not> notification_index_valid h i s then s' = s \<and> env' = env \<and> r \<in> {Invalid_argument, Not_initialized}
       else cn_lock env s = Some (r, s', env') \<or>
         (\<exists>sp. s' = notification_unlock sp \<and> (r = Timeout \<and> timeout \<noteq> WAIT_FOREVER \<longrightarrow> \<not> cn_is_pending sp i)))"
proof (cases "notification_index_valid h i s")
  case False
  with assms show ?thesis by (auto simp: osal_c_notification_wait_def cn_guarded_def split: if_splits)
next
  case True
  obtain r1 s1 env1 where lock: "cn_lock env s = Some (r1, s1, env1)" using assms True by (auto simp: osal_c_notification_wait_def cn_guarded_def split: bind_splits)
  show ?thesis
  proof (cases "r1 = Ok")
    case False
    with assms True lock show ?thesis by (auto simp: osal_c_notification_wait_def cn_guarded_def)
  next
    case ok: True
    let ?s1 = "cn_put_value i (cn_value s1 i AND NOT ce) s1"
    obtain r2 s2 where w: "(if cn_is_pending ?s1 i then Some (Ok, ?s1, env1) else if timeout = WAIT_FOREVER then cn_wait_forever i env1 ?s1
          else cn_wait_until i (osal_clock_monotonic_ms ?s1 + ticks_to_duration timeout) env1 ?s1) = Some (r2, s2, env')"
      and c: "if r2 \<noteq> Ok then r = r2 \<and> v = None \<and> s' = s2 else cn_consume i cx s2 = ((r, v), s')"
      using assms True lock ok by (simp add: osal_c_notification_wait_def cn_guarded_def Let_def split: bind_splits prod.splits if_splits)
    have "if r2 = Ok then cn_is_pending s2 i else \<exists>sp. s2 = notification_unlock sp \<and> (r2 = Timeout \<and> timeout \<noteq> WAIT_FOREVER \<longrightarrow> \<not> cn_is_pending sp i)"
      using w cn_wait_forever_result [of i env1 ?s1 r2 s2 env'] cn_wait_until_result [of i _ env1 ?s1 r2 s2 env'] by (auto split: if_splits)
    then show ?thesis using c True by (auto simp: cn_consume_def split: if_splits)
  qed
qed

text \<open>With a waiter slot lacking the condition variable refuses, and the C interface passes the refusal on.\<close>

lemma ms_to_ticks_positive:
  assumes "0 < k" "k < 2 ^ 32"
  shows "ms_to_ticks osal_clock_tick_period_us (int k) \<noteq> (NO_WAIT :: tick_t)"
proof -
  have "0 < unat (ms_to_ticks osal_clock_tick_period_us (int k) :: tick_t)"
    using unat_ms_to_ticks [where 't = 32 and p = osal_clock_tick_period_us and ms = "int k"] assms
    by (simp add: osal_clock_tick_period_us_def ceil_div_def)
  then show ?thesis by (auto simp: NO_WAIT_def)
qed

lemma remaining_ticks_positive:
  assumes "timeout \<noteq> NO_WAIT" "timeout \<noteq> WAIT_FOREVER"
  shows "remaining_ticks_until (now + ticks_to_duration timeout) now \<noteq> NO_WAIT"
proof -
  have lt: "unat timeout < 2 ^ 32" using unat_lt2p [of timeout] by simp
  then have "unat (ucast timeout * 1000 :: u64) = unat timeout * 1000" by (subst unat_mult_fits) (simp_all add: unat_ucast_up)
  then have "unat (ucast timeout * 1000 div 1000 :: u64) = unat timeout" by (simp add: unat_div_distrib)
  then have d: "ticks_to_duration timeout = int (unat timeout)"
    using assms(2) lt sint_eq_unat [of "ucast timeout * 1000 div 1000 :: u64"] by (simp add: ticks_to_duration_def ticks_to_ms_def osal_clock_tick_period_us_def)
  have "0 < unat timeout" using assms(1) by (simp add: NO_WAIT_def unat_gt_0)
  then show ?thesis using d ms_to_ticks_positive [of "unat timeout"] lt by (auto simp: remaining_ticks_until_def deadline_remaining_def deadline_expired_def simp del: uint_nat of_nat_unat)
qed

text \<open>
  When every waiter slot of the condition variable is taken and the slot is not pending, every wait of the C interface returns at once with the mutex
  let go: with \<open>Out_of_resources\<close>, or with \<open>Timeout\<close> if it was not to wait at all. The bits to be cleared on entry are cleared, nothing else
  changes. The C++ class spins for ever in the same place, or reports a timeout.
\<close>

theorem c_notification_wait_exhausted:
  assumes ok: "note_inv (cpp_view s)" and i: "i < cn_slot_count (cn s)" "\<not> cn_is_pending s i" and c: "cn_condvar (cn s) = Some c"
    and full: "\<forall>k < cv_slots c s. cw_in_use (cv_waiter c s k)"
  shows "osal_c_notification_wait True i ce cx timeout env s =
    Some ((if timeout = NO_WAIT then Timeout else Out_of_resources, None), cn_put_value i (cn_value s i AND NOT ce) s, env)"
proof -
  obtain g where g: "cn_mutex (cn s) = Some g" "\<not> mtx_flag (bm_mutex_pool s ! g)" and cv: "cv_inv c s" "cv_guard (cv_obj s c) \<noteq> Some g" "cn_valid (cn s)"
    by (rule note_invE [OF ok]) (use c in \<open>simp add: note_valid_def\<close>)
  have iv: "notification_index_valid True i s" using i cv(3) by (simp add: notification_index_valid_def c_notification_valid_def)
  let ?s1 = "cn_put_value i (cn_value s i AND NOT ce) s"
  let ?s2 = "mutex_set g True ?s1"
  have "cv_inv c ?s2" by (rule cv_inv_mutex_set) (use cv in simp_all)
  then have w: "osal_condvar_wait (Some (Some c)) (Some (Some g)) ticks env ?s2 = Some (Out_of_resources, ?s2, env)" for ticks
    by (rule condvar_wait_exhausted) (use full in simp)
  have nw: "NO_WAIT \<noteq> (WAIT_FOREVER :: tick_t)" by (simp add: NO_WAIT_def WAIT_FOREVER_def)
  have "cn_wait_forever i env ?s2 = Some (Out_of_resources, ?s1, env)"
    using i(2) g c w by (subst cn_wait_forever.simps) (simp add: notification_unlock_held)
  moreover have "cn_wait_until i (osal_clock_monotonic_ms ?s2 + ticks_to_duration timeout) env ?s2 =
      Some (if timeout = NO_WAIT then Timeout else Out_of_resources, ?s1, env)" if "timeout \<noteq> WAIT_FOREVER"
  proof (cases "timeout = NO_WAIT")
    case True
    then show ?thesis using i(2) g by (subst cn_wait_nothing) (simp_all add: notification_unlock_held)
  next
    case False
    note p = remaining_ticks_positive [OF False that, of "osal_clock_monotonic_ms ?s2"]
    show ?thesis using i(2) g c w False p by (subst cn_wait_until.simps) (simp add: notification_unlock_held Let_def)
  qed
  ultimately show ?thesis
    using i(2) nw by (auto simp: osal_c_notification_wait_def cn_guarded_free [OF g iv] cn_put_commute Let_def)
qed

section \<open>Examples\<close>

text \<open>The C objects that correspond to the two examples of \<open>Osal_Notification\<close>.\<close>

definition cnote_of :: "note_state \<Rightarrow> cnote_state" where
  "cnote_of t = cv_state.extend (cv_state.truncate t)
     (cnote_state.fields \<lparr>cn_mutex = nt_mtx (ntf t), cn_condvar = nt_cv (ntf t), cn_values = map ns_value (nt_slots (ntf t)),
        cn_pending = map (\<lambda>sl. if ns_pending sl then 1 else 0) (nt_slots (ntf t)), cn_slot_count = length (nt_slots (ntf t)), cn_valid = note_valid t\<rparr>)"

lemma cnote_of_simps [simp]:
  "cn (cnote_of t) = \<lparr>cn_mutex = nt_mtx (ntf t), cn_condvar = nt_cv (ntf t), cn_values = map ns_value (nt_slots (ntf t)),
     cn_pending = map (\<lambda>sl. if ns_pending sl then 1 else 0) (nt_slots (ntf t)), cn_slot_count = length (nt_slots (ntf t)), cn_valid = note_valid t\<rparr>"
  "cv_obj (cnote_of t) c = cv_obj t c" "arrays_ok (cnote_of t)"
  by (simp_all add: cnote_of_def cv_state.defs cnote_state.defs cv_obj_def arrays_ok_def)

lemma cpp_view_of: "note_valid t \<Longrightarrow> cpp_view (cnote_of t) = t"
  by (cases t, cases "ntf t")
    (auto simp: cpp_view_def cnote_of_def cv_state.defs cnote_state.defs note_state.defs note_valid_def cn_value_def cn_is_pending_def intro!: nth_equalityI)

lemma cnote_demo_ok:
  "cpp_view (cnote_of note_demo) = note_demo" "cpp_view (cnote_of note_full) = note_full" "note_valid note_full"
  using note_demo_simps(13) by (simp_all add: cpp_view_of note_valid_def note_full_simps)

lemma cnote_demo_slots:
  "length (nt_slots (ntf note_demo)) = 2" "cn_is_pending (cnote_of note_demo) 0" "\<not> cn_is_pending (cnote_of note_demo) 1" "cn_value (cnote_of note_demo) 0 = 9"
  by (simp_all add: cn_is_pending_def cn_value_def) (simp_all add: note_demo_def)

lemma cn_demo_free: "cn_mutex (cn (cnote_of note_demo)) = Some 1" "\<not> mtx_flag (bm_mutex_pool (cnote_of note_demo) ! 1)"
  by (simp_all add: cnote_of_def cv_state.defs cnote_state.defs note_demo_def)

theorem c_notification_equivalence_witness:
  "\<exists>s' env'. osal_c_notification_notify True 3 increment 1 (calm 2 @ []) (cnote_of note_demo) = Some (Ok, s', env') \<and>
     ns_pending (note_slot (cpp_view s') 1)"
proof -
  have "2 = cv_slots 0 (cnote_of note_demo)" "cn_condvar (cn (cnote_of note_demo)) = Some 0" "note_inv (cpp_view (cnote_of note_demo))"
    using note_demo_ok by (simp_all add: note_demo_simps cnote_demo_ok)
  from c_notification_equivalence [OF cnote_of_simps(3) this(3,2,1), of 3 increment 1 "[]" "[]" NO_WAIT 0 0 0]
  have same: "same_outcome (osal_c_notification_notify True 3 increment 1 (calm 2 @ []) (cnote_of note_demo)) (note_notify 3 increment 1 (calm 2 @ []) note_demo)"
    by (simp add: cnote_demo_ok)
  have two: "2 = cv_slots 0 note_demo" by (simp add: note_demo_simps)
  obtain s' env' where cpp: "note_notify 3 increment 1 (calm 2 @ []) note_demo = Some (Ok, s', env')" "ns_pending (note_slot s' 1)"
    using notify_exact [OF note_demo_ok _ note_demo_simps(8) two, of 1 3 increment "[]"] note_demo_simps(12) by auto
  then obtain t env'' where "osal_c_notification_notify True 3 increment 1 (calm 2 @ []) (cnote_of note_demo) = Some (Ok, t, env'')" "cpp_view t = s'"
    using same by (cases "osal_c_notification_notify True 3 increment 1 (calm 2 @ []) (cnote_of note_demo)") auto
  with cpp(2) show ?thesis by blast
qed

theorem c_notification_wait_result_witness:
  "\<exists>s' sp. osal_c_notification_wait True 0 0 1 100 [] (cnote_of note_demo) = Some ((Ok, Some 9), s', []) \<and> cn_is_pending sp 0 \<and>
     s' = notification_unlock (cn_put_pending 0 0 (cn_put_value 0 (cn_value sp 0 AND NOT 1) sp))"
proof -
  have iv: "notification_index_valid True 0 (cnote_of note_demo)"
    using note_demo_simps(13) by (simp add: notification_index_valid_def c_notification_valid_def cnote_demo_slots)
  have val: "cn_value (cn_put_value 0 x (cnote_of note_demo)) 0 = x" for x
    using cnote_demo_slots(1) by (simp add: cn_value_def cn_put_value_def)
  obtain s' where w: "osal_c_notification_wait True 0 0 1 100 [] (cnote_of note_demo) = Some ((Ok, Some 9), s', [])"
    using cnote_demo_slots val
    by (simp add: osal_c_notification_wait_def cn_guarded_free [OF cn_demo_free iv] cn_put_commute cn_consume_def)
  from c_notification_wait_result [OF this] show ?thesis using w by auto
qed

theorem c_notification_wait_exhausted_witness:
  "\<forall>env. \<exists>s'. osal_c_notification_wait True 1 0 0 WAIT_FOREVER env (cnote_of note_full) = Some ((Out_of_resources, None), s', env)"
proof -
  have i: "note_inv (cpp_view (cnote_of note_full))" "1 < cn_slot_count (cn (cnote_of note_full))" "\<not> cn_is_pending (cnote_of note_full) 1"
    "cn_condvar (cn (cnote_of note_full)) = Some 0" "\<forall>k < cv_slots 0 (cnote_of note_full). cw_in_use (cv_waiter 0 (cnote_of note_full) k)"
    using note_full_ok cnote_demo_slots(1,3) by (simp_all add: cnote_demo_ok note_full_simps note_demo_simps cn_is_pending_def)
  have "(WAIT_FOREVER :: tick_t) \<noteq> NO_WAIT" by (simp add: NO_WAIT_def WAIT_FOREVER_def)
  with c_notification_wait_exhausted [OF i, of 0 0 WAIT_FOREVER] show ?thesis by simp
qed

end
