(* ===== verification/Osal_Delayable_Work.thy ===== *)
theory Osal_Delayable_Work
  imports Bm_State Osal_Clock
begin

unbundle bit_operations_syntax

text \<open>
  Delayable work, \<^verbatim>\<open>include/osal/delayable_work.hpp\<close>: a callback that a one-shot timer puts on a work queue. The object has
  one atomic word, the state with a generation in the upper bits, and is shared by the task that calls it (one at a time, under its
  mutex), the timer callback, the worker of the queue and the tasks that flush. Each atomic access is one step of one of
  these actors, and the answers of the timer and of the queue are arguments of the steps.
\<close>

section \<open>The state word\<close>

datatype dw_mode = idle | armed | queued | running | stopping

fun mode_code :: "dw_mode \<Rightarrow> u32" where
  "mode_code idle = 0"
| "mode_code armed = 1"
| "mode_code queued = 2"
| "mode_code running = 3"
| "mode_code stopping = 4"

definition kStateMask :: u32 where
  "kStateMask = 7"

definition kGenerationStep :: u32 where
  "kGenerationStep = 8"

text \<open>\<open>None\<close> for the values that are no enumerator.\<close>

definition decode_state :: "u32 \<Rightarrow> dw_mode option" where
  "decode_state w =
     (let v = w AND kStateMask in
      if v = 0 then Some idle else if v = 1 then Some armed else if v = 2 then Some queued
      else if v = 3 then Some running else if v = 4 then Some stopping else None)"

definition with_state :: "u32 \<Rightarrow> dw_mode \<Rightarrow> u32" where
  "with_state w m = (w AND NOT kStateMask) OR mode_code m"

definition arm_word :: "u32 \<Rightarrow> u32" where
  "arm_word w = (w AND NOT kStateMask) + kGenerationStep"

definition time_low :: "u64 \<Rightarrow> u32" where
  "time_low t = ucast t"

definition time_high :: "u64 \<Rightarrow> u32" where
  "time_high t = ucast (drop_bit 32 t)"

definition load_time :: "u32 \<Rightarrow> u32 \<Rightarrow> u64" where
  "load_time low high = push_bit 32 (ucast high) OR ucast low"

definition generation :: "u32 \<Rightarrow> nat" where
  "generation w = unat (drop_bit 3 w)"

lemma kStateMask_bit: "bit kStateMask n \<longleftrightarrow> n < 3"
proof -
  have eq: "kStateMask = mask 3" by (simp add: kStateMask_def mask_eq_exp_minus_1)
  show ?thesis unfolding eq bit_mask_iff by auto
qed

lemma mode_code_bit: "bit (mode_code m) n \<Longrightarrow> n < 3"
proof -
  have "mode_code m = take_bit 3 (mode_code m)" by (cases m) simp_all
  then show "bit (mode_code m) n \<Longrightarrow> n < 3" by (metis bit_take_bit_iff)
qed

lemma decode_mask: "decode_state w = decode_state (w AND kStateMask)"
  by (simp add: decode_state_def)

lemma decode_code: "w AND kStateMask = mode_code m \<Longrightarrow> decode_state w = Some m"
  by (cases m) (simp_all add: decode_state_def kStateMask_def)

lemma decode_with_state [simp]: "decode_state (with_state w m) = Some m"
proof (rule decode_code, rule bit_word_eqI)
  fix n show "bit (with_state w m AND kStateMask) n = bit (mode_code m) n"
    using mode_code_bit [of m n] by (auto simp: with_state_def bit_simps kStateMask_bit)
qed

lemma generation_with_state [simp]: "generation (with_state w m) = generation w"
proof -
  have "drop_bit 3 (with_state w m) = drop_bit 3 w"
    by (rule bit_word_eqI) (auto simp: with_state_def bit_simps kStateMask_bit dest: mode_code_bit bit_imp_le_length)
  then show ?thesis by (simp add: generation_def)
qed

text \<open>Arming starts the next generation.\<close>

lemma arm_word_eq: "arm_word w = push_bit 3 (drop_bit 3 w + 1)"
proof -
  have "w AND NOT kStateMask = push_bit 3 (drop_bit 3 w)" by (rule bit_word_eqI) (auto simp: bit_simps kStateMask_bit)
  then show ?thesis by (simp add: arm_word_def kGenerationStep_def push_bit_eq_mult distrib_right)
qed

lemma decode_arm_word [simp]: "decode_state (arm_word w OR mode_code armed) = Some armed"
proof (rule decode_code, rule bit_word_eqI)
  fix n show "bit ((arm_word w OR mode_code armed) AND kStateMask) n = bit (mode_code armed) n"
    using mode_code_bit [of armed n] by (auto simp: arm_word_eq bit_simps kStateMask_bit)
qed

lemmas decode_arm_word_1 [simp] = decode_arm_word [unfolded mode_code.simps]

lemma generation_less: "generation w < 2 ^ 29"
proof -
  have "unat (drop_bit 3 w) = unat w div 2 ^ 3" unfolding unat_drop_bit_eq by (simp only: drop_bit_eq_div)
  then show ?thesis using unat_lt2p [of w] by (simp add: generation_def)
qed

lemma generation_arm_word: "generation (arm_word w OR mode_code armed) = (generation w + 1) mod 2 ^ 29"
proof -
  have "drop_bit 3 (arm_word w OR mode_code armed) = take_bit 29 (drop_bit 3 w + 1)"
    by (rule bit_word_eqI) (auto simp: arm_word_eq bit_simps)
  moreover have "unat (drop_bit 3 w + 1) = unat (drop_bit 3 w) + 1"
    using generation_less [of w] unat_add_fits [of "drop_bit 3 w" 1] by (simp add: generation_def)
  ultimately show ?thesis unfolding generation_def by (metis take_bit_eq_mod unsigned_take_bit_eq)
qed

lemma load_store_time [simp]: "load_time (time_low t) (time_high t) = t"
  by (rule bit_word_eqI) (auto simp: load_time_def time_low_def time_high_def bit_simps)

section \<open>The object and its users\<close>

text \<open>
  The next access of the task that holds the mutex. A delay is given for \<open>reschedule\<close> and \<open>schedule\<close>, and is \<open>None\<close> for
  \<open>cancel\<close>; the rest is what the code holds in local variables.
\<close>

datatype caller_pc =
    Free
  | Sched int | Resch int | Cancelling
  | Xchg "int option" | Xchg_cas "int option" u32
  | Stop_timer "int option" | Stopped "int option" error_code | Stopped_store "int option" error_code u32
  | Clear_error "int option" | Clear_failed "int option"
  | Enq | Enq_store u32 | Enq_submit | Enq_error error_code | Enq_flag error_code | Enq_idle error_code | Enq_idle_store error_code u32
  | Arm_now int | Arm_period int u64 | Arm_start_low int u64 | Arm_start_high int u64 | Arm_delay_low int u64 | Arm_delay_high int u64
  | Arm_load int u64 | Arm_store int u64 u32 | Arm_timer | Arm_fail error_code | Arm_fail_store error_code u32

text \<open>The timer callback; it remembers the word it has read and, for the proof, how many armings there had been.\<close>

datatype timer_pc =
    T_quiet
  | T_load
  | T_start_high u32 nat | T_start_low u32 nat u32 | T_delay_high u32 nat u64 | T_delay_low u32 nat u64 u32 | T_now u32 nat u64 u64
  | T_cas u32 nat | T_submit | T_error error_code | T_flag error_code | T_idle | T_idle_store u32

datatype worker_pc = W_rest | W_load | W_cas u32 | W_func | W_end | W_end_cas u32

datatype flush_pc = F_rest | F_poll | F_flag | F_code

text \<open>
  The fields of the object, the number of its items in the queue, the clock in milliseconds, where each user is, and what was
  answered last. The last eight fields only record what has happened: armings, requests accepted, callbacks started,
  requests cancelled and failed, the time and delay of the last arming, and for each expiry these two and its own time.
\<close>

record dw =
  state_word :: u32
  start_low :: u32
  start_high :: u32
  delay_low :: u32
  delay_high :: u32
  dispatch_error :: error_code
  dispatch_failed :: bool
  dw_valid :: bool
  entries :: nat
  clock :: nat
  caller :: caller_pc
  timer_cb :: timer_pc
  worker :: worker_pc
  flusher :: "nat \<Rightarrow> flush_pc"
  answer :: error_code
  flushed :: "nat \<Rightarrow> error_code"
  arms :: nat
  requests :: nat
  started :: nat
  cancelled :: nat
  failures :: nat
  armed_at :: nat
  armed_for :: nat
  fired :: "(nat \<times> nat \<times> nat) list"

definition dw_construct :: "bool \<Rightarrow> nat \<Rightarrow> dw" where
  "dw_construct ok t = \<lparr>state_word = mode_code idle, start_low = 0, start_high = 0, delay_low = 0, delay_high = 0,
     dispatch_error = Ok, dispatch_failed = False, dw_valid = ok, entries = 0, clock = t, caller = Free, timer_cb = T_quiet, worker = W_rest,
     flusher = (\<lambda>_. F_rest), answer = Ok, flushed = (\<lambda>_. Ok), arms = 0, requests = 0, started = 0, cancelled = 0, failures = 0,
     armed_at = 0, armed_for = 0, fired = []\<rparr>"

definition load_state :: "dw \<Rightarrow> dw_mode option" where
  "load_state s = decode_state (state_word s)"

definition dw_scheduled :: "dw \<Rightarrow> bool" where
  "dw_scheduled s \<longleftrightarrow> load_state s = Some armed"

definition dw_pending :: "dw \<Rightarrow> bool" where
  "dw_pending s \<longleftrightarrow> load_state s \<noteq> Some idle"

definition dw_running :: "dw \<Rightarrow> bool" where
  "dw_running s \<longleftrightarrow> load_state s = Some running"

text \<open>Returning to the caller, and the failed exchange of \<open>reschedule\<close> and \<open>cancel\<close>.\<close>

definition return_with :: "error_code \<Rightarrow> dw \<Rightarrow> dw" where
  "return_with r s = s\<lparr>caller := Free, answer := r\<rparr>"

definition not_exchanged :: "int option \<Rightarrow> dw \<Rightarrow> dw" where
  "not_exchanged d s = return_with (if d = None \<and> load_state s = Some idle then Ok else Would_block) s"

text \<open>Schedule, reschedule and cancel, one access at a time; \<open>r\<close> is the answer of the timer or of the queue where the access calls it.\<close>

definition caller_step :: "error_code \<Rightarrow> dw \<Rightarrow> dw" where
  "caller_step r s =
     (case caller s of
        Free \<Rightarrow> s
      | Sched d \<Rightarrow> if load_state s \<noteq> Some idle then return_with Already_exists s else s\<lparr>caller := Clear_error (Some d)\<rparr>
      | Resch d \<Rightarrow> if load_state s \<in> {Some queued, Some running, Some stopping} then return_with Would_block s
          else if load_state s = Some armed then s\<lparr>caller := Xchg (Some d)\<rparr> else s\<lparr>caller := Clear_error (Some d)\<rparr>
      | Cancelling \<Rightarrow> if load_state s = Some idle then s\<lparr>caller := Clear_error None\<rparr> else s\<lparr>caller := Xchg None\<rparr>
      | Xchg d \<Rightarrow> if load_state s \<noteq> Some armed then not_exchanged d s else s\<lparr>caller := Xchg_cas d (state_word s)\<rparr>
      | Xchg_cas d w \<Rightarrow> if state_word s = w then s\<lparr>state_word := with_state w stopping, caller := Stop_timer d\<rparr> else not_exchanged d s
      | Stop_timer d \<Rightarrow> s\<lparr>caller := Stopped d r\<rparr>
      | Stopped d e \<Rightarrow> s\<lparr>caller := Stopped_store d e (state_word s)\<rparr>
      | Stopped_store d e w \<Rightarrow>
          if e = Ok then s\<lparr>state_word := with_state w idle, caller := Clear_error d, cancelled := cancelled s + 1\<rparr>
          else return_with e (s\<lparr>state_word := with_state w armed\<rparr>)
      | Clear_error d \<Rightarrow> s\<lparr>dispatch_error := Ok, caller := Clear_failed d\<rparr>
      | Clear_failed d \<Rightarrow>
          (case d of None \<Rightarrow> return_with Ok (s\<lparr>dispatch_failed := False\<rparr>)
           | Some d \<Rightarrow> s\<lparr>dispatch_failed := False, caller := (if d \<le> 0 then Enq else Arm_now d)\<rparr>)
      | Enq \<Rightarrow> s\<lparr>caller := Enq_store (state_word s)\<rparr>
      | Enq_store w \<Rightarrow> s\<lparr>state_word := with_state w queued, caller := Enq_submit, requests := requests s + 1\<rparr>
      | Enq_submit \<Rightarrow> if r = Ok then return_with Ok (s\<lparr>entries := entries s + 1\<rparr>) else s\<lparr>caller := Enq_error r\<rparr>
      | Enq_error e \<Rightarrow> s\<lparr>dispatch_error := e, caller := Enq_flag e\<rparr>
      | Enq_flag e \<Rightarrow> s\<lparr>dispatch_failed := True, caller := Enq_idle e\<rparr>
      | Enq_idle e \<Rightarrow> s\<lparr>caller := Enq_idle_store e (state_word s)\<rparr>
      | Enq_idle_store e w \<Rightarrow> return_with e (s\<lparr>state_word := with_state w idle, failures := failures s + 1\<rparr>)
      | Arm_now d \<Rightarrow> s\<lparr>caller := Arm_period d (of_nat (clock s))\<rparr>
      | Arm_period d t \<Rightarrow> if r \<noteq> Ok then return_with r s else s\<lparr>caller := Arm_start_low d t\<rparr>
      | Arm_start_low d t \<Rightarrow> s\<lparr>start_low := time_low t, caller := Arm_start_high d t\<rparr>
      | Arm_start_high d t \<Rightarrow> s\<lparr>start_high := time_high t, caller := Arm_delay_low d t\<rparr>
      | Arm_delay_low d t \<Rightarrow> s\<lparr>delay_low := time_low (word_of_int d), caller := Arm_delay_high d t\<rparr>
      | Arm_delay_high d t \<Rightarrow> s\<lparr>delay_high := time_high (word_of_int d), caller := Arm_load d t\<rparr>
      | Arm_load d t \<Rightarrow> s\<lparr>caller := Arm_store d t (arm_word (state_word s))\<rparr>
      | Arm_store d t w \<Rightarrow> s\<lparr>state_word := w OR mode_code armed, caller := Arm_timer, requests := requests s + 1, arms := arms s + 1,
          armed_at := unat t, armed_for := nat d\<rparr>
      | Arm_timer \<Rightarrow> if r = Ok then return_with Ok s else s\<lparr>caller := Arm_fail r\<rparr>
      | Arm_fail e \<Rightarrow> s\<lparr>caller := Arm_fail_store e (state_word s)\<rparr>
      | Arm_fail_store e w \<Rightarrow> return_with e (s\<lparr>state_word := with_state w idle, failures := failures s + 1\<rparr>))"

text \<open>The timer callback, \<open>on_timer\<close>.\<close>

definition timer_step :: "error_code \<Rightarrow> dw \<Rightarrow> dw" where
  "timer_step r s =
     (case timer_cb s of
        T_quiet \<Rightarrow> s
      | T_load \<Rightarrow> s\<lparr>timer_cb := (if load_state s \<noteq> Some armed then T_quiet else T_start_high (state_word s) (arms s))\<rparr>
      | T_start_high w a \<Rightarrow> s\<lparr>timer_cb := T_start_low w a (start_high s)\<rparr>
      | T_start_low w a h \<Rightarrow> s\<lparr>timer_cb := T_delay_high w a (load_time (start_low s) h)\<rparr>
      | T_delay_high w a t \<Rightarrow> s\<lparr>timer_cb := T_delay_low w a t (delay_high s)\<rparr>
      | T_delay_low w a t h \<Rightarrow> s\<lparr>timer_cb := T_now w a t (load_time (delay_low s) h)\<rparr>
      | T_now w a t d \<Rightarrow> s\<lparr>timer_cb := (if of_nat (clock s) - t < d then T_quiet else T_cas w a)\<rparr>
      | T_cas w a \<Rightarrow>
          if state_word s = w then s\<lparr>state_word := with_state w queued, timer_cb := T_submit, fired := (armed_at s, armed_for s, clock s) # fired s\<rparr>
          else s\<lparr>timer_cb := T_quiet\<rparr>
      | T_submit \<Rightarrow> if r = Ok then s\<lparr>entries := entries s + 1, timer_cb := T_quiet\<rparr> else s\<lparr>timer_cb := T_error r\<rparr>
      | T_error e \<Rightarrow> s\<lparr>dispatch_error := e, timer_cb := T_flag e\<rparr>
      | T_flag e \<Rightarrow> s\<lparr>dispatch_failed := True, timer_cb := T_idle\<rparr>
      | T_idle \<Rightarrow> s\<lparr>timer_cb := T_idle_store (state_word s)\<rparr>
      | T_idle_store w \<Rightarrow> s\<lparr>state_word := with_state w idle, timer_cb := T_quiet, failures := failures s + 1\<rparr>)"

text \<open>The worker with an item of this object, \<open>run_work\<close>; the step from \<open>W_func\<close> is the return of the callback.\<close>

definition worker_step :: "dw \<Rightarrow> dw" where
  "worker_step s =
     (case worker s of
        W_rest \<Rightarrow> s
      | W_load \<Rightarrow> s\<lparr>worker := (if load_state s \<noteq> Some queued then W_rest else W_cas (state_word s))\<rparr>
      | W_cas w \<Rightarrow> if state_word s = w then s\<lparr>state_word := with_state w running, worker := W_func, started := started s + 1\<rparr> else s\<lparr>worker := W_rest\<rparr>
      | W_func \<Rightarrow> s\<lparr>worker := W_end\<rparr>
      | W_end \<Rightarrow> s\<lparr>worker := (if load_state s \<noteq> Some running then W_rest else W_end_cas (state_word s))\<rparr>
      | W_end_cas w \<Rightarrow> if state_word s = w then s\<lparr>state_word := with_state w idle, worker := W_rest\<rparr> else s\<lparr>worker := W_rest\<rparr>)"

text \<open>A flush by task \<open>t\<close>; \<open>expired\<close> says whether the flush has a limit that has passed at this poll.\<close>

definition flush_step :: "nat \<Rightarrow> bool \<Rightarrow> dw \<Rightarrow> dw" where
  "flush_step t expired s =
     (case flusher s t of
        F_rest \<Rightarrow> s
      | F_poll \<Rightarrow>
          if load_state s = Some idle then s\<lparr>flusher := (flusher s)(t := F_flag)\<rparr>
          else if expired then s\<lparr>flusher := (flusher s)(t := F_rest), flushed := (flushed s)(t := Timeout)\<rparr>
          else s
      | F_flag \<Rightarrow>
          if \<not> dispatch_failed s then s\<lparr>flusher := (flusher s)(t := F_rest), flushed := (flushed s)(t := Ok)\<rparr>
          else s\<lparr>dispatch_failed := False, flusher := (flusher s)(t := F_code)\<rparr>
      | F_code \<Rightarrow> s\<lparr>dispatch_error := Ok, flusher := (flusher s)(t := F_rest), flushed := (flushed s)(t := dispatch_error s)\<rparr>)"

text \<open>
  All interleavings. The timer may call back at any time, also late and after it was stopped; time passes; the queue hands an item to
  its worker. \<open>f\<close> says whether starting the timer may fail.
\<close>

inductive dw_step :: "bool \<Rightarrow> dw \<Rightarrow> dw \<Rightarrow> bool" for f where
  schedule: "caller s = Free \<Longrightarrow> dw_valid s \<Longrightarrow> \<bar>d\<bar> < 2 ^ 63 \<Longrightarrow> dw_step f s (s\<lparr>caller := Sched d\<rparr>)"
| reschedule: "caller s = Free \<Longrightarrow> dw_valid s \<Longrightarrow> \<bar>d\<bar> < 2 ^ 63 \<Longrightarrow> dw_step f s (s\<lparr>caller := Resch d\<rparr>)"
| cancel: "caller s = Free \<Longrightarrow> dw_valid s \<Longrightarrow> dw_step f s (s\<lparr>caller := Cancelling\<rparr>)"
| calls: "f \<or> caller s \<noteq> Arm_timer \<or> r = Ok \<Longrightarrow> dw_step f s (caller_step r s)"
| refused: "caller s = Free \<Longrightarrow> \<not> dw_valid s \<Longrightarrow> dw_step f s (return_with Not_initialized s)"
| expires: "timer_cb s = T_quiet \<Longrightarrow> dw_step f s (s\<lparr>timer_cb := T_load\<rparr>)"
| on_timer: "dw_step f s (timer_step r s)"
| work: "worker s = W_rest \<Longrightarrow> 0 < entries s \<Longrightarrow> dw_step f s (s\<lparr>entries := entries s - 1, worker := W_load\<rparr>)"
| run_work: "dw_step f s (worker_step s)"
| flush: "flusher s t = F_rest \<Longrightarrow> dw_valid s \<Longrightarrow> dw_step f s (s\<lparr>flusher := (flusher s)(t := F_poll)\<rparr>)"
| flush_refused: "flusher s t = F_rest \<Longrightarrow> \<not> dw_valid s \<Longrightarrow> dw_step f s (s\<lparr>flushed := (flushed s)(t := Not_initialized)\<rparr>)"
| flushing: "dw_step f s (flush_step t e s)"
| tick: "clock s \<le> t \<Longrightarrow> t < 2 ^ 63 \<Longrightarrow> dw_step f s (s\<lparr>clock := t\<rparr>)"

inductive dw_reachable :: "bool \<Rightarrow> dw \<Rightarrow> bool" for f where
  begins: "t < 2 ^ 63 \<Longrightarrow> dw_reachable f (dw_construct ok t)"
| steps: "dw_reachable f s \<Longrightarrow> dw_step f s s' \<Longrightarrow> dw_reachable f s'"

section \<open>Who may change the state\<close>

text \<open>
  The phases of the users: an item on its way to the queue, in the hands of the worker, running; a timer being stopped; and the
  phases of a call that need an idle object.
\<close>

fun enqueuing :: "caller_pc \<Rightarrow> bool" where
  "enqueuing Enq_submit = True" | "enqueuing (Enq_error e) = True" | "enqueuing (Enq_flag e) = True" | "enqueuing (Enq_idle e) = True"
| "enqueuing (Enq_idle_store e w) = True" | "enqueuing _ = False"

fun stopping_pc :: "caller_pc \<Rightarrow> bool" where
  "stopping_pc (Stop_timer d) = True" | "stopping_pc (Stopped d e) = True" | "stopping_pc (Stopped_store d e w) = True" | "stopping_pc _ = False"

fun preparing :: "caller_pc \<Rightarrow> bool" where
  "preparing (Clear_error d) = True" | "preparing (Clear_failed d) = True" | "preparing Enq = True" | "preparing (Enq_store w) = True"
| "preparing (Arm_now d) = True" | "preparing (Arm_period d t) = True" | "preparing (Arm_start_low d t) = True" | "preparing (Arm_start_high d t) = True"
| "preparing (Arm_delay_low d t) = True" | "preparing (Arm_delay_high d t) = True" | "preparing (Arm_load d t) = True" | "preparing (Arm_store d t w) = True"
| "preparing _ = False"

fun submitting :: "timer_pc \<Rightarrow> bool" where
  "submitting T_submit = True" | "submitting (T_error e) = True" | "submitting (T_flag e) = True" | "submitting T_idle = True" | "submitting (T_idle_store w) = True"
| "submitting _ = False"

fun taking :: "worker_pc \<Rightarrow> bool" where
  "taking W_load = True" | "taking (W_cas w) = True" | "taking _ = False"

fun executing :: "worker_pc \<Rightarrow> bool" where
  "executing W_func = True" | "executing W_end = True" | "executing (W_end_cas w) = True" | "executing _ = False"

text \<open>The words that are about to be stored are up to date.\<close>

fun caller_word :: "u32 \<Rightarrow> caller_pc \<Rightarrow> bool" where
  "caller_word w (Stopped_store d e v) = (v = w)" | "caller_word w (Enq_store v) = (v = w)" | "caller_word w (Enq_idle_store e v) = (v = w)"
| "caller_word w (Arm_store d t v) = (v = arm_word w)" | "caller_word w (Arm_fail e) = False" | "caller_word w (Arm_fail_store e v) = False"
| "caller_word w (Xchg_cas d v) = (decode_state v = Some armed)" | "caller_word w _ = True"

fun timer_word :: "u32 \<Rightarrow> timer_pc \<Rightarrow> bool" where
  "timer_word w (T_idle_store v) = (v = w)" | "timer_word w (T_cas v a) = (decode_state v = Some armed)"
| "timer_word w (T_start_high v a) = (decode_state v = Some armed)" | "timer_word w (T_start_low v a h) = (decode_state v = Some armed)"
| "timer_word w (T_delay_high v a t) = (decode_state v = Some armed)" | "timer_word w (T_delay_low v a t h) = (decode_state v = Some armed)"
| "timer_word w (T_now v a t d) = (decode_state v = Some armed)" | "timer_word w _ = True"

fun worker_word :: "u32 \<Rightarrow> worker_pc \<Rightarrow> bool" where
  "worker_word w (W_cas v) = (v = w)" | "worker_word w (W_end_cas v) = (v = w)" | "worker_word w _ = True"

text \<open>
  A queued object has exactly one carrier: its item in the queue, the caller or the timer callback that submits it, or the worker
  that has just taken it. It runs exactly while the worker executes it, and is being stopped exactly while a caller stops the timer. Every
  request is started, cancelled, failed or outstanding.
\<close>

definition dw_inv :: "dw \<Rightarrow> bool" where
  "dw_inv s \<longleftrightarrow> load_state s \<noteq> None \<and>
     of_bool (enqueuing (caller s)) + of_bool (submitting (timer_cb s)) + of_bool (taking (worker s)) + entries s = of_bool (load_state s = Some queued) \<and>
     (executing (worker s) \<longleftrightarrow> load_state s = Some running) \<and> (stopping_pc (caller s) \<longleftrightarrow> load_state s = Some stopping) \<and>
     (preparing (caller s) \<longrightarrow> load_state s = Some idle) \<and>
     caller_word (state_word s) (caller s) \<and> timer_word (state_word s) (timer_cb s) \<and> worker_word (state_word s) (worker s) \<and>
     requests s = started s + cancelled s + failures s + of_bool (load_state s \<in> {Some armed, Some queued, Some stopping})"

lemma dw_inv_init: "dw_inv (dw_construct ok t)"
  by (simp add: dw_inv_def dw_construct_def load_state_def decode_state_def)

lemma caller_word_other: "caller_word w p \<Longrightarrow> \<not> stopping_pc p \<Longrightarrow> \<not> preparing p \<Longrightarrow> \<not> enqueuing p \<Longrightarrow> caller_word v p"
  by (cases p) simp_all

lemma timer_word_other: "timer_word w q \<Longrightarrow> \<not> submitting q \<Longrightarrow> timer_word v q"
  by (cases q) simp_all

lemma worker_word_other: "worker_word w k \<Longrightarrow> \<not> taking k \<Longrightarrow> \<not> executing k \<Longrightarrow> worker_word v k"
  by (cases k) simp_all

lemmas word_other = caller_word_other timer_word_other worker_word_other

lemma dw_inv_worker: "dw_inv s \<Longrightarrow> dw_inv (worker_step s)"
  by (cases "worker s") (auto simp: dw_inv_def worker_step_def load_state_def intro: word_other)

lemma dw_inv_timer: "dw_inv s \<Longrightarrow> dw_inv (timer_step r s)"
  by (cases "timer_cb s") (auto simp: dw_inv_def timer_step_def load_state_def intro: word_other)

lemma dw_inv_flush: "dw_inv s \<Longrightarrow> dw_inv (flush_step t e s)"
  by (cases "flusher s t") (auto simp: dw_inv_def flush_step_def load_state_def)

lemma mode_cases: "y \<noteq> armed \<Longrightarrow> y \<noteq> queued \<Longrightarrow> y \<noteq> running \<Longrightarrow> y \<noteq> stopping \<Longrightarrow> y = idle"
  by (cases y) simp_all

lemma Suc_of_bool: "Suc n = of_bool b \<longleftrightarrow> b \<and> n = 0"
  by (cases b) simp_all

lemma dw_inv_caller: "dw_inv s \<Longrightarrow> caller s \<noteq> Arm_timer \<or> r = Ok \<Longrightarrow> dw_inv (caller_step r s)"
  by (cases "caller s") (auto simp: dw_inv_def caller_step_def return_with_def not_exchanged_def load_state_def Suc_of_bool
      intro: word_other mode_cases split: option.split)

lemma dw_step_inv:
  assumes "dw_step False s s'" "dw_inv s"
  shows "dw_inv s'"
  using assms(1)
proof (cases rule: dw_step.cases)
  case (calls r)
  then show ?thesis using dw_inv_caller assms(2) by blast
next
  case (on_timer r)
  then show ?thesis using dw_inv_timer assms(2) by simp
next
  case run_work
  then show ?thesis using dw_inv_worker assms(2) by simp
next
  case (flushing t e)
  then show ?thesis using dw_inv_flush assms(2) by simp
next
  case work
  then obtain n where "entries s = Suc n" by (cases "entries s") auto
  then show ?thesis using work assms(2) by (auto simp: dw_inv_def load_state_def Suc_of_bool)
qed (use assms(2) in \<open>auto simp: dw_inv_def load_state_def return_with_def\<close>)

lemma dw_reachable_inv: "dw_reachable False s \<Longrightarrow> dw_inv s"
  by (induction rule: dw_reachable.induct) (use dw_inv_init dw_step_inv in blast)+

section \<open>Time\<close>

text \<open>The arming that the timer callback has seen is the current one and not over yet.\<close>

definition current :: "dw \<Rightarrow> nat \<Rightarrow> bool" where
  "current s a \<longleftrightarrow> a = arms s \<and> load_state s \<in> {Some armed, Some stopping}"

definition times_ok :: "dw \<Rightarrow> bool" where
  "times_ok s \<longleftrightarrow> load_time (start_low s) (start_high s) = of_nat (armed_at s) \<and> load_time (delay_low s) (delay_high s) = of_nat (armed_for s)"

definition small_delay :: "int option \<Rightarrow> bool" where
  "small_delay d \<longleftrightarrow> (case d of None \<Rightarrow> True | Some x \<Rightarrow> \<bar>x\<bar> < 2 ^ 63)"

definition arming :: "int \<Rightarrow> u64 \<Rightarrow> dw \<Rightarrow> bool" where
  "arming d t s \<longleftrightarrow> 0 < d \<and> d < 2 ^ 63 \<and> unat t \<le> clock s"

fun caller_time :: "dw \<Rightarrow> caller_pc \<Rightarrow> bool" where
  "caller_time s (Sched d) = small_delay (Some d)" | "caller_time s (Resch d) = small_delay (Some d)"
| "caller_time s (Xchg d) = small_delay d" | "caller_time s (Xchg_cas d w) = small_delay d"
| "caller_time s (Stop_timer d) = small_delay d" | "caller_time s (Stopped d e) = small_delay d" | "caller_time s (Stopped_store d e w) = small_delay d"
| "caller_time s (Clear_error d) = small_delay d" | "caller_time s (Clear_failed d) = small_delay d"
| "caller_time s (Arm_now d) = (0 < d \<and> d < 2 ^ 63)" | "caller_time s (Arm_period d t) = arming d t s" | "caller_time s (Arm_start_low d t) = arming d t s"
| "caller_time s (Arm_start_high d t) = (arming d t s \<and> start_low s = time_low t)"
| "caller_time s (Arm_delay_low d t) = (arming d t s \<and> start_low s = time_low t \<and> start_high s = time_high t)"
| "caller_time s (Arm_delay_high d t) = (arming d t s \<and> start_low s = time_low t \<and> start_high s = time_high t \<and> delay_low s = time_low (word_of_int d))"
| "caller_time s (Arm_load d t) = (arming d t s \<and> load_time (start_low s) (start_high s) = t \<and> load_time (delay_low s) (delay_high s) = word_of_int d)"
| "caller_time s (Arm_store d t w) = (arming d t s \<and> load_time (start_low s) (start_high s) = t \<and> load_time (delay_low s) (delay_high s) = word_of_int d)"
| "caller_time s _ = True"

definition seen :: "dw \<Rightarrow> u32 \<Rightarrow> nat \<Rightarrow> bool" where
  "seen s w a \<longleftrightarrow> generation w = a mod 2 ^ 29 \<and> a \<le> arms s"

fun timer_time :: "dw \<Rightarrow> timer_pc \<Rightarrow> bool" where
  "timer_time s (T_start_high w a) = seen s w a"
| "timer_time s (T_start_low w a h) = (seen s w a \<and> (current s a \<longrightarrow> h = start_high s))"
| "timer_time s (T_delay_high w a t) = (seen s w a \<and> (current s a \<longrightarrow> t = of_nat (armed_at s)))"
| "timer_time s (T_delay_low w a t h) = (seen s w a \<and> (current s a \<longrightarrow> t = of_nat (armed_at s) \<and> h = delay_high s))"
| "timer_time s (T_now w a t d) = (seen s w a \<and> (current s a \<longrightarrow> t = of_nat (armed_at s) \<and> d = of_nat (armed_for s)))"
| "timer_time s (T_cas w a) = (seen s w a \<and> (current s a \<longrightarrow> armed_at s + armed_for s \<le> clock s))"
| "timer_time s _ = True"

definition dw_times :: "dw \<Rightarrow> bool" where
  "dw_times s \<longleftrightarrow> clock s < 2 ^ 63 \<and> generation (state_word s) = arms s mod 2 ^ 29 \<and> armed_at s \<le> clock s \<and> armed_for s < 2 ^ 63 \<and>
     (load_state s \<in> {Some armed, Some stopping} \<longrightarrow> times_ok s) \<and> caller_time s (caller s) \<and> timer_time s (timer_cb s) \<and>
     (\<forall>(a, d, t) \<in> set (fired s). a + d \<le> t)"

lemmas time_defs = dw_times_def load_state_def times_ok_def small_delay_def arming_def seen_def current_def

text \<open>
  A step that leaves the times of the arming alone, and starts no other arming, leaves what the caller and the timer callback know
  as it is.
\<close>

definition same_times :: "dw \<Rightarrow> dw \<Rightarrow> bool" where
  "same_times s s' \<longleftrightarrow> start_low s' = start_low s \<and> start_high s' = start_high s \<and> delay_low s' = delay_low s \<and> delay_high s' = delay_high s \<and>
     arms s' = arms s \<and> armed_at s' = armed_at s \<and> armed_for s' = armed_for s \<and> clock s \<le> clock s' \<and> clock s' < 2 ^ 63 \<and>
     generation (state_word s') = generation (state_word s) \<and>
     (load_state s' \<in> {Some armed, Some stopping} \<longrightarrow> load_state s \<in> {Some armed, Some stopping})"

lemma timer_time_frame: "timer_time s q \<Longrightarrow> same_times s s' \<Longrightarrow> timer_time s' q"
  by (cases q) (auto simp: seen_def same_times_def current_def)

lemma caller_time_frame: "caller_time s p \<Longrightarrow> same_times s s' \<Longrightarrow> caller_time s' p"
  by (cases p) (auto simp: same_times_def arming_def)

lemma dw_times_frame:
  assumes "dw_times s" "same_times s s'" "caller_time s (caller s')" "timer_time s (timer_cb s')" "\<forall>(a, d, t) \<in> set (fired s'). a + d \<le> t"
  shows "dw_times s'"
  using assms caller_time_frame [OF assms(3,2)] timer_time_frame [OF assms(4,2)] by (auto simp: dw_times_def same_times_def times_ok_def)

text \<open>Changing the times while the object is idle.\<close>

lemma timer_time_stale: "timer_time s q \<Longrightarrow> \<forall>a \<le> arms s. \<not> current s' a \<Longrightarrow> arms s \<le> arms s' \<Longrightarrow> timer_time s' q"
  by (cases q) (auto simp: seen_def)

lemma elapsed:
  assumes "a \<le> t" "t < 2 ^ 63" "d < 2 ^ 63" "\<not> (of_nat t - of_nat a :: u64) < of_nat d"
  shows "a + d \<le> t"
proof -
  have u: "unat (of_nat n :: u64) = n" if "n < 2 ^ 63" for n using that by (simp add: unat_of_nat take_bit_nat_eq_self)
  have "unat (of_nat t - of_nat a :: u64) = t - a" using assms(1,2) u [of a] u [of t] unat_sub_fits [of "of_nat a :: u64" "of_nat t"] by simp
  then show ?thesis using assms u [of d] by (simp add: word_less_nat_alt)
qed

lemma dw_times_init: "t < 2 ^ 63 \<Longrightarrow> dw_times (dw_construct ok t)"
  by (simp add: time_defs dw_construct_def decode_state_def generation_def)

lemma dw_times_worker:
  assumes "dw_times s" "dw_inv s"
  shows "dw_times (worker_step s)"
proof (rule dw_times_frame [OF assms(1)])
  show "same_times s (worker_step s)"
    using assms by (cases "worker s") (auto simp: worker_step_def same_times_def dw_times_def dw_inv_def load_state_def)
qed (use assms(1) in \<open>auto simp: worker_step_def dw_times_def split: worker_pc.split\<close>)

lemma dw_times_flush:
  assumes "dw_times s"
  shows "dw_times (flush_step t e s)"
proof (rule dw_times_frame [OF assms(1)])
  show "same_times s (flush_step t e s)"
    using assms by (cases "flusher s t") (auto simp: flush_step_def same_times_def dw_times_def load_state_def)
qed (use assms(1) in \<open>auto simp: flush_step_def dw_times_def split: flush_pc.split\<close>)

lemma dw_times_timer:
  assumes "dw_times s" "dw_inv s" "arms s < 2 ^ 29"
  shows "dw_times (timer_step r s)"
proof (rule dw_times_frame [OF assms(1)])
  show "same_times s (timer_step r s)"
    using assms by (cases "timer_cb s") (auto simp: timer_step_def same_times_def dw_times_def dw_inv_def load_state_def)
  show "caller_time s (caller (timer_step r s))"
    using assms(1) by (auto simp: timer_step_def dw_times_def split: timer_pc.split)
  show "timer_time s (timer_cb (timer_step r s))"
    using assms(1) elapsed [of "armed_at s" "clock s" "armed_for s"]
    by (cases "timer_cb s") (auto simp: timer_step_def dw_times_def current_def times_ok_def seen_def)
  have "armed_at s + armed_for s \<le> clock s" if "timer_cb s = T_cas w a" "state_word s = w" for w a
  proof -
    have "decode_state w = Some armed" using assms(2) that(1) by (simp add: dw_inv_def)
    moreover have "a = arms s"
    proof -
      have "seen s w a" "generation w = arms s mod 2 ^ 29" using assms(1) that by (simp_all add: dw_times_def)
      then show ?thesis using assms(3) unfolding seen_def by (metis mod_less order.strict_trans1)
    qed
    ultimately show ?thesis using assms(1) that by (simp add: dw_times_def current_def load_state_def)
  qed
  then show "\<forall>(a, d, t) \<in> set (fired (timer_step r s)). a + d \<le> t"
    using assms(1) by (cases "timer_cb s") (auto simp: timer_step_def dw_times_def)
qed

lemma of_nat_nat: "0 \<le> d \<Longrightarrow> (of_nat (nat d) :: u64) = word_of_int d"
  by simp

lemma dw_times_caller:
  assumes "dw_times s" "dw_inv s"
  shows "dw_times (caller_step r s)"
proof (cases "\<exists>d t. caller s \<in> {Arm_start_low d t, Arm_start_high d t, Arm_delay_low d t, Arm_delay_high d t} \<or> (\<exists>w. caller s = Arm_store d t w)")
  case False
  show ?thesis
  proof (rule dw_times_frame [OF assms(1)])
    show "same_times s (caller_step r s)"
      using assms False by (cases "caller s") (auto simp: caller_step_def return_with_def not_exchanged_def same_times_def dw_times_def dw_inv_def load_state_def split: option.split)
    show "caller_time s (caller (caller_step r s))"
      using assms False by (cases "caller s") (auto simp: caller_step_def return_with_def not_exchanged_def dw_times_def small_delay_def arming_def unat_of_nat take_bit_nat_eq_self split: option.splits)
    show "timer_time s (timer_cb (caller_step r s))" "\<forall>(a, d, t) \<in> set (fired (caller_step r s)). a + d \<le> t"
      using assms(1) by (auto simp: caller_step_def return_with_def not_exchanged_def dw_times_def split: caller_pc.split option.split)
  qed
next
  case True
  then have st: "load_state s = Some idle" using assms(2) by (auto simp: dw_inv_def)
  have "timer_time (caller_step r s) (timer_cb s)"
    by (rule timer_time_stale [of s]) (use assms(1) True st in \<open>auto simp: dw_times_def current_def caller_step_def load_state_def\<close>)
  then show ?thesis
    using True assms st by (auto simp: dw_inv_def dw_times_def caller_step_def load_state_def arming_def times_ok_def of_nat_nat generation_arm_word [unfolded mode_code.simps] mod_Suc_eq)
qed

lemma dw_step_times:
  assumes "dw_step False s s'" "dw_inv s" "dw_times s" "arms s < 2 ^ 29"
  shows "dw_times s'"
  using assms(1)
proof (cases rule: dw_step.cases)
  case (calls r)
  then show ?thesis using dw_times_caller assms(2,3) by simp
next
  case (on_timer r)
  then show ?thesis using dw_times_timer assms(2-4) by simp
next
  case run_work
  then show ?thesis using dw_times_worker assms(2,3) by simp
next
  case (flushing t e)
  then show ?thesis using dw_times_flush assms(3) by simp
qed (rule dw_times_frame [OF assms(3)]; use assms(3) in \<open>auto simp: dw_times_def same_times_def load_state_def return_with_def small_delay_def\<close>)+

lemma dw_step_arms: "dw_step f s s' \<Longrightarrow> arms s \<le> arms s'"
  by (induction rule: dw_step.induct)
    (auto simp: caller_step_def timer_step_def worker_step_def flush_step_def return_with_def not_exchanged_def
      split: caller_pc.split timer_pc.split worker_pc.split flush_pc.split option.split)

lemma dw_reachable_times: "dw_reachable False s \<Longrightarrow> arms s < 2 ^ 29 \<Longrightarrow> dw_times s"
proof (induction rule: dw_reachable.induct)
  case (steps s s')
  then show ?case using dw_step_arms [OF steps.hyps(2)] dw_step_times [OF steps.hyps(2) dw_reachable_inv [OF steps.hyps(1)]] by simp
qed (simp add: dw_times_init)

text \<open>Each arming expires at most once.\<close>

definition fired_once :: "dw \<Rightarrow> bool" where
  "fired_once s \<longleftrightarrow> length (fired s) + of_bool (load_state s \<in> {Some armed, Some stopping}) \<le> arms s"

lemma fired_once_caller: "dw_inv s \<Longrightarrow> fired_once s \<Longrightarrow> fired_once (caller_step r s)"
  by (cases "caller s") (auto simp: dw_inv_def fired_once_def caller_step_def return_with_def not_exchanged_def load_state_def split: option.split)

lemma fired_once_timer: "dw_inv s \<Longrightarrow> fired_once s \<Longrightarrow> fired_once (timer_step r s)"
  by (cases "timer_cb s") (auto simp: dw_inv_def fired_once_def timer_step_def load_state_def)

lemma fired_once_worker: "dw_inv s \<Longrightarrow> fired_once s \<Longrightarrow> fired_once (worker_step s)"
  by (cases "worker s") (auto simp: dw_inv_def fired_once_def worker_step_def load_state_def)

lemma dw_reachable_once: "dw_reachable False s \<Longrightarrow> fired_once s"
proof (induction rule: dw_reachable.induct)
  case (steps s s')
  have inv: "dw_inv s" using dw_reachable_inv steps.hyps(1) by blast
  from steps.hyps(2) show ?case
  proof (cases rule: dw_step.cases)
    case (calls r)
    then show ?thesis using fired_once_caller inv steps.IH by simp
  next
    case (on_timer r)
    then show ?thesis using fired_once_timer inv steps.IH by simp
  next
    case run_work
    then show ?thesis using fired_once_worker inv steps.IH by simp
  next
    case (flushing t e)
    then show ?thesis using steps.IH by (cases "flusher s t") (auto simp: fired_once_def flush_step_def load_state_def)
  qed (use steps.IH in \<open>auto simp: fired_once_def load_state_def return_with_def\<close>)
qed (simp add: fired_once_def dw_construct_def load_state_def decode_state_def)

section \<open>Runs\<close>

datatype dw_action = A_schedule int | A_cancel | A_call error_code | A_expire | A_timer error_code | A_take | A_work | A_tick nat

fun dw_do :: "bool \<Rightarrow> dw_action \<Rightarrow> dw \<Rightarrow> dw option" where
  "dw_do f (A_schedule d) s = (if caller s = Free \<and> dw_valid s \<and> \<bar>d\<bar> < 2 ^ 63 then Some (s\<lparr>caller := Sched d\<rparr>) else None)"
| "dw_do f A_cancel s = (if caller s = Free \<and> dw_valid s then Some (s\<lparr>caller := Cancelling\<rparr>) else None)"
| "dw_do f (A_call r) s = (if f \<or> caller s \<noteq> Arm_timer \<or> r = Ok then Some (caller_step r s) else None)"
| "dw_do f A_expire s = (if timer_cb s = T_quiet then Some (s\<lparr>timer_cb := T_load\<rparr>) else None)"
| "dw_do f (A_timer r) s = Some (timer_step r s)"
| "dw_do f A_take s = (if worker s = W_rest \<and> 0 < entries s then Some (s\<lparr>entries := entries s - 1, worker := W_load\<rparr>) else None)"
| "dw_do f A_work s = Some (worker_step s)"
| "dw_do f (A_tick t) s = (if clock s \<le> t \<and> t < 2 ^ 63 then Some (s\<lparr>clock := t\<rparr>) else None)"

fun dw_run :: "bool \<Rightarrow> dw_action list \<Rightarrow> dw \<Rightarrow> dw option" where
  "dw_run f [] s = Some s"
| "dw_run f (a # as) s = (case dw_do f a s of None \<Rightarrow> None | Some s' \<Rightarrow> dw_run f as s')"

lemma dw_do_step: "dw_do f a s = Some s' \<Longrightarrow> dw_step f s s'"
  by (cases a) (auto simp del: One_nat_def split: if_splits intro: dw_step.intros)

lemma dw_run_reachable: "dw_reachable f s \<Longrightarrow> dw_run f as s = Some s' \<Longrightarrow> dw_reachable f s'"
  by (induction as arbitrary: s) (auto split: option.splits dest: dw_do_step dw_reachable.steps)

lemma dw_run_steps: "dw_run f as s = Some s' \<Longrightarrow> (dw_step f)\<^sup>*\<^sup>* s s'"
  by (induction as arbitrary: s) (auto split: option.splits dest: dw_do_step intro: converse_rtranclp_into_rtranclp)

text \<open>Scheduled with a delay of 5 ms at time 10, expired at time 15, submitted, taken by the worker and started.\<close>

definition dw_prepare :: "dw_action list" where
  "dw_prepare = [A_schedule 5, A_call Ok, A_call Ok, A_call Ok, A_call Ok, A_call Ok, A_call Ok, A_call Ok, A_call Ok, A_call Ok, A_call Ok, A_call Ok]"

definition dw_expiry :: "dw_action list" where
  "dw_expiry = [A_tick 15, A_expire, A_timer Ok, A_timer Ok, A_timer Ok, A_timer Ok, A_timer Ok, A_timer Ok, A_timer Ok]"

definition dw_demo_run :: "dw_action list" where
  "dw_demo_run = dw_prepare @ [A_call Ok] @ dw_expiry @ [A_timer Ok, A_take, A_work, A_work]"

lemma decode_zero: "decode_state 0 = Some idle"
  by (simp add: decode_state_def)

lemma dw_demo_exists:
  "\<exists>s. dw_run False dw_demo_run (dw_construct True 10) = Some s \<and> fired s = [(10, 5, 15)] \<and> started s = 1 \<and> arms s = 1 \<and>
     load_state s = Some running \<and> entries s = 0"
  by (simp add: dw_demo_run_def dw_prepare_def dw_expiry_def dw_construct_def caller_step_def timer_step_def worker_step_def
      load_state_def decode_zero return_with_def)

section \<open>Properties\<close>

text \<open>
  C31: under every interleaving of calls, late timer callbacks, the worker and flushes, with a timer that starts when it is told to: the state
  word always names a state; every request that was accepted has been started once, was cancelled, failed, or is still
  outstanding; at most one item of the object is in the queue, and only while it is queued; it is running exactly while the worker
  executes it; and when it is idle no item is in the queue or in the worker's hands, so that a flush that has seen it idle has
  nothing left to wait for.
\<close>

theorem delayable_work_conserves:
  assumes "dw_reachable False s"
  shows "load_state s \<noteq> None \<and>
    requests s = started s + cancelled s + failures s + of_bool (load_state s \<in> {Some armed, Some queued, Some stopping}) \<and>
    entries s \<le> 1 \<and> (0 < entries s \<longrightarrow> load_state s = Some queued) \<and> (dw_running s \<longleftrightarrow> executing (worker s)) \<and>
    (\<not> dw_pending s \<longrightarrow> entries s = 0 \<and> worker s = W_rest)"
proof -
  have inv: "dw_inv s" by (rule dw_reachable_inv [OF assms])
  then have e: "of_bool (enqueuing (caller s)) + of_bool (submitting (timer_cb s)) + of_bool (taking (worker s)) + entries s = (of_bool (load_state s = Some queued) :: nat)"
    by (simp add: dw_inv_def)
  then have "entries s \<le> 1" "0 < entries s \<longrightarrow> load_state s = Some queued" by (auto simp: of_bool_def split: if_splits)
  moreover have "entries s = 0 \<and> worker s = W_rest" if "\<not> dw_pending s"
    using that e inv by (cases "worker s") (simp_all add: dw_pending_def dw_inv_def)
  ultimately show ?thesis using inv by (simp add: dw_inv_def dw_running_def)
qed

lemma dw_demo_reachable: "dw_run False as (dw_construct True 10) = Some s \<Longrightarrow> dw_reachable False s"
  by (rule dw_run_reachable [OF dw_reachable.begins]) simp_all

theorem delayable_work_conserves_witness:
  "\<exists>s. dw_run False dw_demo_run (dw_construct True 10) = Some s \<and> load_state s = Some running \<and> executing (worker s) \<and>
     requests s = 1 + cancelled s + failures s"
proof -
  obtain s where s: "dw_run False dw_demo_run (dw_construct True 10) = Some s" "started s = 1" "load_state s = Some running" using dw_demo_exists by blast
  show ?thesis using s delayable_work_conserves [OF dw_demo_reachable [OF s(1)]] by (auto simp: dw_running_def)
qed

text \<open>
  C32: a callback is never early and no arming expires twice: each expiry that put the item on its way came at least the delay after the
  arming it belongs to, late callbacks of earlier armings notwithstanding, and there are no more expiries than armings. The generation
  has 29 bits, so this is shown for the first \<^verbatim>\<open>2 ^ 29\<close> armings.
\<close>

theorem delayable_work_never_early:
  assumes "dw_reachable False s" "arms s < 2 ^ 29"
  shows "(\<forall>(a, d, t) \<in> set (fired s). a + d \<le> t) \<and> length (fired s) \<le> arms s"
  using dw_reachable_times [OF assms] dw_reachable_once [OF assms(1)] by (simp add: dw_times_def fired_once_def)

theorem delayable_work_never_early_witness:
  "\<exists>s. dw_run False dw_demo_run (dw_construct True 10) = Some s \<and> fired s = [(10, 5, 15)] \<and> (\<forall>(a, d, t) \<in> set (fired s). a + d \<le> t)"
proof -
  obtain s where s: "dw_run False dw_demo_run (dw_construct True 10) = Some s" "fired s = [(10, 5, 15)]" "arms s = 1" using dw_demo_exists by blast
  then show ?thesis using delayable_work_never_early [OF dw_demo_reachable [OF s(1)]] by auto
qed

section \<open>Emptying the queue\<close>

text \<open>\<open>cancel_all\<close> of the work queue drops the items that have not started; the object is not told.\<close>

definition queue_cancel_all :: "dw \<Rightarrow> dw" where
  "queue_cancel_all s = s\<lparr>entries := 0\<rparr>"

definition dw_orphan :: "dw \<Rightarrow> bool" where
  "dw_orphan s \<longleftrightarrow> load_state s = Some queued \<and> entries s = 0 \<and> \<not> enqueuing (caller s) \<and> \<not> preparing (caller s) \<and> \<not> stopping_pc (caller s) \<and>
     \<not> submitting (timer_cb s) \<and> worker s = W_rest \<and> caller_word (state_word s) (caller s) \<and> timer_word (state_word s) (timer_cb s)"

lemma dw_orphan_caller: "dw_orphan s \<Longrightarrow> caller s \<noteq> Arm_timer \<or> r = Ok \<Longrightarrow> dw_orphan (caller_step r s) \<and> requests (caller_step r s) = requests s \<and> started (caller_step r s) = started s"
  by (cases "caller s") (auto simp: dw_orphan_def caller_step_def return_with_def not_exchanged_def load_state_def)

lemma dw_orphan_timer: "dw_orphan s \<Longrightarrow> dw_orphan (timer_step r s) \<and> requests (timer_step r s) = requests s \<and> started (timer_step r s) = started s"
  by (cases "timer_cb s") (auto simp: dw_orphan_def timer_step_def load_state_def)

lemma dw_orphan_step:
  assumes "dw_step False s s'" "dw_orphan s"
  shows "dw_orphan s' \<and> requests s' = requests s \<and> started s' = started s"
  using assms(1)
proof (cases rule: dw_step.cases)
  case (calls r)
  then show ?thesis using dw_orphan_caller assms(2) by blast
next
  case (on_timer r)
  then show ?thesis using dw_orphan_timer assms(2) by simp
next
  case run_work
  then show ?thesis using assms(2) by (simp add: worker_step_def dw_orphan_def)
next
  case (flushing t e)
  then show ?thesis using assms(2) by (cases "flusher s t") (auto simp: dw_orphan_def flush_step_def load_state_def)
qed (use assms(2) in \<open>auto simp: dw_orphan_def load_state_def return_with_def\<close>)

text \<open>
  C33: when the items of the queue are cancelled while one of this object is among them, the object stays queued for ever: nothing
  that happens afterwards runs the callback, no request is accepted any more, and it never becomes idle, so that a flush without a limit does
  not return.
\<close>

theorem delayable_work_lost_by_cancel_all:
  assumes "dw_reachable False s" "0 < entries s" "(dw_step False)\<^sup>*\<^sup>* (queue_cancel_all s) s'"
  shows "load_state s' = Some queued \<and> started s' = started s \<and> requests s' = requests s"
proof -
  have inv: "dw_inv s" by (rule dw_reachable_inv [OF assms(1)])
  obtain n where n: "entries s = Suc n" using assms(2) by (cases "entries s") auto
  have st: "load_state s = Some queued" "\<not> enqueuing (caller s)" "\<not> submitting (timer_cb s)" "\<not> taking (worker s)"
    using inv n by (auto simp: dw_inv_def Suc_of_bool)
  moreover have "worker s = W_rest" using st inv by (cases "worker s") (auto simp: dw_inv_def)
  ultimately have "dw_orphan (queue_cancel_all s)" using inv by (auto simp: dw_inv_def dw_orphan_def queue_cancel_all_def load_state_def)
  with assms(3) have "dw_orphan s' \<and> started s' = started s \<and> requests s' = requests s"
    by (induction rule: rtranclp_induct) (auto simp: queue_cancel_all_def dest: dw_orphan_step)
  then show ?thesis by (simp add: dw_orphan_def)
qed

definition dw_queued_run :: "dw_action list" where
  "dw_queued_run = dw_prepare @ [A_call Ok] @ dw_expiry @ [A_timer Ok]"

theorem delayable_work_lost_by_cancel_all_witness:
  "\<exists>s s'. dw_run False dw_queued_run (dw_construct True 10) = Some s \<and> entries s = 1 \<and>
     dw_run False [A_schedule 7, A_call Ok] (queue_cancel_all s) = Some s' \<and> answer s' = Already_exists \<and> load_state s' = Some queued"
proof -
  have "\<exists>s s'. dw_run False dw_queued_run (dw_construct True 10) = Some s \<and> entries s = 1 \<and>
     dw_run False [A_schedule 7, A_call Ok] (queue_cancel_all s) = Some s' \<and> answer s' = Already_exists"
    by (simp add: dw_queued_run_def dw_prepare_def dw_expiry_def dw_construct_def caller_step_def timer_step_def worker_step_def
      load_state_def decode_zero return_with_def queue_cancel_all_def)
  then obtain s s' where s: "dw_run False dw_queued_run (dw_construct True 10) = Some s" "entries s = 1"
    "dw_run False [A_schedule 7, A_call Ok] (queue_cancel_all s) = Some s'" "answer s' = Already_exists" by blast
  have "(dw_step False)\<^sup>*\<^sup>* (queue_cancel_all s) s'"
    by (rule dw_run_steps [OF s(3)])
  then show ?thesis using delayable_work_lost_by_cancel_all [OF dw_demo_reachable [OF s(1)]] s by auto
qed

section \<open>A timer that does not start\<close>

text \<open>
  The properties above need a timer that starts. A start that fails after a late callback has taken the new arming for its own leaves the
  object idle with an item in the queue, although the caller was told that nothing was scheduled.
\<close>

theorem delayable_work_start_race:
  "\<exists>s. dw_reachable True s \<and> answer s = Out_of_resources \<and> load_state s = Some idle \<and> entries s = 1"
proof -
  have "\<exists>s. dw_run True (dw_prepare @ dw_expiry @ [A_call Out_of_resources, A_call Ok, A_call Ok, A_timer Ok]) (dw_construct True 10) = Some s \<and>
     answer s = Out_of_resources \<and> load_state s = Some idle \<and> entries s = 1"
    by (simp add: dw_prepare_def dw_expiry_def dw_construct_def caller_step_def timer_step_def load_state_def decode_zero return_with_def)
  moreover have "dw_reachable True (dw_construct True 10)" by (rule dw_reachable.begins) simp
  ultimately show ?thesis using dw_run_reachable by blast
qed

section \<open>The delay and the timer\<close>

text \<open>
  C34: the timer is given the delay in ticks of a millisecond. A callback that comes at exactly that tick and is not disturbed puts the item on
  its way if the delay is at most \<^verbatim>\<open>2 ^ 32 - 2\<close> milliseconds. For a longer delay the ticks saturate: the callback comes too
  soon, does nothing, and as the timer is a one-shot nobody comes again; the object stays armed.
\<close>

theorem delayable_work_delay_limit:
  assumes "load_state s = Some armed" "timer_cb s = T_load" "times_ok s" "armed_for s = nat d" "0 < d" "d < 2 ^ 63"
    and "clock s = armed_at s + unat (ms_to_ticks osal_clock_tick_period_us d :: tick_t)" "clock s < 2 ^ 63"
    and "s' = (timer_step Ok ^^ 7) s"
  shows "if d \<le> 2 ^ 32 - 2 then load_state s' = Some queued \<and> timer_cb s' = T_submit else load_state s' = Some armed \<and> timer_cb s' = T_quiet"
proof -
  define k where "k = unat (ms_to_ticks osal_clock_tick_period_us d :: tick_t)"
  have k: "k = min (nat d) (2 ^ 32 - 2)"
    using unat_ms_to_ticks [where 't = 32 and p = osal_clock_tick_period_us, of d] assms(5,6)
    by (simp add: k_def osal_clock_tick_period_us_def ceil_div_def)
  have u: "unat (of_nat n :: u64) = n" if "n < 2 ^ 63" for n using that by (simp add: unat_of_nat take_bit_nat_eq_self)
  have sm: "armed_at s < 2 ^ 63" "nat d < 2 ^ 63" using assms(6-8) by simp_all
  have "unat (of_nat (clock s) - of_nat (armed_at s) :: u64) = k"
    using u [OF assms(8)] u [OF sm(1)] assms(7) unat_sub_fits [of "of_nat (armed_at s) :: u64" "of_nat (clock s)"] by (simp add: k_def)
  then have early: "(of_nat (clock s) - of_nat (armed_at s) < (of_nat (armed_for s) :: u64)) \<longleftrightarrow> \<not> d \<le> 2 ^ 32 - 2"
    using u [OF sm(2)] assms(4-6) k by (simp add: word_less_nat_alt) linarith
  have st: "decode_state (state_word s) = Some armed" using assms(1) by (simp add: load_state_def)
  show ?thesis
    using assms(2,3) st early unfolding assms(9) times_ok_def by (simp add: numeral_eq_Suc timer_step_def load_state_def)
qed

definition dw_due :: "nat \<Rightarrow> u32 \<Rightarrow> u32 \<Rightarrow> nat \<Rightarrow> dw" where
  "dw_due t low high d = (dw_construct True t)\<lparr>state_word := 9, start_low := 10, delay_low := low, delay_high := high, timer_cb := T_load,
     armed_at := 10, armed_for := d, arms := 1\<rparr>"

theorem delayable_work_delay_limit_witness:
  "load_state ((timer_step Ok ^^ 7) (dw_due 15 5 0 5)) = Some queued \<and> load_state ((timer_step Ok ^^ 7) (dw_due (10 + (2 ^ 32 - 2)) 0 2 (2 ^ 33))) = Some armed"
proof -
  have w: "decode_state 9 = Some armed" "load_time 10 0 = 10" "load_time 5 0 = 5" "load_time 0 2 = 2 ^ 33" by code_simp+
  have t: "unat (ms_to_ticks osal_clock_tick_period_us 5 :: tick_t) = 5" "unat (ms_to_ticks osal_clock_tick_period_us (2 ^ 33) :: tick_t) = 2 ^ 32 - 2"
    using unat_ms_to_ticks [where 't = 32 and p = osal_clock_tick_period_us and ms = 5]
      unat_ms_to_ticks [where 't = 32 and p = osal_clock_tick_period_us and ms = "2 ^ 33"]
    by (simp_all add: osal_clock_tick_period_us_def ceil_div_def)
  have "load_state (dw_due t l h d) = Some armed" "timer_cb (dw_due t l h d) = T_load" "clock (dw_due t l h d) = t" "armed_for (dw_due t l h d) = d" "armed_at (dw_due t l h d) = 10" for t l h d
    by (simp_all add: dw_due_def load_state_def dw_construct_def w)
  note due = this
  have ok: "times_ok (dw_due t 5 0 5)" "times_ok (dw_due t 0 2 (2 ^ 33))" for t by (simp_all add: times_ok_def dw_due_def dw_construct_def w)
  show ?thesis
    using delayable_work_delay_limit [where s = "dw_due 15 5 0 5" and d = 5, OF due(1,2) ok(1)]
      delayable_work_delay_limit [where s = "dw_due (10 + (2 ^ 32 - 2)) 0 2 (2 ^ 33)" and d = "2 ^ 33", OF due(1,2) ok(2)] t due
    by simp
qed

end
