(* ===== verification/Osal_Stop_Token.thy ===== *)
theory Osal_Stop_Token
  imports Osal_Prelude Osal_Error
begin

text \<open>
  Cooperative cancellation, \<^verbatim>\<open>include/osal/stop_token.hpp\<close>: a source, and callbacks that register with it in a singly linked list
  inside the callback objects. A request to stop takes the callbacks off the list one by one and calls each without holding
  the mutex of the source; closing a callback unlinks it and waits while it is being called. What runs under the mutex is one
  step. The mutex and the condition variable work: a fault of theirs is not modelled.
\<close>

section \<open>The list of callbacks\<close>

text \<open>A callback is given by its address; \<open>head\<close> and \<open>nxt\<close> are the pointers of source and callbacks.\<close>

datatype link = Head | Next nat

record stop_source =
  stopped :: bool
  head :: "nat option"
  nxt :: "nat \<Rightarrow> nat option"
  count :: u64
  executing :: "nat \<Rightarrow> bool"

definition deref :: "link \<Rightarrow> stop_source \<Rightarrow> nat option" where
  "deref l s = (case l of Head \<Rightarrow> head s | Next p \<Rightarrow> nxt s p)"

definition assign :: "link \<Rightarrow> nat option \<Rightarrow> stop_source \<Rightarrow> stop_source" where
  "assign l p s = (case l of Head \<Rightarrow> s\<lparr>head := p\<rparr> | Next q \<Rightarrow> s\<lparr>nxt := (nxt s)(q := p)\<rparr>)"

text \<open>The loop of \<open>close\<close> that looks for the link to this callback.\<close>

partial_function (option) find_link :: "nat \<Rightarrow> stop_source \<Rightarrow> link \<Rightarrow> link option" where
  "find_link c s l =
     (case deref l s of
        None \<Rightarrow> Some l
      | Some p \<Rightarrow> if p = c then Some l else find_link c s (Next p))"

definition unlink :: "nat \<Rightarrow> stop_source \<Rightarrow> stop_source option" where
  "unlink c s =
     (case find_link c s Head of
        None \<Rightarrow> None
      | Some l \<Rightarrow> Some (if deref l s = Some c then (assign l (nxt s c) s)\<lparr>count := count s - 1\<rparr> else s))"

text \<open>The callbacks that are linked, in order.\<close>

fun chain :: "(nat \<Rightarrow> nat option) \<Rightarrow> nat option \<Rightarrow> nat list \<Rightarrow> bool" where
  "chain nx h [] \<longleftrightarrow> h = None"
| "chain nx h (c # cs) \<longleftrightarrow> h = Some c \<and> chain nx (nx c) cs"

lemma chain_cong: "chain nx h cs \<Longrightarrow> \<forall>c \<in> set cs. nx' c = nx c \<Longrightarrow> chain nx' h cs"
  by (induction cs arbitrary: h) auto

lemma chain_unique: "chain nx h cs \<Longrightarrow> chain nx h cs' \<Longrightarrow> cs = cs'"
  by (induction cs arbitrary: h cs') (auto elim: chain.elims)

text \<open>The search returns, and the link it finds is the one before the callback.\<close>

lemma find_link_chain:
  assumes "chain (nxt s) (deref l s) cs"
  shows "\<exists>l'. find_link c s l = Some l' \<and>
    (if c \<in> set cs then deref l' s = Some c \<and> (l' = l \<and> cs \<noteq> [] \<and> hd cs = c \<or>
       (\<exists>p xs ys. cs = xs @ p # c # ys \<and> c \<notin> set xs \<and> p \<noteq> c \<and> l' = Next p)) else deref l' s = None)"
  using assms
proof (induction cs arbitrary: l)
  case Nil
  then show ?case by (subst find_link.simps) simp
next
  case (Cons p cs)
  show ?case
  proof (cases "p = c")
    case True
    then show ?thesis using Cons.prems by (subst find_link.simps) simp
  next
    case False
    have "chain (nxt s) (deref (Next p) s) cs" using Cons.prems by (simp add: deref_def)
    from Cons.IH [OF this] obtain l' where l': "find_link c s (Next p) = Some l'"
      and r: "if c \<in> set cs then deref l' s = Some c \<and> (l' = Next p \<and> cs \<noteq> [] \<and> hd cs = c \<or>
         (\<exists>q xs ys. cs = xs @ q # c # ys \<and> c \<notin> set xs \<and> q \<noteq> c \<and> l' = Next q)) else deref l' s = None" by blast
    have step: "find_link c s l = Some l'" using Cons.prems False l' by (subst find_link.simps) simp
    show ?thesis
    proof (cases "c \<in> set cs")
      case True
      have "\<exists>q xs ys. p # cs = xs @ q # c # ys \<and> c \<notin> set xs \<and> q \<noteq> c \<and> l' = Next q"
      proof -
        consider "l' = Next p" "cs \<noteq> []" "hd cs = c" | q xs ys where "cs = xs @ q # c # ys" "c \<notin> set xs" "q \<noteq> c" "l' = Next q" using r True by auto
        then show ?thesis
        proof cases
          case 1
          then show ?thesis using False by (intro exI [of _ p] exI [of _ "[]"] exI [of _ "tl cs"]) (cases cs; simp)
        next
          case 2
          then show ?thesis using False by (intro exI [of _ q] exI [of _ "p # xs"] exI [of _ ys]) simp
        qed
      qed
      moreover have "deref l' s = Some c" using r True by (simp only: if_True)
      ultimately show ?thesis using True step by (intro exI [of _ l']) simp
    next
      case nin: False
      then have "deref l' s = None" using r by (simp only: if_False)
      then show ?thesis using step nin False by (intro exI [of _ l']) simp
    qed
  qed
qed

lemma chain_skip: "chain nx h (xs @ p # c # ys) \<Longrightarrow> distinct (xs @ p # c # ys) \<Longrightarrow> chain (nx(p := nx c)) h (xs @ p # ys)"
proof (induction xs arbitrary: h)
  case Nil
  then have "chain nx (nx c) ys" "p \<notin> set ys" "p \<noteq> c" by auto
  then have "chain (nx(p := nx c)) (nx c) ys" using chain_cong [of nx "nx c" ys "nx(p := nx c)"] by auto
  then show ?case using Nil by (simp add: fun_upd_def)
qed auto

text \<open>Closing takes exactly this callback off the list.\<close>

lemma unlink_chain:
  assumes ch: "chain (nxt s) (head s) cs" and dist: "distinct cs" and cnt: "unat (count s) = length cs"
  shows "\<exists>s'. unlink c s = Some s' \<and> chain (nxt s') (head s') (remove1 c cs) \<and> unat (count s') = length (remove1 c cs) \<and>
    stopped s' = stopped s \<and> executing s' = executing s"
proof -
  have "chain (nxt s) (deref Head s) cs" using ch by (simp add: deref_def)
  from find_link_chain [OF this, of c] obtain l where l: "find_link c s Head = Some l" and
    r: "if c \<in> set cs then deref l s = Some c \<and> (l = Head \<and> cs \<noteq> [] \<and> hd cs = c \<or>
       (\<exists>p xs ys. cs = xs @ p # c # ys \<and> c \<notin> set xs \<and> p \<noteq> c \<and> l = Next p)) else deref l s = None" by blast
  show ?thesis
  proof (cases "c \<in> set cs")
    case False
    then show ?thesis using l r ch cnt by (auto simp: unlink_def remove1_idem)
  next
    case True
    then have "0 < length cs" by (cases cs) auto
    then have "0 < count s" using cnt by (metis unat_0 word_gt_0 neq0_conv)
    from unat_word_pred [OF this] have cnt': "unat (count s - 1) = length (remove1 c cs)" using True cnt by (simp add: length_remove1)
    have d: "deref l s = Some c" using r True by simp
    let ?s' = "(assign l (nxt s c) s)\<lparr>count := count s - 1\<rparr>"
    have u: "unlink c s = Some ?s'" using l d by (simp add: unlink_def)
    consider "l = Head" "cs = c # tl cs" | p xs ys where "cs = xs @ p # c # ys" "c \<notin> set xs" "p \<noteq> c" "l = Next p" using r True by (cases cs) auto
    then have "chain (nxt ?s') (head ?s') (remove1 c cs)"
    proof cases
      case 1
      then have "chain (nxt s) (nxt s c) (tl cs)" using ch by (metis chain.simps(2))
      moreover have "remove1 c cs = tl cs" using 1(2) by (metis remove1.simps(2))
      ultimately show ?thesis using 1(1) by (simp add: assign_def)
    next
      case 2
      then have "remove1 c cs = xs @ p # ys" by (simp add: remove1_append)
      then show ?thesis using chain_skip [of "nxt s" "head s" xs p c ys] ch dist 2 by (simp add: assign_def)
    qed
    moreover have "stopped ?s' = stopped s" "executing ?s' = executing s" by (simp_all add: assign_def split: link.split)
    ultimately show ?thesis using u cnt' by auto
  qed
qed

section \<open>Operations\<close>

text \<open>
  The life of a callback object: its constructor has not run; it has found the source stopped and still has to call the callback itself;
  it holds on to the source; it was refused, so that its source pointer is null; \<open>close\<close> waits for it; it is closed.
\<close>

datatype cb_phase = Fresh | Inline | Ready | Refused | Leaving | Closed

definition stop_requested :: "stop_source \<Rightarrow> bool" where
  "stop_requested s \<longleftrightarrow> stopped s"

text \<open>The constructor, with \<open>mx\<close> for the largest number of callbacks.\<close>

definition stop_callback :: "u64 \<Rightarrow> nat \<Rightarrow> stop_source \<Rightarrow> cb_phase \<times> stop_source" where
  "stop_callback mx c s =
     (if stop_requested s then (Inline, s)
      else if count s = mx then (Refused, s)
      else (Ready, s\<lparr>nxt := (nxt s)(c := head s), head := Some c, count := count s + 1\<rparr>))"

text \<open>The top of the loop of \<open>request_stop\<close>: the next callback is taken off the list and marked.\<close>

definition take_next :: "stop_source \<Rightarrow> nat option \<times> stop_source" where
  "take_next s =
     (case head s of
        None \<Rightarrow> (None, s)
      | Some c \<Rightarrow> (Some c, s\<lparr>head := nxt s c, count := count s - 1, executing := (executing s)(c := True)\<rparr>))"

definition request_first :: "stop_source \<Rightarrow> nat option \<times> stop_source" where
  "request_first s = take_next (s\<lparr>stopped := True\<rparr>)"

definition callback_done :: "nat \<Rightarrow> stop_source \<Rightarrow> nat option \<times> stop_source" where
  "callback_done c s = take_next (s\<lparr>executing := (executing s)(c := False)\<rparr>)"

text \<open>The critical section of \<open>close\<close> up to its first look at \<open>executing\<close>.\<close>

definition close_begin :: "nat \<Rightarrow> stop_source \<Rightarrow> (cb_phase \<times> stop_source) option" where
  "close_begin c s = (case unlink c s of None \<Rightarrow> None | Some s' \<Rightarrow> Some (if executing s' c then Leaving else Closed, s'))"

section \<open>All interleavings\<close>

text \<open>The first request to stop: not made, calling a callback, back from it, over. \<open>calls\<close> counts the calls of each callback.\<close>

datatype request_pc = R_none | R_call nat | R_back nat | R_done

definition request_next :: "nat option \<Rightarrow> request_pc" where
  "request_next n = (case n of None \<Rightarrow> R_done | Some c \<Rightarrow> R_call c)"

record stop_sys =
  src :: stop_source
  phase :: "nat \<Rightarrow> cb_phase"
  requester :: request_pc
  calls :: "nat \<Rightarrow> nat"

inductive stop_step :: "u64 \<Rightarrow> stop_sys \<Rightarrow> stop_sys \<Rightarrow> bool" for mx where
  construct: "phase s c = Fresh \<Longrightarrow> stop_callback mx c (src s) = (p, z) \<Longrightarrow> stop_step mx s (s\<lparr>src := z, phase := (phase s)(c := p)\<rparr>)"
| inline: "phase s c = Inline \<Longrightarrow> stop_step mx s (s\<lparr>calls := (calls s)(c := calls s c + 1), phase := (phase s)(c := Ready)\<rparr>)"
| request: "\<not> stop_requested (src s) \<Longrightarrow> request_first (src s) = (n, z) \<Longrightarrow> stop_step mx s (s\<lparr>src := z, requester := request_next n\<rparr>)"
| again: "stop_requested (src s) \<Longrightarrow> stop_step mx s s"
| callback: "requester s = R_call c \<Longrightarrow> stop_step mx s (s\<lparr>calls := (calls s)(c := calls s c + 1), requester := R_back c\<rparr>)"
| returned: "requester s = R_back c \<Longrightarrow> callback_done c (src s) = (n, z) \<Longrightarrow> stop_step mx s (s\<lparr>src := z, requester := request_next n\<rparr>)"
| close: "phase s c = Ready \<Longrightarrow> close_begin c (src s) = Some (p, z) \<Longrightarrow> stop_step mx s (s\<lparr>src := z, phase := (phase s)(c := p)\<rparr>)"
| close_refused: "phase s c = Refused \<Longrightarrow> stop_step mx s (s\<lparr>phase := (phase s)(c := Closed)\<rparr>)"
| close_woken: "phase s c = Leaving \<Longrightarrow> \<not> executing (src s) c \<Longrightarrow> stop_step mx s (s\<lparr>phase := (phase s)(c := Closed)\<rparr>)"
| close_timeout: "phase s c = Leaving \<Longrightarrow> stop_step mx s (s\<lparr>phase := (phase s)(c := Ready)\<rparr>)"

definition stop_init :: stop_sys where
  "stop_init = \<lparr>src = \<lparr>stopped = False, head = None, nxt = (\<lambda>_. None), count = 0, executing = (\<lambda>_. False)\<rparr>,
     phase = (\<lambda>_. Fresh), requester = R_none, calls = (\<lambda>_. 0)\<rparr>"

inductive stop_reachable :: "u64 \<Rightarrow> stop_sys \<Rightarrow> bool" for mx where
  begins: "stop_reachable mx stop_init"
| steps: "stop_reachable mx s \<Longrightarrow> stop_step mx s s' \<Longrightarrow> stop_reachable mx s'"

section \<open>Invariant\<close>

definition linked :: "u64 \<Rightarrow> stop_source \<Rightarrow> nat list \<Rightarrow> bool" where
  "linked mx s cs \<longleftrightarrow> chain (nxt s) (head s) cs \<and> distinct cs \<and> unat (count s) = length cs \<and> length cs \<le> unat mx"

definition in_call :: "request_pc \<Rightarrow> nat \<Rightarrow> bool" where
  "in_call r c \<longleftrightarrow> r = R_call c \<or> r = R_back c"

text \<open>
  What holds of each callback: a linked one has not been called; one that holds on to the source and is not linked has been called or is about to
  be; the others are not touched by the request.
\<close>

definition callback_ok :: "nat list \<Rightarrow> stop_sys \<Rightarrow> nat \<Rightarrow> bool" where
  "callback_ok cs s c \<longleftrightarrow> (executing (src s) c \<longleftrightarrow> in_call (requester s) c) \<and>
     calls s c \<le> 1 \<and>
     (c \<in> set cs \<longrightarrow> phase s c = Ready \<and> calls s c = 0 \<and> \<not> in_call (requester s) c) \<and>
     (requester s = R_call c \<longrightarrow> calls s c = 0) \<and> (requester s = R_back c \<longrightarrow> calls s c = 1) \<and>
     (in_call (requester s) c \<longrightarrow> phase s c \<in> {Ready, Leaving}) \<and>
     (phase s c \<in> {Fresh, Inline, Refused} \<longrightarrow> calls s c = 0) \<and>
     (phase s c \<in> {Ready, Leaving} \<and> c \<notin> set cs \<and> requester s \<noteq> R_call c \<longrightarrow> calls s c = 1)"

definition stop_inv :: "u64 \<Rightarrow> stop_sys \<Rightarrow> nat list \<Rightarrow> bool" where
  "stop_inv mx s cs \<longleftrightarrow> linked mx (src s) cs \<and> (stopped (src s) \<longleftrightarrow> requester s \<noteq> R_none) \<and> (requester s = R_done \<longrightarrow> cs = []) \<and> (\<forall>c. callback_ok cs s c)"

lemma take_next_linked:
  assumes "linked mx s cs" "take_next s = (n, z)"
  shows "n = (case cs of [] \<Rightarrow> None | c # _ \<Rightarrow> Some c) \<and> linked mx z (tl cs) \<and> stopped z = stopped s \<and>
    executing z = (case cs of [] \<Rightarrow> executing s | c # _ \<Rightarrow> (executing s)(c := True))"
proof (cases cs)
  case (Cons c ds)
  have "0 < count s" using assms(1) Cons by (auto simp: linked_def word_gt_0)
  from unat_word_pred [OF this] show ?thesis using assms Cons by (auto simp: linked_def take_next_def)
qed (use assms in \<open>auto simp: linked_def take_next_def\<close>)

lemma stop_callback_linked:
  assumes "linked mx s cs" "stop_callback mx c s = (p, z)" "c \<notin> set cs"
  shows "\<exists>ds. linked mx z ds \<and> stopped z = stopped s \<and> executing z = executing s \<and>
    (if stopped s then p = Inline \<and> ds = cs else p = Refused \<and> ds = cs \<or> p = Ready \<and> ds = c # cs)"
proof (cases "stopped s \<or> count s = mx")
  case True
  then show ?thesis using assms by (intro exI [of _ cs]) (auto simp: stop_callback_def stop_requested_def split: if_splits)
next
  case False
  then have z: "p = Ready" "z = s\<lparr>nxt := (nxt s)(c := head s), head := Some c, count := count s + 1\<rparr>"
    using assms(2) by (auto simp: stop_callback_def stop_requested_def)
  have lt: "length cs < unat mx" using assms(1) False by (auto simp: linked_def le_less word_unat_eq_iff)
  have "unat (count s) + 1 < 2 ^ 64" using lt assms(1) unat_lt2p [of mx] by (simp add: linked_def)
  then have cnt: "unat (count s + 1) = length cs + 1" using unat_add_fits [of "count s" 1] assms(1) by (simp add: linked_def)
  have "chain ((nxt s)(c := head s)) (head s) cs" using assms chain_cong [of "nxt s" "head s" cs "(nxt s)(c := head s)"] by (auto simp: linked_def)
  then have "linked mx z (c # cs)" using assms(1,3) cnt lt by (simp add: linked_def z(2) fun_upd_def)
  then show ?thesis using z False by auto
qed

lemma callback_ok_frame:
  assumes "callback_ok cs s x" "x \<in> set ds \<longleftrightarrow> x \<in> set cs" "executing (src s') x = executing (src s) x" "phase s' x = phase s x" "calls s' x = calls s x"
    "requester s' = R_call x \<longleftrightarrow> requester s = R_call x" "requester s' = R_back x \<longleftrightarrow> requester s = R_back x"
  shows "callback_ok ds s' x"
  using assms unfolding callback_ok_def in_call_def by presburger

lemma stop_invI:
  assumes "linked mx (src s') ds" "stopped (src s') \<longleftrightarrow> requester s' \<noteq> R_none" "requester s' = R_done \<longrightarrow> ds = []" "\<And>x. callback_ok ds s' x"
  shows "\<exists>ds. stop_inv mx s' ds"
  using assms unfolding stop_inv_def by blast

text \<open>The end of a critical section of \<open>request_stop\<close>, which goes on to the next callback.\<close>

lemma stop_next_inv:
  assumes l: "linked mx z0 cs" and t: "take_next z0 = (n, z)" and st: "stopped z0" and s': "src s' = z" "requester s' = request_next n" "phase s' = phase s" "calls s' = calls s"
    and ok: "\<And>x. callback_ok cs s x" and ex: "\<And>x. \<not> executing z0 x" and r: "\<And>x. requester s \<noteq> R_call x"
  shows "\<exists>ds. stop_inv mx s' ds"
proof (rule stop_invI [where ds = "tl cs"])
  note t' = take_next_linked [OF l t]
  show "linked mx (src s') (tl cs)" "stopped (src s') \<longleftrightarrow> requester s' \<noteq> R_none" "requester s' = R_done \<longrightarrow> tl cs = []"
    using t' s' st by (cases cs; auto simp: request_next_def)+
  have d: "distinct cs" using l by (simp add: linked_def)
  fix x
  have o: "x \<in> set cs \<Longrightarrow> phase s x = Ready \<and> calls s x = 0" "calls s x \<le> 1" "phase s x \<in> {Fresh, Inline, Refused} \<longrightarrow> calls s x = 0"
    "phase s x \<in> {Ready, Leaving} \<and> x \<notin> set cs \<longrightarrow> calls s x = 1" using ok [of x] r [of x] by (auto simp: callback_ok_def)
  show "callback_ok (tl cs) s' x"
  proof (cases cs)
    case Nil
    then show ?thesis using o t' s' ex [of x] by (simp add: callback_ok_def in_call_def request_next_def)
  next
    case (Cons c ds)
    then show ?thesis using o t' s' ex [of x] d by (cases "x = c") (simp_all add: callback_ok_def in_call_def request_next_def)
  qed
qed

lemma stop_step_inv:
  assumes "stop_step mx s s'" "stop_inv mx s cs"
  shows "\<exists>ds. stop_inv mx s' ds"
proof -
  have l: "linked mx (src s) cs" and st: "stopped (src s) \<longleftrightarrow> requester s \<noteq> R_none" "requester s = R_done \<longrightarrow> cs = []" and ok: "callback_ok cs s x" for x
    using assms(2) by (simp_all add: stop_inv_def)
  from assms(1) show ?thesis
  proof (cases rule: stop_step.cases)
    case (construct c p z)
    have c: "c \<notin> set cs" "calls s c = 0" "\<not> executing (src s) c" "requester s \<noteq> R_call c" "requester s \<noteq> R_back c"
      using ok [of c] construct(2) by (auto simp: callback_ok_def in_call_def)
    obtain ds where d: "linked mx z ds" "stopped z = stopped (src s)" "executing z = executing (src s)"
      "if stopped (src s) then p = Inline \<and> ds = cs else p = Refused \<and> ds = cs \<or> p = Ready \<and> ds = c # cs"
      using stop_callback_linked [OF l construct(3) c(1)] by blast
    show ?thesis
    proof (rule stop_invI [where ds = ds])
      fix x show "callback_ok ds s' x"
      proof (cases "x = c")
        case True
        then show ?thesis using c d(3,4) by (auto simp: callback_ok_def in_call_def construct(1) split: if_splits)
      next
        case False
        then show ?thesis using d(4) by (intro callback_ok_frame [OF ok]) (auto simp: construct(1) d(3) split: if_splits)
      qed
    qed (use d st construct in \<open>auto split: if_splits\<close>)
  next
    case (inline c)
    show ?thesis
    proof (rule stop_invI [where ds = cs])
      fix x show "callback_ok cs s' x"
      proof (cases "x = c")
        case True
        then show ?thesis using ok [of c] inline by (simp add: callback_ok_def in_call_def)
      qed (intro callback_ok_frame [OF ok]; simp add: inline(1))
    qed (use l st inline in auto)
  next
    case (request n z)
    then have nr: "requester s = R_none" using st by (simp add: stop_requested_def)
    have "linked mx ((src s)\<lparr>stopped := True\<rparr>) cs" using l by (simp add: linked_def)
    from stop_next_inv [OF this request(3) [unfolded request_first_def] _ _ _ _ _ ok] show ?thesis
      using ok nr request(1) by (auto simp: callback_ok_def in_call_def)
  next
    case (callback c)
    show ?thesis
    proof (rule stop_invI [where ds = cs])
      fix x show "callback_ok cs s' x"
      proof (cases "x = c")
        case True
        then show ?thesis using ok [of c] callback by (auto simp: callback_ok_def in_call_def)
      qed (intro callback_ok_frame [OF ok]; use callback in simp)
    qed (use l st callback in auto)
  next
    case (returned c n z)
    have "linked mx ((src s)\<lparr>executing := (executing (src s))(c := False)\<rparr>) cs" using l by (simp add: linked_def)
    from stop_next_inv [OF this returned(3) [unfolded callback_done_def] _ _ _ _ _ ok] show ?thesis
      using ok st returned(1,2) by (auto simp: callback_ok_def in_call_def)
  next
    case (close c p z)
    obtain z' where z': "unlink c (src s) = Some z'" "chain (nxt z') (head z') (remove1 c cs)" "unat (count z') = length (remove1 c cs)"
      "stopped z' = stopped (src s)" "executing z' = executing (src s)" using unlink_chain [of "src s" cs c] l by (auto simp: linked_def)
    then have z: "z = z'" "p = (if executing (src s) c then Leaving else Closed)" using close(3) by (auto simp: close_begin_def)
    have d: "distinct cs" using l by (simp add: linked_def)
    show ?thesis
    proof (rule stop_invI [where ds = "remove1 c cs"])
      show "linked mx (src s') (remove1 c cs)" using z' z l close(1) by (auto simp: linked_def length_remove1)
      fix x show "callback_ok (remove1 c cs) s' x"
      proof (cases "x = c")
        case True
        then show ?thesis using ok [of c] close z z' d by (auto simp: callback_ok_def in_call_def)
      qed (intro callback_ok_frame [OF ok]; use z z' d close(1) in simp)
    qed (use st z' z close(1) in auto)
  next
    case (close_refused c)
    show ?thesis
    proof (rule stop_invI [where ds = cs])
      fix x show "callback_ok cs s' x"
        using ok [of x] close_refused by (cases "x = c") (auto simp: callback_ok_def in_call_def)
    qed (use l st close_refused in auto)
  next
    case (close_woken c)
    show ?thesis
    proof (rule stop_invI [where ds = cs])
      fix x show "callback_ok cs s' x"
        using ok [of x] close_woken by (cases "x = c") (auto simp: callback_ok_def in_call_def)
    qed (use l st close_woken in auto)
  next
    case (close_timeout c)
    show ?thesis
    proof (rule stop_invI [where ds = cs])
      fix x show "callback_ok cs s' x"
        using ok [of x] close_timeout by (cases "x = c") (auto simp: callback_ok_def in_call_def)
    qed (use l st close_timeout in auto)
  qed (use assms(2) in blast)
qed

lemma stop_reachable_inv: "stop_reachable mx s \<Longrightarrow> \<exists>cs. stop_inv mx s cs"
proof (induction rule: stop_reachable.induct)
  case begins
  then show ?case by (intro exI [of _ "[]"]) (simp add: stop_inv_def linked_def stop_init_def callback_ok_def in_call_def)
qed (use stop_step_inv in blast)

section \<open>Properties\<close>

text \<open>
  C35: under every interleaving of constructors, requests, callbacks and closes: a callback is called at most once; the list goes only through
  objects that are registered and not closed; closing an object always finds its way through the list; and once an object is closed its
  callback is not running, will not be called again, and the request does not touch the object any more.
\<close>

theorem stop_callback_lifetime:
  assumes "stop_reachable mx s"
  shows "calls s c \<le> 1 \<and> (\<exists>p z. close_begin c (src s) = Some (p, z)) \<and> (\<exists>cs. linked mx (src s) cs \<and> (\<forall>x \<in> set cs. phase s x = Ready)) \<and>
    (phase s c = Closed \<longrightarrow> \<not> executing (src s) c \<and> \<not> in_call (requester s) c \<and>
       (\<forall>s'. stop_step mx s s' \<longrightarrow> phase s' c = Closed \<and> calls s' c = calls s c))"
proof -
  obtain cs where inv: "stop_inv mx s cs" using stop_reachable_inv [OF assms] by blast
  then have l: "linked mx (src s) cs" and ok: "callback_ok cs s x" for x by (simp_all add: stop_inv_def)
  obtain z where "unlink c (src s) = Some z" using unlink_chain [of "src s" cs c] l by (auto simp: linked_def)
  then have a: "\<exists>p z. close_begin c (src s) = Some (p, z)" by (simp add: close_begin_def)
  have b: "\<forall>x \<in> set cs. phase s x = Ready" using ok by (simp add: callback_ok_def)
  have "\<not> executing (src s) c \<and> \<not> in_call (requester s) c" if "phase s c = Closed" using ok [of c] that by (auto simp: callback_ok_def)
  moreover have "phase s' c = Closed \<and> calls s' c = calls s c" if "phase s c = Closed" "stop_step mx s s'" for s'
    using that(2)
  proof (cases rule: stop_step.cases)
    case (callback d)
    then show ?thesis using ok [of d] that(1) by (auto simp: callback_ok_def in_call_def)
  qed (use that(1) in auto)
  ultimately show ?thesis using a b l ok [of c] by (auto simp: callback_ok_def)
qed

text \<open>
  C36: when the request to stop is over, the list is empty and every object that still holds on to the source has had its callback called
  exactly once: by the request, or by its own constructor when it came later. The request comes to its end: each round takes one object off
  the list, and nobody can register any more.
\<close>

theorem stop_request_complete:
  assumes "stop_reachable mx s"
  shows "(requester s = R_done \<longrightarrow> head (src s) = None \<and> count (src s) = 0 \<and> (\<forall>c. phase s c = Ready \<longrightarrow> calls s c = 1)) \<and>
    (\<forall>c n z. requester s = R_back c \<and> callback_done c (src s) = (n, z) \<longrightarrow>
       (if count (src s) = 0 then n = None else n \<noteq> None \<and> count z < count (src s))) \<and>
    (\<forall>c p z. stopped (src s) \<and> stop_callback mx c (src s) = (p, z) \<longrightarrow> p = Inline \<and> z = src s)"
proof -
  obtain cs where inv: "stop_inv mx s cs" using stop_reachable_inv [OF assms] by blast
  then have l: "linked mx (src s) cs" and d: "requester s = R_done \<longrightarrow> cs = []" and ok: "callback_ok cs s x" for x by (simp_all add: stop_inv_def)
  have "head (src s) = None \<and> count (src s) = 0 \<and> (\<forall>c. phase s c = Ready \<longrightarrow> calls s c = 1)" if r: "requester s = R_done"
  proof -
    have "calls s c = 1" if "phase s c = Ready" for c using ok [of c] that d r by (auto simp: callback_ok_def)
    then show ?thesis using l d r by (auto simp: linked_def word_unat_eq_iff)
  qed
  moreover have "if count (src s) = 0 then n = None else n \<noteq> None \<and> count z < count (src s)" if "callback_done c (src s) = (n, z)" for c n z
  proof -
    have "linked mx ((src s)\<lparr>executing := (executing (src s))(c := False)\<rparr>) cs" using l by (simp add: linked_def)
    note t = take_next_linked [OF this that [unfolded callback_done_def]]
    show ?thesis using t l by (cases cs) (auto simp: linked_def word_unat_eq_iff word_less_nat_alt)
  qed
  ultimately show ?thesis by (auto simp: stop_callback_def stop_requested_def)
qed

text \<open>One object, registered, called by the request and closed.\<close>

definition stop_demo :: stop_sys where
  "stop_demo = \<lparr>src = \<lparr>stopped = True, head = None, nxt = (\<lambda>_. None)(7 := None), count = 0, executing = (\<lambda>_. False)(7 := True, 7 := False)\<rparr>,
     phase = (\<lambda>_. Fresh)(7 := Ready), requester = R_done, calls = (\<lambda>_. 0)(7 := 1)\<rparr>"

lemma stop_demo_reachable: "stop_reachable 4 stop_demo" "stop_reachable 4 (stop_demo\<lparr>phase := (phase stop_demo)(7 := Closed)\<rparr>)"
proof -
  note next_step = stop_reachable.steps
  have 1: "stop_reachable 4 (stop_init\<lparr>src := (src stop_init)\<lparr>nxt := (nxt (src stop_init))(7 := None), head := Some 7, count := 1\<rparr>, phase := (phase stop_init)(7 := Ready)\<rparr>)" (is "stop_reachable 4 ?s1")
    by (rule next_step [OF stop_reachable.begins stop_step.construct]) (simp_all add: stop_init_def stop_callback_def stop_requested_def)
  have 2: "stop_reachable 4 (?s1\<lparr>src := (src ?s1)\<lparr>stopped := True, head := None, count := 0, executing := (\<lambda>_. False)(7 := True)\<rparr>, requester := R_call 7\<rparr>)" (is "stop_reachable 4 ?s2")
    by (rule next_step [OF 1 stop_step.request [where n = "Some 7", unfolded request_next_def option.case]])
      (simp_all add: stop_init_def stop_requested_def request_first_def take_next_def)
  have 3: "stop_reachable 4 (?s2\<lparr>calls := (calls ?s2)(7 := 1), requester := R_back 7\<rparr>)" (is "stop_reachable 4 ?s3")
    using next_step [OF 2 stop_step.callback [of ?s2 7]] by (simp add: stop_init_def)
  have fin: "callback_done 7 (src ?s3) = (None, src stop_demo)" by (simp add: callback_done_def take_next_def stop_init_def stop_demo_def)
  have eq: "?s3\<lparr>src := src stop_demo, requester := R_done\<rparr> = stop_demo" by (simp add: stop_init_def stop_demo_def)
  show 4: "stop_reachable 4 stop_demo"
    using next_step [OF 3 stop_step.returned [OF _ fin]] eq by (simp add: request_next_def)
  have "close_begin 7 (src stop_demo) = Some (Closed, src stop_demo)"
    by (simp add: close_begin_def unlink_def find_link.simps [of 7 _ Head] deref_def stop_demo_def)
  from next_step [OF 4 stop_step.close [OF _ this]] show "stop_reachable 4 (stop_demo\<lparr>phase := (phase stop_demo)(7 := Closed)\<rparr>)"
    by (simp add: stop_demo_def)
qed

theorem stop_callback_lifetime_witness: "calls (stop_demo\<lparr>phase := (phase stop_demo)(7 := Closed)\<rparr>) 7 = 1 \<and> \<not> executing (src stop_demo) 7"
  using stop_callback_lifetime [OF stop_demo_reachable(2), of 7] by (simp add: stop_demo_def)

theorem stop_request_complete_witness: "requester stop_demo = R_done \<and> phase stop_demo 7 = Ready \<and> calls stop_demo 7 = 1"
  using stop_request_complete [OF stop_demo_reachable(1)] by (simp add: stop_demo_def)

end
