(* ===== verification/Osal_Thread_Local.thy ===== *)
theory Osal_Thread_Local
  imports Osal_Prelude Osal_Error
begin

unbundle bit_operations_syntax

text \<open>
  Thread-local data, \<^verbatim>\<open>include/osal/thread_local_data.hpp\<close>, with the registry of keys and the storage of the bare-metal backend. A key
  is a bit of an atomic mask and a generation; each task has, per key, a value and the generation it was stored under. The
  constructors and destructors of objects that share the registry are interleaved access by access. The variants for POSIX and FreeRTOS call
  the kernel and are left out.
\<close>

section \<open>The registry and the storage\<close>

text \<open>
  Where an object is: not constructed; looking for a key from an index on; about to claim a key, given the mask it has read; about to count up the
  generation of its key; in use; its bit given back but the generation not counted up yet; constructed without a key; destroyed.
\<close>

datatype tls_object = Unborn | Scan nat | Claim nat u32 | Bump nat | Live nat | Release nat | Invalid | Dead

text \<open>Values are pointers, \<open>None\<close> for null. The last three fields record: how often a generation was counted up, at which count a value was stored, and what an object was given by a task, which is named by its index in the task table, \<open>-1\<close> outside every task.\<close>

record tls =
  max_keys :: nat
  used_mask :: u32
  generations :: "nat \<Rightarrow> u32"
  slot_count :: nat
  tls_values :: "nat \<Rightarrow> nat \<Rightarrow> nat option"
  generations_seen :: "nat \<Rightarrow> nat \<Rightarrow> u32"
  object :: "nat \<Rightarrow> tls_object"
  bumps :: "nat \<Rightarrow> nat"
  stored_at :: "nat \<Rightarrow> nat \<Rightarrow> nat"
  given :: "nat \<Rightarrow> int \<Rightarrow> nat option"

definition key_limit :: "tls \<Rightarrow> nat" where
  "key_limit s = (if max_keys s \<ge> 32 then 32 else max_keys s)"

definition key_bit :: "nat \<Rightarrow> u32" where
  "key_bit k = push_bit k 1"

definition move :: "nat \<Rightarrow> tls_object \<Rightarrow> tls \<Rightarrow> tls" where
  "move x p s = s\<lparr>object := (object s)(x := p)\<rparr>"

text \<open>The test of the inner loop, with the mask just read.\<close>

definition try_key :: "nat \<Rightarrow> u32 \<Rightarrow> tls_object" where
  "try_key k e = (if e AND key_bit k = 0 then Claim k e else Scan (Suc k))"

text \<open>The constructor of object \<open>x\<close>, one access at a time; \<open>weak\<close> lets the exchange fail for no reason.\<close>

definition acquire_step :: "bool \<Rightarrow> nat \<Rightarrow> tls \<Rightarrow> tls" where
  "acquire_step weak x s =
     (case object s x of
        Scan k \<Rightarrow> if k < key_limit s then move x (try_key k (used_mask s)) s else move x Invalid s
      | Claim k e \<Rightarrow>
          if used_mask s = e \<and> \<not> weak then move x (Bump k) (s\<lparr>used_mask := e OR key_bit k\<rparr>)
          else move x (try_key k (used_mask s)) s
      | Bump k \<Rightarrow> move x (Live k) (s\<lparr>generations := (generations s)(k := generations s k + 1), bumps := (bumps s)(k := bumps s k + 1),
          given := (given s)(x := (\<lambda>_. None))\<rparr>)
      | _ \<Rightarrow> s)"

definition release_bit :: "nat \<Rightarrow> tls \<Rightarrow> tls" where
  "release_bit k s = s\<lparr>used_mask := used_mask s AND NOT (key_bit k)\<rparr>"

definition release_generation :: "nat \<Rightarrow> tls \<Rightarrow> tls" where
  "release_generation k s = s\<lparr>generations := (generations s)(k := generations s k + 1), bumps := (bumps s)(k := bumps s k + 1)\<rparr>"

definition release :: "nat \<Rightarrow> tls \<Rightarrow> tls" where
  "release k s = (if k \<ge> max_keys s then s else release_generation k (release_bit k s))"

definition tls_generation :: "tls \<Rightarrow> nat \<Rightarrow> u32" where
  "tls_generation s k = (if k \<ge> max_keys s then 0 else generations s k)"

definition current_slot :: "tls \<Rightarrow> int \<Rightarrow> nat" where
  "current_slot s current = (if current < 0 then 0 else let slot = nat current + 1 in if slot < slot_count s then slot else 0)"

definition storage_set :: "nat \<Rightarrow> nat \<Rightarrow> nat option \<Rightarrow> tls \<Rightarrow> tls" where
  "storage_set t k v s =
     (if k \<ge> max_keys s then s
      else s\<lparr>tls_values := (tls_values s)(t := (tls_values s t)(k := v)),
        generations_seen := (generations_seen s)(t := (generations_seen s t)(k := tls_generation s k)),
        stored_at := (stored_at s)(t := (stored_at s t)(k := bumps s k))\<rparr>)"

definition storage_get :: "nat \<Rightarrow> nat \<Rightarrow> tls \<Rightarrow> nat option" where
  "storage_get t k s =
     (if k \<ge> max_keys s then None
      else if generations_seen s t k = tls_generation s k then tls_values s t k else None)"

text \<open>The members of the class, called by the task with index \<open>current\<close> on object \<open>x\<close>.\<close>

definition tls_set :: "int \<Rightarrow> nat \<Rightarrow> nat option \<Rightarrow> tls \<Rightarrow> error_code \<times> tls" where
  "tls_set current x v s =
     (case object s x of
        Live k \<Rightarrow> (Ok, (storage_set (current_slot s current) k v s)\<lparr>given := (given s)(x := (given s x)(current := v))\<rparr>)
      | _ \<Rightarrow> (Not_initialized, s))"

definition tls_get :: "int \<Rightarrow> nat \<Rightarrow> tls \<Rightarrow> nat option" where
  "tls_get current x s = (case object s x of Live k \<Rightarrow> storage_get (current_slot s current) k s | _ \<Rightarrow> None)"

section \<open>All interleavings\<close>

text \<open>The backend runs no task, or one of its table; there is one slot more than there are tasks.\<close>

definition task_ok :: "tls \<Rightarrow> int \<Rightarrow> bool" where
  "task_ok s current \<longleftrightarrow> -1 \<le> current \<and> current < int (slot_count s) - 1"

text \<open>
  With \<open>f\<close> a destructor can be interrupted between giving the bit back and counting up the generation; a cooperative scheduler does not do
  that.
\<close>

inductive tls_step :: "bool \<Rightarrow> tls \<Rightarrow> tls \<Rightarrow> bool" for f where
  construct: "object s x = Unborn \<Longrightarrow> tls_step f s (move x (Scan 0) s)"
| acquiring: "tls_step f s (acquire_step w x s)"
| destroy: "object s x = Live k \<Longrightarrow> tls_step f s (move x Dead (release k s))"
| destroy_invalid: "object s x = Invalid \<Longrightarrow> tls_step f s (move x Dead s)"
| destroy_bit: "f \<Longrightarrow> object s x = Live k \<Longrightarrow> k < max_keys s \<Longrightarrow> tls_step f s (move x (Release k) (release_bit k s))"
| destroy_generation: "object s x = Release k \<Longrightarrow> tls_step f s (move x Dead (release_generation k s))"
| set_value: "task_ok s current \<Longrightarrow> tls_set current x v s = (r, s') \<Longrightarrow> tls_step f s s'"

definition tls_init :: "nat \<Rightarrow> nat \<Rightarrow> tls" where
  "tls_init keys slots = \<lparr>max_keys = keys, used_mask = 0, generations = (\<lambda>_. 0), slot_count = slots, tls_values = (\<lambda>_ _. None),
     generations_seen = (\<lambda>_ _. 0), object = (\<lambda>_. Unborn), bumps = (\<lambda>_. 0), stored_at = (\<lambda>_ _. 0), given = (\<lambda>_ _. None)\<rparr>"

inductive tls_reachable :: "bool \<Rightarrow> tls \<Rightarrow> bool" for f where
  begins: "tls_reachable f (tls_init keys slots)"
| steps: "tls_reachable f s \<Longrightarrow> tls_step f s s' \<Longrightarrow> tls_reachable f s'"

section \<open>Invariant\<close>

definition holds_key :: "tls \<Rightarrow> nat \<Rightarrow> nat \<Rightarrow> bool" where
  "holds_key s x k \<longleftrightarrow> object s x = Bump k \<or> object s x = Live k"

text \<open>A bit is set exactly while one object holds the key, and a claim is for a key that was free in the mask it has read.\<close>

definition keys_ok :: "tls \<Rightarrow> bool" where
  "keys_ok s \<longleftrightarrow> (\<forall>k < 32. bit (used_mask s) k \<longleftrightarrow> (\<exists>x. holds_key s x k)) \<and>
     (\<forall>x y k. holds_key s x k \<and> holds_key s y k \<longrightarrow> x = y) \<and> (\<forall>x k. holds_key s x k \<longrightarrow> k < key_limit s) \<and>
     (\<forall>x k e. object s x = Claim k e \<longrightarrow> k < key_limit s \<and> \<not> bit e k) \<and> (\<forall>x k. object s x \<noteq> Release k)"

text \<open>What slot \<open>t\<close> says of key \<open>k\<close> is \<open>v\<close>.\<close>

definition slot_holds :: "tls \<Rightarrow> nat \<Rightarrow> nat \<Rightarrow> nat option \<Rightarrow> bool" where
  "slot_holds s t k v \<longleftrightarrow> (if stored_at s t k = bumps s k then tls_values s t k = v else v = None)"

text \<open>The generations count, and every object in use finds in the slot of a task what it was given by that task.\<close>

definition values_ok :: "tls \<Rightarrow> bool" where
  "values_ok s \<longleftrightarrow> (\<forall>k. generations s k = of_nat (bumps s k)) \<and> (\<forall>t k. generations_seen s t k = of_nat (stored_at s t k) \<and> stored_at s t k \<le> bumps s k) \<and>
     (\<forall>x k c. object s x = Live k \<and> task_ok s c \<longrightarrow> slot_holds s (current_slot s c) k (given s x c))"

lemma tls_slot_frame [simp]:
  "current_slot (s\<lparr>used_mask := m\<rparr>) c = current_slot s c" "task_ok (s\<lparr>used_mask := m\<rparr>) c = task_ok s c" "slot_holds (s\<lparr>used_mask := m\<rparr>) t k v = slot_holds s t k v"
  "current_slot (move x p s) c = current_slot s c" "task_ok (move x p s) c = task_ok s c" "slot_holds (move x p s) t k v = slot_holds s t k v"
  by (simp_all add: current_slot_def task_ok_def slot_holds_def move_def)

lemma slot_inj: "task_ok s c \<Longrightarrow> task_ok s d \<Longrightarrow> current_slot s c = current_slot s d \<longleftrightarrow> c = d"
  by (auto simp: task_ok_def current_slot_def Let_def nat_eq_iff)

lemma key_bit_simps:
  "k < 32 \<Longrightarrow> bit (w OR key_bit j) k \<longleftrightarrow> bit w k \<or> k = j"
  "k < 32 \<Longrightarrow> bit (w AND NOT (key_bit j)) k \<longleftrightarrow> bit w k \<and> k \<noteq> j"
  by (auto simp: key_bit_def bit_simps)

lemma key_free: "w AND key_bit k = 0 \<longleftrightarrow> \<not> bit w k"
  unfolding key_bit_def bit_iff_and_push_bit_not_eq_0 by simp

lemma key_limit_less: "k < key_limit s \<Longrightarrow> k < 32 \<and> k < max_keys s"
  by (auto simp: key_limit_def split: if_splits)

lemma keys_ok_init: "keys_ok (tls_init keys slots)" and values_ok_init: "values_ok (tls_init keys slots)"
  by (simp_all add: keys_ok_def values_ok_def tls_init_def holds_key_def)

text \<open>An object that neither takes nor gives back a key moves.\<close>

lemma keys_ok_move:
  assumes "keys_ok s" "\<And>k. \<not> holds_key s x k" "\<And>k. p \<noteq> Bump k \<and> p \<noteq> Live k \<and> p \<noteq> Release k" "\<And>k e. p = Claim k e \<Longrightarrow> k < key_limit s \<and> \<not> bit e k"
  shows "keys_ok (move x p s)"
proof -
  have h: "holds_key (move x p s) y k = holds_key s y k" for y k using assms(2,3) by (auto simp: holds_key_def move_def)
  have c: "object (move x p s) y = Claim k e \<longrightarrow> k < key_limit s \<and> \<not> bit e k" "object (move x p s) y \<noteq> Release k" for y k e
    using assms(1,3,4) by (auto simp: keys_ok_def move_def)
  have "key_limit (move x p s) = key_limit s" "used_mask (move x p s) = used_mask s" by (simp_all add: key_limit_def move_def)
  then show ?thesis using assms(1) h c unfolding keys_ok_def by simp
qed

lemma keys_ok_take:
  assumes ok: "keys_ok s" and x: "object s x = Claim k (used_mask s)"
  shows "keys_ok (move x (Bump k) (s\<lparr>used_mask := used_mask s OR key_bit k\<rparr>))"
proof -
  let ?s' = "move x (Bump k) (s\<lparr>used_mask := used_mask s OR key_bit k\<rparr>)"
  have k: "k < key_limit s" "\<not> bit (used_mask s) k" using ok x by (auto simp: keys_ok_def)
  have k32: "k < 32" using k(1) key_limit_less by blast
  have free: "\<not> holds_key s y k" for y using ok k k32 by (auto simp: keys_ok_def)
  have h: "holds_key ?s' y j \<longleftrightarrow> holds_key s y j \<or> y = x \<and> j = k" for y j using x by (auto simp: holds_key_def move_def)
  have m: "used_mask ?s' = used_mask s OR key_bit k" "key_limit ?s' = key_limit s" by (simp_all add: move_def key_limit_def)
  have "\<forall>y j e. object ?s' y = Claim j e \<longrightarrow> j < key_limit s \<and> \<not> bit e j" "\<forall>y j. object ?s' y \<noteq> Release j" using ok by (auto simp: keys_ok_def move_def)
  moreover have "\<forall>j < 32. bit (used_mask ?s') j \<longleftrightarrow> (\<exists>y. holds_key ?s' y j)" using ok h m(1) by (auto simp: keys_ok_def key_bit_simps)
  moreover have "\<forall>y z j. holds_key ?s' y j \<and> holds_key ?s' z j \<longrightarrow> y = z" 
    using ok h free unfolding keys_ok_def by metis
  moreover have "\<forall>y j. holds_key ?s' y j \<longrightarrow> j < key_limit s" using ok h k(1) by (auto simp: keys_ok_def)
  ultimately show ?thesis unfolding keys_ok_def m(2) by blast
qed

lemma keys_ok_release:
  assumes ok: "keys_ok s" and x: "object s x = Live k"
  shows "keys_ok (move x Dead (release k s))"
proof -
  let ?s' = "move x Dead (release k s)"
  have k: "k < key_limit s" using ok x by (auto simp: keys_ok_def holds_key_def)
  have one: "holds_key s y k \<longleftrightarrow> y = x" for y using ok x unfolding keys_ok_def holds_key_def by blast
  have h: "holds_key ?s' y j \<longleftrightarrow> holds_key s y j \<and> j \<noteq> k" for y j
    using one [of y] x by (cases "y = x") (auto simp: holds_key_def move_def release_def release_bit_def release_generation_def)
  have m: "used_mask ?s' = used_mask s AND NOT (key_bit k)" "key_limit ?s' = key_limit s"
    using key_limit_less [OF k] by (simp_all add: move_def release_def release_bit_def release_generation_def key_limit_def)
  have "\<forall>y j e. object ?s' y = Claim j e \<longrightarrow> j < key_limit s \<and> \<not> bit e j" "\<forall>y j. object ?s' y \<noteq> Release j"
    using ok by (auto simp: keys_ok_def move_def release_def release_bit_def release_generation_def)
  moreover have "\<forall>j < 32. bit (used_mask ?s') j \<longleftrightarrow> (\<exists>y. holds_key ?s' y j)" using ok h m(1) by (auto simp: keys_ok_def key_bit_simps)
  moreover have "\<forall>y z j. holds_key ?s' y j \<and> holds_key ?s' z j \<longrightarrow> y = z" "\<forall>y j. holds_key ?s' y j \<longrightarrow> j < key_limit s"
    using ok h unfolding keys_ok_def by metis+
  ultimately show ?thesis unfolding keys_ok_def m(2) by blast
qed

lemma tls_set_frame:
  "tls_set current x v s = (r, s') \<Longrightarrow> object s' = object s \<and> used_mask s' = used_mask s \<and> max_keys s' = max_keys s \<and> slot_count s' = slot_count s \<and>
     generations s' = generations s \<and> bumps s' = bumps s"
  by (auto simp: tls_set_def storage_set_def split: tls_object.splits)

lemma keys_ok_set: "keys_ok s \<Longrightarrow> tls_set current x v s = (r, s') \<Longrightarrow> keys_ok s'"
proof -
  assume ok: "keys_ok s" and "tls_set current x v s = (r, s')"
  then have o: "object s' = object s" "used_mask s' = used_mask s" "max_keys s' = max_keys s" using tls_set_frame by blast+
  have "key_limit s' = key_limit s" "holds_key s' = holds_key s" using o by (simp_all add: key_limit_def holds_key_def fun_eq_iff)
  then show "keys_ok s'" using ok o unfolding keys_ok_def by simp
qed

lemma keys_ok_bump: "keys_ok s \<Longrightarrow> object s x = Bump k \<Longrightarrow> keys_ok (acquire_step w x s)"
proof -
  assume a: "keys_ok s" "object s x = Bump k"
  let ?s' = "acquire_step w x s"
  have "holds_key ?s' y j = holds_key s y j" for y j using a(2) by (auto simp: holds_key_def acquire_step_def move_def)
  moreover have "object ?s' y = Claim j e \<longleftrightarrow> object s y = Claim j e" "object ?s' y = Release j \<longleftrightarrow> object s y = Release j" for y j e
    using a(2) by (auto simp: acquire_step_def move_def)
  moreover have "key_limit ?s' = key_limit s" "used_mask ?s' = used_mask s" using a(2) by (simp_all add: acquire_step_def move_def key_limit_def)
  ultimately show ?thesis using a(1) unfolding keys_ok_def by simp
qed

lemma keys_ok_acquire:
  assumes ok: "keys_ok s"
  shows "keys_ok (acquire_step w x s)"
proof -
  have tk: "k < key_limit s \<Longrightarrow> \<not> holds_key s x j \<Longrightarrow> keys_ok (move x (try_key k (used_mask s)) s)" if "object s x = Scan k \<or> (\<exists>e. object s x = Claim k e)" for k j
    by (rule keys_ok_move [OF ok]) (use that in \<open>auto simp: holds_key_def try_key_def key_free split: if_splits\<close>)
  show ?thesis
  proof (cases "object s x")
    case (Scan k)
    then show ?thesis using tk [of k] by (auto simp: acquire_step_def holds_key_def intro: keys_ok_move [OF ok])
  next
    case (Claim k e)
    then have "k < key_limit s" using ok by (auto simp: keys_ok_def)
    then show ?thesis using Claim tk [of k] keys_ok_take [OF ok, of x k] by (auto simp: acquire_step_def holds_key_def)
  qed (use ok keys_ok_bump in \<open>auto simp: acquire_step_def\<close>)
qed

lemma tls_step_keys:
  assumes "tls_step False s s'" "keys_ok s"
  shows "keys_ok s'"
  using assms(1)
proof (cases rule: tls_step.cases)
  case (construct x)
  then show ?thesis using assms(2) by (auto intro!: keys_ok_move simp: holds_key_def)
next
  case (destroy_invalid x)
  then show ?thesis using assms(2) by (auto intro!: keys_ok_move simp: holds_key_def)
next
  case (destroy_generation x k)
  then show ?thesis using assms(2) by (simp add: keys_ok_def)
qed (use assms(2) keys_ok_acquire keys_ok_release keys_ok_set in auto)

lemma values_ok_bump:
  assumes "values_ok s" and gone: "\<And>y. object s' y = Live k \<Longrightarrow> given s' y = (\<lambda>_. None)" and live: "\<And>y j. object s' y = Live j \<Longrightarrow> j \<noteq> k \<Longrightarrow> object s y = Live j \<and> given s' y = given s y"
    and same: "tls_values s' = tls_values s" "generations_seen s' = generations_seen s" "stored_at s' = stored_at s"
    and slots: "slot_count s' = slot_count s"
    and bump: "generations s' = (generations s)(k := generations s k + 1)" "bumps s' = (bumps s)(k := bumps s k + 1)"
  shows "values_ok s'"
proof -
  have ne: "stored_at s' t k \<noteq> bumps s' k" for t
  proof -
    have "stored_at s t k \<le> bumps s k" using assms(1) by (simp add: values_ok_def)
    then show ?thesis using same bump(2) by simp
  qed
  have cs: "current_slot s' c = current_slot s c" "task_ok s' c = task_ok s c" for c using slots by (simp_all add: current_slot_def task_ok_def)
  have "slot_holds s' (current_slot s' c) j (given s' x c)" if "object s' x = Live j \<and> task_ok s' c" for x j c
  proof (cases "j = k")
    case True
    then show ?thesis using ne gone [of x] that by (simp add: slot_holds_def)
  next
    case False
    then have "object s x = Live j" "given s' x = given s x" using live [of x j] that by simp_all
    then show ?thesis using assms(1) same bump False that cs by (simp add: values_ok_def slot_holds_def)
  qed
  moreover have "\<forall>j. generations s' j = of_nat (bumps s' j)" "\<forall>t j. generations_seen s' t j = of_nat (stored_at s' t j) \<and> stored_at s' t j \<le> bumps s' j"
    using assms(1) same bump by (auto simp: values_ok_def le_SucI)
  ultimately show ?thesis unfolding values_ok_def by blast
qed

lemma values_ok_move:
  assumes "values_ok s" "\<And>k. p \<noteq> Live k"
  shows "values_ok (move x p s)"
proof -
  have "object (move x p s) y = Live k \<longleftrightarrow> y \<noteq> x \<and> object s y = Live k" "given (move x p s) = given s" "generations (move x p s) = generations s"
    "bumps (move x p s) = bumps s" "generations_seen (move x p s) = generations_seen s" "stored_at (move x p s) = stored_at s" for y k
    using assms(2) by (simp_all add: move_def)
  then show ?thesis using assms(1) by (simp add: values_ok_def)
qed

lemma values_ok_acquire:
  assumes "values_ok s" "keys_ok s"
  shows "values_ok (acquire_step w x s)"
proof (cases "object s x")
  case (Bump k)
  have "object s y \<noteq> Live k" for y
  proof
    assume "object s y = Live k"
    then show False using Bump assms(2) unfolding keys_ok_def holds_key_def by (metis tls_object.distinct)
  qed
  then show ?thesis using Bump by (intro values_ok_bump [OF assms(1), of _ k]) (auto simp: acquire_step_def move_def split: if_splits)
next
  case (Claim k e)
  have "values_ok (s\<lparr>used_mask := m\<rparr>)" for m using assms(1) by (simp add: values_ok_def)
  then show ?thesis using Claim assms(1) by (auto simp: acquire_step_def try_key_def intro!: values_ok_move)
qed (use assms(1) in \<open>auto simp: acquire_step_def try_key_def intro!: values_ok_move\<close>)

lemma values_ok_release:
  assumes "values_ok s" "keys_ok s" "object s x = Live k"
  shows "values_ok (move x Dead (release k s))"
proof -
  have k: "k < max_keys s" using assms(2,3) key_limit_less unfolding keys_ok_def holds_key_def by blast
  have "y = x" if "object s y = Live k" for y using assms(2,3) that unfolding keys_ok_def holds_key_def by blast
  note only = this
  have r: "move x Dead (release k s) = s\<lparr>used_mask := used_mask s AND NOT (key_bit k), generations := (generations s)(k := generations s k + 1),
      bumps := (bumps s)(k := bumps s k + 1), object := (object s)(x := Dead)\<rparr>"
    using k by (simp add: move_def release_def release_bit_def release_generation_def)
  show ?thesis unfolding r
  proof (rule values_ok_bump [OF assms(1), of _ k])
    fix y assume "object (s\<lparr>used_mask := used_mask s AND NOT (key_bit k), generations := (generations s)(k := generations s k + 1),
      bumps := (bumps s)(k := bumps s k + 1), object := (object s)(x := Dead)\<rparr>) y = Live k"
    then have False using only [of y] by (cases "y = x") simp_all
    then show "given (s\<lparr>used_mask := used_mask s AND NOT (key_bit k), generations := (generations s)(k := generations s k + 1),
      bumps := (bumps s)(k := bumps s k + 1), object := (object s)(x := Dead)\<rparr>) y = (\<lambda>_. None)" ..
  qed (simp_all split: if_splits)
qed

lemma values_ok_set:
  assumes "values_ok s" "keys_ok s" "tls_set current x v s = (r, s')" and current: "task_ok s current"
  shows "values_ok s'"
proof (cases "\<exists>k. object s x = Live k")
  case True
  then obtain k where k: "object s x = Live k" by blast
  have km: "k < max_keys s" using assms(2) k key_limit_less unfolding keys_ok_def holds_key_def by blast
  let ?t = "current_slot s current"
  have s': "s' = (storage_set ?t k v s)\<lparr>given := (given s)(x := (given s x)(current := v))\<rparr>" using assms(3) k by (simp add: tls_set_def)
  have f: "stored_at s' t j = (if t = ?t \<and> j = k then bumps s k else stored_at s t j)" "tls_values s' t j = (if t = ?t \<and> j = k then v else tls_values s t j)"
    "bumps s' j = bumps s j" for t j
    using km by (auto simp: s' storage_set_def)
  have g: "given s' y c = (if y = x \<and> c = current then v else given s y c)" "current_slot s' c = current_slot s c" "task_ok s' c = task_ok s c" "object s' = object s" for y c
    using km by (auto simp: s' storage_set_def current_slot_def task_ok_def)
  have only: "y = x \<and> j = k" if "object s y = Live j" "y = x \<or> j = k" for y j
    using assms(2) k that unfolding keys_ok_def holds_key_def by (metis tls_object.inject(4))
  have "slot_holds s' (current_slot s' c) j (given s' y c)" if l: "object s' y = Live j \<and> task_ok s' c" for y j c
  proof -
    have l: "object s y = Live j" "task_ok s c" using l g by simp_all
    have o: "slot_holds s (current_slot s c) j (given s y c)" using assms(1) l by (simp add: values_ok_def)
    show ?thesis
    proof (cases "y = x \<and> c = current")
      case True
      then have "j = k" using only [OF l(1)] by blast
      then show ?thesis using True f g(1,2) by (simp add: slot_holds_def)
    next
      case False
      then have "\<not> (current_slot s c = ?t \<and> j = k)" using only [OF l(1)] slot_inj [OF l(2) current] by blast
      then show ?thesis using o False f g(1,2) unfolding slot_holds_def by auto
    qed
  qed
  moreover have "\<forall>j. generations s' j = of_nat (bumps s' j)" "\<forall>t j. generations_seen s' t j = of_nat (stored_at s' t j) \<and> stored_at s' t j \<le> bumps s' j"
    using assms(1) s' km by (auto simp: values_ok_def storage_set_def tls_generation_def)
  ultimately show ?thesis unfolding values_ok_def by blast
next
  case False
  then show ?thesis using assms(1,3) by (auto simp: tls_set_def split: tls_object.splits)
qed

lemma tls_step_values:
  assumes "tls_step False s s'" "keys_ok s" "values_ok s"
  shows "values_ok s'"
  using assms(1)
proof (cases rule: tls_step.cases)
  case (destroy_generation x k)
  then show ?thesis using assms(2) by (simp add: keys_ok_def)
qed (use assms(2,3) values_ok_acquire values_ok_release values_ok_set values_ok_move in auto)

lemma tls_reachable_ok: "tls_reachable False s \<Longrightarrow> keys_ok s \<and> values_ok s"
  by (induction rule: tls_reachable.induct) (use keys_ok_init values_ok_init tls_step_keys tls_step_values in blast)+

section \<open>Properties\<close>

text \<open>
  C37: with destructors that are not interrupted half-way, two objects in use have different keys, and an object gives a task exactly
  what was last put into it by a task with the same index since the object was constructed, null if nothing: neither what the tasks of other indices or the code outside of tasks
  have put there, nor the values of other objects, nor those of an earlier owner of the key. A task is known by its index in the table of the backend: a new task
  that gets the index of one that has finished finds its values. The generations are words, so this is shown for keys that have changed hands
  less than \<^verbatim>\<open>2 ^ 31\<close> times.
\<close>

theorem thread_local_isolated:
  assumes "tls_reachable False s" "object s x = Live k" "bumps s k < 2 ^ 32" "task_ok s current"
  shows "tls_get current x s = given s x current \<and> (\<forall>y. object s y = Live k \<longrightarrow> y = x)"
proof -
  have ok: "keys_ok s" "values_ok s" using tls_reachable_ok [OF assms(1)] by blast+
  have k: "k < max_keys s" using ok(1) assms(2) key_limit_less unfolding keys_ok_def holds_key_def by blast
  let ?t = "current_slot s current"
  have v: "generations s k = of_nat (bumps s k)" "generations_seen s ?t k = of_nat (stored_at s ?t k)" "stored_at s ?t k \<le> bumps s k"
    "slot_holds s ?t k (given s x current)"
    using ok(2) assms(2,4) by (simp_all add: values_ok_def)
  have "(of_nat (stored_at s ?t k) :: u32) = of_nat (bumps s k) \<longleftrightarrow> stored_at s ?t k = bumps s k"
  proof -
    have "unat (of_nat n :: u32) = n" if "n < 2 ^ 32" for n using that by (simp add: unat_of_nat take_bit_nat_eq_self)
    then show ?thesis using assms(3) v(3) by (metis order.strict_trans1)
  qed
  then have "tls_get current x s = given s x current" using v k assms(2) by (auto simp: tls_get_def storage_get_def tls_generation_def slot_holds_def split: if_splits)
  moreover have "y = x" if "object s y = Live k" for y using ok(1) assms(2) that unfolding keys_ok_def holds_key_def by blast
  ultimately show ?thesis by blast
qed

text \<open>Object \<open>x\<close> is constructed undisturbed and finds the first key free.\<close>

definition tls_birth :: "nat \<Rightarrow> tls \<Rightarrow> tls" where
  "tls_birth x s = acquire_step False x (acquire_step False x (acquire_step False x (move x (Scan 0) s)))"

lemma tls_birth_reachable: "tls_reachable f s \<Longrightarrow> object s x = Unborn \<Longrightarrow> tls_reachable f (tls_birth x s)"
  unfolding tls_birth_def by (intro tls_reachable.steps [OF _ tls_step.acquiring] tls_reachable.steps [OF _ tls_step.construct])

lemma tls_set_reachable: "tls_reachable f s \<Longrightarrow> task_ok s current \<Longrightarrow> tls_reachable f (snd (tls_set current x v s))"
  by (erule tls_reachable.steps, rule tls_step.set_value [OF _ prod.collapse [symmetric]])

lemmas tls_eval = tls_birth_def tls_init_def acquire_step_def move_def try_key_def key_limit_def key_bit_def tls_set_def tls_get_def storage_set_def storage_get_def
  tls_generation_def current_slot_def release_bit_def release_generation_def

theorem thread_local_isolated_witness:
  "\<exists>s. tls_reachable False s \<and> object s 0 = Live 0 \<and> tls_get 1 0 s = Some 42 \<and> tls_get 0 0 s = None \<and> tls_get (-1) 0 s = None"
proof -
  let ?s = "snd (tls_set 1 0 (Some 42) (tls_birth 0 (tls_init 4 3)))"
  have r: "tls_reachable False ?s"
    by (intro tls_set_reachable tls_birth_reachable tls_reachable.begins) (simp_all add: tls_eval task_ok_def)
  have f: "object ?s 0 = Live 0" "bumps ?s 0 < 2 ^ 32" "given ?s 0 1 = Some 42" "given ?s 0 0 = None" "given ?s 0 (-1) = None"
    "task_ok ?s 1" "task_ok ?s 0" "task_ok ?s (-1)" by (simp_all add: tls_eval task_ok_def)
  show ?thesis using r thread_local_isolated [OF r f(1,2)] f by metis
qed

text \<open>
  C38: the destructor gives the bit of the key back before it counts up the generation. When another object is constructed in between, it gets the same
  key, and what a task puts into it is lost as soon as the destructor goes on: reading it back gives null.
\<close>

theorem thread_local_release_race:
  "\<exists>s. tls_reachable True s \<and> object s 1 = Live 0 \<and> given s 1 0 = Some 42 \<and> tls_get 0 1 s = None"
proof -
  let ?s0 = "tls_birth 0 (tls_init 4 3)"
  let ?s1 = "tls_birth 1 (move 0 (Release 0) (release_bit 0 ?s0))"
  let ?s2 = "snd (tls_set 0 1 (Some 42) ?s1)"
  let ?s3 = "move 0 Dead (release_generation 0 ?s2)"
  have "tls_reachable True ?s0" by (intro tls_birth_reachable tls_reachable.begins) (simp add: tls_init_def)
  then have "tls_reachable True (move 0 (Release 0) (release_bit 0 ?s0))"
    by (rule tls_reachable.steps [OF _ tls_step.destroy_bit]) (simp_all add: tls_eval)
  then have "tls_reachable True ?s2" by (intro tls_set_reachable tls_birth_reachable) (simp_all add: tls_eval task_ok_def)
  then have "tls_reachable True ?s3" by (rule tls_reachable.steps [OF _ tls_step.destroy_generation]) (simp add: tls_eval)
  moreover have "object ?s3 1 = Live 0" "given ?s3 1 0 = Some 42" "tls_get 0 1 ?s3 = None" by (simp_all add: tls_eval)
  ultimately show ?thesis by blast
qed

end
