(* ===== verification/Osal_Wait_Set.thy ===== *)
theory Osal_Wait_Set
  imports Osal_Notification
begin

unbundle bit_operations_syntax

text \<open>
  The wait set over objects, \<^verbatim>\<open>include/osal/object_wait_set.hpp\<close>: entries that name an object and how to look whether it is ready,
  and a wait that polls them. An object is what its queries show of it: a number of items, flags, whether it is pending, or the slots of a
  notification object. The waits that go through a \<^verbatim>\<open>wait_signal\<close> are left out.
\<close>

section \<open>Entries\<close>

datatype wait_kind =
    queue_ready | mailbox_ready | event_any | event_all | stream_ready | message_ready | work_pending | delayable_pending | notification_pending

text \<open>The pointer to the probe is null or the probe of the kind, so a flag is enough for it.\<close>

record entry_state =
  en_active :: bool
  en_id :: int
  en_kind :: wait_kind
  en_object :: "nat option"
  en_bits :: u32
  en_arg :: nat
  en_clear_on_exit :: bool
  en_probe :: bool

definition empty_entry :: entry_state where
  "empty_entry = \<lparr>en_active = False, en_id = -1, en_kind = queue_ready, en_object = None, en_bits = 0, en_arg = 0, en_clear_on_exit = False, en_probe = False\<rparr>"

datatype wait_object = Items nat | Flags u32 | Delayed bool | Notes "slot_state list"

type_synonym wait_store = "nat \<Rightarrow> wait_object"

text \<open>The first entry that is not active takes the registration.\<close>

fun add_entry_from :: "entry_state \<Rightarrow> entry_state list \<Rightarrow> error_code \<times> entry_state list" where
  "add_entry_from e [] = (Overflow, [])"
| "add_entry_from e (x # xs) =
     (if \<not> en_active x then (Ok, e # xs)
      else case add_entry_from e xs of (r, ys) \<Rightarrow> (r, x # ys))"

definition add_entry :: "int \<Rightarrow> wait_kind \<Rightarrow> nat option \<Rightarrow> u32 \<Rightarrow> nat \<Rightarrow> bool \<Rightarrow> entry_state list \<Rightarrow> error_code \<times> entry_state list" where
  "add_entry i kd obj bits arg clear es =
     (if obj = None then (Invalid_argument, es)
      else add_entry_from \<lparr>en_active = True, en_id = i, en_kind = kd, en_object = obj, en_bits = bits, en_arg = arg, en_clear_on_exit = clear, en_probe = True\<rparr> es)"

text \<open>The overloads of \<open>add\<close>; \<open>v\<close> says whether the object is valid.\<close>

definition add_plain :: "bool \<Rightarrow> wait_kind \<Rightarrow> nat \<Rightarrow> int \<Rightarrow> entry_state list \<Rightarrow> error_code \<times> entry_state list" where
  "add_plain v kd obj i es = (if \<not> v then (Not_initialized, es) else add_entry i kd (Some obj) 0 0 False es)"

definition add_event :: "bool \<Rightarrow> wait_kind \<Rightarrow> nat \<Rightarrow> u32 \<Rightarrow> int \<Rightarrow> bool \<Rightarrow> entry_state list \<Rightarrow> error_code \<times> entry_state list" where
  "add_event v kd obj bits i clear es =
     (if \<not> v then (Not_initialized, es) else if bits = 0 then (Invalid_argument, es) else add_entry i kd (Some obj) bits 0 clear es)"

definition add_stream :: "bool \<Rightarrow> nat \<Rightarrow> nat \<Rightarrow> int \<Rightarrow> entry_state list \<Rightarrow> error_code \<times> entry_state list" where
  "add_stream v obj min_bytes i es =
     (if \<not> v then (Not_initialized, es) else if min_bytes = 0 then (Invalid_argument, es) else add_entry i stream_ready (Some obj) 0 min_bytes False es)"

definition add_notification :: "bool \<Rightarrow> nat \<Rightarrow> nat \<Rightarrow> int \<Rightarrow> bool \<Rightarrow> entry_state list \<Rightarrow> error_code \<times> entry_state list" where
  "add_notification v obj index i clear es = (if \<not> v then (Not_initialized, es) else add_entry i notification_pending (Some obj) 0 index clear es)"

fun remove_id :: "int \<Rightarrow> entry_state list \<Rightarrow> error_code \<times> entry_state list" where
  "remove_id i [] = (Invalid_argument, [])"
| "remove_id i (x # xs) =
     (if en_active x \<and> en_id x = i then (Ok, empty_entry # xs)
      else case remove_id i xs of (r, ys) \<Rightarrow> (r, x # ys))"

section \<open>Probes\<close>

definition event_ready :: "entry_state \<Rightarrow> u32 \<Rightarrow> bool" where
  "event_ready e bits = (if en_kind e = event_all then bits AND en_bits e = en_bits e else bits AND en_bits e \<noteq> 0)"

definition event_matched :: "entry_state \<Rightarrow> u32 \<Rightarrow> u32" where
  "event_matched e bits = (if en_kind e = event_all then en_bits e else bits AND en_bits e)"

text \<open>Whether the object of an entry is ready, and the store after looking.\<close>

definition probe :: "entry_state \<Rightarrow> wait_store \<Rightarrow> bool \<times> wait_store" where
  "probe e st =
     (case en_object e of
        None \<Rightarrow> (False, st)
      | Some p \<Rightarrow>
          (case st p of
             Items n \<Rightarrow> ((if en_kind e = stream_ready then n \<ge> en_arg e else n > 0), st)
           | Flags bits \<Rightarrow>
               let ready = event_ready e bits
               in (ready, if ready \<and> en_clear_on_exit e then st(p := Flags (bits AND NOT (event_matched e bits))) else st)
           | Delayed b \<Rightarrow> (b, st)
           | Notes sl \<Rightarrow>
               let ready = en_arg e < length sl \<and> ns_pending (sl ! en_arg e)
               in (ready, if ready \<and> en_clear_on_exit e then st(p := Notes (sl[en_arg e := \<lparr>ns_value = 0, ns_pending = False\<rparr>])) else st)))"

section \<open>Waiting\<close>

text \<open>One pass over the entries: how many are ready, and the identifiers written, at most \<open>mx\<close>.\<close>

fun scan :: "nat \<Rightarrow> entry_state list \<Rightarrow> nat \<Rightarrow> int list \<Rightarrow> wait_store \<Rightarrow> nat \<times> int list \<times> wait_store" where
  "scan mx [] n ids st = (n, ids, st)"
| "scan mx (e # es) n ids st =
     (if \<not> en_active e \<or> \<not> en_probe e then scan mx es n ids st
      else case probe e st of (ready, st') \<Rightarrow>
        if ready then scan mx es (Suc n) (if n < mx then ids @ [en_id e] else ids) st' else scan mx es n ids st')"

text \<open>
  The polling loop. Each entry of the list is one sleep of the poll interval: what the others do to the objects meanwhile, and whether the
  deadline has passed when it is looked at before the sleep. \<open>None\<close>: the list ends while nothing is ready.
\<close>

fun wait_poll :: "nat \<Rightarrow> int \<Rightarrow> entry_state list \<Rightarrow> ((wait_store \<Rightarrow> wait_store) \<times> bool) list \<Rightarrow> wait_store
   \<Rightarrow> (error_code \<times> nat \<times> int list \<times> wait_store) option" where
  "wait_poll mx timeout es env st =
     (case scan mx es 0 [] st of (n, ids, st') \<Rightarrow>
        if n \<noteq> 0 then Some (Ok, (if n < mx then n else mx), ids, st')
        else if timeout = 0 then Some (Timeout, 0, ids, st')
        else case env of
          [] \<Rightarrow> None
        | (f, expired) # env' \<Rightarrow>
            if timeout > 0 \<and> expired then Some (Timeout, 0, ids, st') else wait_poll mx timeout es env' (f st'))"

definition wait :: "bool \<Rightarrow> nat \<Rightarrow> int \<Rightarrow> entry_state list \<Rightarrow> ((wait_store \<Rightarrow> wait_store) \<times> bool) list \<Rightarrow> wait_store
   \<Rightarrow> (error_code \<times> nat \<times> int list \<times> wait_store) option" where
  "wait ids_null mx timeout es env st =
     (if ids_null \<and> mx \<noteq> 0 then Some (Invalid_argument, 0, [], st) else wait_poll mx timeout es env st)"

section \<open>Properties\<close>

text \<open>The entries that are ready in a pass, in order, each looked at in the store its predecessors leave, and that store.\<close>

fun pass :: "entry_state list \<Rightarrow> wait_store \<Rightarrow> entry_state list \<times> wait_store" where
  "pass [] st = ([], st)"
| "pass (e # es) st =
     (if en_active e \<and> en_probe e then
        case probe e st of (ready, st1) \<Rightarrow> case pass es st1 of (rs, st2) \<Rightarrow> (if ready then e # rs else rs, st2)
      else pass es st)"

lemma scan_pass:
  "scan mx es n ids st = (n + length (fst (pass es st)), ids @ map en_id (take (mx - n) (fst (pass es st))), snd (pass es st))"
proof (induction es arbitrary: n ids st)
  case (Cons e es)
  show ?case
  proof (cases "en_active e \<and> en_probe e \<and> fst (probe e st) \<and> n < mx")
    case True
    then obtain d where "mx - n = Suc d" by (cases "mx - n") auto
    moreover have "mx - Suc n = d" using calculation by simp
    ultimately show ?thesis using True Cons.IH by (simp add: case_prod_beta)
  qed (use Cons.IH in \<open>auto simp: case_prod_beta\<close>)
qed simp

lemma add_entry_from_result:
  "add_entry_from e es = (r, es') \<Longrightarrow> en_active e \<Longrightarrow>
     if \<exists>x \<in> set es. \<not> en_active x then r = Ok \<and> length es' = length es \<and> {x \<in> set es'. en_active x} = insert e {x \<in> set es. en_active x}
     else r = Overflow \<and> es' = es"
proof (induction es arbitrary: r es')
  case (Cons x xs)
  obtain q ys where q: "add_entry_from e xs = (q, ys)" by (cases "add_entry_from e xs")
  show ?case
  proof (cases "en_active x")
    case True
    then have "r = q" "es' = x # ys" using Cons.prems q by simp_all
    then show ?thesis using Cons.IH [OF q] Cons.prems(2) True by (auto split: if_splits)
  qed (use Cons.prems in auto)
qed simp

text \<open>
  Looking at an object changes it only if the entry asks for that: without \<open>clear_on_exit\<close> a pass leaves every object alone, and the entries
  found ready are exactly the active ones whose object is ready.
\<close>

lemma pass_plain:
  assumes "\<forall>e \<in> set es. \<not> en_clear_on_exit e"
  shows "pass es st = (filter (\<lambda>e. en_active e \<and> en_probe e \<and> fst (probe e st)) es, st)"
  using assms
proof (induction es)
  case (Cons e es)
  have "snd (probe e st) = st" using Cons.prems by (auto simp: probe_def Let_def split: option.splits wait_object.splits)
  then show ?case using Cons by (auto simp: case_prod_beta)
qed simp

text \<open>
  What a wait answers, whatever the other tasks do. If it answers \<open>Ok\<close>, a pass over the entries found some of them ready; the identifiers written
  are those of the first \<open>mx\<close> ready ones in the order of the entries, and their number is returned. If it answers a timeout then it was not a wait without a limit, and
  the last pass found nothing ready. The objects are left as that pass leaves them. There is no other answer but the argument error.
\<close>

theorem wait_set_result:
  assumes "wait ids_null mx timeout es env st = Some (r, n, ids, st')"
  shows "if ids_null \<and> mx \<noteq> 0 then r = Invalid_argument \<and> n = 0 \<and> st' = st
    else \<exists>stp. st' = snd (pass es stp) \<and> ids = map en_id (take mx (fst (pass es stp))) \<and> n = length ids \<and>
      (r = Ok \<and> fst (pass es stp) \<noteq> [] \<or> r = Timeout \<and> 0 \<le> timeout \<and> fst (pass es stp) = [])"
proof (cases "ids_null \<and> mx \<noteq> 0")
  case False
  have "wait_poll mx timeout es env st = Some (r, n, ids, st') \<Longrightarrow>
    \<exists>stp. st' = snd (pass es stp) \<and> ids = map en_id (take mx (fst (pass es stp))) \<and> n = length ids \<and>
      (r = Ok \<and> fst (pass es stp) \<noteq> [] \<or> r = Timeout \<and> 0 \<le> timeout \<and> fst (pass es stp) = [])"
  proof (induction env arbitrary: st)
    case Nil
    then show ?case using scan_pass [of mx es 0 "[]" st] by (intro exI [of _ st]) (auto split: if_splits)
  next
    case (Cons x env)
    show ?case
    proof (cases "fst (pass es st) = [] \<and> timeout \<noteq> 0 \<and> \<not> (timeout > 0 \<and> snd x)")
      case True
      then have "wait_poll mx timeout es env (fst x (snd (pass es st))) = Some (r, n, ids, st')"
        using Cons.prems scan_pass [of mx es 0 "[]" st] by (subst (asm) wait_poll.simps) (auto split: prod.splits)
      then show ?thesis by (rule Cons.IH)
    next
      case False
      then show ?thesis using Cons.prems scan_pass [of mx es 0 "[]" st] by (subst (asm) wait_poll.simps) (intro exI [of _ st], auto split: prod.splits if_splits)
    qed
  qed
  with assms False show ?thesis by (auto simp: wait_def)
qed (use assms in \<open>simp add: wait_def\<close>)

definition ws_queue :: entry_state where
  "ws_queue = \<lparr>en_active = True, en_id = 1, en_kind = queue_ready, en_object = Some 0, en_bits = 0, en_arg = 0, en_clear_on_exit = False, en_probe = True\<rparr>"

definition ws_event :: entry_state where
  "ws_event = \<lparr>en_active = True, en_id = 2, en_kind = event_any, en_object = Some 1, en_bits = 5, en_arg = 0, en_clear_on_exit = True, en_probe = True\<rparr>"

definition ws_store :: wait_store where
  "ws_store = (\<lambda>_. Items 0)(0 := Items 3, 1 := Flags 12)"

lemmas ws_eval = ws_queue_def ws_event_def ws_store_def probe_def event_ready_def event_matched_def

theorem wait_set_result_witness:
  "\<exists>st' stp. wait False 4 (-1) [ws_event, empty_entry, ws_queue] [] ws_store = Some (Ok, 2, [2, 1], st') \<and> st' = snd (pass [ws_event, empty_entry, ws_queue] stp)"
proof -
  have "(12 :: u32) AND 5 = 4" by code_simp
  then have "\<exists>st'. wait False 4 (-1) [ws_event, empty_entry, ws_queue] [] ws_store = Some (Ok, 2, [2, 1], st')"
    by (simp add: wait_def ws_eval empty_entry_def)
  then obtain st' where w: "wait False 4 (-1) [ws_event, empty_entry, ws_queue] [] ws_store = Some (Ok, 2, [2, 1], st')" by blast
  from wait_set_result [OF this] show ?thesis using w by auto
qed

lemma pass_append: "pass (xs @ ys) st = (case pass xs st of (rs, st1) \<Rightarrow> case pass ys st1 of (qs, st2) \<Rightarrow> (rs @ qs, st2))"
  by (induction xs arbitrary: st) (auto split: prod.splits)

text \<open>
  C39: a wait looks at every entry, also when the caller's buffer is full. An entry with \<open>clear_on_exit\<close> beyond that point is consumed and not
  reported: the bits it waits for are gone from the event flags and its identifier is not among those written.
\<close>

theorem wait_set_loses_events:
  assumes "pass pre st = (rs, st)" "mx \<le> length rs"
    and "en_active e" "en_probe e" "en_object e = Some p" "en_clear_on_exit e" "st p = Flags bits" "event_ready e bits"
  shows "wait False mx timeout (pre @ [e]) env st = Some (Ok, mx, map en_id (take mx rs), st(p := Flags (bits AND NOT (event_matched e bits))))"
proof -
  have p: "pass (pre @ [e]) st = (rs @ [e], st(p := Flags (bits AND NOT (event_matched e bits))))"
    using assms by (simp add: pass_append probe_def)
  show ?thesis using scan_pass [of mx "pre @ [e]" 0 "[]" st] assms(2) by (simp add: wait_def p)
qed

theorem wait_set_loses_events_witness:
  "\<exists>st'. wait False 1 (-1) [ws_queue, ws_event] [] ws_store = Some (Ok, 1, [1], st') \<and> st' 1 = Flags 8"
proof -
  have b: "(12 :: u32) AND 5 = 4" "(12 :: u32) AND NOT 4 = 8" by code_simp+
  have "pass [ws_queue] ws_store = ([ws_queue], ws_store)" by (simp add: ws_eval)
  from wait_set_loses_events [OF this, of 1 ws_event 1 12 "-1" "[]"] b show ?thesis by (simp add: ws_eval)
qed

end
