(* ===== verification/Spec2Isabelle.thy ===== *)
theory Spec2Isabelle
  imports Osal_Clock Osal_Ring Bm_Queue Bm_Timer Bm_Task
    Osal_Mempool Osal_Stream Osal_Message Osal_Event_Flags Osal_Condvar_Lifecycle Osal_Rwlock Osal_Barrier Osal_Work_Queue Osal_Topic Osal_Zero_Copy_Calls
    Osal_C_Notification Osal_Delayable_Work Osal_Stop_Token Osal_Thread_Local Osal_Wait_Set
begin

text \<open>
  A verification development of micrOSAL, an operating-system abstraction layer in C++.

  \<^bold>\<open>The program.\<close> micrOSAL gives one interface to threads, mutexes, semaphores, queues, timers, event
  flags, condition variables, read-write locks, barriers, work queues, memory pools, stream and message
  buffers. A backend implements the interface on one kernel. The bare-metal backend
  (\<^verbatim>\<open>src/bare_metal/bare_metal_backend.cpp\<close>) needs no kernel: a tick counter, a round-robin scheduler,
  and fixed pools of objects. What a backend lacks is emulated by the files of \<^verbatim>\<open>src/common\<close> from
  the mutexes and semaphores of the backend, which they include: the condition variable is built on
  mutex and semaphore, the read-write lock, the barrier and the work queue on the condition variable.
  On top of these stand header-only services: topics and zero-copy signals over the queues,
  notifications over the condition variable, delayable work over timer and work queue, stop tokens,
  thread-local data and wait sets. This development models the bare-metal backend, the emulations
  on top of it and these services, with the error codes, the clock arithmetic, the lock-free ring and
  the counters they use.

  \<^bold>\<open>The theories.\<close>
  \<^item> \<open>Osal_Prelude\<close>, \<open>Ring_Algebra\<close>, \<open>Bit_Scan\<close>: words, lists, index arithmetic of rings, and the
    search for the lowest set bit.
  \<^item> \<open>Fifo_Spec\<close> and \<open>Slot_Pool\<close>: two interfaces as locales. \<open>bounded_fifo\<close> is a queue of bounded
    length; the lock-free ring, the kernel queue and the ring of the work queue implement it.
    \<open>slot_pool\<close> is a pool of slots; mutexes, semaphores, queues, timers and the blocks of a memory
    pool implement it. \<open>Byte_Ring\<close> has a third, \<open>byte_stream\<close>, for stream and message buffers.
  \<^item> \<open>Osal_Error\<close> (\<^verbatim>\<open>include/osal/error.hpp\<close>): the error codes and the chaining of results.
  \<^item> \<open>Osal_Clock\<close> (\<^verbatim>\<open>types.hpp\<close>, \<^verbatim>\<open>clock.hpp\<close>, \<^verbatim>\<open>backend_timeout_adapter.hpp\<close>): conversion between
    milliseconds and ticks at every tick width, deadlines, POSIX time-outs.
  \<^item> \<open>Osal_Ring\<close> (\<^verbatim>\<open>ring_buffer.hpp\<close>): the ring, sequentially and with the atomic accesses of one
    producer and one consumer interleaved.
  \<^item> \<open>Bm_State\<close>, \<open>Bm_Sync\<close>, \<open>Bm_Queue\<close>, \<open>Bm_Timer\<close>, \<open>Bm_Task\<close>: the backend. One record holds the
    tick counter, the task table and the pools; each function of the source is a function on it.
  \<^item> \<open>Osal_Diagnostics\<close> (\<^verbatim>\<open>diagnostics.hpp\<close>): resource counters.
  \<^item> \<open>Osal_Mempool\<close>, \<open>Osal_Stream\<close>, \<open>Osal_Message\<close>, \<open>Osal_Event_Flags\<close>, \<open>Osal_Condvar\<close>
    with \<open>Osal_Condvar_Lifecycle\<close>, \<open>Osal_Rwlock\<close>, \<open>Osal_Barrier\<close>, \<open>Osal_Work_Queue\<close>: one emulation each, from
    \<^verbatim>\<open>src/common/emulated_*.inl\<close>. Their state extends the record of the backend with the static pool
    of the file and its flags, so that they call the functions of \<open>Bm_Sync\<close> itself.
  \<^item> \<open>Osal_Bus\<close> and \<open>Osal_Topic\<close> (\<^verbatim>\<open>bus/detail/\<close>, the generic backend): channels over kernel queues,
    subscriber identifiers, and topics. \<open>Osal_Zero_Copy\<close> and \<open>Osal_Zero_Copy_Calls\<close>
    (\<^verbatim>\<open>bus/zero_copy_signal.hpp\<close>): the reference-counted message pool, interleaved at its critical
    sections, and the public calls on kernel queues.
  \<^item> \<open>Osal_Notification\<close> (\<^verbatim>\<open>condvar.hpp\<close>, \<^verbatim>\<open>notification.hpp\<close>): the predicate and deadline waits of the
    condition-variable class, and the notification object built on them. \<open>Osal_C_Notification\<close>
    (\<^verbatim>\<open>src/common/osal_c.cpp\<close>): the notification object of the C interface, which implements it anew.
  \<^item> \<open>Osal_Delayable_Work\<close> (\<^verbatim>\<open>delayable_work.hpp\<close>), \<open>Osal_Stop_Token\<close> (\<^verbatim>\<open>stop_token.hpp\<close>),
    \<open>Osal_Thread_Local\<close> (\<^verbatim>\<open>thread_local_data.hpp\<close>): step relations whose steps are the atomic accesses or
    the critical sections of the code, with reachable states and an inductive invariant each.
  \<^item> \<open>Osal_Wait_Set\<close> (\<^verbatim>\<open>object_wait_set.hpp\<close>): entries, probes and the polling wait.

  \<^bold>\<open>Conventions.\<close> A handle is the index of a slot, \<open>None\<close> for null; a pointer to a handle is an option
  of it. C++ integers are words of their width where they can wrap; array indices are natural numbers.
  Failures are values of \<open>error_code\<close>. A function that blocks takes an environment: the list of what
  happens at its scheduling points, one entry each, an arbitrary change of the state by the other tasks
  and interrupts, paired with whether a weak compare-exchange fails spuriously there. Scheduling points
  are the accesses of the waiting loops, and the moment at which a wait on a condition variable has let go of the
  mutex of the caller. It hands back what is left of the list. \<open>None\<close> as a result means that the list ends while the function is still
  waiting, or that it never returns. Loops that retry once per scheduling point consume the list and
  need no further fuel; the waiting loops around them are partial functions into the option type. A
  theorem that says a call returns exhibits the result for an environment whose shape it states:
  undisturbed (\<open>calm\<close>), with time passing, or with a task that wakes the caller. A theorem that says
  what a result means holds for every environment, or for those that keep a named invariant
  (\<open>env_keeps\<close>, \<open>ef_env_ok\<close>).

  \<^bold>\<open>What is shown.\<close>
  \<^item> Data structures: the ring, the kernel queue and the work queue refine bounded lists; byte and
    message buffers keep exactly what was put in; a memory pool never hands out a block twice; pools
    of mutexes, semaphores, queues and timers never hand out a live slot.
  \<^item> Synchronisation: a mutex has one holder; a semaphore neither loses nor invents a token under
    concurrent compare-exchange; timed calls return; a read-write lock excludes; event flags wake
    exactly the waiters whose condition holds; a notification of a condition variable reaches
    exactly the waiters it should, and one that comes at the release of the mutex or later, before the
    time-out, ends the wait; a barrier releases a round at its threshold; a flush
    returns only after the work that was there; a notification wait takes exactly one pending value,
    and the calls of the C interface that need not sleep do with a notification what the C++ class does.
  \<^item> Messages: a topic refines one bounded list per subscriber, and a stale identifier names nobody;
    in a zero-copy signal reference counts equal the references and no payload changes while it can be
    read.
  \<^item> Deferred work: accepted requests of delayable work are neither lost nor duplicated and never run
    early; a stop callback is called at most once and not after it was closed; thread-local values are
    those of the index of the task and of the object (a task that is given the index of a finished one
    finds its values).
  \<^item> Time: conversions are exact ceilings that saturate; deadlines expire when they should; periodic
    timers keep their rate as long as callbacks leave them alone; the scheduler goes round.
  \<^item> Where the code departs from its documentation a theorem says how: a one-shot timer started in
    its own callback, a task detached after it finished, a message longer than its length field, an
    arrival at a barrier that fails, a notification wait without a free waiter slot, delayable work
    whose item was cancelled or whose delay is too long for a tick counter, a key of thread-local data
    that changes hands during a destructor, a wait set that consumes what it does not report.

  \<^bold>\<open>Bounds.\<close> Pool sizes, numbers of waiter slots and capacities are the lengths of the lists in the
  state, so that the theorems hold for every configuration of the build. The emulations are modelled
  at 64-bit \<^verbatim>\<open>std::size_t\<close>; a message header has 16 bits, as by default, in little-endian order. In
  stream and message buffers a null receive pointer is a receive of at most zero bytes. Counters that
  wrap are words: where a theorem needs a generation not to come round (subscriber identifiers, armings
  of delayable work, owners of a key) it says so as a hypothesis on the number of steps.

  \<^bold>\<open>Not modelled.\<close> The other backends forward to kernels and to POSIX calls outside the repository.
  The rest of the C interface (\<^verbatim>\<open>osal_c.cpp\<close>) and the C++ classes wrap the functions modelled here or
  repeat a class modelled here (delayable work), and the capability tables are constants. Stack switching, user callbacks and work functions are parameters.
  The spin lock and task notification of the bare-metal backend are stubs that answer
  \<open>not_supported\<close>. The other bus backends delegate to kernels, and the topic registry is a
  compile-time table. Wait signals and native wait sets are not available on the bare-metal backend, and
  a mailbox is a queue of one item. Faults of the mutex inside a stop source are left out. Memory ordering is
  sequentially consistent: each atomic access is one step, and what runs under a mutex is one step
  with respect to the tasks that take the same mutex.
\<close>

end
